(* ===== verification/Prelude.thy ===== *)
theory Prelude
  imports Main "HOL-Library.Word"
begin

text \<open>
  Shared vocabulary of the development: the machine integers of the C++ sources
  (\<open>octet\<close>, \<open>word\<close>/\<open>long\<close>), exceptions as values, the result monad in
  which every fallible operation is written, little-endian octet strings, and the
  collections of simplification rules used by the component theories.
\<close>

unbundle bit_operations_syntax

named_theorems res_simps \<open>how results and exceptions propagate\<close>
named_theorems xor_simps \<open>words under XOR and AND as a Boolean ring\<close>

subsection \<open>Machine integers\<close>

type_synonym octet = "8 word"
type_synonym word64 = "64 word"

subsection \<open>Exceptions and results\<close>

text \<open>
  The exception classes of \<^verbatim>\<open>Exceptions/Exceptions.h\<close> and of the standard library
  that the modelled code throws. \<open>Assertion\<close> is a failed \<^verbatim>\<open>assert\<close>;
  \<open>Undefined_Behaviour\<close> marks what C++ leaves undefined (an index outside a
  \<^verbatim>\<open>vector\<close>, a write outside a buffer), so that a theorem whose conclusion is
  \<open>Inr\<close> also excludes it.
\<close>

datatype exn =
    Runtime_Error string
  | Invalid_Length string
  | Out_Of_Range string
  | Overflow_Error string
  | Processor_Error string
  | Invalid_Instruction string
  | Invalid_Argument string
  | IO_Error string
  | Bad_Value
  | Not_Implemented
  | Division_By_Zero
  | Assertion string
  | Undefined_Behaviour string

type_synonym 'a res = "exn + 'a"

definition bindE :: "'a res \<Rightarrow> ('a \<Rightarrow> 'b res) \<Rightarrow> 'b res" where
  "bindE m f = (case m of Inl e \<Rightarrow> Inl e | Inr x \<Rightarrow> f x)"

definition guardE :: "bool \<Rightarrow> exn \<Rightarrow> unit res" where
  "guardE b e = (if b then Inr () else Inl e)"

lemma bindE_simps [simp, res_simps]:
  "bindE (Inl e) f = Inl e"
  "bindE (Inr x) f = f x"
  by (simp_all add: bindE_def)

lemma bindE_eq_Inr [res_simps]: "bindE m f = Inr y \<longleftrightarrow> (\<exists>x. m = Inr x \<and> f x = Inr y)"
  by (cases m) auto

lemma bindE_assoc: "bindE (bindE m f) g = bindE m (\<lambda>x. bindE (f x) g)"
  by (cases m) auto

lemma bindE_cong [fundef_cong]:
  "m = m' \<Longrightarrow> (\<And>x. m' = Inr x \<Longrightarrow> f x = f' x) \<Longrightarrow> bindE m f = bindE m' f'"
  by (cases m) auto

lemma guardE_simps [simp, res_simps]:
  "guardE True e = Inr ()"
  "guardE False e = Inl e"
  "guardE b e = Inr u \<longleftrightarrow> b"
  by (auto simp: guardE_def)

text \<open>Sequencing a fallible operation over a list, left to right.\<close>

fun mapE :: "('a \<Rightarrow> 'b res) \<Rightarrow> 'a list \<Rightarrow> 'b list res" where
  "mapE f [] = Inr []"
| "mapE f (x # xs) = bindE (f x) (\<lambda>y. bindE (mapE f xs) (\<lambda>ys. Inr (y # ys)))"

fun foldE :: "('a \<Rightarrow> 's \<Rightarrow> 's res) \<Rightarrow> 'a list \<Rightarrow> 's \<Rightarrow> 's res" where
  "foldE f [] s = Inr s"
| "foldE f (x # xs) s = bindE (f x s) (foldE f xs)"

lemma foldE_append: "foldE f (xs @ ys) s = bindE (foldE f xs s) (foldE f ys)"
  by (induction xs arbitrary: s) (auto simp: bindE_def split: sum.splits)

lemma foldE_map: "foldE f (map g xs) = foldE (\<lambda>x. f (g x)) xs"
  by (induction xs) (rule ext, simp)+

lemma foldE_cong: "(\<And>x s. x \<in> set xs \<Longrightarrow> f x s = g x s) \<Longrightarrow> foldE f xs s = foldE g xs s"
  by (induction xs arbitrary: s) (auto intro!: bindE_cong)

lemma foldE_concat: "foldE f (concat xss) s = foldE (foldE f) xss s"
  by (induction xss arbitrary: s) (auto simp: foldE_append intro: bindE_cong)

lemma foldE_Inr_invariant:
  assumes "P s" and "\<And>x s. x \<in> set xs \<Longrightarrow> P s \<Longrightarrow> \<exists>s'. f x s = Inr s' \<and> P s'"
  shows "\<exists>s'. foldE f xs s = Inr s' \<and> P s'"
  using assms
proof (induction xs arbitrary: s)
  case Nil
  then show ?case by simp
next
  case (Cons x xs)
  then obtain s' where "f x s = Inr s'" "P s'" by fastforce
  with Cons show ?case by simp
qed

lemma mapE_Inr: "(\<And>x. x \<in> set xs \<Longrightarrow> f x = Inr (g x)) \<Longrightarrow> mapE f xs = Inr (map g xs)"
  by (induction xs) auto

lemma length_mapE: "mapE f xs = Inr ys \<Longrightarrow> length ys = length xs"
  by (induction xs arbitrary: ys) (auto simp: res_simps)

text \<open>
  \<^verbatim>\<open>vector::operator[]\<close> does not check its index: reading outside is undefined.
\<close>

definition nthE :: "'a list \<Rightarrow> nat \<Rightarrow> 'a res" where
  "nthE xs i = (if i < length xs then Inr (xs ! i) else Inl (Undefined_Behaviour ''vector index''))"

definition updE :: "'a list \<Rightarrow> nat \<Rightarrow> 'a \<Rightarrow> 'a list res" where
  "updE xs i x = (if i < length xs then Inr (xs[i := x]) else Inl (Undefined_Behaviour ''vector index''))"

lemma nthE_Inr [res_simps]: "nthE xs i = Inr x \<longleftrightarrow> i < length xs \<and> x = xs ! i"
  by (auto simp: nthE_def)

lemma nthE_ok [simp]: "i < length xs \<Longrightarrow> nthE xs i = Inr (xs ! i)"
  by (simp add: nthE_def)

lemma updE_Inr [res_simps]: "updE xs i x = Inr ys \<longleftrightarrow> i < length xs \<and> ys = xs[i := x]"
  by (auto simp: updE_def)

lemma updE_ok [simp]: "i < length xs \<Longrightarrow> updE xs i x = Inr (xs[i := x])"
  by (simp add: updE_def)

subsection \<open>Words as a Boolean ring\<close>

lemmas xor_ac = xor.assoc xor.commute xor.left_commute
lemmas and_ac = and.assoc and.commute and.left_commute

lemma xor_left_self [simp]: "a XOR (a XOR b) = (b :: 'a::len word)"
  by (simp flip: xor.assoc)

lemma and_xor_distribs:
  "(a XOR b) AND c = (a AND c) XOR ((b AND c) :: 'a::len word)"
  "c AND (a XOR b) = (c AND a) XOR ((c AND b) :: 'a::len word)"
  by (auto simp: bit_eq_iff bit_simps)

declare xor_ac [xor_simps] and_ac [xor_simps] and_xor_distribs [xor_simps]

lemma and_mask_idem_iff: "w AND mask n = w \<longleftrightarrow> take_bit n w = (w :: 'a::len word)"
  by (simp add: take_bit_eq_mask and.commute)

subsection \<open>Little-endian octet strings\<close>

text \<open>
  The octets of a 64-bit value in memory order on a little-endian machine
  (\<open>htole64\<close> is the identity there), and back.
\<close>

definition octets_of :: "nat \<Rightarrow> word64 \<Rightarrow> octet list" where
  "octets_of n w = map (\<lambda>i. ucast (drop_bit (8 * i) w)) [0..<n]"

fun word_of_octets :: "octet list \<Rightarrow> word64" where
  "word_of_octets [] = 0"
| "word_of_octets (b # bs) = ucast b OR push_bit 8 (word_of_octets bs)"

lemma length_octets_of [simp]: "length (octets_of n w) = n"
  by (simp add: octets_of_def)

lemma octets_of_Suc: "octets_of (Suc n) w = ucast w # octets_of n (drop_bit 8 w)"
proof -
  have "[0..<Suc n] = 0 # map Suc [0..<n]"
    by (simp add: map_Suc_upt upt_conv_Cons del: upt_Suc)
  then show ?thesis
    by (simp add: octets_of_def comp_def add.commute del: upt_Suc)
qed

lemma ucast_or_push_bit:
  "ucast (ucast w :: octet) OR push_bit 8 (take_bit k (drop_bit 8 w)) = take_bit (8 + k) (w :: word64)"
  by (rule bit_word_eqI) (auto simp: bit_simps)

lemma word_of_octets_octets_of: "word_of_octets (octets_of n w) = take_bit (8 * n) w"
proof (induction n arbitrary: w)
  case 0
  then show ?case by (simp add: octets_of_def)
next
  case (Suc n)
  then show ?case by (simp add: octets_of_Suc ucast_or_push_bit)
qed

end
