(* ===== verification/OctetStream.thy ===== *)
theory OctetStream
  imports Prelude
begin

text \<open>
  \<^verbatim>\<open>Tools/octetStream.h\<close>, \<^verbatim>\<open>Tools/octetStream.cpp\<close> and the length encoding of
  \<^verbatim>\<open>Networking/data.h\<close>: the buffer into which every value is packed before it is sent.
  The model keeps the allocated block (\<open>os_buf\<close>, of \<open>mxlen\<close> octets), the write head
  \<open>os_len\<close> and the read head \<open>os_ptr\<close>; a write outside the block is
  \<open>Undefined_Behaviour\<close>. Freshly allocated octets are indeterminate in C++; they are
  \<open>0\<close> here, and no theorem speaks of an octet at or beyond \<open>os_len\<close>.
  Sizes are natural numbers (no stream reaches \<open>2 ^ 64\<close> octets).
\<close>

unbundle bit_operations_syntax

subsection \<open>Length encoding (\<^verbatim>\<open>Networking/data.h\<close>)\<close>

definition encode_length :: "word64 \<Rightarrow> nat \<Rightarrow> octet list res" where
  "encode_length len n_bytes =
     (if n_bytes > 8 then Inl (Invalid_Length ''length field cannot be more than 64 bits'')
      else if n_bytes < 8 \<and> signed_drop_bit (8 * n_bytes) len \<noteq> 0
                         \<and> signed_drop_bit (8 * n_bytes) len \<noteq> -1
      then Inl (Invalid_Length ''length too large for length field'')
      else Inr (octets_of n_bytes len))"

definition decode_length :: "octet list \<Rightarrow> nat \<Rightarrow> word64 res" where
  "decode_length buff n_bytes =
     (if n_bytes > 8 then Inl (Invalid_Length ''length field cannot be more than 64 bits'')
      else Inr (word_of_octets (take n_bytes buff)))"

lemma length_encode_length: "encode_length w n = Inr bs \<Longrightarrow> length bs = n"
  by (auto simp: encode_length_def split: if_splits)

lemma decode_encode_length:
  "encode_length w n = Inr bs \<Longrightarrow> decode_length bs n = Inr (take_bit (8 * n) w)"
  by (auto simp: encode_length_def decode_length_def word_of_octets_octets_of split: if_splits)

lemma signed_drop_bit_small:
  assumes "take_bit k w = (w :: word64)" and "k < 64"
  shows "signed_drop_bit k w = 0"
proof (rule bit_word_eqI)
  fix n assume n: "n < LENGTH(64)"
  have b: "\<not> bit w m" if "k \<le> m" for m
    using assms(1) that by (metis bit_take_bit_iff not_le)
  have "k \<le> 64 - Suc 0" using assms(2) by simp
  with b n show "bit (signed_drop_bit k w) n = bit 0 n"
    by (simp add: bit_simps)
qed

text \<open>A value that fits its field is always accepted.\<close>

lemma encode_length_fits:
  assumes "n \<le> 8" and "take_bit (8 * n) w = w"
  shows "encode_length w n = Inr (octets_of n w)"
  using assms signed_drop_bit_small [of "8 * n" w] by (auto simp: encode_length_def)

subsection \<open>The stream and its buffer\<close>

record octetStream =
  os_buf :: "octet list"
  os_len :: nat
  os_ptr :: nat

definition mxlen :: "octetStream \<Rightarrow> nat" where
  "mxlen s = length (os_buf s)"

definition contents :: "octetStream \<Rightarrow> octet list" where
  "contents s = take (os_len s) (os_buf s)"

definition unread :: "octetStream \<Rightarrow> octet list" where
  "unread s = drop (os_ptr s) (contents s)"

definition os_inv :: "octetStream \<Rightarrow> bool" where
  "os_inv s \<longleftrightarrow> os_ptr s \<le> os_len s \<and> os_len s \<le> mxlen s"

definition empty_stream :: octetStream where
  "empty_stream = \<lparr>os_buf = [], os_len = 0, os_ptr = 0\<rparr>"

definition new_stream :: "nat \<Rightarrow> octetStream" where
  "new_stream maxlen = \<lparr>os_buf = replicate maxlen 0, os_len = 0, os_ptr = 0\<rparr>"

definition poke :: "octetStream \<Rightarrow> nat \<Rightarrow> octet list \<Rightarrow> octetStream res" where
  "poke s pos bs =
     (if pos + length bs \<le> mxlen s
      then Inr (s\<lparr>os_buf := take pos (os_buf s) @ bs @ drop (pos + length bs) (os_buf s)\<rparr>)
      else Inl (Undefined_Behaviour ''buffer overflow''))"

definition resize_precise :: "nat \<Rightarrow> octetStream \<Rightarrow> octetStream" where
  "resize_precise l s =
     (if l = mxlen s then s
      else s\<lparr>os_buf := take (min (os_len s) l) (os_buf s) @ replicate (l - min (os_len s) l) 0\<rparr>)"

definition resize :: "nat \<Rightarrow> octetStream \<Rightarrow> octetStream" where
  "resize l s = (if l < mxlen s then s else resize_precise (2 * l) s)"

definition resize_min :: "nat \<Rightarrow> octetStream \<Rightarrow> octetStream" where
  "resize_min l s = (if l > mxlen s then resize_precise l s else s)"

definition reserve :: "nat \<Rightarrow> octetStream \<Rightarrow> octetStream" where
  "reserve l s = (if os_len s + l > mxlen s then resize_precise (os_len s + l) s else s)"

definition clear_stream :: "octetStream \<Rightarrow> octetStream" where
  "clear_stream s = empty_stream"

definition assign :: "octetStream \<Rightarrow> octetStream \<Rightarrow> octetStream res" where
  "assign os s =
     (let s1 = (if os_len os \<ge> mxlen s then s\<lparr>os_buf := replicate (mxlen os) 0\<rparr> else s)
      in bindE (poke (s1\<lparr>os_len := os_len os\<rparr>) 0 (contents os)) (\<lambda>s2. Inr (s2\<lparr>os_ptr := os_ptr os\<rparr>)))"

definition reset_read_head :: "octetStream \<Rightarrow> octetStream" where
  "reset_read_head s = s\<lparr>os_ptr := 0\<rparr>"

definition reset_write_head :: "octetStream \<Rightarrow> octetStream" where
  "reset_write_head s = s\<lparr>os_len := 0, os_ptr := 0\<rparr>"

definition done_stream :: "octetStream \<Rightarrow> bool" where
  "done_stream s \<longleftrightarrow> os_ptr s = os_len s"

definition stream_is_empty :: "octetStream \<Rightarrow> bool" where
  "stream_is_empty s \<longleftrightarrow> os_len s = 0"

definition left :: "octetStream \<Rightarrow> nat" where
  "left s = os_len s - os_ptr s"

definition equals :: "octetStream \<Rightarrow> octetStream \<Rightarrow> bool" where
  "equals s a \<longleftrightarrow> os_len s = os_len a \<and> contents s = contents a"

text \<open>Appending: \<open>append\<close>, \<open>append_no_resize\<close>, \<open>concat\<close> and reading: \<open>consume\<close>.\<close>

definition append :: "octet list \<Rightarrow> octetStream \<Rightarrow> octetStream res" where
  "append x s =
     (let l = length x;
          s1 = (if os_len s + l > mxlen s then resize (os_len s + l) s else s)
      in bindE (poke s1 (os_len s1) x) (\<lambda>s2. Inr (s2\<lparr>os_len := os_len s2 + l\<rparr>)))"

definition append_no_resize :: "octet list \<Rightarrow> octetStream \<Rightarrow> octetStream res" where
  "append_no_resize x s =
     bindE (poke s (os_len s) x) (\<lambda>s1. Inr (s1\<lparr>os_len := os_len s1 + length x\<rparr>))"

definition concat_stream :: "octetStream \<Rightarrow> octetStream \<Rightarrow> octetStream res" where
  "concat_stream os s =
     bindE (poke (resize (os_len s + os_len os) s) (os_len s) (contents os))
       (\<lambda>s1. Inr (s1\<lparr>os_len := os_len s1 + os_len os\<rparr>))"

definition consume :: "nat \<Rightarrow> octetStream \<Rightarrow> (octet list \<times> octetStream) res" where
  "consume l s =
     (if os_ptr s + l > os_len s then Inl (Runtime_Error ''insufficient data'')
      else Inr (take l (drop (os_ptr s) (os_buf s)), s\<lparr>os_ptr := os_ptr s + l\<rparr>))"

subsection \<open>Integers in the stream\<close>

definition store_int :: "word64 \<Rightarrow> nat \<Rightarrow> octetStream \<Rightarrow> octetStream res" where
  "store_int l n_bytes s =
     (let s1 = resize (os_len s + n_bytes) s
      in bindE (encode_length l n_bytes) (\<lambda>bs.
         bindE (poke s1 (os_len s1) bs) (\<lambda>s2. Inr (s2\<lparr>os_len := os_len s2 + n_bytes\<rparr>))))"

definition get_int :: "nat \<Rightarrow> octetStream \<Rightarrow> (word64 \<times> octetStream) res" where
  "get_int n_bytes s =
     bindE (consume n_bytes s) (\<lambda>(bs, s1). bindE (decode_length bs n_bytes) (\<lambda>w. Inr (w, s1)))"

text \<open>The template versions \<^verbatim>\<open>store_int<N_BYTES>\<close> and \<^verbatim>\<open>get_int<N_BYTES>\<close> do not check the range.\<close>

definition store_int_fixed :: "nat \<Rightarrow> word64 \<Rightarrow> octetStream \<Rightarrow> octetStream res" where
  "store_int_fixed N l s =
     bindE (guardE (N \<le> 8) (Assertion ''N_BYTES <= 8'')) (\<lambda>_.
     let s1 = resize (os_len s + N) s
     in bindE (poke s1 (os_len s1) (octets_of N l)) (\<lambda>s2. Inr (s2\<lparr>os_len := os_len s2 + N\<rparr>)))"

definition get_int_fixed :: "nat \<Rightarrow> octetStream \<Rightarrow> (word64 \<times> octetStream) res" where
  "get_int_fixed N s =
     bindE (guardE (N \<le> 8) (Assertion ''N_BYTES <= 8'')) (\<lambda>_.
     bindE (consume N s) (\<lambda>(bs, s1). Inr (word_of_octets bs, s1)))"

definition store_int32 :: "32 word \<Rightarrow> octetStream \<Rightarrow> octetStream res" where
  "store_int32 a s = store_int (scast a) 4 s"

definition get_int32 :: "octetStream \<Rightarrow> (32 word \<times> octetStream) res" where
  "get_int32 s = bindE (get_int 4 s) (\<lambda>(w, s1). Inr (ucast w, s1))"

definition store_bytes :: "octet list \<Rightarrow> octetStream \<Rightarrow> octetStream res" where
  "store_bytes x s =
     (let l = length x; s1 = resize (os_len s + 4 + l) s
      in bindE (encode_length (of_nat l) 4) (\<lambda>bs.
         bindE (poke s1 (os_len s1) bs) (\<lambda>s2.
         bindE (poke (s2\<lparr>os_len := os_len s2 + 4\<rparr>) (os_len s2 + 4) x) (\<lambda>s3.
         Inr (s3\<lparr>os_len := os_len s3 + l\<rparr>)))))"

definition get_bytes :: "octetStream \<Rightarrow> (octet list \<times> octetStream) res" where
  "get_bytes s = bindE (get_int 4 s) (\<lambda>(l, s1). consume (unat l) s1)"

text \<open>\<^verbatim>\<open>store(const vector<T>&)\<close> and \<^verbatim>\<open>get(vector<T>&)\<close> over an element codec.\<close>

definition store_vector :: "('a \<Rightarrow> octetStream \<Rightarrow> octetStream res) \<Rightarrow> 'a list \<Rightarrow> octetStream \<Rightarrow> octetStream res" where
  "store_vector st v s = bindE (store_int (of_nat (length v)) 8 s) (foldE st v)"

fun get_n :: "(octetStream \<Rightarrow> ('a \<times> octetStream) res) \<Rightarrow> nat \<Rightarrow> octetStream \<Rightarrow> ('a list \<times> octetStream) res" where
  "get_n g 0 s = Inr ([], s)"
| "get_n g (Suc n) s =
     bindE (g s) (\<lambda>(x, s1). bindE (get_n g n s1) (\<lambda>(xs, s2). Inr (x # xs, s2)))"

definition get_vector :: "(octetStream \<Rightarrow> ('a \<times> octetStream) res) \<Rightarrow> octetStream \<Rightarrow> ('a list \<times> octetStream) res" where
  "get_vector g s = bindE (get_int 8 s) (\<lambda>(size, s1). get_n g (unat size) s1)"

subsection \<open>Framing on a socket\<close>

text \<open>
  \<^verbatim>\<open>Send\<close> writes a 4-octet length and the contents, \<^verbatim>\<open>Receive\<close> reads them back. A socket
  is the queue of octets in flight; reading from a closed socket with too few octets
  throws.
\<close>

definition LENGTH_SIZE :: nat where
  "LENGTH_SIZE = 4"

definition Send :: "octetStream \<Rightarrow> octet list \<Rightarrow> octet list res" where
  "Send s sock = bindE (encode_length (of_nat (os_len s)) LENGTH_SIZE) (\<lambda>bs. Inr (sock @ bs @ contents s))"

definition receive_octets :: "nat \<Rightarrow> octet list \<Rightarrow> (octet list \<times> octet list) res" where
  "receive_octets n sock =
     (if n \<le> length sock then Inr (take n sock, drop n sock) else Inl (Runtime_Error ''closed connection''))"

definition Receive :: "octet list \<Rightarrow> octetStream \<Rightarrow> (octetStream \<times> octet list) res" where
  "Receive sock s =
     bindE (receive_octets LENGTH_SIZE sock) (\<lambda>(blen, sock1).
     bindE (decode_length blen LENGTH_SIZE) (\<lambda>nlen.
     let s1 = (resize_min (unat nlen) (s\<lparr>os_len := 0\<rparr>))\<lparr>os_len := unat nlen\<rparr>
     in bindE (receive_octets (os_len s1) sock1) (\<lambda>(bs, sock2).
        bindE (poke s1 0 bs) (\<lambda>s2. Inr (reset_read_head s2, sock2)))))"

subsection \<open>Memory safety: the write head never passes the allocated block\<close>

lemmas os_defs = mxlen_def contents_def unread_def os_inv_def

lemma os_inv_empty [simp]: "os_inv empty_stream" "contents empty_stream = []" "unread empty_stream = []"
  by (simp_all add: os_defs empty_stream_def)

lemma os_inv_new_stream [simp]: "os_inv (new_stream n)" "contents (new_stream n) = []"
  by (simp_all add: os_defs new_stream_def)

lemma length_contents: "os_inv s \<Longrightarrow> length (contents s) = os_len s"
  by (simp add: os_defs)

lemma resize_precise_grow:
  assumes "os_inv s" "os_len s \<le> l"
  shows "os_inv (resize_precise l s)" "contents (resize_precise l s) = contents s"
    "os_len (resize_precise l s) = os_len s" "os_ptr (resize_precise l s) = os_ptr s"
    "mxlen (resize_precise l s) = l"
  using assms by (auto simp: os_defs resize_precise_def)

lemma resize_props:
  assumes "os_inv s" "os_len s \<le> l"
  shows "os_inv (resize l s)" "contents (resize l s) = contents s"
    "os_len (resize l s) = os_len s" "os_ptr (resize l s) = os_ptr s" "l \<le> mxlen (resize l s)"
  using assms resize_precise_grow [of s "2 * l"] by (auto simp: resize_def)

lemma resize_min_props:
  assumes "os_inv s" "os_len s \<le> l"
  shows "os_inv (resize_min l s)" "contents (resize_min l s) = contents s"
    "os_len (resize_min l s) = os_len s" "os_ptr (resize_min l s) = os_ptr s" "l \<le> mxlen (resize_min l s)"
  using assms resize_precise_grow [of s l] by (auto simp: resize_min_def)

lemma reserve_props:
  assumes "os_inv s"
  shows "os_inv (reserve l s)" "contents (reserve l s) = contents s" "os_ptr (reserve l s) = os_ptr s"
    "os_len s + l \<le> mxlen (reserve l s)"
  using assms resize_precise_grow [of s "os_len s + l"] by (auto simp: reserve_def)

lemma contents_reset [simp]:
  "contents (reset_read_head s) = contents s" "unread (reset_read_head s) = contents s"
  "contents (reset_write_head s) = []" "unread (reset_write_head s) = []"
  by (simp_all add: os_defs reset_read_head_def reset_write_head_def)

lemma os_inv_reset [simp]: "os_inv s \<Longrightarrow> os_inv (reset_read_head s)" "os_inv (reset_write_head s)"
  by (auto simp: os_defs reset_read_head_def reset_write_head_def)

text \<open>
  What every appending operation does, stated once: \<open>extends x s s'\<close> says that \<open>s'\<close> is \<open>s\<close>
  with \<open>x\<close> behind the write head, the read head in place and the block large enough.
\<close>

definition extends :: "octet list \<Rightarrow> octetStream \<Rightarrow> octetStream \<Rightarrow> bool" where
  "extends x s s' \<longleftrightarrow> os_inv s' \<and> contents s' = contents s @ x \<and> os_ptr s' = os_ptr s"

lemma extends_unread: "extends x s s' \<Longrightarrow> os_inv s \<Longrightarrow> unread s' = unread s @ x"
  by (auto simp: extends_def os_defs)

lemma extends_trans: "extends x s s' \<Longrightarrow> extends y s' s'' \<Longrightarrow> extends (x @ y) s s''"
  by (auto simp: extends_def)

lemma extends_refl: "os_inv s \<Longrightarrow> extends [] s s"
  by (simp add: extends_def)

lemma poke_at_end:
  assumes "os_inv s" "os_len s + length x \<le> mxlen s"
  shows "\<exists>s'. poke s (os_len s) x = Inr s' \<and> extends x s (s'\<lparr>os_len := os_len s' + length x\<rparr>)"
  using assms by (auto simp: poke_def extends_def os_defs)

lemma poke_at_end_eq:
  assumes "os_inv s" "os_len s + length x \<le> mxlen s"
  shows "\<exists>s'. bindE (poke s (os_len s) x) (\<lambda>s1. Inr (s1\<lparr>os_len := os_len s1 + length x\<rparr>)) = Inr s'
              \<and> extends x s s'"
  using poke_at_end [OF assms] by auto

lemma append_extends: "os_inv s \<Longrightarrow> \<exists>s'. append x s = Inr s' \<and> extends x s s'"
proof -
  assume inv: "os_inv s"
  let ?s1 = "if os_len s + length x > mxlen s then resize (os_len s + length x) s else s"
  have "os_inv ?s1" "os_len ?s1 + length x \<le> mxlen ?s1" "contents ?s1 = contents s" "os_ptr ?s1 = os_ptr s"
    using inv resize_props [of s "os_len s + length x"] by auto
  then show ?thesis
    using poke_at_end_eq [of ?s1 x] by (simp add: append_def extends_def Let_def)
qed

lemma append_no_resize_extends:
  "os_inv s \<Longrightarrow> os_len s + length x \<le> mxlen s \<Longrightarrow> \<exists>s'. append_no_resize x s = Inr s' \<and> extends x s s'"
  using poke_at_end_eq [of s x] by (simp add: append_no_resize_def)

lemma poke_resized:
  assumes "os_inv s"
  shows "\<exists>s'. bindE (poke (resize (os_len s + length x) s) (os_len (resize (os_len s + length x) s)) x)
                  (\<lambda>s1. Inr (s1\<lparr>os_len := os_len s1 + length x\<rparr>)) = Inr s' \<and> extends x s s'"
  using poke_at_end_eq [of "resize (os_len s + length x) s" x] resize_props [of s "os_len s + length x"] assms
  by (simp add: extends_def)

lemma concat_stream_extends:
  "os_inv s \<Longrightarrow> os_inv os \<Longrightarrow> \<exists>s'. concat_stream os s = Inr s' \<and> extends (contents os) s s'"
  using poke_resized [of s "contents os"] resize_props [of s "os_len s + os_len os"]
  by (simp add: concat_stream_def length_contents)

lemma store_int_extends:
  assumes "os_inv s" "encode_length w n = Inr bs"
  shows "\<exists>s'. store_int w n s = Inr s' \<and> extends bs s s'"
  using poke_resized [of s bs] assms length_encode_length [OF assms(2)]
  by (simp add: store_int_def Let_def)

lemma store_int_fixed_extends:
  "os_inv s \<Longrightarrow> N \<le> 8 \<Longrightarrow> \<exists>s'. store_int_fixed N w s = Inr s' \<and> extends (octets_of N w) s s'"
  using poke_resized [of s "octets_of N w"] by (simp add: store_int_fixed_def Let_def)

lemma assign_copies:
  assumes "os_inv s" "os_inv os"
  shows "\<exists>s'. assign os s = Inr s' \<and> os_inv s' \<and> contents s' = contents os \<and> os_ptr s' = os_ptr os"
  using assms by (auto simp: assign_def poke_def os_defs Let_def)

text \<open>Reading takes the octets in front of the read head, and throws when there are too few.\<close>

lemma consume_unread:
  assumes "os_inv s" "unread s = x @ rest"
  shows "\<exists>s'. consume (length x) s = Inr (x, s') \<and> os_inv s' \<and> unread s' = rest \<and> contents s' = contents s"
proof -
  have len: "length (unread s) = os_len s - os_ptr s" "os_ptr s \<le> os_len s" "os_len s \<le> length (os_buf s)"
    using assms(1) by (auto simp: os_defs)
  then have ge: "os_ptr s + length x \<le> os_len s"
    using assms(2) by (metis Nat.le_diff_conv2 add.commute le_add1 length_append)
  have tk: "take (length x) (drop (os_ptr s) (os_buf s)) = take (length x) (unread s)"
    using ge by (simp add: os_defs drop_take min_def)
  have dr: "drop (length x) (unread s) = drop (os_ptr s + length x) (contents s)"
    by (simp add: unread_def add.commute)
  have "drop (os_ptr s + length x) (contents s) = rest"
    using dr assms(2) by simp
  with ge tk assms show ?thesis
    by (auto simp: consume_def os_defs)
qed

lemma consume_too_few:
  "os_inv s \<Longrightarrow> length (unread s) < l \<Longrightarrow> consume l s = Inl (Runtime_Error ''insufficient data'')"
  by (auto simp: consume_def os_defs)

lemma get_int_unread:
  assumes "os_inv s" "encode_length w n = Inr bs" "unread s = bs @ rest"
  shows "\<exists>s'. get_int n s = Inr (take_bit (8 * n) w, s') \<and> os_inv s' \<and> unread s' = rest \<and> contents s' = contents s"
  using consume_unread [OF assms(1,3)] length_encode_length [OF assms(2)] decode_encode_length [OF assms(2)]
  by (auto simp: get_int_def)

subsection \<open>The interface of a packable type\<close>

text \<open>
  Every class of the program has a \<^verbatim>\<open>pack\<close> and an \<^verbatim>\<open>unpack\<close>. The contract: packing a
  representable value appends its encoding, and unpacking a stream that starts with the
  encoding yields the value and leaves the rest. The laws give, once for all types, the
  first-in-first-out behaviour that the protocols rely on.
\<close>

locale codec =
  fixes put :: "'v \<Rightarrow> octetStream \<Rightarrow> octetStream res"
    and get :: "octetStream \<Rightarrow> ('v \<times> octetStream) res"
    and enc :: "'v \<Rightarrow> octet list"
    and ok :: "'v \<Rightarrow> bool"
  assumes put_ok: "os_inv s \<Longrightarrow> ok v \<Longrightarrow> \<exists>s'. put v s = Inr s' \<and> extends (enc v) s s'"
    and get_ok: "os_inv s \<Longrightarrow> ok v \<Longrightarrow> unread s = enc v @ rest
      \<Longrightarrow> \<exists>s'. get s = Inr (v, s') \<and> os_inv s' \<and> unread s' = rest \<and> contents s' = contents s"
begin

definition enc_list :: "'v list \<Rightarrow> octet list" where
  "enc_list vs = concat (map enc vs)"

lemma enc_list_simps [simp]:
  "enc_list [] = []"
  "enc_list (v # vs) = enc v @ enc_list vs"
  "enc_list (vs @ ws) = enc_list vs @ enc_list ws"
  by (simp_all add: enc_list_def)

lemma put_list:
  assumes "os_inv s" "\<forall>v \<in> set vs. ok v"
  shows "\<exists>s'. foldE put vs s = Inr s' \<and> extends (enc_list vs) s s'"
  using assms
proof (induction vs arbitrary: s)
  case Nil
  then show ?case by (simp add: extends_refl)
next
  case (Cons v vs)
  from Cons.prems obtain s1 where s1: "put v s = Inr s1" "extends (enc v) s s1"
    using put_ok [of s v] by auto
  then have "os_inv s1" by (simp add: extends_def)
  with Cons obtain s2 where "foldE put vs s1 = Inr s2" "extends (enc_list vs) s1 s2"
    by auto
  with s1 show ?case using extends_trans by fastforce
qed

lemma get_list:
  assumes "os_inv s" "\<forall>v \<in> set vs. ok v" "unread s = enc_list vs @ rest"
  shows "\<exists>s'. get_n get (length vs) s = Inr (vs, s') \<and> os_inv s' \<and> unread s' = rest \<and> contents s' = contents s"
  using assms
proof (induction vs arbitrary: s)
  case Nil
  then show ?case by simp
next
  case (Cons v vs)
  from Cons.prems obtain s1 where "get s = Inr (v, s1)" "os_inv s1" "unread s1 = enc_list vs @ rest"
      "contents s1 = contents s"
    using get_ok [of s v "enc_list vs @ rest"] by auto
  with Cons.IH [of s1] Cons.prems show ?case by auto
qed

lemma put_get_roundtrip:
  assumes "os_inv s" "unread s = []" "\<forall>v \<in> set vs. ok v"
  shows "\<exists>s1 s2. foldE put vs s = Inr s1 \<and> get_n get (length vs) s1 = Inr (vs, s2) \<and> unread s2 = []"
proof -
  obtain s1 where s1: "foldE put vs s = Inr s1" "extends (enc_list vs) s s1"
    using put_list assms by blast
  then have "os_inv s1" "unread s1 = enc_list vs @ []"
    using extends_unread assms by (auto simp: extends_def)
  with get_list [of s1 vs "[]"] s1 assms(3) show ?thesis by auto
qed

lemma store_vector_roundtrip:
  assumes "os_inv s" "unread s = []" "\<forall>v \<in> set vs. ok v" "length vs < 2 ^ 64"
  shows "\<exists>s1 s2. store_vector put vs s = Inr s1 \<and> get_vector get s1 = Inr (vs, s2) \<and> unread s2 = []"
proof -
  let ?l = "of_nat (length vs) :: word64"
  have e: "encode_length ?l 8 = Inr (octets_of 8 ?l)"
    by (simp add: encode_length_def)
  obtain s1 where s1: "store_int ?l 8 s = Inr s1" "extends (octets_of 8 ?l) s s1"
    using store_int_extends [OF assms(1) e] by blast
  then obtain s2 where s2: "foldE put vs s1 = Inr s2" "extends (enc_list vs) s1 s2"
    using put_list [of s1 vs] assms(3) by (auto simp: extends_def)
  have "unread s2 = octets_of 8 ?l @ enc_list vs" and inv2: "os_inv s2"
    using s1 s2 assms extends_trans extends_unread by (auto simp: extends_def os_defs)
  then obtain s3 where s3: "get_int 8 s2 = Inr (?l, s3)" "os_inv s3" "unread s3 = enc_list vs"
    using get_int_unread [OF inv2 e] by (auto simp: take_bit_word_eq_self)
  have "unat ?l = length vs"
    using assms(4) by (simp add: unat_of_nat)
  with s1 s2 s3 get_list [of s3 vs "[]"] assms(3) show ?thesis
    by (auto simp: store_vector_def get_vector_def)
qed

end

text \<open>\<open>n\<close>-octet integers, the unchecked template version, and 32-bit signed integers.\<close>

interpretation int_codec: codec "\<lambda>w. store_int w n" "get_int n" "octets_of n" "\<lambda>w. n \<le> 8 \<and> take_bit (8 * n) w = w" for n
proof (unfold_locales, goal_cases)
  case (1 s v)
  then show ?case using store_int_extends encode_length_fits by blast
next
  case (2 s v rest)
  then show ?case using get_int_unread [of s v n "octets_of n v" rest] encode_length_fits by auto
qed

interpretation fixed_codec: codec "store_int_fixed n" "get_int_fixed n" "octets_of n" "\<lambda>w. n \<le> 8 \<and> take_bit (8 * n) w = w" for n
proof (unfold_locales, goal_cases)
  case (1 s v)
  then show ?case using store_int_fixed_extends by blast
next
  case (2 s v rest)
  then show ?case
    using consume_unread [of s "octets_of n v" rest]
    by (auto simp: get_int_fixed_def word_of_octets_octets_of)
qed

lemma encode_length_scast:
  "encode_length (scast (a :: 32 word)) 4 = Inr (octets_of 4 (scast a))"
proof -
  have "signed_drop_bit 32 (scast a :: word64) = 0 \<or> signed_drop_bit 32 (scast a :: word64) = -1"
  proof (cases "bit a 31")
    case True
    then have "signed_drop_bit 32 (scast a :: word64) = -1"
      by (auto intro!: bit_word_eqI simp: bit_simps min_def)
    then show ?thesis ..
  next
    case False
    then have "signed_drop_bit 32 (scast a :: word64) = 0"
      by (auto intro!: bit_word_eqI simp: bit_simps min_def split: if_splits)
    then show ?thesis ..
  qed
  then show ?thesis by (auto simp: encode_length_def)
qed

lemma ucast_take_bit_scast: "ucast (take_bit 32 (scast (a :: 32 word) :: word64)) = a"
  by (rule bit_word_eqI) (simp add: bit_simps)

interpretation int32_codec: codec store_int32 get_int32 "\<lambda>a. octets_of 4 (scast a)" "\<lambda>_. True"
proof (unfold_locales, goal_cases)
  case (1 s v)
  then show ?case using store_int_extends encode_length_scast by (simp add: store_int32_def)
next
  case (2 s v rest)
  then show ?case
    using get_int_unread [OF _ encode_length_scast, of s v rest]
    by (auto simp: get_int32_def ucast_take_bit_scast)
qed

end
