(* ===== verification/Prng.thy ===== *)
theory Prng
  imports OctetStream
begin

text \<open>
  \<^verbatim>\<open>Tools/random.h\<close> and \<^verbatim>\<open>Tools/random.cpp\<close>: the AES counter-mode generator behind
  every random share. The block cipher itself (\<^verbatim>\<open>aes_schedule\<close> with
  \<^verbatim>\<open>ecb_aes_128_encrypt\<close>) is an argument \<open>E\<close> of the model, a function from a
  16-octet key and a 16-octet block to a block; \<open>cipher_ok E\<close> says that blocks keep
  their length. The constants are those of the default build (\<^verbatim>\<open>-maes\<close> in
  \<^verbatim>\<open>CONFIG\<close>): eight pipelines of one AES block. The counter block is kept as the two
  64-bit words that \<^verbatim>\<open>PRNG::next\<close> updates.
\<close>

unbundle bit_operations_syntax

subsection \<open>State\<close>

type_synonym cipher = "octet list \<Rightarrow> octet list \<Rightarrow> octet list"

definition AES_BLK_SIZE :: nat where "AES_BLK_SIZE = 16"
definition PIPELINES :: nat where "PIPELINES = 8"
definition SEED_SIZE :: nat where "SEED_SIZE = AES_BLK_SIZE"
definition RAND_SIZE :: nat where "RAND_SIZE = PIPELINES * AES_BLK_SIZE"

lemmas rand_sizes = AES_BLK_SIZE_def PIPELINES_def SEED_SIZE_def RAND_SIZE_def

record prng =
  seed :: "octet list"
  state :: "(word64 \<times> word64) list"
  random :: "octet list"
  cnt :: nat
  n_cached_bits :: nat
  cached_bits :: word64

definition PRNG_init :: prng where
  "PRNG_init = \<lparr>seed = replicate SEED_SIZE 0, state = replicate PIPELINES (0, 0),
     random = replicate RAND_SIZE 0, cnt = 0, n_cached_bits = 0, cached_bits = 0\<rparr>"

definition cipher_ok :: "cipher \<Rightarrow> bool" where
  "cipher_ok E \<longleftrightarrow> (\<forall>k b. length b = AES_BLK_SIZE \<longrightarrow> length (E k b) = AES_BLK_SIZE)"

definition prng_inv :: "prng \<Rightarrow> bool" where
  "prng_inv G \<longleftrightarrow> length (state G) = PIPELINES \<and> length (random G) = RAND_SIZE
     \<and> cnt G \<le> RAND_SIZE \<and> n_cached_bits G \<le> 64"

subsection \<open>Refilling\<close>

definition hash :: "cipher \<Rightarrow> prng \<Rightarrow> prng" where
  "hash E G = G\<lparr>random := concat (map (\<lambda>(s0, s1). E (seed G) (octets_of 8 s0 @ octets_of 8 s1)) (state G)),
     cnt := 0\<rparr>"

definition increment :: "word64 \<times> word64 \<Rightarrow> word64 \<times> word64" where
  "increment = (\<lambda>(s0, s1). let s0' = s0 + of_nat PIPELINES in (s0', if s0' = 0 then s1 + 1 else s1))"

definition next_block :: "cipher \<Rightarrow> prng \<Rightarrow> prng" where
  "next_block E G = hash E (G\<lparr>state := map increment (state G)\<rparr>)"

definition InitSeed :: "cipher \<Rightarrow> prng \<Rightarrow> prng" where
  "InitSeed E G = next_block E (G\<lparr>state := map (\<lambda>i. (of_nat i, 0)) [0..<PIPELINES]\<rparr>)"

definition SetSeed :: "cipher \<Rightarrow> octet list \<Rightarrow> prng \<Rightarrow> prng" where
  "SetSeed E inp G = InitSeed E (G\<lparr>seed := take SEED_SIZE inp\<rparr>)"

text \<open>\<^verbatim>\<open>ReSeed\<close> draws the seed from the operating system: the octets are an argument.\<close>

definition ReSeed :: "cipher \<Rightarrow> octet list \<Rightarrow> prng \<Rightarrow> prng" where
  "ReSeed E os_random G = InitSeed E (G\<lparr>seed := take SEED_SIZE os_random\<rparr>)"

subsection \<open>Drawing octets\<close>

text \<open>
  The loop of \<^verbatim>\<open>PRNG::get_octets\<close>. The source tests \<^verbatim>\<open>cnt==RAND_SIZE\<close>; \<open>cnt\<close> never
  exceeds \<open>RAND_SIZE\<close> (\<open>prng_inv\<close>), where \<open>\<ge>\<close> is the same test and makes the loop total.
\<close>

function get_octets :: "cipher \<Rightarrow> nat \<Rightarrow> prng \<Rightarrow> octet list \<times> prng" where
  "get_octets E len G =
     (if len = 0 then ([], G)
      else let step = min len (RAND_SIZE - cnt G);
               xs = take step (drop (cnt G) (random G));
               G1 = G\<lparr>cnt := cnt G + step\<rparr>;
               G2 = (if cnt G1 \<ge> RAND_SIZE then next_block E G1 else G1);
               (ys, G3) = get_octets E (len - step) G2
           in (xs @ ys, G3))"
  by pat_completeness auto
termination
  by (relation "measures [\<lambda>(E, len, G). len, \<lambda>(E, len, G). cnt G]")
     (auto simp: next_block_def hash_def rand_sizes)

declare get_octets.simps [simp del]

text \<open>The template \<^verbatim>\<open>get_octets<L>\<close> copies directly when the block holds enough octets.\<close>

definition get_octets_fixed :: "cipher \<Rightarrow> nat \<Rightarrow> prng \<Rightarrow> octet list \<times> prng" where
  "get_octets_fixed E L G =
     (if L < RAND_SIZE - cnt G
      then (take L (drop (cnt G) (random G)), G\<lparr>cnt := cnt G + L\<rparr>)
      else get_octets E L G)"

definition get_word :: "cipher \<Rightarrow> prng \<Rightarrow> word64 \<times> prng" where
  "get_word E G = (let (bs, G') = get_octets_fixed E 8 G in (word_of_octets bs, G'))"

definition get_uchar :: "cipher \<Rightarrow> prng \<Rightarrow> octet \<times> prng" where
  "get_uchar E G =
     (let G1 = (if cnt G \<ge> RAND_SIZE then next_block E G else G)
      in (random G1 ! cnt G1, G1\<lparr>cnt := cnt G1 + 1\<rparr>))"

definition get_uint :: "cipher \<Rightarrow> prng \<Rightarrow> 32 word \<times> prng" where
  "get_uint E G =
     (let G1 = (if cnt G > RAND_SIZE - 4 then next_block E G else G);
          a = (\<lambda>i. ucast (random G1 ! (cnt G1 + i)) :: 32 word)
      in (a 0 + push_bit 8 (a 1) + push_bit 16 (a 2) + push_bit 24 (a 3), G1\<lparr>cnt := cnt G1 + 4\<rparr>))"

text \<open>One bit at a time, from a cached word: the shift happens before the test.\<close>

definition get_bit :: "cipher \<Rightarrow> prng \<Rightarrow> bool \<times> prng" where
  "get_bit E G =
     (let G1 = (if n_cached_bits G = 0
                then let (w, G') = get_word E G in G'\<lparr>cached_bits := w, n_cached_bits := 64\<rparr>
                else G);
          G2 = G1\<lparr>n_cached_bits := n_cached_bits G1 - 1, cached_bits := drop_bit 1 (cached_bits G1)\<rparr>
      in (cached_bits G2 AND 1 = 1, G2))"

fun get_bits :: "cipher \<Rightarrow> nat \<Rightarrow> prng \<Rightarrow> bool list \<times> prng" where
  "get_bits E 0 G = ([], G)"
| "get_bits E (Suc n) G =
     (let (b, G1) = get_bit E G; (bs, G2) = get_bits E n G1 in (b # bs, G2))"

definition SetSeed_from :: "cipher \<Rightarrow> prng \<Rightarrow> prng \<Rightarrow> prng \<times> prng" where
  "SetSeed_from E G0 G = (let (tmp, G0') = get_octets E SEED_SIZE G0 in (SetSeed E tmp G, G0'))"

fun get_uchars :: "cipher \<Rightarrow> nat \<Rightarrow> prng \<Rightarrow> octet list \<times> prng" where
  "get_uchars E 0 G = ([], G)"
| "get_uchars E (Suc n) G =
     (let (b, G1) = get_uchar E G; (bs, G2) = get_uchars E n G1 in (b # bs, G2))"

subsection \<open>Bounded integers\<close>

text \<open>
  \<^verbatim>\<open>get_uint(upper)\<close>: a power of two masks one draw; otherwise draws are rejected until
  \<open>int(r - reduced + (upper - 1))\<close> is not negative. The loop may not end: \<open>None\<close>.
\<close>

definition draw :: "cipher \<Rightarrow> 32 word \<Rightarrow> prng \<Rightarrow> 32 word \<times> prng" where
  "draw E upper G =
     (if sint upper < 255 then let (b, G') = get_uchar E G in (ucast b, G') else get_uint E G)"

partial_function (option) reject_loop :: "cipher \<Rightarrow> 32 word \<Rightarrow> prng \<Rightarrow> (32 word \<times> prng) option" where
  "reject_loop E upper G =
     (let (r, G') = draw E upper G; reduced = r mod upper
      in if sint (r - reduced + (upper - 1)) < 0 then reject_loop E upper G' else Some (reduced, G'))"

definition get_uint_upper :: "cipher \<Rightarrow> 32 word \<Rightarrow> prng \<Rightarrow> (32 word \<times> prng) option res" where
  "get_uint_upper E upper G =
     (if sint upper \<le> 0 then Inl (Invalid_Argument ''Must be positive'')
      else if upper AND (upper - 1) = 0
      then Inr (Some (let (r, G') = draw E upper G in (r mod upper, G')))
      else Inr (reject_loop E upper G))"

text \<open>
  \<^verbatim>\<open>get_bigint\<close>: the octets are read little-endian (\<^verbatim>\<open>mpz_import\<close> with the least
  significant word first); the last octet is masked with \<open>(1 << (n_bits % 8)) - 1\<close>.
\<close>

fun nat_of_octets :: "octet list \<Rightarrow> nat" where
  "nat_of_octets [] = 0"
| "nat_of_octets (b # bs) = unat b + 256 * nat_of_octets bs"

definition get_bigint :: "cipher \<Rightarrow> nat \<Rightarrow> bool \<Rightarrow> prng \<Rightarrow> (int \<times> prng) res" where
  "get_bigint E n_bits positive G =
     bindE (guardE (n_bits > 0) (Assertion ''n_bits > 0'')) (\<lambda>_.
     let n_bytes = (n_bits + 7) div 8;
         (bytes, G1) = get_octets E n_bytes G;
         mask = push_bit (n_bits mod 8) (1 :: octet) - 1;
         bytes' = bytes[n_bytes - 1 := bytes ! (n_bytes - 1) AND mask];
         res = int (nat_of_octets bytes')
     in if positive then Inr (res, G1)
        else let (b, G2) = get_bit E G1 in Inr (if b then - res else res, G2))"

definition get_int_bits :: "cipher \<Rightarrow> nat \<Rightarrow> bool \<Rightarrow> prng \<Rightarrow> 32 word \<times> prng" where
  "get_int_bits E n_bits positive G =
     (let (r, G1) = get_uint E G;
          res = r AND (push_bit n_bits 1 - 1)
      in if positive then let (b, G2) = get_bit E G1 in (if b then - res else res, G2)
         else (res, G1))"

text \<open>
  \<^verbatim>\<open>randomBnd(bigint&, B, positive)\<close>: at most 1002 draws, then an exception; \<open>n_bits\<close> is
  \<^verbatim>\<open>numBits(B)\<close>.
\<close>

fun randomBnd_loop :: "cipher \<Rightarrow> nat \<Rightarrow> nat \<Rightarrow> int \<Rightarrow> prng \<Rightarrow> (int \<times> prng) res" where
  "randomBnd_loop E 0 n_bits B G = Inl (Runtime_Error ''bounded randomness error'')"
| "randomBnd_loop E (Suc tries) n_bits B G =
     bindE (get_bigint E n_bits True G) (\<lambda>(x, G1).
     if tries = 0 then Inl (Runtime_Error ''bounded randomness error'')
     else if x \<ge> B then randomBnd_loop E tries n_bits B G1 else Inr (x, G1))"

definition randomBnd :: "cipher \<Rightarrow> nat \<Rightarrow> int \<Rightarrow> bool \<Rightarrow> prng \<Rightarrow> (int \<times> prng) res" where
  "randomBnd E n_bits B positive G =
     bindE (randomBnd_loop E 1002 n_bits B G) (\<lambda>(x, G1).
     if positive then Inr (x, G1)
     else let (b, G2) = get_bit E G1 in Inr (if b then - x else x, G2))"

subsection \<open>The invariant\<close>

lemma length_concat_const: "(\<And>x. x \<in> set xs \<Longrightarrow> length (f x) = k) \<Longrightarrow> length (concat (map f xs)) = length xs * k"
  by (induction xs) auto

lemma next_block_cnt [simp]: "next_block E (G\<lparr>cnt := c\<rparr>) = next_block E G"
  by (simp add: next_block_def hash_def)

lemma length_hash: "cipher_ok E \<Longrightarrow> length (state G) = PIPELINES \<Longrightarrow> length (random (hash E G)) = RAND_SIZE"
  by (subst hash_def, simp, subst length_concat_const [where k = AES_BLK_SIZE])
     (auto simp: cipher_ok_def rand_sizes)

lemma next_block_inv: "cipher_ok E \<Longrightarrow> prng_inv G \<Longrightarrow> prng_inv (next_block E G) \<and> cnt (next_block E G) = 0"
  using length_hash [of E "G\<lparr>state := map increment (state G)\<rparr>"]
  by (auto simp: prng_inv_def next_block_def hash_def)

lemma InitSeed_inv: "cipher_ok E \<Longrightarrow> n_cached_bits G \<le> 64 \<Longrightarrow> prng_inv (InitSeed E G) \<and> cnt (InitSeed E G) = 0"
  using length_hash [of E "G\<lparr>state := map increment (map (\<lambda>i. (of_nat i, 0)) [0..<PIPELINES])\<rparr>"]
  by (simp add: prng_inv_def InitSeed_def next_block_def hash_def)

lemma SetSeed_inv: "cipher_ok E \<Longrightarrow> n_cached_bits G \<le> 64 \<Longrightarrow> prng_inv (SetSeed E inp G)"
  using InitSeed_inv by (simp add: SetSeed_def)

lemma get_octets_props:
  assumes "cipher_ok E" "prng_inv G" "get_octets E len G = (xs, G')"
  shows "length xs = len \<and> prng_inv G'"
  using assms
proof (induction E len G arbitrary: xs G' rule: get_octets.induct)
  case (1 E len G)
  show ?case
  proof (cases "len = 0")
    case True
    then show ?thesis using "1.prems" by (auto simp: get_octets.simps [of E 0 G])
  next
    case False
    define step where "step = min len (RAND_SIZE - cnt G)"
    define G1 where "G1 = G\<lparr>cnt := cnt G + step\<rparr>"
    define G2 where "G2 = (if cnt G1 \<ge> RAND_SIZE then next_block E G1 else G1)"
    obtain ys G3 where r: "get_octets E (len - step) G2 = (ys, G3)" by force
    have inv1: "prng_inv G1"
      using "1.prems"(2) by (auto simp: prng_inv_def G1_def step_def)
    then have inv2: "prng_inv G2"
      using next_block_inv [OF "1.prems"(1) inv1] by (simp add: G2_def)
    have "length ys = len - step \<and> prng_inv G3"
      using "1.IH" [OF False step_def refl G1_def G2_def "1.prems"(1) inv2 r] .
    moreover have "xs = take step (drop (cnt G) (random G)) @ ys" "G' = G3"
      using "1.prems"(3) False r unfolding get_octets.simps [of E len G] G2_def G1_def step_def
      by (auto simp: Let_def)
    ultimately show ?thesis
      using "1.prems"(2) by (auto simp: prng_inv_def step_def)
  qed
qed

lemma get_octets_fixed_eq:
  assumes "prng_inv G"
  shows "get_octets_fixed E L G = get_octets E L G"
proof (cases "L < RAND_SIZE - cnt G")
  case True
  then show ?thesis
    by (cases "L = 0")
       (auto simp: get_octets_fixed_def get_octets.simps [of E L G] get_octets.simps [of E 0] Let_def)
next
  case False
  then show ?thesis by (simp add: get_octets_fixed_def)
qed

lemma get_word_inv:
  assumes "cipher_ok E" "prng_inv G"
  shows "prng_inv (snd (get_word E G))"
proof -
  obtain xs G' where r: "get_octets E 8 G = (xs, G')" by force
  show ?thesis
    using get_octets_props [OF assms r] r by (simp add: get_word_def get_octets_fixed_eq [OF assms(2)])
qed

lemma get_uchar_inv: "cipher_ok E \<Longrightarrow> prng_inv G \<Longrightarrow> prng_inv (snd (get_uchar E G))"
  using next_block_inv [of E G] by (auto simp: get_uchar_def Let_def prng_inv_def rand_sizes)

lemma get_uint_inv: "cipher_ok E \<Longrightarrow> prng_inv G \<Longrightarrow> prng_inv (snd (get_uint E G))"
  using next_block_inv [of E G] by (auto simp: get_uint_def Let_def prng_inv_def rand_sizes)

lemma get_bit_inv: "cipher_ok E \<Longrightarrow> prng_inv G \<Longrightarrow> prng_inv (snd (get_bit E G))"
  using get_word_inv [of E G] by (auto simp: get_bit_def Let_def prng_inv_def split: prod.splits)

subsection \<open>The generator as a stream\<close>

text \<open>Drawing \<open>m + n\<close> octets at once is drawing \<open>m\<close> and then \<open>n\<close>, at any position of the block.\<close>

definition refill :: "cipher \<Rightarrow> prng \<Rightarrow> prng" where
  "refill E G = (if cnt G \<ge> RAND_SIZE then next_block E G else G)"

lemma refill_idem: "refill E (refill E G) = refill E G"
  by (auto simp: refill_def next_block_def hash_def rand_sizes)

lemma get_octets_refill:
  assumes "0 < len" "cnt G \<le> RAND_SIZE"
  shows "get_octets E len (refill E G) = get_octets E len G"
proof (cases "cnt G \<ge> RAND_SIZE")
  case True
  with assms show ?thesis
    by (subst (2) get_octets.simps) (simp add: refill_def Let_def)
next
  case False
  then show ?thesis by (simp add: refill_def)
qed

lemma get_octets_step:
  assumes "0 < len" "cnt G < RAND_SIZE" "len \<le> RAND_SIZE - cnt G"
  shows "get_octets E len G = (take len (drop (cnt G) (random G)), refill E (G\<lparr>cnt := cnt G + len\<rparr>))"
  using assms
  by (simp add: get_octets.simps [of E len G] get_octets.simps [of E 0] refill_def Let_def)

lemma get_octets_cross:
  assumes "cnt G < RAND_SIZE" "RAND_SIZE - cnt G < len"
  shows "get_octets E len G =
     (let (ys, G') = get_octets E (len - (RAND_SIZE - cnt G)) (next_block E (G\<lparr>cnt := RAND_SIZE\<rparr>))
      in (take (RAND_SIZE - cnt G) (drop (cnt G) (random G)) @ ys, G'))"
  using assms by (subst get_octets.simps) (simp add: Let_def)

lemma get_octets_0 [simp]: "get_octets E 0 G = ([], G)"
  by (simp add: get_octets.simps [of E 0 G])

lemma refill_cnt: "cnt G \<le> RAND_SIZE \<Longrightarrow> cnt (refill E G) < RAND_SIZE"
  by (auto simp: refill_def next_block_def hash_def rand_sizes)

lemma take_drop_Cons: "k < length xs \<Longrightarrow> take (Suc n) (drop k xs) = xs ! k # take n (drop (Suc k) xs)"
  by (simp add: Cons_nth_drop_Suc [symmetric])

lemma get_octets_Suc_refilled:
  assumes "cnt G < RAND_SIZE" "length (random G) = RAND_SIZE"
  shows "get_octets E (Suc n) G =
     (let (bs, G') = get_octets E n (refill E (G\<lparr>cnt := Suc (cnt G)\<rparr>)) in (random G ! cnt G # bs, G'))"
    (is "_ = (let (bs, G') = get_octets E n ?R in _)")
proof -
  let ?c = "RAND_SIZE - cnt G"
  consider "n = 0" | "0 < n" "Suc n \<le> ?c" | "?c = 1" "0 < n" | "1 < ?c" "?c < Suc n"
    using assms(1) by linarith
  then show ?thesis
  proof cases
    case 1
    then show ?thesis
      using assms get_octets_step [of "Suc 0" G E] take_drop_Cons [of "cnt G" "random G" 0] by simp
  next
    case 2
    then have R: "?R = G\<lparr>cnt := Suc (cnt G)\<rparr>" by (simp add: refill_def)
    show ?thesis
      unfolding R using 2 assms get_octets_step [of "Suc n" G E]
        get_octets_step [of n "G\<lparr>cnt := Suc (cnt G)\<rparr>" E] take_drop_Cons [of "cnt G" "random G" n]
      by simp
  next
    case 3
    then have R: "?R = next_block E G" and "cnt G = RAND_SIZE - 1" by (auto simp: refill_def)
    then show ?thesis
      using 3 assms get_octets_cross [of G "Suc n" E] take_drop_Cons [of "cnt G" "random G" 0] by simp
  next
    case 4
    then have R: "?R = G\<lparr>cnt := Suc (cnt G)\<rparr>" by (simp add: refill_def)
    have c: "?c = Suc (RAND_SIZE - Suc (cnt G))" using 4 by linarith
    show ?thesis
      unfolding R using 4 assms get_octets_cross [of G "Suc n" E]
        get_octets_cross [of "G\<lparr>cnt := Suc (cnt G)\<rparr>" n E]
        take_drop_Cons [of "cnt G" "random G" "RAND_SIZE - Suc (cnt G)"] c
      by (auto simp: Let_def split: prod.splits)
  qed
qed

lemma get_octets_add:
  assumes "cipher_ok E" "prng_inv G"
  shows "get_octets E (m + n) G =
     (let (xs, G1) = get_octets E m G; (ys, G2) = get_octets E n G1 in (xs @ ys, G2))"
  using assms(2)
proof (induction m arbitrary: G)
  case 0
  then show ?case by simp
next
  case (Suc m)
  let ?H = "refill E G"
  let ?R = "refill E (?H\<lparr>cnt := Suc (cnt ?H)\<rparr>)"
  have H: "prng_inv ?H" "cnt ?H < RAND_SIZE"
    using next_block_inv [OF assms(1) Suc.prems] refill_cnt [of G E] Suc.prems
    by (simp_all add: refill_def prng_inv_def)
  then have "prng_inv (?H\<lparr>cnt := Suc (cnt ?H)\<rparr>)" by (simp add: prng_inv_def)
  then have R: "prng_inv ?R"
    using next_block_inv [OF assms(1) H(1)] by (simp add: refill_def [of E "?H\<lparr>cnt := Suc (cnt ?H)\<rparr>"])
  have eq: "get_octets E (Suc k) G = (let (bs, G') = get_octets E k ?R in (random ?H ! cnt ?H # bs, G'))" for k
    using get_octets_Suc_refilled [of ?H E k] get_octets_refill [of "Suc k" G E] H Suc.prems
    by (simp add: prng_inv_def)
  show ?case
    using Suc.IH [OF R] by (simp add: eq Let_def split: prod.splits)
qed

subsection \<open>Equal seeds give equal streams\<close>

lemma SetSeed_eq:
  assumes "n_cached_bits G = n_cached_bits H" "cached_bits G = cached_bits H"
  shows "SetSeed E s G = SetSeed E s H"
  using assms by (simp add: SetSeed_def InitSeed_def next_block_def hash_def)

subsection \<open>Bits from the cache\<close>

lemma get_bit_cached:
  assumes "n_cached_bits G = Suc k"
  shows "get_bit E G = (bit (cached_bits G) 1,
     G\<lparr>n_cached_bits := k, cached_bits := drop_bit 1 (cached_bits G)\<rparr>)"
proof -
  have "drop_bit 1 w AND 1 = 1 \<longleftrightarrow> bit w 1" for w :: word64
    by (auto simp: and_one_eq bit_drop_bit_eq odd_iff_mod_2_eq_one [symmetric] simp flip: bit_0)
  then show ?thesis using assms by (simp add: get_bit_def Let_def)
qed

lemma get_bits_cached:
  "n_cached_bits G = n \<Longrightarrow> fst (get_bits E n G) = map (bit (cached_bits G)) [1..<Suc n]
     \<and> n_cached_bits (snd (get_bits E n G)) = 0"
proof (induction n arbitrary: G)
  case 0
  then show ?case by simp
next
  case (Suc n)
  let ?G = "G\<lparr>n_cached_bits := n, cached_bits := drop_bit 1 (cached_bits G)\<rparr>"
  have IH: "fst (get_bits E n ?G) = map (bit (drop_bit 1 (cached_bits G))) [1..<Suc n]
     \<and> n_cached_bits (snd (get_bits E n ?G)) = 0"
    using Suc.IH [of ?G] by simp
  have "[1..<Suc (Suc n)] = 1 # map Suc [1..<Suc n]"
    by (simp add: map_Suc_upt upt_conv_Cons del: upt_Suc)
  moreover obtain bs G' where "get_bits E n ?G = (bs, G')" by force
  ultimately show ?case
    using IH get_bit_cached [OF Suc.prems, of E]
    by (simp add: bit_drop_bit_eq comp_def del: upt_Suc)
qed

text \<open>The first draw from an empty cache fetches a word; 64 bits are then taken from it.\<close>

lemma get_bits_word:
  assumes "n_cached_bits G = 0" "get_word E G = (w, G')"
  shows "fst (get_bits E 64 G) = map (bit w) [1..<65]"
proof -
  let ?H = "G'\<lparr>cached_bits := w, n_cached_bits := 64\<rparr>"
  have e: "get_bit E G = get_bit E ?H"
    using assms by (simp add: get_bit_def)
  have "get_bits E (Suc 63) G = get_bits E (Suc 63) ?H"
    by (simp only: get_bits.simps e)
  then have "fst (get_bits E 64 G) = fst (get_bits E 64 ?H)"
    by simp
  then show ?thesis
    using get_bits_cached [of ?H 64 E] by simp
qed

lemma get_bits_word_last:
  assumes "n_cached_bits G = 0" "get_word E G = (w, G')"
  shows "last (fst (get_bits E 64 G)) = False"
proof -
  have "[1..<65] = [1..<64] @ [64::nat]" by (simp add: upt_conv_Cons)
  moreover have "\<not> bit w 64" using bit_imp_le_length [of w 64] by auto
  ultimately show ?thesis
    using get_bits_word [OF assms] by simp
qed

subsection \<open>Bounded integers are not uniform\<close>

text \<open>
  If the number of bits is a multiple of eight, the mask of the last octet is \<open>(1 << 0) - 1\<close>, so
  \<^verbatim>\<open>get_bigint\<close> clears the octet and every result has eight bits less than asked for.
  Bounds below 255 draw one octet, and the test of \<^verbatim>\<open>get_uint(upper)\<close>, whose constant is
  that of 31-bit draws, never rejects it: the residues below \<open>256 mod upper\<close> are more likely.
\<close>

lemma nat_of_octets_less: "nat_of_octets bs < 256 ^ length bs"
proof (induction bs)
  case (Cons b bs)
  have "unat b < 256" using unsigned_less [of b] by simp
  then show ?case using Cons by simp
qed simp

lemma nat_of_octets_top_zero: "nat_of_octets (bs @ [0]) = nat_of_octets bs"
  by (induction bs) simp_all

lemma get_bigint_whole_octets:
  assumes "cipher_ok E" "prng_inv G" "get_bigint E (8 * Suc m) True G = Inr (x, G')"
  shows "0 \<le> x \<and> x < 256 ^ m"
proof -
  obtain bs G1 where bs: "get_octets E (Suc m) G = (bs, G1)" by (cases "get_octets E (Suc m) G")
  have len: "length bs = Suc m" using get_octets_props [OF assms(1,2) bs] by simp
  then have "bs[m := 0] = take m bs @ [0]" by (simp add: upd_conv_take_nth_drop)
  then have "nat_of_octets (bs[m := 0]) < 256 ^ m"
    using nat_of_octets_less [of "take m bs"] len by (simp add: nat_of_octets_top_zero)
  moreover have n: "(8 * Suc m + 7) div 8 = Suc m" by simp
  have "x = int (nat_of_octets (bs[m := 0]))"
    using assms(3) by (simp add: get_bigint_def n [simplified] bs Let_def guardE_def bindE_def)
  ultimately show ?thesis by (metis of_nat_0_le_iff of_nat_less_iff of_nat_numeral of_nat_power)
qed

lemma uint_of_sint_nonneg: "0 \<le> sint (w :: 32 word) \<Longrightarrow> uint w = sint w"
  using sint_lt [of w] by (simp add: uint_sint take_bit_int_eq_self)

lemma sint_of_uint_small: "uint (w :: 32 word) < 2 ^ 31 \<Longrightarrow> sint w = uint w"
  using uint_ge_0 [of w] by (simp add: sint_uint signed_take_bit_int_eq_self del: uint_ge_0 unsigned_greater_eq)

lemma reject_loop_octet:
  assumes "0 < sint upper" "sint upper < 255" "get_uchar E G = (b, G1)"
  shows "reject_loop E upper G = Some (ucast b mod upper, G1)"
proof -
  let ?r = "ucast b :: 32 word"
  have u: "uint upper = sint upper" using uint_of_sint_nonneg [of upper] assms(1) by simp
  have b: "uint ?r < 256" using uint_lt2p [of b] by (simp add: uint_up_ucast is_up)
  have m: "uint (?r mod upper) \<le> uint ?r"
    using zmod_le_nonneg_dividend [of "uint ?r" "uint upper"] by (simp add: uint_mod)
  have d: "uint (?r - ?r mod upper) = uint ?r - uint (?r mod upper)"
    using m by (simp add: uint_sub_lem [THEN iffD1])
  have o: "uint (upper - 1) = uint upper - 1"
    using u assms(1) by (subst uint_sub_lem [THEN iffD1]) simp_all
  have l: "uint (?r - ?r mod upper) + uint (upper - 1) < 2 ^ 31"
    unfolding d o u using m b assms(2) uint_ge_0 [of "?r mod upper"] by (simp del: uint_ge_0 unsigned_greater_eq)
  have "uint (?r - ?r mod upper + (upper - 1)) = uint (?r - ?r mod upper) + uint (upper - 1)"
    using l by (intro uint_add_lem [THEN iffD1]) simp
  with l have "uint (?r - ?r mod upper + (upper - 1)) < 2 ^ 31" by simp
  then have "\<not> sint (?r - ?r mod upper + (upper - 1)) < 0" by (simp add: sint_of_uint_small)
  then show ?thesis
    by (subst reject_loop.simps) (simp add: draw_def assms Let_def)
qed

end
