(* ===== verification/BitVec.thy ===== *)
theory BitVec
  imports Prng "HOL-Library.Signed_Division"
begin

text \<open>
  \<^verbatim>\<open>Math/Integer.h\<close>, \<^verbatim>\<open>Math/Integer.hpp\<close>, \<^verbatim>\<open>Math/BitVec.h\<close> and \<^verbatim>\<open>Math/Bit.h\<close>: the
  64-bit clear value. \<open>IntBase\<close> and \<open>Integer\<close> are its integer view (\<^verbatim>\<open>long\<close>, with
  signed comparison and division), \<open>BitVec\<close> its view as 64 independent bits, where addition
  is XOR and multiplication AND. All three are a \<open>64 word\<close>; signed overflow, undefined
  in C++, wraps here as it does in the compiled code. A shift by a negative count is
  \<open>Undefined_Behaviour\<close>.
\<close>

unbundle bit_operations_syntax

type_synonym integer64 = word64
type_synonym bitvec = word64

subsection \<open>\<^verbatim>\<open>IntBase<long>\<close>\<close>

definition N_BITS :: nat where "N_BITS = 64"

definition IntBase_get_bit :: "word64 \<Rightarrow> nat \<Rightarrow> bool" where
  "IntBase_get_bit a i \<longleftrightarrow> signed_drop_bit i a AND 1 = 1"

definition is_zero :: "word64 \<Rightarrow> bool" where "is_zero a \<longleftrightarrow> a = 0"
definition is_one :: "word64 \<Rightarrow> bool" where "is_one a \<longleftrightarrow> a = 1"
definition is_bit :: "word64 \<Rightarrow> bool" where "is_bit a \<longleftrightarrow> is_zero a \<or> is_one a"

definition IntBase_shr :: "word64 \<Rightarrow> word64 \<Rightarrow> word64 res" where
  "IntBase_shr a other =
     (if sint other < int N_BITS
      then if sint other < 0 then Inl (Undefined_Behaviour ''negative shift'')
           else Inr (drop_bit (unat other) a)
      else Inr 0)"

definition IntBase_shl :: "word64 \<Rightarrow> word64 \<Rightarrow> word64 res" where
  "IntBase_shl a other =
     (if sint other < int N_BITS
      then if sint other < 0 then Inl (Undefined_Behaviour ''negative shift'')
           else Inr (push_bit (unat other) a)
      else Inr 0)"

definition IntBase_xor :: "word64 \<Rightarrow> word64 \<Rightarrow> word64" where "IntBase_xor a b = a XOR b"
definition IntBase_and :: "word64 \<Rightarrow> word64 \<Rightarrow> word64" where "IntBase_and a b = a AND b"
definition IntBase_or :: "word64 \<Rightarrow> word64 \<Rightarrow> word64" where "IntBase_or a b = a OR b"
definition IntBase_eq :: "word64 \<Rightarrow> word64 \<Rightarrow> bool" where "IntBase_eq a b \<longleftrightarrow> a = b"

definition IntBase_randomize :: "cipher \<Rightarrow> prng \<Rightarrow> word64 \<times> prng" where
  "IntBase_randomize E G = get_word E G"

definition IntBase_pack :: "word64 \<Rightarrow> octetStream \<Rightarrow> octetStream res" where
  "IntBase_pack a os = store_int a 8 os"

definition IntBase_unpack :: "octetStream \<Rightarrow> (word64 \<times> octetStream) res" where
  "IntBase_unpack os = get_int 8 os"

subsection \<open>\<^verbatim>\<open>Integer\<close>\<close>

definition Integer_add :: "integer64 \<Rightarrow> integer64 \<Rightarrow> integer64" where "Integer_add x y = x + y"
definition Integer_sub :: "integer64 \<Rightarrow> integer64 \<Rightarrow> integer64" where "Integer_sub x y = x - y"
definition Integer_mul :: "integer64 \<Rightarrow> integer64 \<Rightarrow> integer64" where "Integer_mul x y = x * y"

text \<open>Division by zero, and the one quotient that does not fit, trap.\<close>

definition Integer_div :: "integer64 \<Rightarrow> integer64 \<Rightarrow> integer64 res" where
  "Integer_div x y =
     (if y = 0 then Inl (Undefined_Behaviour ''division by zero'')
      else if sint x = - (2 ^ 63) \<and> sint y = -1 then Inl (Undefined_Behaviour ''division overflow'')
      else Inr (word_of_int (sint x sdiv sint y)))"

definition Integer_neg :: "integer64 \<Rightarrow> integer64" where "Integer_neg x = - x"
definition Integer_lt :: "integer64 \<Rightarrow> integer64 \<Rightarrow> bool" where "Integer_lt x y \<longleftrightarrow> x <s y"
definition Integer_le :: "integer64 \<Rightarrow> integer64 \<Rightarrow> bool" where "Integer_le x y \<longleftrightarrow> x \<le>s y"
definition Integer_gt :: "integer64 \<Rightarrow> integer64 \<Rightarrow> bool" where "Integer_gt x y \<longleftrightarrow> y <s x"
definition Integer_ge :: "integer64 \<Rightarrow> integer64 \<Rightarrow> bool" where "Integer_ge x y \<longleftrightarrow> y \<le>s x"

text \<open>\<^verbatim>\<open>SHR\<close> shifts without the bound check of \<open>operator>>\<close>.\<close>

definition Integer_SHR :: "integer64 \<Rightarrow> integer64 \<Rightarrow> integer64 res" where
  "Integer_SHR x y =
     (if 0 \<le> sint y \<and> sint y < 64 then Inr (drop_bit (unat y) x)
      else Inl (Undefined_Behaviour ''shift count''))"

definition Integer_SHL :: "integer64 \<Rightarrow> integer64 \<Rightarrow> integer64 res" where
  "Integer_SHL x y = IntBase_shl x y"

definition Integer_reqbl :: "32 word \<Rightarrow> unit res" where
  "Integer_reqbl n =
     (if sint n < 0 \<and> 64 \<noteq> - sint n then Inl (Processor_Error ''Program compiled for rings of another length'')
      else if sint n > 0 then Inl (Processor_Error ''Program compiled for fields not rings'')
      else Inr ())"

text \<open>The constructor \<^verbatim>\<open>Integer(const Integer& x, int n_bits)\<close> cuts the magnitude to \<open>n_bits\<close> bits.\<close>

definition Integer_cut :: "integer64 \<Rightarrow> nat \<Rightarrow> integer64" where
  "Integer_cut x n_bits =
     (if n_bits = 1 then x AND 1
      else if n_bits = 64 then x
      else let a = (if x <s 0 then - x else x);
               a' = a AND NOT (push_bit 1 (push_bit (n_bits - 1) (- 1)))
           in if x <s 0 then - a' else a')"

subsection \<open>\<^verbatim>\<open>BitVec\<close>\<close>

definition bv_add :: "bitvec \<Rightarrow> bitvec \<Rightarrow> bitvec" where "bv_add a b = a XOR b"
definition bv_sub :: "bitvec \<Rightarrow> bitvec \<Rightarrow> bitvec" where "bv_sub a b = a XOR b"
definition bv_mul :: "bitvec \<Rightarrow> bitvec \<Rightarrow> bitvec" where "bv_mul a b = a AND b"
definition bv_not :: "bitvec \<Rightarrow> bitvec" where "bv_not a = NOT a"
definition bv_div :: "bitvec \<Rightarrow> bitvec \<Rightarrow> bitvec res" where "bv_div a b = Inl Not_Implemented"

definition extend_bit :: "bitvec \<Rightarrow> bitvec" where
  "extend_bit a = - (a AND 1)"

definition bv_mask :: "bitvec \<Rightarrow> nat \<Rightarrow> bitvec" where
  "bv_mask a n = (if n < N_BITS then a AND (push_bit n 1 - 1) else a)"

definition bv_randomize :: "cipher \<Rightarrow> prng \<Rightarrow> nat \<Rightarrow> bitvec \<times> prng" where
  "bv_randomize E G n = (let (a, G') = IntBase_randomize E G in (bv_mask a n, G'))"

definition DIV_CEIL :: "nat \<Rightarrow> nat \<Rightarrow> nat" where
  "DIV_CEIL n k = (n + k - 1) div k"

definition bv_pack_full :: "bitvec \<Rightarrow> octetStream \<Rightarrow> octetStream res" where
  "bv_pack_full a os = store_int_fixed 8 a os"

definition bv_unpack_full :: "octetStream \<Rightarrow> (bitvec \<times> octetStream) res" where
  "bv_unpack_full os = get_int_fixed 8 os"

definition bv_pack :: "nat \<Rightarrow> bitvec \<Rightarrow> octetStream \<Rightarrow> octetStream res" where
  "bv_pack n a os = store_int a (DIV_CEIL n 8) os"

definition bv_unpack :: "nat \<Rightarrow> octetStream \<Rightarrow> (bitvec \<times> octetStream) res" where
  "bv_unpack n os = get_int (DIV_CEIL n 8) os"

definition bv_add_stream :: "bitvec \<Rightarrow> octetStream \<Rightarrow> (bitvec \<times> octetStream) res" where
  "bv_add_stream a os = bindE (bv_unpack_full os) (\<lambda>(b, os'). Inr (bv_add a b, os'))"

text \<open>\<^verbatim>\<open>Bit\<close> is packed as one octet.\<close>

definition Bit_init :: "int \<Rightarrow> bool res" where
  "Bit_init other =
     (if other = 0 \<or> other = 1 then Inr (other = 1) else Inl (Assertion ''other == 0 or other == 1''))"

definition Bit_pack :: "bool \<Rightarrow> octetStream \<Rightarrow> octetStream res" where
  "Bit_pack b os = store_int (of_bool b) (DIV_CEIL 1 8) os"

definition Bit_unpack :: "octetStream \<Rightarrow> (bool \<times> octetStream) res" where
  "Bit_unpack os = bindE (get_int (DIV_CEIL 1 8) os) (\<lambda>(w, os'). Inr (w \<noteq> 0, os'))"

subsection \<open>Laws\<close>

named_theorems bv_defs \<open>the bit-vector operations as word operations\<close>

lemmas [bv_defs] = bv_add_def bv_sub_def bv_mul_def bv_not_def

lemma bv_mask_take_bit: "bv_mask a n = take_bit n a"
proof (cases "n < 64")
  case True
  then show ?thesis
    by (simp add: bv_mask_def N_BITS_def take_bit_eq_mask mask_eq_decr_exp push_bit_eq_mult)
next
  case False
  then show ?thesis by (simp add: bv_mask_def N_BITS_def take_bit_word_eq_self)
qed

lemma bv_mask_simps [simp]:
  "bv_mask 0 n = 0"
  "bv_mask (bv_mask a n) n = bv_mask a n"
  "64 \<le> n \<Longrightarrow> bv_mask a n = a"
  by (simp_all add: bv_mask_take_bit take_bit_word_eq_self)

lemma bv_mask_ring:
  "bv_mask (bv_add a b) n = bv_add (bv_mask a n) (bv_mask b n)"
  "bv_mask (bv_mul a b) n = bv_mul (bv_mask a n) (bv_mask b n)"
  by (simp_all add: bv_defs bv_mask_take_bit)

text \<open>\<open>fits n\<close>: the value has no bit at or above \<open>n\<close>, so that \<open>n\<close> bits carry it.\<close>

definition fits :: "nat \<Rightarrow> bitvec \<Rightarrow> bool" where
  "fits n a \<longleftrightarrow> bv_mask a n = a"

lemma fits_mask [simp]: "fits n (bv_mask a n)"
  by (simp add: fits_def)

lemma fits_ring [intro]:
  "fits n a \<Longrightarrow> fits n b \<Longrightarrow> fits n (bv_add a b)"
  "fits n a \<Longrightarrow> fits n b \<Longrightarrow> fits n (bv_mul a b)"
  "fits n a \<Longrightarrow> fits n (bv_mul a c)"
  "fits n b \<Longrightarrow> fits n (bv_mul c b)"
     apply (simp_all add: fits_def bv_mask_ring)
   apply (auto simp: bv_defs bv_mask_take_bit bit_eq_iff bit_simps)
  done

lemma fits_zero [simp]: "fits n 0"
  by (simp add: fits_def)

lemma fits_randomize: "bv_randomize E G n = (r, G') \<Longrightarrow> fits n r"
  by (auto simp: bv_randomize_def split: prod.splits)

lemma DIV_CEIL_ge: "n \<le> 8 * DIV_CEIL n 8"
  by (simp add: DIV_CEIL_def)

lemma DIV_CEIL_le: "n \<le> 64 \<Longrightarrow> DIV_CEIL n 8 \<le> 8"
  by (simp add: DIV_CEIL_def)

lemma fits_octets:
  assumes "fits n a"
  shows "take_bit (8 * DIV_CEIL n 8) a = a"
proof -
  have "a = take_bit n a" using assms by (simp add: fits_def bv_mask_take_bit)
  then show ?thesis
    using DIV_CEIL_ge [of n] by (metis min.absorb2 take_bit_take_bit)
qed

text \<open>The two packings satisfy the codec contract on the values that fit.\<close>

interpretation bv_codec: codec "bv_pack n" "bv_unpack n" "octets_of (DIV_CEIL n 8)" "\<lambda>a. n \<le> 64 \<and> fits n a" for n
proof (unfold_locales, goal_cases)
  case (1 s v)
  then show ?case
    unfolding bv_pack_def using int_codec.put_ok fits_octets DIV_CEIL_le by blast
next
  case (2 s v rest)
  then show ?case
    unfolding bv_unpack_def using int_codec.get_ok [of s "DIV_CEIL n 8" v rest] fits_octets DIV_CEIL_le by blast
qed

interpretation bv_full_codec: codec bv_pack_full bv_unpack_full "octets_of 8" "\<lambda>_. True"
proof (unfold_locales, goal_cases)
  case (1 s v)
  then show ?case
    using fixed_codec.put_ok [of s 8 v] by (simp add: bv_pack_full_def take_bit_word_eq_self)
next
  case (2 s v rest)
  then show ?case
    using fixed_codec.get_ok [of s 8 v rest] by (simp add: bv_unpack_full_def take_bit_word_eq_self)
qed

interpretation Bit_codec: codec Bit_pack Bit_unpack "\<lambda>b. octets_of 1 (of_bool b)" "\<lambda>_. True"
proof (unfold_locales, goal_cases)
  case (1 s v)
  then show ?case
    using int_codec.put_ok [of s 1 "of_bool v"] by (cases v) (auto simp: Bit_pack_def DIV_CEIL_def)
next
  case (2 s v rest)
  then show ?case
    using int_codec.get_ok [of s 1 "of_bool v" rest] by (cases v) (auto simp: Bit_unpack_def DIV_CEIL_def)
qed

subsection \<open>Behaviour of the integer operations\<close>

lemma IntBase_get_bit_iff: "i < 64 \<Longrightarrow> IntBase_get_bit a i \<longleftrightarrow> bit a i"
  by (auto simp: IntBase_get_bit_def and_one_eq odd_iff_mod_2_eq_one [symmetric] bit_signed_drop_bit_iff
      min_def simp flip: bit_0)

lemma sint_of_nat_small:
  assumes "k < 2 ^ 63"
  shows "sint (of_nat k :: word64) = int k"
proof -
  have "take_bit 64 k = k" using assms by (simp add: take_bit_nat_eq_self)
  with assms show ?thesis by (simp add: sint_uint unsigned_of_nat signed_take_bit_int_eq_self)
qed

lemma unat_of_nat_small: "k < 2 ^ 63 \<Longrightarrow> unat (of_nat k :: word64) = k"
  by (simp add: unat_of_nat)

lemma IntBase_shift_nat:
  assumes "k < 2 ^ 63"
  shows "IntBase_shr a (of_nat k) = Inr (if k < 64 then drop_bit k a else 0)"
    "IntBase_shl a (of_nat k) = Inr (if k < 64 then push_bit k a else 0)"
  using sint_of_nat_small [OF assms] unat_of_nat_small [OF assms]
  by (simp_all add: IntBase_shr_def IntBase_shl_def N_BITS_def)

end
