(* ===== verification/FixedVec.thy ===== *)
theory FixedVec
  imports BitVec
begin

text \<open>
  \<^verbatim>\<open>Math/FixedVec.h\<close>: an array of \<open>L\<close> values of a type \<open>T\<close>, the representation of every
  replicated share. The array is a list of length \<open>L\<close>; the operations of \<open>T\<close> that an
  operation calls are its arguments. The algebra that the protocols need (a share vector
  sums to its secret, additions commute with the sum) is proved once from the group laws of
  \<open>T\<close> and interpreted for bit vectors and for 64-bit integers.
\<close>

unbundle bit_operations_syntax

type_synonym 'a fixedvec = "'a list"

subsection \<open>Construction and element-wise operations\<close>

definition fv_const :: "nat \<Rightarrow> 'a \<Rightarrow> 'a fixedvec" where
  "fv_const L other = replicate L other"

definition fv_convert :: "('u \<Rightarrow> 'a) \<Rightarrow> 'u fixedvec \<Rightarrow> 'a fixedvec" where
  "fv_convert conv other = map conv other"

definition fv_Mul :: "('u \<Rightarrow> 'v \<Rightarrow> 'a) \<Rightarrow> 'u fixedvec \<Rightarrow> 'v \<Rightarrow> 'a fixedvec" where
  "fv_Mul mul a b = map (\<lambda>x. mul x b) a"

definition fv_assign :: "'a \<Rightarrow> 'a fixedvec \<Rightarrow> 'a fixedvec" where
  "fv_assign other v = map (\<lambda>_. other) v"

definition fv_add :: "('a \<Rightarrow> 'a \<Rightarrow> 'a) \<Rightarrow> 'a fixedvec \<Rightarrow> 'a fixedvec \<Rightarrow> 'a fixedvec" where
  "fv_add add x y = map2 add x y"

definition fv_sub :: "('a \<Rightarrow> 'a \<Rightarrow> 'a) \<Rightarrow> 'a fixedvec \<Rightarrow> 'a fixedvec \<Rightarrow> 'a fixedvec" where
  "fv_sub sub x y = map2 sub x y"

definition fv_mul :: "('a \<Rightarrow> 'a \<Rightarrow> 'a) \<Rightarrow> 'a fixedvec \<Rightarrow> 'a fixedvec \<Rightarrow> 'a fixedvec" where
  "fv_mul mul x y = map2 mul x y"

definition fv_add_stream :: "('a \<Rightarrow> octetStream \<Rightarrow> ('a \<times> octetStream) res) \<Rightarrow> 'a fixedvec \<Rightarrow> octetStream \<Rightarrow> ('a fixedvec \<times> octetStream) res" where
  "fv_add_stream add v os =
     foldE (\<lambda>x (ys, os). bindE (add x os) (\<lambda>(y, os'). Inr (ys @ [y], os'))) v ([], os)"

definition fv_negate :: "('a \<Rightarrow> 'a) \<Rightarrow> 'a fixedvec \<Rightarrow> 'a fixedvec" where
  "fv_negate neg v = map neg v"

fun fv_equal :: "'a fixedvec \<Rightarrow> 'a fixedvec \<Rightarrow> bool" where
  "fv_equal (x # xs) (y # ys) = (if x \<noteq> y then False else fv_equal xs ys)"
| "fv_equal xs ys = True"

definition fv_is_zero :: "'a \<Rightarrow> 'a fixedvec \<Rightarrow> bool" where
  "fv_is_zero zero v = fv_equal v (fv_const (length v) zero)"

definition fv_xor :: "bitvec fixedvec \<Rightarrow> bitvec fixedvec \<Rightarrow> bitvec fixedvec" where
  "fv_xor x y = map2 IntBase_xor x y"

definition fv_and :: "bitvec fixedvec \<Rightarrow> bitvec fixedvec \<Rightarrow> bitvec fixedvec" where
  "fv_and x y = map2 IntBase_and x y"

definition fv_not :: "bitvec fixedvec \<Rightarrow> bitvec fixedvec" where
  "fv_not v = map bv_not v"

definition fv_shl :: "bitvec fixedvec \<Rightarrow> nat \<Rightarrow> bitvec fixedvec res" where
  "fv_shl v i = mapE (\<lambda>x. IntBase_shl x (of_nat i)) v"

definition fv_shr :: "bitvec fixedvec \<Rightarrow> nat \<Rightarrow> bitvec fixedvec res" where
  "fv_shr v i = mapE (\<lambda>x. IntBase_shr x (of_nat i)) v"

definition fv_extend_bit :: "bitvec fixedvec \<Rightarrow> bitvec fixedvec" where
  "fv_extend_bit v = map extend_bit v"

definition fv_mask :: "bitvec fixedvec \<Rightarrow> nat \<Rightarrow> bitvec fixedvec" where
  "fv_mask v n_bits = map (\<lambda>x. bv_mask x n_bits) v"

definition fv_get_bit :: "bitvec fixedvec \<Rightarrow> nat \<Rightarrow> bitvec fixedvec res" where
  "fv_get_bit v i = bindE (fv_shr v i) (\<lambda>x. Inr (fv_and x (fv_const (length x) 1)))"

subsection \<open>Sums and random vectors\<close>

fun fv_sum :: "('a \<Rightarrow> 'a \<Rightarrow> 'a) \<Rightarrow> 'a fixedvec \<Rightarrow> 'a" where
  "fv_sum add (x # xs) = foldl add x xs"

fun fv_randomize :: "('g \<Rightarrow> 'a \<times> 'g) \<Rightarrow> nat \<Rightarrow> 'g \<Rightarrow> 'a fixedvec \<times> 'g" where
  "fv_randomize rnd 0 G = ([], G)"
| "fv_randomize rnd (Suc L) G =
     (let (x, G1) = rnd G; (xs, G2) = fv_randomize rnd L G1 in (x # xs, G2))"

definition fv_randomize_to_sum ::
  "('a \<Rightarrow> 'a \<Rightarrow> 'a) \<Rightarrow> ('a \<Rightarrow> 'a \<Rightarrow> 'a) \<Rightarrow> 'a \<Rightarrow> ('g \<Rightarrow> 'a \<times> 'g) \<Rightarrow> nat \<Rightarrow> 'a \<Rightarrow> 'g \<Rightarrow> 'a fixedvec \<times> 'g" where
  "fv_randomize_to_sum add sub zero rnd L summ G =
     (let (vs, G') = fv_randomize rnd (L - 1) G; s = foldl add zero vs
      in (sub summ s # vs, G'))"

subsection \<open>Packing\<close>

definition fv_pack :: "('a \<Rightarrow> octetStream \<Rightarrow> octetStream res) \<Rightarrow> 'a fixedvec \<Rightarrow> octetStream \<Rightarrow> octetStream res" where
  "fv_pack pk v os = foldE pk v os"

definition fv_unpack :: "(octetStream \<Rightarrow> ('a \<times> octetStream) res) \<Rightarrow> nat \<Rightarrow> octetStream \<Rightarrow> ('a fixedvec \<times> octetStream) res" where
  "fv_unpack up L os = get_n up L os"

subsection \<open>Laws of the element type and of share vectors\<close>

locale additive =
  fixes add :: "'a \<Rightarrow> 'a \<Rightarrow> 'a" and sub :: "'a \<Rightarrow> 'a \<Rightarrow> 'a" and zero :: 'a
  assumes add_assoc: "add (add a b) c = add a (add b c)"
    and add_commute: "add a b = add b a"
    and add_zero: "add zero a = a"
    and add_sub: "add (sub a b) b = a"
begin

lemma add_left_commute: "add a (add b c) = add b (add a c)"
  by (metis add_assoc add_commute)

lemma foldl_add: "foldl add (add a b) xs = add a (foldl add b xs)"
  by (induction xs arbitrary: b) (simp_all add: add_assoc)

lemma foldl_zero: "add a (foldl add zero xs) = foldl add a xs"
  using foldl_add [of a zero xs] add_zero [of a] add_commute [of a zero] by simp

lemma foldl_sub: "foldl add (sub s (foldl add zero xs)) xs = s"
  using foldl_zero [of "sub s (foldl add zero xs)" xs] by (simp add: add_sub)

lemma randomize_to_sum:
  assumes "fv_randomize_to_sum add sub zero rnd L s G = (v, G')"
  shows "fv_sum add v = s"
  using assms foldl_sub
  by (auto simp: fv_randomize_to_sum_def Let_def split: prod.splits)

lemma foldl_map2:
  "length xs = length ys \<Longrightarrow> foldl add (add a b) (map2 add xs ys) = add (foldl add a xs) (foldl add b ys)"
proof (induction xs ys arbitrary: a b rule: list_induct2)
  case Nil
  then show ?case by simp
next
  case (Cons x xs y ys)
  have "add (add a b) (add x y) = add (add a x) (add b y)"
    by (simp add: add_assoc add_left_commute)
  with Cons show ?case by simp
qed

lemma sum_add:
  assumes "length x = length y" "x \<noteq> []"
  shows "fv_sum add (fv_add add x y) = add (fv_sum add x) (fv_sum add y)"
  using assms foldl_map2 by (cases x; cases y) (auto simp: fv_add_def)

lemma sub_add_cancel: "sub (add a b) b = a"
  by (metis add_assoc add_commute add_sub add_zero)

end

interpretation bv: additive bv_add bv_sub 0
  by unfold_locales (simp_all add: bv_defs xor_ac)

interpretation int64: additive Integer_add Integer_sub 0
  by unfold_locales (simp_all add: Integer_add_def Integer_sub_def)

lemma fv_equal_iff: "length x = length y \<Longrightarrow> fv_equal x y \<longleftrightarrow> x = y"
  by (induction x y rule: list_induct2) auto

lemma length_fv_simps [simp]:
  "length (fv_const L a) = L"
  "length (fv_xor x y) = min (length x) (length y)"
  "length (fv_and x y) = min (length x) (length y)"
  "length (fv_add f x y) = min (length x) (length y)"
  "length (fv_mask x n) = length x"
  by (simp_all add: fv_const_def fv_xor_def fv_and_def fv_add_def fv_mask_def)

lemma fv_shr_eq: "i < 2 ^ 63 \<Longrightarrow> fv_shr v i = Inr (map (\<lambda>x. if i < 64 then drop_bit i x else 0) v)"
  unfolding fv_shr_def by (rule mapE_Inr) (simp add: IntBase_shift_nat)

lemma fv_shl_eq: "i < 2 ^ 63 \<Longrightarrow> fv_shl v i = Inr (map (\<lambda>x. if i < 64 then push_bit i x else 0) v)"
  unfolding fv_shl_def by (rule mapE_Inr) (simp add: IntBase_shift_nat)

end
