(* ===== verification/Player.thy ===== *)
theory Player
  imports BitVec
begin

text \<open>
  \<^verbatim>\<open>Networking/Player.h\<close> and \<^verbatim>\<open>Networking/Player.cpp\<close>: the parties and their pairwise
  connections. A party runs a list of sends and receives on its own streams; a connection
  is the queue of octets in flight. The parties are not synchronised: the step relation
  lets any party take its next step, a receive waiting until its message is complete. The
  main result is that the outcome of a round does not depend on the schedule.
  Operating-system buffers are unbounded and connections do not fail.
\<close>

unbundle bit_operations_syntax

subsection \<open>Numbering (\<^verbatim>\<open>Tools/int.h\<close>, \<^verbatim>\<open>Player::get_player\<close>)\<close>

definition positive_modulo :: "int \<Rightarrow> int \<Rightarrow> int" where
  "positive_modulo i n = (i smod n + n) smod n"

definition get_player :: "nat \<Rightarrow> nat \<Rightarrow> int \<Rightarrow> nat" where
  "get_player nplayers my_num offset = nat (positive_modulo (offset + int my_num) (int nplayers))"

definition get_offset :: "nat \<Rightarrow> nat \<Rightarrow> nat \<Rightarrow> nat" where
  "get_offset nplayers my_num other_player =
     nat (positive_modulo (int other_player - int my_num) (int nplayers))"

lemma smod_nonneg: "0 \<le> a \<Longrightarrow> 0 < n \<Longrightarrow> a smod n = a mod (n :: int)"
  by (cases "a = 0") (auto simp: signed_modulo_int_def)

lemma positive_modulo_mod: "0 < n \<Longrightarrow> positive_modulo i n = i mod n"
proof -
  assume n: "0 < n"
  have "i smod n + n \<ge> 0" using n smod_int_range [of n i] by auto
  then have "positive_modulo i n = (i smod n + n) mod n"
    using n by (simp add: positive_modulo_def smod_nonneg)
  also have "\<dots> = i mod n"
  proof -
    have "i smod n = i - i sdiv n * n" by (simp add: minus_sdiv_mult_eq_smod)
    then show ?thesis by (simp, subst mod_diff_right_eq [symmetric], simp)
  qed
  finally show ?thesis .
qed

lemma get_player_offset:
  assumes "my_num < nplayers" "other < nplayers"
  shows "get_player nplayers my_num (int (get_offset nplayers my_num other)) = other"
  using assms by (simp add: get_player_def get_offset_def positive_modulo_mod mod_simps)

subsection \<open>Communication steps\<close>

datatype comm =
    SendTo nat nat
  | ReceiveFrom nat nat

text \<open>A party's sends and receives, by relative number, as in \<^verbatim>\<open>send_relative\<close>, \<^verbatim>\<open>pass_around\<close>.\<close>

definition send_relative :: "nat \<Rightarrow> nat \<Rightarrow> int \<Rightarrow> nat \<Rightarrow> comm" where
  "send_relative nplayers my_num offset k = SendTo (get_player nplayers my_num offset) k"

definition receive_relative :: "nat \<Rightarrow> nat \<Rightarrow> int \<Rightarrow> nat \<Rightarrow> comm" where
  "receive_relative nplayers my_num offset k = ReceiveFrom (get_player nplayers my_num offset) k"

definition pass_around :: "nat \<Rightarrow> nat \<Rightarrow> nat \<Rightarrow> nat \<Rightarrow> int \<Rightarrow> comm list" where
  "pass_around nplayers my_num to_send to_receive offset =
     [send_relative nplayers my_num offset to_send, receive_relative nplayers my_num (- offset) to_receive]"

record net =
  todo :: "nat \<Rightarrow> comm list"
  streams :: "nat \<Rightarrow> octetStream list"
  chan :: "nat \<Rightarrow> nat \<Rightarrow> octet list"

text \<open>One step of party \<open>i\<close>; \<open>None\<close> when it has nothing to do or must wait.\<close>

definition comm_do :: "nat \<Rightarrow> net \<Rightarrow> net option" where
  "comm_do i c =
     (case todo c i of
        [] \<Rightarrow> None
      | SendTo j k # cs \<Rightarrow>
          if k < length (streams c i) then
            (case Send (streams c i ! k) (chan c i j) of
               Inl e \<Rightarrow> None
             | Inr q \<Rightarrow> Some (c\<lparr>todo := (todo c)(i := cs), chan := (chan c)(i := (chan c i)(j := q))\<rparr>))
          else None
      | ReceiveFrom j k # cs \<Rightarrow>
          if k < length (streams c i) then
            (case Receive (chan c j i) (reset_write_head (streams c i ! k)) of
               Inl e \<Rightarrow> None
             | Inr (s, q) \<Rightarrow> Some (c\<lparr>todo := (todo c)(i := cs),
                  streams := (streams c)(i := (streams c i)[k := s]),
                  chan := (chan c)(j := (chan c j)(i := q))\<rparr>))
          else None)"

inductive comm_step :: "net \<Rightarrow> net \<Rightarrow> bool" where
  step: "comm_do i c = Some c' \<Longrightarrow> comm_step c c'"

inductive_cases comm_stepE: "comm_step c c'"

fun run_schedule :: "nat list \<Rightarrow> net \<Rightarrow> net option" where
  "run_schedule [] c = Some c"
| "run_schedule (i # is) c = (case comm_do i c of None \<Rightarrow> None | Some c' \<Rightarrow> run_schedule is c')"

definition finished :: "net \<Rightarrow> bool" where
  "finished c \<longleftrightarrow> (\<forall>i. todo c i = [])"

subsection \<open>Framing\<close>

lemma Send_append: "Send s (x @ q) = map_sum id (\<lambda>r. x @ r) (Send s q)"
  by (auto simp: Send_def bindE_def split: sum.splits)

lemma receive_octets_append:
  "receive_octets n q = Inr (a, b) \<Longrightarrow> receive_octets n (q @ x) = Inr (a, b @ x)"
  by (auto simp: receive_octets_def split: if_splits)

lemma Receive_append:
  assumes "Receive q s = Inr (s', r)"
  shows "Receive (q @ x) s = Inr (s', r @ x)"
proof -
  from assms obtain bl q1 where 1: "receive_octets LENGTH_SIZE q = Inr (bl, q1)"
    by (auto simp: Receive_def bindE_eq_Inr)
  from assms 1 obtain n where 2: "decode_length bl LENGTH_SIZE = Inr n"
    by (auto simp: Receive_def bindE_eq_Inr)
  from assms 1 2 obtain bs q2 where 3: "receive_octets (unat n) q1 = Inr (bs, q2)"
    by (auto simp: Receive_def bindE_eq_Inr Let_def)
  from assms 1 2 3 show ?thesis
    using receive_octets_append [OF 1, of x] receive_octets_append [OF 3, of x]
    by (auto simp: Receive_def bindE_eq_Inr Let_def)
qed

lemma encode_small_length:
  assumes "n < 2 ^ 32"
  shows "encode_length (of_nat n) 4 = Inr (octets_of 4 (of_nat n))"
proof -
  have "take_bit 32 (of_nat n :: word64) = of_nat n"
  proof -
    have "take_bit 32 n = n" using assms by (simp add: take_bit_nat_eq_self)
    then show ?thesis by (simp flip: of_nat_take_bit)
  qed
  then show ?thesis by (simp add: encode_length_fits)
qed

definition frame :: "octetStream \<Rightarrow> octet list" where
  "frame s = octets_of 4 (of_nat (os_len s)) @ contents s"

lemma Send_frame: "os_len s < 2 ^ 32 \<Longrightarrow> Send s q = Inr (q @ frame s)"
  by (simp add: Send_def LENGTH_SIZE_def encode_small_length frame_def)

lemma Receive_frame:
  assumes "os_inv s" "os_len s < 2 ^ 32" "os_inv t"
  shows "\<exists>t'. Receive (frame s @ r) t = Inr (t', r) \<and> os_inv t' \<and> contents t' = contents s \<and> os_ptr t' = 0"
proof -
  let ?n = "of_nat (os_len s) :: word64"
  have n: "unat ?n = os_len s" using assms(2) by (simp add: unat_of_nat)
  have d: "decode_length (octets_of 4 ?n) 4 = Inr ?n"
    using decode_encode_length [OF encode_small_length [OF assms(2)]] n
    by (simp add: encode_length_def decode_length_def word_of_octets_octets_of)
       (metis assms(2) encode_small_length decode_encode_length decode_length_def take_bit_nat_eq_self
         of_nat_take_bit)
  let ?t1 = "(resize_min (os_len s) (t\<lparr>os_len := 0\<rparr>))\<lparr>os_len := os_len s\<rparr>"
  have len: "length (contents s) = os_len s" using assms(1) by (rule length_contents)
  have mx: "os_len s \<le> length (os_buf (resize_min (os_len s) (t\<lparr>os_len := 0\<rparr>)))"
    by (auto simp: resize_min_def resize_precise_def mxlen_def)
  have "\<exists>t'. poke ?t1 0 (contents s) = Inr t' \<and> os_len t' = os_len s \<and> os_len s \<le> length (os_buf t')
        \<and> take (os_len s) (os_buf t') = contents s"
    using mx len by (auto simp: poke_def mxlen_def)
  then show ?thesis
    using d n len by (auto simp: Receive_def receive_octets_def frame_def LENGTH_SIZE_def Let_def
        reset_read_head_def os_defs)
qed

subsection \<open>Independence of the schedule\<close>

text \<open>Steps of different parties commute: each connection has one writer and one reader.\<close>

lemma comm_do_cases:
  assumes "comm_do i c = Some c'"
  obtains (send) p k xs w where "todo c i = SendTo p k # xs" "k < length (streams c i)"
      "\<And>u. Send (streams c i ! k) u = Inr (u @ w)"
      "c' = c\<lparr>todo := (todo c)(i := xs), chan := (chan c)(i := (chan c i)(p := chan c i p @ w))\<rparr>"
  | (recv) p k xs s q where "todo c i = ReceiveFrom p k # xs" "k < length (streams c i)"
      "\<And>u. Receive (chan c p i @ u) (reset_write_head (streams c i ! k)) = Inr (s, q @ u)"
      "c' = c\<lparr>todo := (todo c)(i := xs), streams := (streams c)(i := (streams c i)[k := s]),
              chan := (chan c)(p := (chan c p)(i := q))\<rparr>"
proof (cases "todo c i")
  case Nil
  with assms show ?thesis by (simp add: comm_do_def)
next
  case (Cons x xs)
  show ?thesis
  proof (cases x)
    case (SendTo p k)
    with assms Cons have k: "k < length (streams c i)"
        and "\<exists>w. \<forall>u. Send (streams c i ! k) u = Inr (u @ w)"
      by (auto simp: comm_do_def Send_def bindE_eq_Inr split: if_splits sum.splits)
    then obtain w where "\<And>u. Send (streams c i ! k) u = Inr (u @ w)" by blast
    with assms Cons SendTo k show ?thesis by (auto simp: comm_do_def intro!: send)
  next
    case (ReceiveFrom p k)
    with assms Cons show ?thesis
      by (auto simp: comm_do_def split: if_splits sum.splits prod.splits intro!: recv Receive_append)
  qed
qed

lemma comm_do_commute:
  assumes ij: "i \<noteq> j" and a: "comm_do i c = Some a" and b: "comm_do j c = Some b"
  shows "\<exists>d. comm_do j a = Some d \<and> comm_do i b = Some d"
  using a
proof (cases rule: comm_do_cases)
  case i: send
  from b show ?thesis
  proof (cases rule: comm_do_cases)
    case send
    with i ij show ?thesis by (auto simp: comm_do_def fun_upd_twist)
  next
    case (recv p k xs s q)
    with i ij recv(3) [of "[]"] show ?thesis
      by (auto simp: comm_do_def fun_upd_twist fun_eq_iff split: if_splits)
  qed
next
  case i: (recv p k xs s q)
  from b show ?thesis
  proof (cases rule: comm_do_cases)
    case send
    with i ij i(3) [of "[]"] show ?thesis
      by (auto simp: comm_do_def fun_upd_twist fun_eq_iff split: if_splits)
  next
    case (recv p' k' ys s' q')
    with i ij i(3) [of "[]"] recv(3) [of "[]"] show ?thesis
      by (auto simp: comm_do_def fun_upd_twist fun_eq_iff split: if_splits)
  qed
qed

text \<open>A run that finishes is reached from every other point: no schedule can deadlock or differ.\<close>

lemma comm_step_diamond:
  assumes "comm_step c a" "comm_step c b"
  shows "a = b \<or> (\<exists>d. comm_step a d \<and> comm_step b d)"
  using assms comm_do_commute by (metis comm_step.simps option.inject)

lemma run_schedule_steps: "run_schedule is c = Some c' \<Longrightarrow> comm_step\<^sup>*\<^sup>* c c'"
proof (induction "is" arbitrary: c)
  case Nil
  then show ?case by simp
next
  case (Cons i "is")
  then obtain d where "comm_do i c = Some d" "run_schedule is d = Some c'"
    by (auto split: option.splits)
  with Cons.IH show ?case by (meson comm_step.step converse_rtranclp_into_rtranclp)
qed

lemma finished_stuck: "finished c \<Longrightarrow> \<not> comm_step c d"
  by (auto simp: finished_def comm_do_def elim!: comm_stepE)

text \<open>One step from anywhere on the way keeps the finished state reachable.\<close>

lemma finished_step_back:
  assumes "comm_step\<^sup>*\<^sup>* c f" "finished f" "comm_step c d"
  shows "comm_step\<^sup>*\<^sup>* d f"
  using assms(1,3)
proof (induction arbitrary: d rule: converse_rtranclp_induct)
  case base
  then show ?case using finished_stuck assms(2) by blast
next
  case (step c e)
  show ?case
  proof (cases "e = d")
    case True
    with step.hyps show ?thesis by simp
  next
    case False
    with step obtain g where g: "comm_step e g" "comm_step d g"
      using comm_step_diamond by blast
    then show ?thesis using step.IH by (meson converse_rtranclp_into_rtranclp)
  qed
qed

lemma schedule_independent:
  assumes "run_schedule is c = Some f" "finished f" "comm_step\<^sup>*\<^sup>* c d"
  shows "comm_step\<^sup>*\<^sup>* d f"
  using assms(3)
proof induction
  case base
  then show ?case using run_schedule_steps assms(1) .
next
  case (step d e)
  then show ?case using finished_step_back assms(2) by blast
qed

lemma schedule_result_unique:
  assumes "run_schedule is c = Some f" "finished f" "comm_step\<^sup>*\<^sup>* c d" "\<forall>e. \<not> comm_step d e"
  shows "d = f"
  using schedule_independent [OF assms(1-3)] assms(4) by (meson converse_rtranclpE)

end
