(* ===== verification/Parties.thy ===== *)
theory Parties
  imports Player
begin

text \<open>
  Three parties: functions of the party number, and the round in which every party passes one
  stream around the ring (\<^verbatim>\<open>Player::pass_around\<close>), in either direction.
\<close>

unbundle bit_operations_syntax

definition three :: "'a \<Rightarrow> 'a \<Rightarrow> 'a \<Rightarrow> nat \<Rightarrow> 'a" where
  "three a b c i = (if i = 0 then a else if i = 1 then b else c)"

lemma three_simps [simp]: "three a b c 0 = a" "three a b c 1 = b" "three a b c (Suc 0) = b" "three a b c 2 = c"
  by (simp_all add: three_def)

lemma all_lt_3: "(\<forall>i < 3. P i) \<longleftrightarrow> P 0 \<and> P 1 \<and> P (2 :: nat)"
  by (auto simp: numeral_eq_Suc less_Suc_eq)

lemma three_fun: "i < 3 \<Longrightarrow> three (g 0) (g 1) (g 2) i = g i"
  by (auto simp: three_def numeral_eq_Suc less_Suc_eq)

lemma comp_three: "g \<circ> three a b c = three (g a) (g b) (g c)"
  by (simp add: three_def fun_eq_iff)

text \<open>One operation of every party.\<close>

definition parE :: "(nat \<Rightarrow> 'a res) \<Rightarrow> (nat \<Rightarrow> 'a) res" where
  "parE f = bindE (f 0) (\<lambda>a. bindE (f 1) (\<lambda>b. bindE (f 2) (\<lambda>c. Inr (three a b c))))"

lemma parE_Inr:
  assumes "\<And>i. i < 3 \<Longrightarrow> f i = Inr (g i)"
  shows "parE f = Inr (three (g 0) (g 1) (g 2))"
  using assms [of 0] assms [of 1] assms [of 2] by (simp add: parE_def)

subsection \<open>Messages that arrive\<close>

lemma get_player_3:
  "get_player 3 0 1 = 1" "get_player 3 1 1 = 2" "get_player 3 2 1 = 0"
  "get_player 3 0 (- 1) = 2" "get_player 3 1 (- 1) = 0" "get_player 3 2 (- 1) = 1"
  by (simp_all add: get_player_def positive_modulo_def signed_modulo_int_def)

definition small :: "octetStream \<Rightarrow> bool" where
  "small s \<longleftrightarrow> os_inv s \<and> os_len s < 2 ^ 32"

definition holds :: "octetStream \<Rightarrow> octet list \<Rightarrow> bool" where
  "holds s bs \<longleftrightarrow> os_inv s \<and> unread s = bs"

lemma Receive_small:
  assumes "small s"
  shows "\<exists>t'. Receive (frame s) (reset_write_head t) = Inr (t', []) \<and> holds t' (contents s) \<and> contents t' = contents s"
  using Receive_frame [of s "reset_write_head t" "[]"] assms
  by (auto simp: small_def holds_def unread_def)

lemma Send_small: "small s \<Longrightarrow> Send s q = Inr (q @ frame s)"
  by (simp add: small_def Send_frame)

subsection \<open>Passing around\<close>

text \<open>
  Every party sends its stream number \<open>ks\<close> to the party at \<open>offset\<close> and receives
  into its stream number \<open>kr\<close> from the other side.
\<close>

definition ring_net :: "int \<Rightarrow> nat \<Rightarrow> nat \<Rightarrow> (nat \<Rightarrow> octetStream list) \<Rightarrow> net" where
  "ring_net offset ks kr st =
     \<lparr>todo = (\<lambda>i. if i < 3 then pass_around 3 i ks kr offset else []), streams = st, chan = (\<lambda>_ _. [])\<rparr>"

definition ring_schedule :: "nat list" where
  "ring_schedule = [0, 1, 2, 0, 1, 2]"

lemma ring_run_contents:
  assumes "offset = 1 \<or> offset = - 1" "\<And>i. i < 3 \<Longrightarrow> ks < length (st i) \<and> kr < length (st i) \<and> small (st i ! ks)"
  shows "\<exists>r c. run_schedule ring_schedule (ring_net offset ks kr st) = Some c \<and> finished c \<and>
    (\<forall>i < 3. streams c i = (st i)[kr := r i] \<and> holds (r i) (contents (st (get_player 3 i (- offset)) ! ks)) \<and>
      contents (r i) = contents (st (get_player 3 i (- offset)) ! ks))"
proof -
  define r where "r = (\<lambda>i. SOME t'. Receive (frame (st (get_player 3 i (- offset)) ! ks)) (reset_write_head (st i ! kr)) = Inr (t', [])
      \<and> holds t' (contents (st (get_player 3 i (- offset)) ! ks)) \<and> contents t' = contents (st (get_player 3 i (- offset)) ! ks))"
  have gp: "get_player 3 i (- offset) < 3" if "i < 3" for i
    by (simp add: get_player_def positive_modulo_mod)
  have r: "Receive (frame (st (get_player 3 i (- offset)) ! ks)) (reset_write_head (st i ! kr)) = Inr (r i, [])
      \<and> holds (r i) (contents (st (get_player 3 i (- offset)) ! ks)) \<and> contents (r i) = contents (st (get_player 3 i (- offset)) ! ks)" if "i < 3" for i
    unfolding r_def using Receive_small [of "st (get_player 3 i (- offset)) ! ks" "st i ! kr"] assms(2) [OF gp [OF that]]
    by (rule_tac someI_ex) blast
  have st: "ks < length (st i)" "kr < length (st i)" "Send (st i ! ks) q = Inr (q @ frame (st i ! ks))" if "i < 3" for i q
    using assms(2) [OF that] by (auto simp: Send_small)
  note net = ring_schedule_def ring_net_def pass_around_def send_relative_def receive_relative_def comm_do_def
    get_player_3 [unfolded One_nat_def]
  from assms(1) show ?thesis
  proof
    assume o: "offset = 1"
    show ?thesis
      using r [of 0] r [of 1] r [of 2] st [of 0] st [of 1] st [of 2]
      by (intro exI [of _ r]) (simp add: net o finished_def all_lt_3)
  next
    assume o: "offset = - 1"
    show ?thesis
      using r [of 0] r [of 1] r [of 2] st [of 0] st [of 1] st [of 2]
      by (intro exI [of _ r]) (simp add: net o finished_def all_lt_3)
  qed
qed

lemma ring_run:
  assumes "offset = 1 \<or> offset = - 1" "\<And>i. i < 3 \<Longrightarrow> ks < length (st i) \<and> kr < length (st i) \<and> small (st i ! ks)"
  shows "\<exists>r c. run_schedule ring_schedule (ring_net offset ks kr st) = Some c \<and> finished c \<and>
    (\<forall>i < 3. streams c i = (st i)[kr := r i] \<and> holds (r i) (contents (st (get_player 3 i (- offset)) ! ks)))"
  using ring_run_contents [of offset ks st kr, OF assms] by blast

end
