(* ===== verification/ValueOps.thy ===== *)
theory ValueOps
  imports FixedVec Parties
begin

text \<open>
  The interface between a protocol and the type of the values it shares. The protocol
  templates (\<^verbatim>\<open>Replicated<T>\<close>, \<^verbatim>\<open>ReplicatedMC<T>\<close>, \<^verbatim>\<open>ReplicatedInput<T>\<close>) call
  arithmetic, \<^verbatim>\<open>randomize\<close>, \<^verbatim>\<open>pack\<close> and \<^verbatim>\<open>unpack\<close> of \<open>T::clear\<close>; a record carries
  these operations, a locale their laws. The bit vectors (\<^verbatim>\<open>Math/BitVec.h\<close>) and the 64-bit
  integers modulo \<open>2 ^ 64\<close> are the instances. A bit count is \<open>None\<close> where the call leaves the
  default argument.
\<close>

unbundle bit_operations_syntax

record 'a value_ops =
  v_add :: "'a \<Rightarrow> 'a \<Rightarrow> 'a"
  v_sub :: "'a \<Rightarrow> 'a \<Rightarrow> 'a"
  v_mul :: "'a \<Rightarrow> 'a \<Rightarrow> 'a"
  v_zero :: 'a
  v_rand :: "cipher \<Rightarrow> prng \<Rightarrow> nat option \<Rightarrow> 'a \<times> prng"
  v_pack :: "nat option \<Rightarrow> 'a \<Rightarrow> octetStream \<Rightarrow> octetStream res"
  v_unpack :: "nat option \<Rightarrow> octetStream \<Rightarrow> ('a \<times> octetStream) res"
  v_size :: nat

definition bitvec_ops :: "bitvec value_ops" where
  "bitvec_ops = \<lparr>v_add = bv_add, v_sub = bv_sub, v_mul = bv_mul, v_zero = 0,
     v_rand = (\<lambda>E G n. case n of None \<Rightarrow> bv_randomize E G 64 | Some k \<Rightarrow> bv_randomize E G k),
     v_pack = (\<lambda>n x. case n of None \<Rightarrow> bv_pack_full x | Some k \<Rightarrow> bv_pack k x),
     v_unpack = (\<lambda>n. case n of None \<Rightarrow> bv_unpack_full | Some k \<Rightarrow> bv_unpack k),
     v_size = 8\<rparr>"

text \<open>The same word as an integer, \<^verbatim>\<open>Integer\<close>: wrapping arithmetic, always eight octets.\<close>

definition integer_ops :: "integer64 value_ops" where
  "integer_ops = \<lparr>v_add = Integer_add, v_sub = Integer_sub, v_mul = Integer_mul, v_zero = 0,
     v_rand = (\<lambda>E G n. IntBase_randomize E G),
     v_pack = (\<lambda>n x. IntBase_pack x), v_unpack = (\<lambda>n. IntBase_unpack), v_size = 8\<rparr>"

text \<open>
  The laws: a commutative ring, a codec for every bit count \<open>okn n\<close> on the values that fit,
  random values that fit, and fitting values closed under the ring operations.
\<close>

locale value_type = additive "v_add R" "v_sub R" "v_zero R" for R :: "'a value_ops" +
  fixes okn :: "nat option \<Rightarrow> bool" and fit :: "nat option \<Rightarrow> 'a \<Rightarrow> bool"
    and enc :: "nat option \<Rightarrow> 'a \<Rightarrow> octet list"
  assumes mul_add: "v_mul R a (v_add R b c) = v_add R (v_mul R a b) (v_mul R a c)"
    and mul_commute: "v_mul R a b = v_mul R b a"
    and okn_full: "okn None" "fit None a"
    and fit_add: "fit n a \<Longrightarrow> fit n b \<Longrightarrow> fit n (v_add R a b)"
    and fit_sub: "fit n a \<Longrightarrow> fit n b \<Longrightarrow> fit n (v_sub R a b)"
    and fit_mul: "fit n a \<Longrightarrow> fit n b \<Longrightarrow> fit n (v_mul R a b)"
    and fit_rand: "fit n (fst (v_rand R E G n))"
    and pack_codec: "codec (v_pack R n) (v_unpack R n) (enc n) (\<lambda>a. okn n \<and> fit n a)"
    and enc_size: "okn n \<Longrightarrow> length (enc n a) \<le> v_size R"
begin

lemmas add_ac = add_assoc add_commute add_left_commute

lemma add_mul: "v_mul R (v_add R a b) c = v_add R (v_mul R a c) (v_mul R b c)"
  using mul_add [of c a b] by (simp add: mul_commute)

lemma pack_ok: "os_inv s \<Longrightarrow> okn n \<Longrightarrow> fit n a \<Longrightarrow> \<exists>s'. v_pack R n a s = Inr s' \<and> extends (enc n a) s s'"
  using codec.put_ok [OF pack_codec] by blast

lemma unpack_ok: "os_inv s \<Longrightarrow> okn n \<Longrightarrow> fit n a \<Longrightarrow> unread s = enc n a @ r
    \<Longrightarrow> \<exists>s'. v_unpack R n s = Inr (a, s') \<and> os_inv s' \<and> unread s' = r"
  using codec.get_ok [OF pack_codec] by blast

lemma eq_sub: "v_add R a b = c \<Longrightarrow> a = v_sub R c b"
  using sub_add_cancel [of a b] by simp

end

definition bv_okn :: "nat option \<Rightarrow> bool" where
  "bv_okn n \<longleftrightarrow> (case n of None \<Rightarrow> True | Some k \<Rightarrow> k \<le> 64)"

definition bv_fit :: "nat option \<Rightarrow> bitvec \<Rightarrow> bool" where
  "bv_fit n a \<longleftrightarrow> (case n of None \<Rightarrow> True | Some k \<Rightarrow> fits k a)"

definition bv_enc :: "nat option \<Rightarrow> bitvec \<Rightarrow> octet list" where
  "bv_enc n a = (case n of None \<Rightarrow> octets_of 8 a | Some k \<Rightarrow> octets_of (DIV_CEIL k 8) a)"

lemmas bv_value_defs = bv_okn_def bv_fit_def bv_enc_def bitvec_ops_def

interpretation bvt: value_type bitvec_ops bv_okn bv_fit bv_enc
proof (unfold_locales, goal_cases)
  case (12 n E G)
  then show ?case
    using fits_randomize by (auto simp: bv_value_defs split: option.splits) (metis prod.collapse)
next
  case (13 n s a)
  then show ?case
    using bv_codec.put_ok [of s] bv_full_codec.put_ok [of s a]
    by (cases n) (auto simp: bv_value_defs)
next
  case (14 n s a r)
  then show ?case
    using bv_codec.get_ok [of s] bv_full_codec.get_ok [of s a r]
    by (cases n) (auto simp: bv_value_defs)
qed (auto simp: bv_value_defs bv_defs xor_simps DIV_CEIL_le fits_ring [unfolded bv_defs] split: option.splits)

lemma IntBase_codec:
  "os_inv s \<Longrightarrow> \<exists>s'. IntBase_pack a s = Inr s' \<and> extends (octets_of 8 a) s s'"
  "os_inv s \<Longrightarrow> unread s = octets_of 8 a @ r \<Longrightarrow>
     \<exists>s'. IntBase_unpack s = Inr (a, s') \<and> os_inv s' \<and> unread s' = r \<and> contents s' = contents s"
  using int_codec.put_ok [of s 8 a] int_codec.get_ok [of s 8 a r]
  by (simp_all add: IntBase_pack_def IntBase_unpack_def take_bit_word_eq_self)

interpretation itv: value_type integer_ops "\<lambda>_. True" "\<lambda>_ _. True" "\<lambda>_. octets_of 8"
  by unfold_locales
     (auto simp: integer_ops_def Integer_add_def Integer_sub_def Integer_mul_def algebra_simps IntBase_codec)

end
