(* ===== verification/PointerVector.thy ===== *)
theory PointerVector
  imports Prelude
begin

text \<open>
  \<^verbatim>\<open>Tools/PointerVector.h\<close>: a vector with a read pointer. Protocols push the values they
  must keep while a round is in flight and take them back in the same order. \<open>next\<close> past
  the end is the unchecked \<^verbatim>\<open>operator[]\<close> of the vector.
\<close>

record 'a pointer_vector =
  pv_items :: "'a list"
  pv_i :: nat

definition pv_of :: "'a list \<Rightarrow> 'a pointer_vector" where
  "pv_of other = \<lparr>pv_items = other, pv_i = 0\<rparr>"

definition pv_clear :: "'a pointer_vector \<Rightarrow> 'a pointer_vector" where
  "pv_clear v = v\<lparr>pv_items := [], pv_i := 0\<rparr>"

definition pv_push :: "'a \<Rightarrow> 'a pointer_vector \<Rightarrow> 'a pointer_vector" where
  "pv_push x v = v\<lparr>pv_items := pv_items v @ [x]\<rparr>"

definition pv_next :: "'a pointer_vector \<Rightarrow> ('a \<times> 'a pointer_vector) res" where
  "pv_next v = bindE (nthE (pv_items v) (pv_i v)) (\<lambda>x. Inr (x, v\<lparr>pv_i := pv_i v + 1\<rparr>))"

definition pv_rest :: "'a pointer_vector \<Rightarrow> 'a list" where
  "pv_rest v = drop (pv_i v) (pv_items v)"

definition pv_inv :: "'a pointer_vector \<Rightarrow> bool" where
  "pv_inv v \<longleftrightarrow> pv_i v \<le> length (pv_items v)"

text \<open>The contract of a queue read behind its writes.\<close>

locale fifo =
  fixes push :: "'a \<Rightarrow> 'q \<Rightarrow> 'q" and "next" :: "'q \<Rightarrow> ('a \<times> 'q) res"
    and rest :: "'q \<Rightarrow> 'a list" and inv :: "'q \<Rightarrow> bool"
  assumes push_rest: "inv q \<Longrightarrow> rest (push x q) = rest q @ [x] \<and> inv (push x q)"
    and next_rest: "inv q \<Longrightarrow> rest q = x # xs \<Longrightarrow> \<exists>q'. next q = Inr (x, q') \<and> rest q' = xs \<and> inv q'"
begin

lemma push_all: "inv q \<Longrightarrow> rest (fold push xs q) = rest q @ xs \<and> inv (fold push xs q)"
proof (induction xs arbitrary: q)
  case Nil
  then show ?case by simp
next
  case (Cons x xs)
  then show ?case using push_rest by simp
qed

lemma next_two:
  assumes "inv q" "rest q = x # y # xs"
  shows "\<exists>q1 q2. next q = Inr (x, q1) \<and> next q1 = Inr (y, q2) \<and> rest q2 = xs \<and> inv q2"
proof -
  obtain q1 where q1: "next q = Inr (x, q1)" "rest q1 = y # xs" "inv q1"
    using next_rest assms by blast
  then obtain q2 where "next q1 = Inr (y, q2)" "rest q2 = xs" "inv q2"
    using next_rest by blast
  with q1 show ?thesis by blast
qed

end

interpretation pv: fifo pv_push pv_next pv_rest pv_inv
proof (unfold_locales, goal_cases)
  case (1 q x)
  then show ?case by (simp add: pv_push_def pv_rest_def pv_inv_def)
next
  case (2 q x xs)
  then have "pv_i q < length (pv_items q)" "pv_items q ! pv_i q = x"
    by (auto simp: pv_rest_def pv_inv_def not_less[symmetric] nth_via_drop intro: ccontr)
  moreover have "drop (Suc (pv_i q)) (pv_items q) = xs"
    using 2 by (metis pv_rest_def drop_Suc tl_drop list.sel(3))
  ultimately show ?case
    by (simp add: pv_next_def pv_rest_def pv_inv_def)
qed

lemma pv_clear_simps [simp]: "pv_rest (pv_clear v) = []" "pv_inv (pv_clear v)"
  by (simp_all add: pv_clear_def pv_rest_def pv_inv_def)

end
