(* ===== verification/Rep3.thy ===== *)
theory Rep3
  imports ValueOps PointerVector
begin

text \<open>
  \<^verbatim>\<open>Protocols/Replicated.h\<close>, \<^verbatim>\<open>Protocols/Replicated.hpp\<close> and \<^verbatim>\<open>Protocols/Rep3Share.h\<close>:
  replicated secret sharing between three parties and its multiplication (one reshared product
  per gate), dot product and random values. Party \<open>i\<close> holds the \<open>i\<close>-th summand of the secret
  and that of the party before it. The theorems are proved from the laws of the value type and
  hold for every instance.
\<close>

unbundle bit_operations_syntax

record 'a replicated =
  rep_num :: nat
  rep_prngs :: "prng list"
  rep_os :: "octetStream list"
  rep_adds :: "'a pointer_vector"
  rep_dotprod :: 'a

subsection \<open>Operations\<close>

definition rep_assign :: "'a value_ops \<Rightarrow> 'a \<Rightarrow> nat \<Rightarrow> 'a fixedvec" where
  "rep_assign R value me =
     (let share = fv_const 2 (v_zero R) in if me < 2 then share[me := value] else share)"

definition local_mul :: "'a value_ops \<Rightarrow> 'a fixedvec \<Rightarrow> 'a fixedvec \<Rightarrow> 'a" where
  "local_mul R x y = v_add R (v_mul R (x ! 0) (fv_sum (v_add R) y)) (v_mul R (x ! 1) (y ! 0))"

definition rep_init_mul :: "'a replicated \<Rightarrow> 'a replicated" where
  "rep_init_mul s = s\<lparr>rep_os := map reset_write_head (take 2 (rep_os s) @ replicate (2 - length (rep_os s)) empty_stream),
     rep_adds := pv_clear (rep_adds s)\<rparr>"

definition prepare_reshare :: "'a value_ops \<Rightarrow> cipher \<Rightarrow> 'a \<Rightarrow> nat option \<Rightarrow> 'a replicated \<Rightarrow> 'a replicated res" where
  "prepare_reshare R E share n s =
     bindE (nthE (rep_prngs s) 0) (\<lambda>G0.
     bindE (nthE (rep_prngs s) 1) (\<lambda>G1.
     let (tmp0, G0') = v_rand R E G0 n;
         (tmp1, G1') = v_rand R E G1 n;
         add_share = v_add R share (v_sub R tmp0 tmp1)
     in bindE (nthE (rep_os s) 0) (\<lambda>o0.
        bindE (v_pack R n add_share o0) (\<lambda>o0'.
        Inr (s\<lparr>rep_prngs := (rep_prngs s)[0 := G0', 1 := G1'],
               rep_os := (rep_os s)[0 := o0'],
               rep_adds := pv_push add_share (rep_adds s)\<rparr>)))))"

definition rep_prepare_mul :: "'a value_ops \<Rightarrow> cipher \<Rightarrow> 'a fixedvec \<Rightarrow> 'a fixedvec \<Rightarrow> nat option \<Rightarrow> 'a replicated \<Rightarrow> 'a replicated res" where
  "rep_prepare_mul R E x y n s = prepare_reshare R E (local_mul R x y) n s"

definition rep_exchange_net :: "(nat \<Rightarrow> 'a replicated) \<Rightarrow> net" where
  "rep_exchange_net S = ring_net 1 0 1 (\<lambda>i. rep_os (S i))"

definition rep_exchange :: "(nat \<Rightarrow> 'a replicated) \<Rightarrow> (nat \<Rightarrow> 'a replicated) option" where
  "rep_exchange S = map_option (\<lambda>c i. (S i)\<lparr>rep_os := streams c i\<rparr>) (run_schedule ring_schedule (rep_exchange_net S))"

definition rep_finalize_mul :: "'a value_ops \<Rightarrow> nat option \<Rightarrow> 'a replicated \<Rightarrow> ('a fixedvec \<times> 'a replicated) res" where
  "rep_finalize_mul R n s =
     bindE (pv_next (rep_adds s)) (\<lambda>(r0, v).
     bindE (nthE (rep_os s) 1) (\<lambda>o1.
     bindE (v_unpack R n o1) (\<lambda>(r1, o1').
     Inr ([r0, r1], s\<lparr>rep_adds := v, rep_os := (rep_os s)[1 := o1']\<rparr>))))"

definition rep_init_dotprod :: "'a value_ops \<Rightarrow> 'a replicated \<Rightarrow> 'a replicated" where
  "rep_init_dotprod R s = (rep_init_mul s)\<lparr>rep_dotprod := v_zero R\<rparr>"

definition prepare_dotprod :: "'a value_ops \<Rightarrow> 'a fixedvec \<Rightarrow> 'a fixedvec \<Rightarrow> 'a replicated \<Rightarrow> 'a replicated" where
  "prepare_dotprod R x y s = s\<lparr>rep_dotprod := v_add R (rep_dotprod s) (local_mul R x y)\<rparr>"

definition next_dotprod :: "'a value_ops \<Rightarrow> cipher \<Rightarrow> 'a replicated \<Rightarrow> 'a replicated res" where
  "next_dotprod R E s = bindE (prepare_reshare R E (rep_dotprod s) None s) (\<lambda>s1. Inr (s1\<lparr>rep_dotprod := v_zero R\<rparr>))"

definition rep_finalize_dotprod :: "'a value_ops \<Rightarrow> 'a replicated \<Rightarrow> ('a fixedvec \<times> 'a replicated) res" where
  "rep_finalize_dotprod R s = rep_finalize_mul R None s"

definition rep_get_random :: "'a value_ops \<Rightarrow> cipher \<Rightarrow> 'a replicated \<Rightarrow> ('a fixedvec \<times> 'a replicated) res" where
  "rep_get_random R E s =
     bindE (nthE (rep_prngs s) 0) (\<lambda>G0.
     bindE (nthE (rep_prngs s) 1) (\<lambda>G1.
     let (r0, G0') = v_rand R E G0 None; (r1, G1') = v_rand R E G1 None
     in Inr ([r0, r1], s\<lparr>rep_prngs := (rep_prngs s)[0 := G0', 1 := G1']\<rparr>)))"

subsection \<open>Sharings\<close>

text \<open>\<^verbatim>\<open>rep3\<close>: neighbours agree on the summand they share, and the summands add up.\<close>

definition prv :: "nat \<Rightarrow> nat" where
  "prv i = (i + 2) mod 3"

definition rep3 :: "'a value_ops \<Rightarrow> 'a \<Rightarrow> (nat \<Rightarrow> 'a fixedvec) \<Rightarrow> bool" where
  "rep3 R v t \<longleftrightarrow> (\<forall>i < 3. t i = [t i ! 0, t (prv i) ! 0])
     \<and> v = v_add R (v_add R (t 0 ! 0) (t 1 ! 0)) (t 2 ! 0)"

definition rep_synced :: "(nat \<Rightarrow> 'a replicated) \<Rightarrow> bool" where
  "rep_synced S \<longleftrightarrow> (\<forall>i < 3. length (rep_prngs (S i)) = 2 \<and> rep_prngs (S i) ! 1 = rep_prngs (S (prv i)) ! 0)"

definition rep_inv :: "'a replicated \<Rightarrow> bool" where
  "rep_inv s \<longleftrightarrow> length (rep_os s) = 2 \<and> (\<forall>o1 \<in> set (rep_os s). os_inv o1) \<and> pv_inv (rep_adds s)"

lemma prv_simps [simp]: "prv 0 = 2" "prv 1 = 0" "prv (Suc 0) = 0" "prv 2 = 1"
  by (simp_all add: prv_def)

lemma get_player_prv: "i < 3 \<Longrightarrow> get_player 3 i (- 1) = prv i"
proof -
  assume "i < 3"
  then consider "i = 0" | "i = 1" | "i = 2" by linarith
  then show ?thesis by cases (use get_player_3 in auto)
qed

lemma rep3_shape:
  "rep3 R v t \<longleftrightarrow> t 0 = [t 0 ! 0, t 2 ! 0] \<and> t 1 = [t 1 ! 0, t 0 ! 0] \<and> t 2 = [t 2 ! 0, t 1 ! 0]
     \<and> v = v_add R (v_add R (t 0 ! 0) (t 1 ! 0)) (t 2 ! 0)"
  by (auto simp: rep3_def all_lt_3)

context value_type
begin

text \<open>The local products of the three parties add up to the product.\<close>

lemma local_mul_sum:
  assumes "rep3 R x s" "rep3 R y t"
  shows "v_add R (v_add R (local_mul R (s 0) (t 0)) (local_mul R (s 1) (t 1))) (local_mul R (s 2) (t 2)) = v_mul R x y"
proof -
  obtain s0 s1 s2 where s: "s 0 = [s0, s2]" "s 1 = [s1, s0]" "s 2 = [s2, s1]" "x = v_add R (v_add R s0 s1) s2"
    using assms(1) unfolding rep3_shape by metis
  obtain t0 t1 t2 where t: "t 0 = [t0, t2]" "t 1 = [t1, t0]" "t 2 = [t2, t1]" "y = v_add R (v_add R t0 t1) t2"
    using assms(2) unfolding rep3_shape by metis
  show ?thesis
    unfolding s t by (simp add: local_mul_def add_mul mul_add add_ac)
qed

text \<open>Adding and subtracting shares, and public constants.\<close>

lemma rep3_add:
  assumes "rep3 R x s" "rep3 R y t"
  shows "rep3 R (v_add R x y) (\<lambda>i. fv_add (v_add R) (s i) (t i))"
proof -
  obtain s0 s1 s2 where s: "s 0 = [s0, s2]" "s 1 = [s1, s0]" "s 2 = [s2, s1]" "x = v_add R (v_add R s0 s1) s2"
    using assms(1) unfolding rep3_shape by metis
  obtain t0 t1 t2 where t: "t 0 = [t0, t2]" "t 1 = [t1, t0]" "t 2 = [t2, t1]" "y = v_add R (v_add R t0 t1) t2"
    using assms(2) unfolding rep3_shape by metis
  show ?thesis
    unfolding rep3_shape s t by (simp add: fv_add_def add_ac)
qed

lemma telescope: "v_add R (v_add R (v_sub R a c) (v_sub R b a)) (v_sub R c b) = v_zero R"
proof -
  have "v_add R (v_add R (v_add R (v_sub R a c) (v_sub R b a)) (v_sub R c b)) b
      = v_add R (v_sub R b a) (v_add R (v_sub R a c) (v_add R (v_sub R c b) b))"
    by (simp only: add_ac)
  also have "\<dots> = v_add R (v_zero R) b" by (simp add: add_sub add_zero)
  finally show ?thesis by (metis sub_add_cancel)
qed

lemma sum_shift: "v_add R (v_add R (v_add R l0 a) (v_add R l1 b)) (v_add R l2 c)
    = v_add R (v_add R (v_add R l0 l1) l2) (v_add R (v_add R a b) c)"
  by (simp only: add_ac)

lemma rep3_constant: "rep3 R v (rep_assign R v)"
  by (auto simp: rep3_shape rep_assign_def fv_const_def numeral_eq_Suc add_zero add_commute [of _ "v_zero R"] Let_def)

end

subsection \<open>A batch of multiplications\<close>

text \<open>A gate: its bit count, its factors, and their shares.\<close>

record 'a rgate =
  rg_n :: "nat option"
  rg_x :: 'a
  rg_y :: 'a
  rg_sx :: "nat \<Rightarrow> 'a fixedvec"
  rg_sy :: "nat \<Rightarrow> 'a fixedvec"

definition rep_prepare_all :: "'a value_ops \<Rightarrow> cipher \<Rightarrow> 'a rgate list \<Rightarrow> nat \<Rightarrow> 'a replicated \<Rightarrow> 'a replicated res" where
  "rep_prepare_all R E gs i s = foldE (\<lambda>g. rep_prepare_mul R E (rg_sx g i) (rg_sy g i) (rg_n g)) gs s"

fun rep_finalize_all :: "'a value_ops \<Rightarrow> nat option list \<Rightarrow> 'a replicated \<Rightarrow> ('a fixedvec list \<times> 'a replicated) res" where
  "rep_finalize_all R [] s = Inr ([], s)"
| "rep_finalize_all R (n # ns) s =
     bindE (rep_finalize_mul R n s) (\<lambda>(x, s1). bindE (rep_finalize_all R ns s1) (\<lambda>(xs, s2). Inr (x # xs, s2)))"

definition rep_run :: "'a value_ops \<Rightarrow> cipher \<Rightarrow> 'a rgate list \<Rightarrow> (nat \<Rightarrow> 'a replicated)
    \<Rightarrow> (('a fixedvec list \<times> 'a replicated) \<times> ('a fixedvec list \<times> 'a replicated) \<times> ('a fixedvec list \<times> 'a replicated)) res" where
  "rep_run R E gs S =
     bindE (rep_prepare_all R E gs 0 (rep_init_mul (S 0))) (\<lambda>p0.
     bindE (rep_prepare_all R E gs 1 (rep_init_mul (S 1))) (\<lambda>p1.
     bindE (rep_prepare_all R E gs 2 (rep_init_mul (S 2))) (\<lambda>p2.
     (case rep_exchange (three p0 p1 p2) of
        None \<Rightarrow> Inl (Runtime_Error ''exchange blocked'')
      | Some q \<Rightarrow>
          bindE (rep_finalize_all R (map rg_n gs) (q 0)) (\<lambda>r0.
          bindE (rep_finalize_all R (map rg_n gs) (q 1)) (\<lambda>r1.
          bindE (rep_finalize_all R (map rg_n gs) (q 2)) (\<lambda>r2. Inr (r0, r1, r2))))))))"

text \<open>What \<open>prepare_reshare\<close> does to a party: one value sent to the next one and kept.\<close>

definition rep_did :: "'a replicated \<Rightarrow> octet list \<Rightarrow> 'a list \<Rightarrow> 'a replicated \<Rightarrow> bool" where
  "rep_did s e zs s' \<longleftrightarrow> rep_inv s' \<and> rep_num s' = rep_num s \<and>
     contents (rep_os s' ! 0) = contents (rep_os s ! 0) @ e \<and> pv_rest (rep_adds s') = pv_rest (rep_adds s) @ zs"

lemma rep_did_trans: "rep_did s e zs s' \<Longrightarrow> rep_did s' e' zs' s'' \<Longrightarrow> rep_did s (e @ e') (zs @ zs') s''"
  by (simp add: rep_did_def)

lemma rep_init_mul_fresh:
  "rep_inv (rep_init_mul s)" "rep_num (rep_init_mul s) = rep_num s" "rep_prngs (rep_init_mul s) = rep_prngs s"
  "contents (rep_os (rep_init_mul s) ! 0) = []" "pv_rest (rep_adds (rep_init_mul s)) = []"
  by (auto simp: rep_init_mul_def rep_inv_def nth_append)

context value_type
begin

definition gate_fit :: "'a rgate \<Rightarrow> bool" where
  "gate_fit g \<longleftrightarrow> okn (rg_n g) \<and> rep3 R (rg_x g) (rg_sx g) \<and> rep3 R (rg_y g) (rg_sy g) \<and>
     (\<forall>i < 3. \<forall>k < 2. fit (rg_n g) (rg_sx g i ! k) \<and> fit (rg_n g) (rg_sy g i ! k))"

lemma prepare_reshare_did:
  fixes E
  assumes "rep_inv s" "length (rep_prngs s) = 2" "okn n" "fit n x"
  defines "z \<equiv> v_add R x (v_sub R (fst (v_rand R E (rep_prngs s ! 0) n)) (fst (v_rand R E (rep_prngs s ! 1) n)))"
  shows "\<exists>s'. prepare_reshare R E x n s = Inr s' \<and> rep_did s (enc n z) [z] s' \<and> fit n z \<and>
    rep_prngs s' = [snd (v_rand R E (rep_prngs s ! 0) n), snd (v_rand R E (rep_prngs s ! 1) n)]"
proof -
  have z: "fit n z" unfolding z_def by (intro fit_add fit_sub fit_rand assms(4))
  have o: "os_inv (rep_os s ! 0)" "0 < length (rep_os s)" using assms(1) by (auto simp: rep_inv_def)
  obtain o' where o': "v_pack R n z (rep_os s ! 0) = Inr o'" "extends (enc n z) (rep_os s ! 0) o'"
    using pack_ok [OF o(1) assms(3) z] by blast
  have l: "rep_prngs s = [rep_prngs s ! 0, rep_prngs s ! 1]" using assms(2)
    by (auto simp: numeral_eq_Suc length_Suc_conv)
  show ?thesis
    using o' o z assms(1,2) pv.push_rest [of "rep_adds s" z] arg_cong [OF l, of "\<lambda>xs. xs[0 := a, 1 := b]" for a b]
    by (auto simp: prepare_reshare_def rep_did_def rep_inv_def extends_def z_def [symmetric, unfolded One_nat_def] split_beta Let_def
        dest!: set_update_subset_insert [THEN subsetD])
qed

lemma fit_fv_sum: "length y = 2 \<Longrightarrow> fit n (y ! 0) \<Longrightarrow> fit n (y ! 1) \<Longrightarrow> fit n (fv_sum (v_add R) y)"
  by (auto simp: numeral_eq_Suc length_Suc_conv intro: fit_add)

lemma rep3_length: "rep3 R x t \<Longrightarrow> i < 3 \<Longrightarrow> length (t i) = 2"
  unfolding rep3_def by (metis One_nat_def Suc_1 length_Cons list.size(3))

text \<open>One gate, all parties: the masks cancel around the ring.\<close>

lemma rep_prepare_gate:
  assumes S: "\<And>i. i < 3 \<Longrightarrow> rep_inv (S i)" "rep_synced S" and g: "gate_fit g"
  shows "\<exists>S' z. rep_synced S' \<and> v_add R (v_add R (z 0) (z 1)) (z 2) = v_mul R (rg_x g) (rg_y g) \<and>
    (\<forall>i < 3. rep_prepare_mul R E (rg_sx g i) (rg_sy g i) (rg_n g) (S i) = Inr (S' i) \<and>
       rep_did (S i) (enc (rg_n g) (z i)) [z i] (S' i) \<and> fit (rg_n g) (z i))"
proof -
  let ?n = "rg_n g" and ?l = "\<lambda>i. local_mul R (rg_sx g i) (rg_sy g i)"
  let ?r = "\<lambda>i j. fst (v_rand R E (rep_prngs (S i) ! j) ?n)" and ?h = "\<lambda>i j. snd (v_rand R E (rep_prngs (S i) ! j) ?n)"
  define z where "z = (\<lambda>i. v_add R (?l i) (v_sub R (?r i 0) (?r i 1)))"
  have sy: "length (rep_prngs (S i)) = 2" "rep_prngs (S i) ! 1 = rep_prngs (S (prv i)) ! 0" if "i < 3" for i
    using S(2) that by (auto simp: rep_synced_def)
  have fl: "fit ?n (?l i)" if "i < 3" for i
    using g that rep3_length [of "rg_y g" "rg_sy g" i] unfolding local_mul_def gate_fit_def
    by (intro fit_add fit_mul fit_fv_sum) auto
  have "\<exists>s'. rep_prepare_mul R E (rg_sx g i) (rg_sy g i) ?n (S i) = Inr s' \<and> rep_did (S i) (enc ?n (z i)) [z i] s' \<and>
      fit ?n (z i) \<and> rep_prngs s' = [?h i 0, ?h i 1]" if "i < 3" for i
    using prepare_reshare_did [OF S(1) [OF that] sy(1) [OF that] _ fl [OF that], of E] g
    by (auto simp: rep_prepare_mul_def z_def gate_fit_def)
  then obtain S' where S': "\<And>i. i < 3 \<Longrightarrow> rep_prepare_mul R E (rg_sx g i) (rg_sy g i) ?n (S i) = Inr (S' i) \<and>
      rep_did (S i) (enc ?n (z i)) [z i] (S' i) \<and> fit ?n (z i) \<and> rep_prngs (S' i) = [?h i 0, ?h i 1]" by metis
  have "rep_synced S'"
    using S' sy(2) by (auto simp: rep_synced_def all_lt_3)
  moreover have "v_add R (v_add R (z 0) (z 1)) (z 2) = v_mul R (rg_x g) (rg_y g)"
  proof -
    let ?a = "?r 0 0" and ?b = "?r 1 0" and ?c = "?r 2 0"
    have r: "?r 0 1 = ?c" "?r 1 1 = ?a" "?r 2 1 = ?b" using sy(2) [of 0] sy(2) [of 1] sy(2) [of 2] by auto
    have "v_add R (v_add R (v_sub R ?a ?c) (v_sub R ?b ?a)) (v_sub R ?c ?b) = v_zero R"
      by (rule telescope)
    moreover have "v_add R (v_add R (?l 0) (?l 1)) (?l 2) = v_mul R (rg_x g) (rg_y g)"
      using g local_mul_sum by (auto simp: gate_fit_def)
    ultimately show ?thesis
      unfolding z_def r sum_shift by (simp add: add_zero add_commute [of _ "v_zero R"])
  qed
  ultimately show ?thesis using S' by blast
qed

text \<open>A batch: the values sent are those kept, and per gate they add up to the product.\<close>

abbreviation sent :: "'a rgate list \<Rightarrow> (nat \<Rightarrow> 'a) list \<Rightarrow> nat \<Rightarrow> octet list" where
  "sent gs zs i \<equiv> concat (map2 (\<lambda>g z. enc (rg_n g) (z i)) gs zs)"

definition zs_ok :: "'a rgate \<Rightarrow> (nat \<Rightarrow> 'a) \<Rightarrow> bool" where
  "zs_ok g z \<longleftrightarrow> okn (rg_n g) \<and> (\<forall>i < 3. fit (rg_n g) (z i)) \<and>
     v_add R (v_add R (z 0) (z 1)) (z 2) = v_mul R (rg_x g) (rg_y g)"

lemma rep_prepare_batch:
  assumes "\<And>i. i < 3 \<Longrightarrow> rep_inv (S i)" "rep_synced S" "\<forall>g \<in> set gs. gate_fit g"
  shows "\<exists>S' zs. rep_synced S' \<and> list_all2 zs_ok gs zs \<and>
    (\<forall>i < 3. rep_prepare_all R E gs i (S i) = Inr (S' i) \<and> rep_did (S i) (sent gs zs i) (map (\<lambda>z. z i) zs) (S' i))"
  using assms
proof (induction gs arbitrary: S)
  case Nil
  then show ?case
    by (intro exI [of _ S] exI [of _ "[]"]) (auto simp: rep_prepare_all_def rep_did_def)
next
  case (Cons g gs)
  have gf: "gate_fit g" using Cons.prems(3) by simp
  obtain S1 z where 1: "rep_synced S1" "v_add R (v_add R (z 0) (z 1)) (z 2) = v_mul R (rg_x g) (rg_y g)"
    "\<And>i. i < 3 \<Longrightarrow> rep_prepare_mul R E (rg_sx g i) (rg_sy g i) (rg_n g) (S i) = Inr (S1 i) \<and>
       rep_did (S i) (enc (rg_n g) (z i)) [z i] (S1 i) \<and> fit (rg_n g) (z i)"
    using rep_prepare_gate [OF Cons.prems(1,2) gf] by blast
  then obtain S' zs where 2: "rep_synced S'" "list_all2 zs_ok gs zs"
    "\<And>i. i < 3 \<Longrightarrow> rep_prepare_all R E gs i (S1 i) = Inr (S' i) \<and> rep_did (S1 i) (sent gs zs i) (map (\<lambda>z. z i) zs) (S' i)"
    using Cons.IH [of S1] Cons.prems(3) unfolding rep_did_def by auto
  have "rep_prepare_all R E (g # gs) i (S i) = Inr (S' i) \<and>
      rep_did (S i) (sent (g # gs) (z # zs) i) (map (\<lambda>z. z i) (z # zs)) (S' i)" if "i < 3" for i
    using 1(3) [OF that] 2(3) [OF that] rep_did_trans [of "S i" _ _ "S1 i"] by (fastforce simp: rep_prepare_all_def)
  moreover have "zs_ok g z" using 1 gf by (auto simp: zs_ok_def gate_fit_def)
  ultimately show ?case using 2(1,2) by (intro exI [of _ S'] exI [of _ "z # zs"]) simp
qed

text \<open>Reading a batch back.\<close>

definition rep_avail :: "'a replicated \<Rightarrow> octet list \<Rightarrow> 'a list \<Rightarrow> bool" where
  "rep_avail s u zs \<longleftrightarrow> rep_inv s \<and> (\<exists>r. unread (rep_os s ! 1) = u @ r) \<and> (\<exists>r. pv_rest (rep_adds s) = zs @ r)"

lemma rep_finalize_gate:
  assumes "rep_avail s (enc n y @ u) (z # zs)" "okn n" "fit n y"
  shows "\<exists>s'. rep_finalize_mul R n s = Inr ([z, y], s') \<and> rep_avail s' u zs \<and> rep_num s' = rep_num s \<and> rep_prngs s' = rep_prngs s"
proof -
  from assms(1) obtain r r' where r: "unread (rep_os s ! 1) = enc n y @ (u @ r)" "pv_rest (rep_adds s) = z # (zs @ r')"
      and inv: "rep_inv s" by (auto simp: rep_avail_def)
  obtain q where q: "pv_next (rep_adds s) = Inr (z, q)" "pv_rest q = zs @ r'" "pv_inv q"
    using pv.next_rest [OF _ r(2)] inv by (auto simp: rep_inv_def)
  have o: "os_inv (rep_os s ! 1)" "1 < length (rep_os s)" using inv by (auto simp: rep_inv_def)
  obtain o' where o': "v_unpack R n (rep_os s ! 1) = Inr (y, o')" "os_inv o'" "unread o' = u @ r"
    using unpack_ok [OF o(1) assms(2,3) r(1)] by blast
  show ?thesis
    using q o' o inv by (auto simp: rep_finalize_mul_def rep_avail_def rep_inv_def dest!: set_update_subset_insert [THEN subsetD])
qed

lemma rep_finalize_batch:
  assumes "list_all2 zs_ok gs zs" "i < 3" "rep_avail s (sent gs zs (prv i)) (map (\<lambda>z. z i) zs)"
  shows "\<exists>s'. rep_finalize_all R (map rg_n gs) s = Inr (map (\<lambda>z. [z i, z (prv i)]) zs, s') \<and> rep_num s' = rep_num s
     \<and> rep_prngs s' = rep_prngs s"
  using assms
proof (induction arbitrary: s rule: list_all2_induct)
  case Nil
  then show ?case by simp
next
  case (Cons g gs z zs)
  have p: "prv i < 3" by (simp add: prv_def)
  have A: "rep_avail s (enc (rg_n g) (z (prv i)) @ sent gs zs (prv i)) (z i # map (\<lambda>z. z i) zs)"
    using Cons.prems(2) by simp
  obtain s1 where "rep_finalize_mul R (rg_n g) s = Inr ([z i, z (prv i)], s1)" "rep_avail s1 (sent gs zs (prv i)) (map (\<lambda>z. z i) zs)"
      "rep_num s1 = rep_num s" "rep_prngs s1 = rep_prngs s"
    using rep_finalize_gate [OF A] Cons.hyps(1) p by (auto simp: zs_ok_def)
  with Cons.IH [OF Cons.prems(1), of s1] show ?case by auto
qed

lemma length_sent: "list_all2 zs_ok gs zs \<Longrightarrow> length (sent gs zs i) \<le> v_size R * length gs"
proof (induction rule: list_all2_induct)
  case Nil
  then show ?case by simp
next
  case (Cons g gs z zs)
  then show ?case using enc_size [of "rg_n g" "z i"] by (simp add: zs_ok_def)
qed

lemma rep_exchange_available:
  assumes P: "\<And>i. i < 3 \<Longrightarrow> rep_did (rep_init_mul (S i)) (sent gs zs i) (map (\<lambda>z. z i) zs) (P i)"
    and zs: "list_all2 zs_ok gs zs" and size: "v_size R * length gs < 2 ^ 32"
  shows "\<exists>Q. rep_exchange P = Some Q \<and> (\<forall>i < 3. rep_avail (Q i) (sent gs zs (prv i)) (map (\<lambda>z. z i) zs)
     \<and> rep_num (Q i) = rep_num (P i) \<and> rep_prngs (Q i) = rep_prngs (P i))"
proof -
  have c: "rep_inv (P i)" "contents (rep_os (P i) ! 0) = sent gs zs i" "pv_rest (rep_adds (P i)) = map (\<lambda>z. z i) zs"
    if "i < 3" for i
    using P [OF that] by (auto simp: rep_did_def rep_init_mul_fresh)
  have sm: "0 < length (rep_os (P i)) \<and> 1 < length (rep_os (P i)) \<and> small (rep_os (P i) ! 0)" if "i < 3" for i
    using c [OF that] length_sent [OF zs, of i] size length_contents [of "rep_os (P i) ! 0"] by (auto simp: rep_inv_def small_def)
  obtain r c' where R: "run_schedule ring_schedule (ring_net 1 0 1 (\<lambda>i. rep_os (P i))) = Some c'"
      "\<And>i. i < 3 \<Longrightarrow> streams c' i = (rep_os (P i))[1 := r i] \<and> holds (r i) (contents (rep_os (P (get_player 3 i (- 1))) ! 0))"
    using ring_run [of 1 0 "\<lambda>i. rep_os (P i)" 1, OF _ sm] by auto
  have "rep_avail ((P i)\<lparr>rep_os := streams c' i\<rparr>) (sent gs zs (prv i)) (map (\<lambda>z. z i) zs)" if i: "i < 3" for i
  proof -
    have "prv i < 3" by (simp add: prv_def)
    then show ?thesis
      using R(2) [OF i] c [OF i] c(2) [of "prv i"] get_player_prv [OF i]
      by (auto simp: rep_avail_def rep_inv_def holds_def dest!: set_update_subset_insert [THEN subsetD])
  qed
  with R(1) show ?thesis
    by (auto simp: rep_exchange_def rep_exchange_net_def)
qed

lemma rep_run_shares:
  assumes "rep_synced S" "\<forall>g \<in> set gs. gate_fit g" "v_size R * length gs < 2 ^ 32"
  shows "\<exists>T (zs :: (nat \<Rightarrow> 'a) list). rep_run R E gs S = Inr ((map (\<lambda>z. [z 0, z 2]) zs, T 0), (map (\<lambda>z. [z 1, z 0]) zs, T 1), (map (\<lambda>z. [z 2, z 1]) zs, T 2))
    \<and> length zs = length gs \<and> rep_synced T \<and>
    (\<forall>j < length gs. v_add R (v_add R ((zs ! j) 0) ((zs ! j) 1)) ((zs ! j) 2) = v_mul R (rg_x (gs ! j)) (rg_y (gs ! j)))"
proof -
  have sy: "rep_synced (\<lambda>i. rep_init_mul (S i))" using assms(1) by (simp add: rep_synced_def rep_init_mul_fresh)
  have iv: "rep_inv (rep_init_mul (S i))" for i by (rule rep_init_mul_fresh)
  obtain P0 zs where P0: "rep_synced P0" "list_all2 zs_ok gs zs"
    "\<And>i. i < 3 \<Longrightarrow> rep_prepare_all R E gs i (rep_init_mul (S i)) = Inr (P0 i) \<and>
       rep_did (rep_init_mul (S i)) (sent gs zs i) (map (\<lambda>z. z i) zs) (P0 i)"
    using rep_prepare_batch [OF iv sy assms(2), of E] by blast
  define P where "P = three (P0 0) (P0 1) (P0 2)"
  have P: "P i = P0 i" if "i < 3" for i
  proof -
    have "i = 0 \<or> i = 1 \<or> i = 2" using that by auto
    then show ?thesis by (auto simp: P_def)
  qed
  obtain Q where Q: "rep_exchange P = Some Q" "\<And>i. i < 3 \<Longrightarrow> rep_avail (Q i) (sent gs zs (prv i)) (map (\<lambda>z. z i) zs)
     \<and> rep_num (Q i) = rep_num (P i) \<and> rep_prngs (Q i) = rep_prngs (P i)"
    using rep_exchange_available [of S gs zs P, OF _ P0(2) assms(3)] P0(3) P by auto
  have "\<exists>t. rep_finalize_all R (map rg_n gs) (Q i) = Inr (map (\<lambda>z. [z i, z (prv i)]) zs, t) \<and> rep_prngs t = rep_prngs (P0 i)"
    if "i < 3" for i
    using rep_finalize_batch [OF P0(2) that, of "Q i"] Q(2) [OF that] P [OF that] by auto
  then have "\<forall>i \<in> {..<3}. \<exists>t. rep_finalize_all R (map rg_n gs) (Q i) = Inr (map (\<lambda>z. [z i, z (prv i)]) zs, t)
      \<and> rep_prngs t = rep_prngs (P0 i)" by simp
  from bchoice [OF this] obtain T where T: "\<And>i. i < 3 \<Longrightarrow> rep_finalize_all R (map rg_n gs) (Q i)
      = Inr (map (\<lambda>z. [z i, z (prv i)]) zs, T i) \<and> rep_prngs (T i) = rep_prngs (P0 i)" by auto
  have "rep_run R E gs S = Inr ((map (\<lambda>z. [z 0, z 2]) zs, T 0), (map (\<lambda>z. [z 1, z 0]) zs, T 1), (map (\<lambda>z. [z 2, z 1]) zs, T 2))"
    using P0(3) [of 0] P0(3) [of 1] P0(3) [of 2] Q(1) T [of 0] T [of 1] T [of 2] by (simp add: rep_run_def P_def)
  moreover have "rep_synced T"
    using P0(1) T by (simp add: rep_synced_def prv_def)
  moreover have "length zs = length gs" using P0(2) by (auto dest: list_all2_lengthD)
  moreover have "\<forall>j < length gs. v_add R (v_add R ((zs ! j) 0) ((zs ! j) 1)) ((zs ! j) 2) = v_mul R (rg_x (gs ! j)) (rg_y (gs ! j))"
    using P0(2) by (auto simp: list_all2_conv_all_nth zs_ok_def)
  ultimately show ?thesis by blast
qed

text \<open>Random values: every party draws its half from each neighbour's generator.\<close>

lemma get_random_sharing:
  assumes "rep_synced S"
  shows "\<exists>t S'. (\<forall>i < 3. rep_get_random R E (S i) = Inr (t i, S' i)) \<and> rep_synced S' \<and>
    rep3 R (v_add R (v_add R (t 0 ! 0) (t 1 ! 0)) (t 2 ! 0)) t"
proof -
  have sy: "length (rep_prngs (S i)) = 2" "rep_prngs (S i) ! 1 = rep_prngs (S (prv i)) ! 0" if "i < 3" for i
    using assms that by (auto simp: rep_synced_def)
  let ?g = "\<lambda>i j. v_rand R E (rep_prngs (S i) ! j) None"
  define t where "t = (\<lambda>i. [fst (?g i 0), fst (?g i 1)])"
  define S' where "S' = (\<lambda>i. (S i)\<lparr>rep_prngs := (rep_prngs (S i))[0 := snd (?g i 0), 1 := snd (?g i 1)]\<rparr>)"
  have "rep_get_random R E (S i) = Inr (t i, S' i)" if "i < 3" for i
    using sy(1) [OF that] by (simp add: rep_get_random_def t_def S'_def split_beta Let_def)
  moreover have "rep_synced S'"
    using sy by (auto simp: rep_synced_def S'_def all_lt_3)
  moreover have "rep3 R (v_add R (v_add R (t 0 ! 0) (t 1 ! 0)) (t 2 ! 0)) t"
    using sy(2) by (auto simp: rep3_shape t_def)
  ultimately show ?thesis by blast
qed

end

end
