(* ===== verification/MultiReplicated.thy ===== *)
theory MultiReplicated
  imports FixedVec Player PointerVector
begin

text \<open>
  \<^verbatim>\<open>Protocols/MultiReplicated.h\<close> and \<^verbatim>\<open>Protocols/MultiReplicated.hpp\<close>: the Trifecta
  multiplication protocol for AND gates of any fan-in, for the instance
  \<open>T = SemiHonestMultiRepSecret\<close> (\<open>T::clear\<close> is \<open>BitVec\<close>, a share is a
  \<open>FixedVec<BitVec, 2>\<close>). One record is the object of one party; \<open>prepare_mul\<close>,
  \<open>exchange\<close> and \<open>finalize_mul\<close> are its operations, with the three special cases of
  fan-in 2, 3 and 4 and the general one, as in the source. The length \<open>n\<close> of a gate is
  always given (\<^verbatim>\<open>ShareThread::and_\<close> passes it). \<open>prepare_mul\<close> returns its untouched
  local \<open>comm_elem1\<close>, which no caller uses; the model returns the state only.
\<close>

unbundle bit_operations_syntax

type_synonym share = "bitvec fixedvec"

record multi_replicated =
  my_num :: nat
  shared_prngs :: "prng list"
  ostreams :: "octetStream list"
  and_operands :: "share list pointer_vector"
  add_shares :: "bitvec pointer_vector"
  add_shares_2 :: "bitvec pointer_vector"

subsection \<open>Set-up\<close>

text \<open>\<^verbatim>\<open>assign(share, value, my_num)\<close>.\<close>

definition multi_assign :: "bitvec \<Rightarrow> nat \<Rightarrow> share" where
  "multi_assign value me = (if me < 2 then (fv_const 2 0)[me := value] else fv_const 2 0)"

definition init_mul :: "multi_replicated \<Rightarrow> multi_replicated" where
  "init_mul s = s\<lparr>ostreams := map reset_write_head (take 4 (ostreams s) @ replicate (4 - length (ostreams s)) empty_stream),
     add_shares := pv_clear (add_shares s), add_shares_2 := pv_clear (add_shares_2 s),
     and_operands := pv_clear (and_operands s)\<rparr>"

text \<open>A value from the \<open>j\<close>-th shared generator, and a value packed into stream \<open>k\<close>.\<close>

definition draw_shared :: "cipher \<Rightarrow> nat \<Rightarrow> nat \<Rightarrow> multi_replicated \<Rightarrow> (bitvec \<times> multi_replicated) res" where
  "draw_shared E j n s =
     bindE (nthE (shared_prngs s) j) (\<lambda>G.
     let (r, G') = bv_randomize E G n in Inr (r, s\<lparr>shared_prngs := (shared_prngs s)[j := G']\<rparr>))"

fun draw_shared_n :: "cipher \<Rightarrow> nat \<Rightarrow> nat \<Rightarrow> nat \<Rightarrow> multi_replicated \<Rightarrow> (bitvec list \<times> multi_replicated) res" where
  "draw_shared_n E j n 0 s = Inr ([], s)"
| "draw_shared_n E j n (Suc k) s =
     bindE (draw_shared E j n s) (\<lambda>(r, s1).
     bindE (draw_shared_n E j n k s1) (\<lambda>(rs, s2). Inr (r # rs, s2)))"

definition pack_os :: "nat \<Rightarrow> nat \<Rightarrow> bitvec \<Rightarrow> multi_replicated \<Rightarrow> multi_replicated res" where
  "pack_os k n elem s =
     bindE (nthE (ostreams s) k) (\<lambda>o1. bindE (bv_pack n elem o1) (\<lambda>o2. Inr (s\<lparr>ostreams := (ostreams s)[k := o2]\<rparr>)))"

definition push_add :: "bitvec \<Rightarrow> multi_replicated \<Rightarrow> multi_replicated" where
  "push_add x s = s\<lparr>add_shares := pv_push x (add_shares s)\<rparr>"

definition push_add_2 :: "bitvec \<Rightarrow> multi_replicated \<Rightarrow> multi_replicated" where
  "push_add_2 x s = s\<lparr>add_shares_2 := pv_push x (add_shares_2 s)\<rparr>"

definition save_operands :: "share list \<Rightarrow> multi_replicated \<Rightarrow> multi_replicated" where
  "save_operands xs s = s\<lparr>and_operands := pv_push xs (and_operands s)\<rparr>"

text \<open>Chains of \<open>*\<close> and \<open>+\<close> on bit vectors, evaluated left to right.\<close>

fun bv_prod :: "bitvec list \<Rightarrow> bitvec" where
  "bv_prod [] = 0"
| "bv_prod (x # xs) = foldl bv_mul x xs"

fun bv_sum :: "bitvec list \<Rightarrow> bitvec" where
  "bv_sum [] = 0"
| "bv_sum (x # xs) = foldl bv_add x xs"

subsection \<open>Masking one element\<close>

definition randomize_comm_elem_0 :: "cipher \<Rightarrow> bitvec \<Rightarrow> nat \<Rightarrow> nat \<Rightarrow> multi_replicated \<Rightarrow> multi_replicated res" where
  "randomize_comm_elem_0 E comm_elem n fanin s =
     bindE (draw_shared E 0 n s) (\<lambda>(rnd, s1).
     if fanin = 2
     then pack_os 0 n (bv_add comm_elem rnd) (push_add_2 rnd (push_add_2 comm_elem s1))
     else pack_os 0 n (bv_add comm_elem rnd) s1)"

definition randomize_comm_elem_1 :: "cipher \<Rightarrow> bitvec \<Rightarrow> nat \<Rightarrow> nat \<Rightarrow> multi_replicated \<Rightarrow> multi_replicated res" where
  "randomize_comm_elem_1 E comm_elem n fanin s =
     bindE (draw_shared E 1 n s) (\<lambda>(rnd, s1).
     if fanin = 2
     then bindE (draw_shared E 2 n s1) (\<lambda>(rnd_1, s2).
          pack_os 0 n (bv_add comm_elem rnd)
            (push_add_2 (bv_add rnd rnd_1) (push_add_2 (bv_add comm_elem rnd_1) s2)))
     else pack_os 0 n (bv_add comm_elem rnd) s1)"

definition randomize_comm_elem_2 :: "cipher \<Rightarrow> bitvec \<Rightarrow> nat \<Rightarrow> nat \<Rightarrow> multi_replicated \<Rightarrow> multi_replicated res" where
  "randomize_comm_elem_2 E comm_elem n fanin s =
     (if fanin = 2
      then bindE (draw_shared E 3 n s) (\<lambda>(rnd_10, s1).
           bindE (draw_shared E 2 n s1) (\<lambda>(rnd_11, s2).
           bindE (draw_shared E 0 n s2) (\<lambda>(rnd, s3).
           let elem = bv_add comm_elem rnd
           in pack_os 0 n elem (push_add_2 (bv_add elem rnd_11) (push_add_2 (bv_add rnd rnd_10) s3)))))
      else bindE (draw_shared E 1 n s) (\<lambda>(rnd, s1).
           let elem = bv_add comm_elem rnd
           in pack_os 1 n elem (push_add elem s1)))"

definition randomize_comm_elem_3 :: "cipher \<Rightarrow> bitvec \<Rightarrow> nat \<Rightarrow> nat \<Rightarrow> multi_replicated \<Rightarrow> multi_replicated res" where
  "randomize_comm_elem_3 E comm_elem n fanin s =
     bindE (draw_shared E 0 n s) (\<lambda>(rnd, s1).
     let elem = bv_add comm_elem rnd
     in if fanin = 2 then pack_os 0 n elem (push_add_2 elem (push_add_2 rnd s1))
        else pack_os 0 n elem (push_add elem s1))"

subsection \<open>\<^verbatim>\<open>prepare_mul\<close>\<close>

definition prepare_mul_2 :: "cipher \<Rightarrow> share list \<Rightarrow> nat \<Rightarrow> multi_replicated \<Rightarrow> multi_replicated res" where
  "prepare_mul_2 E operands n s =
     (let x = operands ! 0; y = operands ! 1; s1 = save_operands [x, y] s
      in if my_num s1 = 0 then randomize_comm_elem_0 E (bv_mul (x ! 0) (y ! 0)) n 2 s1
         else if my_num s1 = 1 then
           randomize_comm_elem_1 E (bv_sum [bv_mul (x ! 0) (y ! 1), bv_mul (x ! 1) (y ! 0)]) n 2 s1
         else
           randomize_comm_elem_2 E (bv_sum [bv_mul (x ! 0) (y ! 1), bv_mul (x ! 1) (y ! 0), bv_mul (x ! 0) (y ! 0)]) n 2 s1)"

definition comm_elems_3 :: "share list \<Rightarrow> bitvec list" where
  "comm_elems_3 operands =
     (let x0 = operands ! 0; x1 = operands ! 1; x2 = operands ! 2
      in [bv_prod [x0 ! 0, x1 ! 0, x2 ! 0], bv_prod [x0 ! 0, x1 ! 0], bv_prod [x0 ! 0, x2 ! 0], bv_prod [x1 ! 0, x2 ! 0]])"

text \<open>Party 2's mask polynomial over the \<open>k\<close>-th components, \<open>l\<close> being the other component.\<close>

definition mask_poly_3 :: "bitvec list \<Rightarrow> share list \<Rightarrow> nat \<Rightarrow> nat \<Rightarrow> bitvec" where
  "mask_poly_3 rnd operands k l =
     (let x0 = operands ! 0; x1 = operands ! 1; x2 = operands ! 2
      in bv_sum [rnd ! 0, bv_prod [rnd ! 1, x2 ! k], bv_prod [rnd ! 2, x1 ! k], bv_prod [rnd ! 3, x0 ! k],
           bv_prod [x0 ! l, x1 ! k, x2 ! k], bv_prod [x0 ! k, x1 ! l, x2 ! k], bv_prod [x0 ! k, x1 ! k, x2 ! l]])"

definition prepare_mul_3 :: "cipher \<Rightarrow> share list \<Rightarrow> nat \<Rightarrow> multi_replicated \<Rightarrow> multi_replicated res" where
  "prepare_mul_3 E operands n s =
     (let s1 = save_operands [operands ! 0, operands ! 1, operands ! 2] s
      in if my_num s1 = 0 then
           bindE (draw_shared E 3 n s1) (\<lambda>(rnd, s2).
           foldE (\<lambda>c. randomize_comm_elem_0 E c n 3) (comm_elems_3 operands) (push_add rnd s2))
         else if my_num s1 = 1 then
           bindE (draw_shared E 2 n s1) (\<lambda>(rnd, s2).
           foldE (\<lambda>c. randomize_comm_elem_1 E c n 3) (comm_elems_3 operands) (push_add rnd s2))
         else
           bindE (draw_shared_n E 2 n 4 s1) (\<lambda>(rnd, s2).
           bindE (draw_shared_n E 3 n 4 s2) (\<lambda>(rnd_1, s3).
           bindE (randomize_comm_elem_3 E (mask_poly_3 rnd operands 0 1) n 3 s3)
             (randomize_comm_elem_2 E (mask_poly_3 rnd_1 operands 1 0) n 3))))"

definition comm_elems_4 :: "share list \<Rightarrow> bitvec list" where
  "comm_elems_4 operands =
     (let x0 = operands ! 0; x1 = operands ! 1; x2 = operands ! 2; x3 = operands ! 3
      in [bv_prod [x0 ! 0, x1 ! 0, x2 ! 0, x3 ! 0],
          bv_prod [x0 ! 0, x1 ! 0, x2 ! 0], bv_prod [x0 ! 0, x1 ! 0, x3 ! 0],
          bv_prod [x0 ! 0, x2 ! 0, x3 ! 0], bv_prod [x1 ! 0, x2 ! 0, x3 ! 0],
          bv_prod [x0 ! 0, x1 ! 0], bv_prod [x0 ! 0, x2 ! 0], bv_prod [x0 ! 0, x3 ! 0],
          bv_prod [x1 ! 0, x2 ! 0], bv_prod [x1 ! 0, x3 ! 0], bv_prod [x2 ! 0, x3 ! 0]])"

definition mask_poly_4 :: "bitvec list \<Rightarrow> share list \<Rightarrow> nat \<Rightarrow> nat \<Rightarrow> bitvec" where
  "mask_poly_4 rnd operands k l =
     (let x0 = operands ! 0; x1 = operands ! 1; x2 = operands ! 2; x3 = operands ! 3
      in bv_sum [rnd ! 0, bv_prod [rnd ! 1, x3 ! k], bv_prod [rnd ! 2, x2 ! k], bv_prod [rnd ! 3, x1 ! k],
           bv_prod [rnd ! 4, x0 ! k], bv_prod [rnd ! 5, x2 ! k, x3 ! k], bv_prod [rnd ! 6, x1 ! k, x3 ! k],
           bv_prod [rnd ! 7, x1 ! k, x2 ! k], bv_prod [rnd ! 8, x0 ! k, x3 ! k],
           bv_prod [rnd ! 9, x0 ! k, x2 ! k], bv_prod [rnd ! 10, x0 ! k, x1 ! k],
           bv_prod [x0 ! l, x1 ! k, x2 ! k, x3 ! k], bv_prod [x0 ! k, x1 ! l, x2 ! k, x3 ! k],
           bv_prod [x0 ! k, x1 ! k, x2 ! l, x3 ! k], bv_prod [x0 ! k, x1 ! k, x2 ! k, x3 ! l]])"

definition prepare_mul_4 :: "cipher \<Rightarrow> share list \<Rightarrow> nat \<Rightarrow> multi_replicated \<Rightarrow> multi_replicated res" where
  "prepare_mul_4 E operands n s =
     (let s1 = save_operands [operands ! 0, operands ! 1, operands ! 2, operands ! 3] s
      in if my_num s1 = 0 then
           bindE (draw_shared E 3 n s1) (\<lambda>(rnd, s2).
           foldE (\<lambda>c. randomize_comm_elem_0 E c n 4) (comm_elems_4 operands) (push_add rnd s2))
         else if my_num s1 = 1 then
           bindE (draw_shared E 2 n s1) (\<lambda>(rnd, s2).
           foldE (\<lambda>c. randomize_comm_elem_1 E c n 4) (comm_elems_4 operands) (push_add rnd s2))
         else
           bindE (draw_shared_n E 2 n 11 s1) (\<lambda>(rnd, s2).
           bindE (draw_shared_n E 3 n 11 s2) (\<lambda>(rnd_1, s3).
           bindE (randomize_comm_elem_3 E (mask_poly_4 rnd operands 0 1) n 4 s3)
             (randomize_comm_elem_2 E (mask_poly_4 rnd_1 operands 1 0) n 4))))"

text \<open>
  The general case enumerates the subsets of the operands as the integers from
  \<open>2 ^ fanin - 1\<close> down to 1, skipping those with fewer than two bits; \<open>indicator[j]\<close> is bit
  \<open>j\<close>. Products start from \<open>comm_elem = 1\<close> and \<open>term = 1\<close>: the bit vector \<open>1\<close>, in which
  only bit 0 is set.
\<close>

definition indicator_count :: "nat \<Rightarrow> nat \<Rightarrow> nat" where
  "indicator_count fanin i = length (filter (bit i) [0..<fanin])"

definition subsets_down :: "nat \<Rightarrow> nat list" where
  "subsets_down fanin = filter (\<lambda>i. \<not> (indicator_count fanin i = 0 \<or> indicator_count fanin i = 1)) (rev [1..<2 ^ fanin])"

definition product_in :: "share list \<Rightarrow> nat \<Rightarrow> nat \<Rightarrow> bitvec \<Rightarrow> bitvec" where
  "product_in operands k i c =
     foldl (\<lambda>c j. if bit i j then bv_mul c (operands ! j ! k) else c) c [0..<length operands]"

definition product_out :: "share list \<Rightarrow> nat \<Rightarrow> nat \<Rightarrow> bitvec \<Rightarrow> bitvec" where
  "product_out operands k i c =
     foldl (\<lambda>c j. if \<not> bit i j then bv_mul c (operands ! j ! k) else c) c [0..<length operands]"

definition product_swap :: "share list \<Rightarrow> nat \<Rightarrow> nat \<Rightarrow> nat \<Rightarrow> bitvec" where
  "product_swap operands k l i =
     foldl (\<lambda>t j. if i = j then bv_mul t (operands ! j ! l) else bv_mul t (operands ! j ! k)) 1 [0..<length operands]"

definition comm_elems_n :: "share list \<Rightarrow> bitvec list" where
  "comm_elems_n operands = map (\<lambda>i. product_in operands 0 i 1) (subsets_down (length operands))"

fun masked_terms :: "cipher \<Rightarrow> nat \<Rightarrow> nat \<Rightarrow> share list \<Rightarrow> nat \<Rightarrow> nat list \<Rightarrow> bitvec \<Rightarrow> multi_replicated
    \<Rightarrow> (bitvec \<times> multi_replicated) res" where
  "masked_terms E j n operands k [] acc s = Inr (acc, s)"
| "masked_terms E j n operands k (i # is) acc s =
     bindE (draw_shared E j n s) (\<lambda>(rnd, s1).
     masked_terms E j n operands k is (bv_add acc (product_out operands k i rnd)) s1)"

definition swap_terms :: "share list \<Rightarrow> nat \<Rightarrow> nat \<Rightarrow> bitvec \<Rightarrow> bitvec" where
  "swap_terms operands k l acc = foldl (\<lambda>c i. bv_add c (product_swap operands k l i)) acc [0..<length operands]"

definition prepare_mul_n :: "cipher \<Rightarrow> share list \<Rightarrow> nat \<Rightarrow> multi_replicated \<Rightarrow> multi_replicated res" where
  "prepare_mul_n E operands n s =
     (let fanin = length operands; s1 = save_operands operands s; subs = subsets_down fanin
      in if my_num s1 = 0 \<or> my_num s1 = 1 then
           bindE (draw_shared E (if my_num s1 = 0 then 3 else 2) n s1) (\<lambda>(rnd, s2).
           foldE (\<lambda>c. if my_num s1 = 0 then randomize_comm_elem_0 E c n fanin
                       else randomize_comm_elem_1 E c n fanin) (comm_elems_n operands) (push_add rnd s2))
         else
           bindE (masked_terms E 2 n operands 0 subs 0 s1) (\<lambda>(c, s2).
           bindE (randomize_comm_elem_3 E (swap_terms operands 0 1 c) n fanin s2) (\<lambda>s3.
           bindE (masked_terms E 3 n operands 1 subs 0 s3) (\<lambda>(c', s4).
           randomize_comm_elem_2 E (swap_terms operands 1 0 c') n fanin s4))))"

definition prepare_mul :: "cipher \<Rightarrow> share list \<Rightarrow> nat \<Rightarrow> multi_replicated \<Rightarrow> multi_replicated res" where
  "prepare_mul E operands n s =
     (if length operands = 2 then prepare_mul_2 E operands n s
      else if length operands = 3 then prepare_mul_3 E operands n s
      else if length operands = 4 then prepare_mul_4 E operands n s
      else if length operands > 4 then prepare_mul_n E operands n s
      else Inr s)"

subsection \<open>\<^verbatim>\<open>exchange\<close>\<close>

definition exchange_script :: "nat \<Rightarrow> comm list" where
  "exchange_script me =
     (if me = 0 then [send_relative 3 0 1 0, receive_relative 3 0 (- 1) 2, receive_relative 3 0 1 1]
      else if me = 1 then [send_relative 3 1 (- 1) 0, receive_relative 3 1 (- 1) 1, receive_relative 3 1 1 2]
      else if me = 2 then [send_relative 3 2 1 0, send_relative 3 2 (- 1) 1]
      else [])"

definition exchange_net :: "multi_replicated \<Rightarrow> multi_replicated \<Rightarrow> multi_replicated \<Rightarrow> net" where
  "exchange_net s0 s1 s2 =
     \<lparr>todo = (\<lambda>i. if i < 3 then exchange_script i else []),
      streams = (\<lambda>i. if i = 0 then ostreams s0 else if i = 1 then ostreams s1 else if i = 2 then ostreams s2 else []),
      chan = (\<lambda>_ _. [])\<rparr>"

text \<open>One schedule, for execution; every other one has the same outcome.\<close>

definition exchange :: "multi_replicated \<Rightarrow> multi_replicated \<Rightarrow> multi_replicated
    \<Rightarrow> (multi_replicated \<times> multi_replicated \<times> multi_replicated) option" where
  "exchange s0 s1 s2 =
     map_option (\<lambda>c. (s0\<lparr>ostreams := streams c 0\<rparr>, s1\<lparr>ostreams := streams c 1\<rparr>, s2\<lparr>ostreams := streams c 2\<rparr>))
       (run_schedule [2, 2, 0, 1, 0, 0, 1, 1] (exchange_net s0 s1 s2))"

subsection \<open>\<^verbatim>\<open>finalize_mul\<close>\<close>

definition next_add :: "multi_replicated \<Rightarrow> (bitvec \<times> multi_replicated) res" where
  "next_add s = bindE (pv_next (add_shares s)) (\<lambda>(x, v). Inr (x, s\<lparr>add_shares := v\<rparr>))"

definition next_add_2 :: "multi_replicated \<Rightarrow> (bitvec \<times> multi_replicated) res" where
  "next_add_2 s = bindE (pv_next (add_shares_2 s)) (\<lambda>(x, v). Inr (x, s\<lparr>add_shares_2 := v\<rparr>))"

definition unpack_os :: "nat \<Rightarrow> nat \<Rightarrow> multi_replicated \<Rightarrow> (bitvec \<times> multi_replicated) res" where
  "unpack_os k n s =
     bindE (nthE (ostreams s) k) (\<lambda>o1. bindE (bv_unpack n o1) (\<lambda>(x, o2).
     Inr (x, s\<lparr>ostreams := (ostreams s)[k := o2]\<rparr>)))"

fun unpack_os_n :: "nat \<Rightarrow> nat \<Rightarrow> nat \<Rightarrow> multi_replicated \<Rightarrow> (bitvec list \<times> multi_replicated) res" where
  "unpack_os_n k n 0 s = Inr ([], s)"
| "unpack_os_n k n (Suc m) s =
     bindE (unpack_os k n s) (\<lambda>(x, s1). bindE (unpack_os_n k n m s1) (\<lambda>(xs, s2). Inr (x # xs, s2)))"

definition finalize_mul_2 :: "nat \<Rightarrow> multi_replicated \<Rightarrow> (share \<times> multi_replicated) res" where
  "finalize_mul_2 n s =
     (if my_num s = 0 then
        bindE (unpack_os 1 n s) (\<lambda>(received_next, s1).
        bindE (unpack_os 2 n s1) (\<lambda>(received_prev, s2).
        bindE (next_add_2 s2) (\<lambda>(x, s3).
        bindE (next_add_2 s3) (\<lambda>(y, s4).
        Inr ([bv_sum [x, received_next, received_prev], bv_add received_prev y], s4)))))
      else if my_num s = 1 then
        bindE (unpack_os 1 n s) (\<lambda>(received, s1).
        bindE (next_add_2 s1) (\<lambda>(x, s2).
        bindE (next_add_2 s2) (\<lambda>(y, s3).
        Inr ([bv_add received x, y], s3))))
      else
        bindE (next_add_2 s) (\<lambda>(x, s1).
        bindE (next_add_2 s1) (\<lambda>(y, s2).
        Inr ([x, y], s2))))"

text \<open>Party 2 takes the two masks it sent; \<open>beta\<close> was pushed first.\<close>

definition finalize_masks :: "multi_replicated \<Rightarrow> (share \<times> multi_replicated) res" where
  "finalize_masks s =
     bindE (next_add s) (\<lambda>(beta, s1). bindE (next_add s1) (\<lambda>(alpha, s2). Inr ([alpha, beta], s2)))"

definition unmask_poly_3 :: "bitvec list \<Rightarrow> share list \<Rightarrow> bitvec list" where
  "unmask_poly_3 c saved =
     (let x0 = saved ! 0; x1 = saved ! 1; x2 = saved ! 2
      in [c ! 0, bv_prod [c ! 1, x2 ! 1], bv_prod [c ! 2, x1 ! 1], bv_prod [c ! 3, x0 ! 1],
          bv_prod [x0 ! 0, x1 ! 1, x2 ! 1], bv_prod [x0 ! 1, x1 ! 0, x2 ! 1], bv_prod [x0 ! 1, x1 ! 1, x2 ! 0]])"

definition finalize_mul_3 :: "nat \<Rightarrow> share list \<Rightarrow> multi_replicated \<Rightarrow> (share \<times> multi_replicated) res" where
  "finalize_mul_3 n saved s =
     (if my_num s = 0 \<or> my_num s = 1 then
        bindE (unpack_os_n 1 n 4 s) (\<lambda>(c, s1).
        bindE (unpack_os 2 n s1) (\<lambda>(second, s2).
        bindE (next_add s2) (\<lambda>(rnd, s3).
        Inr ([bv_sum (unmask_poly_3 c saved @ [rnd]), second], s3))))
      else finalize_masks s)"

definition unmask_poly_4 :: "bitvec list \<Rightarrow> share list \<Rightarrow> bitvec list" where
  "unmask_poly_4 c saved =
     (let x0 = saved ! 0; x1 = saved ! 1; x2 = saved ! 2; x3 = saved ! 3
      in [c ! 0, bv_prod [c ! 1, x3 ! 1], bv_prod [c ! 2, x2 ! 1], bv_prod [c ! 3, x1 ! 1], bv_prod [c ! 4, x0 ! 1],
          bv_prod [c ! 5, x2 ! 1, x3 ! 1], bv_prod [c ! 6, x1 ! 1, x3 ! 1], bv_prod [c ! 7, x1 ! 1, x2 ! 1],
          bv_prod [c ! 8, x0 ! 1, x3 ! 1], bv_prod [c ! 9, x0 ! 1, x2 ! 1], bv_prod [c ! 10, x0 ! 1, x1 ! 1],
          bv_prod [x0 ! 0, x1 ! 1, x2 ! 1, x3 ! 1], bv_prod [x0 ! 1, x1 ! 0, x2 ! 1, x3 ! 1],
          bv_prod [x0 ! 1, x1 ! 1, x2 ! 0, x3 ! 1], bv_prod [x0 ! 1, x1 ! 1, x2 ! 1, x3 ! 0],
          bv_prod [x0 ! 1, x1 ! 1, x2 ! 1, x3 ! 1]])"

definition finalize_mul_4 :: "nat \<Rightarrow> share list \<Rightarrow> multi_replicated \<Rightarrow> (share \<times> multi_replicated) res" where
  "finalize_mul_4 n saved s =
     (if my_num s = 0 \<or> my_num s = 1 then
        bindE (unpack_os_n 1 n 11 s) (\<lambda>(c, s1).
        bindE (unpack_os 2 n s1) (\<lambda>(second, s2).
        bindE (next_add s2) (\<lambda>(rnd, s3).
        Inr ([bv_sum (unmask_poly_4 c saved @ [rnd]), second], s3))))
      else finalize_masks s)"

definition com_count :: "nat \<Rightarrow> nat" where
  "com_count fanin = 2 ^ fanin - fanin - 1"

definition unmask_terms :: "bitvec list \<Rightarrow> share list \<Rightarrow> bitvec" where
  "unmask_terms c saved =
     foldl (\<lambda>acc (i, t). bv_add acc (product_out saved 1 i t)) 0 (zip (subsets_down (length saved)) c)"

definition finalize_mul_n :: "nat \<Rightarrow> share list \<Rightarrow> multi_replicated \<Rightarrow> (share \<times> multi_replicated) res" where
  "finalize_mul_n n saved s =
     (if my_num s = 0 \<or> my_num s = 1 then
        bindE (unpack_os_n 1 n (com_count (length saved)) s) (\<lambda>(c, s1).
        bindE (unpack_os 2 n s1) (\<lambda>(second_share, s2).
        let r1 = unmask_terms c saved;
            r2 = swap_terms saved 1 0 r1;
            r3 = (if even (length saved) then bv_add r2 (foldl (\<lambda>t i. bv_mul t (saved ! i ! 1)) 1 [0..<length saved]) else r2)
        in bindE (next_add s2) (\<lambda>(rnd, s3). Inr ([bv_add r3 rnd, second_share], s3))))
      else finalize_masks s)"

definition finalize_mul :: "nat \<Rightarrow> multi_replicated \<Rightarrow> (share \<times> multi_replicated) res" where
  "finalize_mul n s =
     bindE (pv_next (and_operands s)) (\<lambda>(saved, v).
     let s1 = s\<lparr>and_operands := v\<rparr>
     in if length saved = 2 then finalize_mul_2 n s1
        else if length saved = 3 then finalize_mul_3 n saved s1
        else if length saved = 4 then finalize_mul_4 n saved s1
        else finalize_mul_n n saved s1)"

end
