(* ===== verification/BoolRing.thy ===== *)
theory BoolRing
  imports Prelude
begin

text \<open>
  Products and sums in the Boolean ring of 64-bit words: AND over an initial segment of the
  naturals, XOR over a list of indices, and the expansion of a product of sums over all
  subsets, the subsets being the integers below \<open>2 ^ n\<close> read as characteristic vectors.
  This is the algebra behind the general fan-in case of the Trifecta multiplication.
\<close>

unbundle bit_operations_syntax

subsection \<open>Products and sums\<close>

fun aprod :: "(nat \<Rightarrow> word64) \<Rightarrow> nat \<Rightarrow> word64" where
  "aprod f 0 = - 1"
| "aprod f (Suc n) = aprod f n AND f n"

definition xsum :: "('a \<Rightarrow> word64) \<Rightarrow> 'a list \<Rightarrow> word64" where
  "xsum f xs = foldr (\<lambda>x acc. f x XOR acc) xs 0"

lemma xsum_simps [simp]:
  "xsum f [] = 0"
  "xsum f (x # xs) = f x XOR xsum f xs"
  by (simp_all add: xsum_def)

lemma xsum_append [simp]: "xsum f (xs @ ys) = xsum f xs XOR xsum f ys"
  by (induction xs) (simp_all add: xor_ac)

lemma xsum_rev [simp]: "xsum f (rev xs) = xsum f xs"
  by (induction xs) (simp_all add: xor_ac)

lemma xsum_map: "xsum f (map g xs) = xsum (\<lambda>x. f (g x)) xs"
  by (induction xs) simp_all

lemma xsum_cong: "(\<And>x. x \<in> set xs \<Longrightarrow> f x = g x) \<Longrightarrow> xsum f xs = xsum g xs"
  by (induction xs) simp_all

lemma xsum_xor: "xsum (\<lambda>x. f x XOR g x) xs = xsum f xs XOR xsum g xs"
  by (induction xs) (simp_all add: xor_ac)

lemma xsum_and: "xsum (\<lambda>x. f x AND c) xs = xsum f xs AND c"
  by (induction xs) (simp_all add: and_xor_distribs)

lemma xsum_filter: "xsum f xs = xsum f (filter P xs) XOR xsum f (filter (\<lambda>x. \<not> P x) xs)"
  by (induction xs) (simp_all add: xor_ac)

lemma xsum_const: "xsum (\<lambda>_. c) xs = (if odd (length xs) then c else 0)"
  by (induction xs) simp_all

lemma foldl_xor: "foldl (\<lambda>c x. c XOR f x) acc xs = acc XOR xsum f xs"
  by (induction xs arbitrary: acc) (simp_all add: xor_ac)

lemma aprod_cong: "(\<And>j. j < n \<Longrightarrow> f j = g j) \<Longrightarrow> aprod f n = aprod g n"
  by (induction n) simp_all

lemma foldl_and: "foldl (\<lambda>c j. c AND f j) acc [0..<n] = acc AND aprod f n"
  by (induction n) (simp_all add: and_ac)

lemma foldl_and_if:
  "foldl (\<lambda>c j. if P j then c AND f j else c) acc [0..<n] = acc AND aprod (\<lambda>j. if P j then f j else - 1) n"
  by (induction n) (simp_all add: and_ac)

lemma aprod_and: "aprod (\<lambda>j. f j AND g j) n = aprod f n AND aprod g n"
  by (induction n) (simp_all add: and_ac)

lemma aprod_single:
  "k < n \<Longrightarrow> aprod (\<lambda>j. if j = k then f j else g j) n = f k AND aprod (\<lambda>j. if j = k then - 1 else g j) n"
proof (induction n)
  case 0
  then show ?case by simp
next
  case (Suc n)
  show ?case
  proof (cases "k = n")
    case True
    have "aprod (\<lambda>j. if j = k then f j else g j) n = aprod (\<lambda>j. if j = k then - 1 else g j) n"
      using True by (intro aprod_cong) auto
    with True show ?thesis by (simp add: and_ac)
  next
    case False
    with Suc show ?thesis by (simp add: and_ac)
  qed
qed

subsection \<open>Subsets as integers\<close>

lemma upt_double: "[0..<2 ^ Suc n] = [0..<2 ^ n] @ map (\<lambda>i. i + 2 ^ n) [0..<2 ^ n :: nat]"
proof -
  have "[0..<2 ^ Suc n] = [0..<2 ^ n + (2 ^ n :: nat)]" by (simp add: mult_2)
  also have "\<dots> = [0..<2 ^ n] @ [2 ^ n..<2 ^ n + (2 ^ n :: nat)]"
    using upt_add_eq_append [of 0 "2 ^ n :: nat" "2 ^ n"] by simp
  also have "[2 ^ n..<2 ^ n + (2 ^ n :: nat)] = map (\<lambda>i. i + 2 ^ n) [0..<2 ^ n]"
    by (simp add: map_add_upt)
  finally show ?thesis .
qed

lemma bit_less_pow: "i < 2 ^ n \<Longrightarrow> n \<le> j \<Longrightarrow> \<not> bit (i :: nat) j"
  by (metis bit_take_bit_iff leD take_bit_nat_eq_self)

lemma bit_add_pow:
  assumes "i < 2 ^ n"
  shows "bit (i + 2 ^ n :: nat) j \<longleftrightarrow> bit i j \<or> j = n"
proof -
  have "i + 2 ^ n = i OR 2 ^ n"
    by (rule disjunctive_add_eq_or, rule bit_eqI)
       (use bit_less_pow [OF assms order_refl] in \<open>auto simp: bit_and_iff bit_exp_iff\<close>)
  then show ?thesis by (auto simp: bit_simps)
qed

definition bits_in :: "nat \<Rightarrow> nat \<Rightarrow> nat" where
  "bits_in n i = length (filter (bit i) [0..<n])"

lemma bits_in_Suc_low: "i < 2 ^ n \<Longrightarrow> bits_in (Suc n) i = bits_in n i"
  by (simp add: bits_in_def bit_less_pow)

lemma bits_in_Suc_high:
  assumes "i < 2 ^ n"
  shows "bits_in (Suc n) (i + 2 ^ n) = Suc (bits_in n i)"
proof -
  have "filter (bit (i + 2 ^ n)) [0..<n] = filter (bit i) [0..<n]"
    using bit_add_pow [OF assms] by (intro filter_cong) auto
  then show ?thesis using bit_add_pow [OF assms] by (simp add: bits_in_def)
qed

lemma filter_bits_0: "filter (\<lambda>i. bits_in n i = 0) [0..<2 ^ n] = [0]"
proof (induction n)
  case 0
  then show ?case by (simp add: bits_in_def)
next
  case (Suc n)
  have "filter (\<lambda>i. bits_in (Suc n) i = 0) [0..<2 ^ n] = filter (\<lambda>i. bits_in n i = 0) [0..<2 ^ n]"
    by (intro filter_cong) (auto simp: bits_in_Suc_low)
  moreover have "filter (\<lambda>i. bits_in (Suc n) i = 0) (map (\<lambda>i. i + 2 ^ n) [0..<2 ^ n]) = []"
    by (simp only: filter_map comp_def) (simp add: filter_empty_conv bits_in_Suc_high)
  ultimately show ?case using Suc by (simp only: upt_double filter_append) simp
qed

lemma filter_bits_1: "filter (\<lambda>i. bits_in n i = 1) [0..<2 ^ n] = map ((^) 2) [0..<n]"
proof (induction n)
  case 0
  then show ?case by (simp add: bits_in_def)
next
  case (Suc n)
  have 1: "filter (\<lambda>i. bits_in (Suc n) i = 1) [0..<2 ^ n] = filter (\<lambda>i. bits_in n i = 1) [0..<2 ^ n]"
    by (intro filter_cong) (auto simp: bits_in_Suc_low)
  have "filter (\<lambda>i. bits_in (Suc n) i = 1) (map (\<lambda>i. i + 2 ^ n) [0..<2 ^ n])
      = map (\<lambda>i. i + 2 ^ n) (filter (\<lambda>i. bits_in n i = 0) [0..<2 ^ n])"
    by (simp only: filter_map comp_def) (auto intro!: arg_cong [where f = "map _"] filter_cong simp: bits_in_Suc_high)
  then have 2: "filter (\<lambda>i. bits_in (Suc n) i = 1) (map (\<lambda>i. i + 2 ^ n) [0..<2 ^ n]) = [2 ^ n]"
    by (simp only: filter_bits_0) simp
  show ?case using Suc by (simp only: upt_double filter_append 1 2) simp
qed

subsection \<open>The expansion\<close>

text \<open>The product of the first or second members, chosen by the bits of \<open>i\<close>.\<close>

definition choice :: "(nat \<Rightarrow> word64) \<Rightarrow> (nat \<Rightarrow> word64) \<Rightarrow> nat \<Rightarrow> nat \<Rightarrow> word64" where
  "choice p q n i = aprod (\<lambda>j. if bit i j then p j else q j) n"

lemma choice_Suc_low: "i < 2 ^ n \<Longrightarrow> choice p q (Suc n) i = choice p q n i AND q n"
  by (simp add: choice_def bit_less_pow)

lemma choice_Suc_high: "i < 2 ^ n \<Longrightarrow> choice p q (Suc n) (i + 2 ^ n) = choice p q n i AND p n"
  by (auto simp: choice_def bit_add_pow intro!: arg_cong2 [where f = "(AND)"] aprod_cong)

lemma expand_product: "xsum (choice p q n) [0..<2 ^ n] = aprod (\<lambda>j. p j XOR q j) n"
proof (induction n)
  case 0
  then show ?case by (simp add: choice_def)
next
  case (Suc n)
  have "xsum (choice p q (Suc n)) [0..<2 ^ n] = xsum (\<lambda>i. choice p q n i AND q n) [0..<2 ^ n]"
    by (intro xsum_cong) (simp add: choice_Suc_low)
  moreover have "xsum (choice p q (Suc n)) (map (\<lambda>i. i + 2 ^ n) [0..<2 ^ n])
      = xsum (\<lambda>i. choice p q n i AND p n) [0..<2 ^ n]"
    unfolding xsum_map by (intro xsum_cong) (simp add: choice_Suc_high)
  ultimately show ?case
    using Suc by (simp only: upt_double xsum_append xsum_and) (simp add: and_xor_distribs xor_ac)
qed

lemma choice_0: "choice p q n 0 = aprod q n"
  by (simp add: choice_def)

lemma choice_single: "k < n \<Longrightarrow> choice p q n (2 ^ k) = p k AND aprod (\<lambda>j. if j = k then - 1 else q j) n"
  using aprod_single [of k n p q]
  by (simp add: choice_def bit_exp_iff eq_commute cong: if_cong)

text \<open>
  The subsets with at least two members give the product up to the terms linear in \<open>p\<close>, and
  the product of all \<open>q\<close> when \<open>n\<close> is even.
\<close>

lemma expand_large_subsets:
  "xsum (choice p q n) (filter (\<lambda>i. \<not> (bits_in n i = 0 \<or> bits_in n i = 1)) [0..<2 ^ n])
     XOR xsum (\<lambda>k. (p k XOR q k) AND aprod (\<lambda>j. if j = k then - 1 else q j) n) [0..<n]
     XOR (if even n then aprod q n else 0)
   = aprod (\<lambda>j. p j XOR q j) n"
proof -
  let ?F = "xsum (choice p q n)" and ?A = "[0..<2 ^ n :: nat]"
  let ?L = "filter (\<lambda>i. \<not> (bits_in n i = 0 \<or> bits_in n i = 1)) ?A"
  let ?r = "\<lambda>k. aprod (\<lambda>j. if j = k then - 1 else q j) n"
  have rest: "q k AND ?r k = aprod q n" if "k < n" for k
    using aprod_single [OF that, of q q] by simp
  have "?F ?A = ?F (filter (\<lambda>i. bits_in n i = 0) ?A) XOR ?F (filter (\<lambda>i. bits_in n i = 1) ?A) XOR ?F ?L"
  proof -
    have "filter (\<lambda>i. bits_in n i = 1) (filter (\<lambda>i. bits_in n i \<noteq> 0) ?A) = filter (\<lambda>i. bits_in n i = 1) ?A"
      by (simp only: filter_filter) (intro filter_cong, auto)
    moreover have "filter (\<lambda>i. bits_in n i \<noteq> 1) (filter (\<lambda>i. bits_in n i \<noteq> 0) ?A) = ?L"
      by (simp only: filter_filter) (intro filter_cong, auto)
    ultimately show ?thesis
      using xsum_filter [of "choice p q n" ?A "\<lambda>i. bits_in n i = 0"]
        xsum_filter [of "choice p q n" "filter (\<lambda>i. bits_in n i \<noteq> 0) ?A" "\<lambda>i. bits_in n i = 1"]
      by simp
  qed
  then have full: "aprod (\<lambda>j. p j XOR q j) n = aprod q n XOR xsum (\<lambda>k. p k AND ?r k) [0..<n] XOR ?F ?L"
    using xsum_cong [of "[0..<n]" "\<lambda>k. choice p q n (2 ^ k)" "\<lambda>k. p k AND ?r k"]
    by (simp only: expand_product filter_bits_0 filter_bits_1 choice_0 xsum_map xsum_simps)
       (simp add: choice_single)
  have "xsum (\<lambda>k. (p k XOR q k) AND ?r k) [0..<n]
      = xsum (\<lambda>k. p k AND ?r k) [0..<n] XOR xsum (\<lambda>k. aprod q n) [0..<n]"
    by (subst xsum_xor [symmetric]) (intro xsum_cong, simp add: and_xor_distribs rest)
  then show ?thesis
    unfolding full by (simp add: xsum_const xor_ac)
qed

end
