(* ===== verification/TrifectaAlgebra.thy ===== *)
theory TrifectaAlgebra
  imports MultiReplicated BoolRing
begin

text \<open>
  The algebra of the Trifecta multiplication: what the receiver of the masked products
  computes is the AND of the secrets, masked by the polynomial that party 2 evaluates on the
  same random values. Fan-in 3 and 4 are the explicit polynomials of the code, the general
  case the enumeration of subsets. In the general case the code starts every product from
  \<open>1\<close>, so only bit 0 of the result survives.
\<close>

unbundle bit_operations_syntax

subsection \<open>One name for the three cases\<close>

definition comm_elems :: "share list \<Rightarrow> bitvec list" where
  "comm_elems ops = (if length ops = 3 then comm_elems_3 ops else if length ops = 4 then comm_elems_4 ops
     else comm_elems_n ops)"

definition masked_sum :: "share list \<Rightarrow> nat \<Rightarrow> nat list \<Rightarrow> bitvec list \<Rightarrow> bitvec \<Rightarrow> bitvec" where
  "masked_sum ops k is rnd acc = foldl (\<lambda>acc (i, r). bv_add acc (product_out ops k i r)) acc (zip is rnd)"

definition mask_poly :: "bitvec list \<Rightarrow> share list \<Rightarrow> nat \<Rightarrow> nat \<Rightarrow> bitvec" where
  "mask_poly rnd ops k l = (if length ops = 3 then mask_poly_3 rnd ops k l
     else if length ops = 4 then mask_poly_4 rnd ops k l
     else swap_terms ops k l (masked_sum ops k (subsets_down (length ops)) rnd 0))"

definition unmask_poly :: "bitvec list \<Rightarrow> share list \<Rightarrow> bitvec list" where
  "unmask_poly c saved = (if length saved = 3 then unmask_poly_3 c saved
     else if length saved = 4 then unmask_poly_4 c saved
     else [let r = swap_terms saved 1 0 (unmask_terms c saved)
           in if even (length saved) then bv_add r (foldl (\<lambda>t i. bv_mul t (saved ! i ! 1)) 1 [0..<length saved]) else r])"

definition and_all :: "bitvec list \<Rightarrow> bitvec" where
  "and_all vs = foldr (AND) vs (- 1)"

text \<open>What the gate computes.\<close>

definition gate_result :: "bitvec list \<Rightarrow> bitvec" where
  "gate_result vs = (if length vs \<le> 4 then and_all vs else and_all vs AND 1)"

subsection \<open>Sizes\<close>

lemma indicator_count_bits: "indicator_count = bits_in"
  by (simp add: fun_eq_iff indicator_count_def bits_in_def)

lemma subsets_down_eq:
  "subsets_down n = rev (filter (\<lambda>i. \<not> (bits_in n i = 0 \<or> bits_in n i = 1)) [0..<2 ^ n])"
proof -
  have "[0..<2 ^ n :: nat] = 0 # [1..<2 ^ n]" by (simp add: upt_conv_Cons)
  then show ?thesis
    by (simp add: subsets_down_def indicator_count_bits rev_filter bits_in_def)
qed

lemma length_filter_split: "length xs = length (filter P xs) + length (filter (\<lambda>x. \<not> P x) xs)"
  by (induction xs) auto

lemma length_subsets_down: "length (subsets_down n) = com_count n"
proof -
  let ?A = "[0..<2 ^ n :: nat]"
  have "filter (\<lambda>i. bits_in n i = 1) (filter (\<lambda>i. bits_in n i \<noteq> 0) ?A) = filter (\<lambda>i. bits_in n i = 1) ?A"
    by (simp only: filter_filter) (intro filter_cong, auto)
  moreover have "filter (\<lambda>i. bits_in n i \<noteq> 1) (filter (\<lambda>i. bits_in n i \<noteq> 0) ?A)
      = filter (\<lambda>i. \<not> (bits_in n i = 0 \<or> bits_in n i = 1)) ?A"
    by (simp only: filter_filter) (intro filter_cong, auto)
  ultimately have "2 ^ n = 1 + n + length (subsets_down n)"
    using length_filter_split [of ?A "\<lambda>i. bits_in n i = 0"]
      length_filter_split [of "filter (\<lambda>i. bits_in n i \<noteq> 0) ?A" "\<lambda>i. bits_in n i = 1"]
      arg_cong [OF filter_bits_0 [of n], of length] arg_cong [OF filter_bits_1 [of n], of length]
    by (simp add: subsets_down_eq)
  then show ?thesis by (simp add: com_count_def)
qed

lemma com_count_3_4: "com_count 3 = 4" "com_count 4 = 11"
  by (simp_all add: com_count_def)

lemma length_comm_elems: "length (comm_elems ops) = com_count (length ops)"
  by (auto simp: comm_elems_def comm_elems_3_def comm_elems_4_def comm_elems_n_def Let_def com_count_3_4
      length_subsets_down)

subsection \<open>Only the low bits matter\<close>

lemma fits_foldl_mul: "fits n x \<Longrightarrow> fits n (foldl bv_mul x xs)"
  by (induction xs arbitrary: x) auto

lemma fits_bv_prod: "fits n x \<Longrightarrow> fits n (bv_prod (x # xs))"
  by (simp add: fits_foldl_mul)

lemma fits_foldl_add: "fits n x \<Longrightarrow> \<forall>y \<in> set xs. fits n y \<Longrightarrow> fits n (foldl bv_add x xs)"
  by (induction xs arbitrary: x) auto

lemma fits_bv_sum: "\<forall>y \<in> set xs. fits n y \<Longrightarrow> fits n (bv_sum xs)"
  by (cases xs) (auto intro: fits_foldl_add)

lemma fits_foldl: "fits n c \<Longrightarrow> (\<And>x c. x \<in> set xs \<Longrightarrow> fits n c \<Longrightarrow> fits n (f c x)) \<Longrightarrow> fits n (foldl f c xs)"
  by (induction xs arbitrary: c) auto

lemma fits_1: "0 < n \<Longrightarrow> fits n 1"
  by (cases n) (auto simp: fits_def bv_mask_take_bit take_bit_Suc)

lemma fits_product_in: "fits n c \<Longrightarrow> fits n (product_in ops k i c)"
  unfolding product_in_def by (rule fits_foldl) auto

lemma fits_product_out: "fits n c \<Longrightarrow> fits n (product_out ops k i c)"
  unfolding product_out_def by (rule fits_foldl) auto

lemma fits_product_swap: "0 < n \<Longrightarrow> fits n (product_swap ops k l i)"
  unfolding product_swap_def by (rule fits_foldl) (auto simp: fits_1)

lemma fits_swap_terms: "0 < n \<Longrightarrow> fits n c \<Longrightarrow> fits n (swap_terms ops k l c)"
  unfolding swap_terms_def by (rule fits_foldl) (auto simp: fits_product_swap)

lemma fits_masked_sum: "fits n c \<Longrightarrow> \<forall>r \<in> set rnd. fits n r \<Longrightarrow> fits n (masked_sum ops k is rnd c)"
  unfolding masked_sum_def
  by (rule fits_foldl) (auto simp: split_beta dest: set_zip_rightD intro!: fits_ring(1) fits_product_out)

definition fits_ops :: "nat \<Rightarrow> share list \<Rightarrow> bool" where
  "fits_ops n ops \<longleftrightarrow> (\<forall>x \<in> set ops. \<forall>k < 2. fits n (x ! k))"

lemma fits_ops_nth: "fits_ops n ops \<Longrightarrow> j < length ops \<Longrightarrow> k < 2 \<Longrightarrow> fits n (ops ! j ! k)"
  by (simp add: fits_ops_def)

lemma fits_comm_elems:
  assumes "fits_ops n ops" "0 < n" "3 \<le> length ops"
  shows "\<forall>c \<in> set (comm_elems ops). fits n c"
  using assms
  by (auto simp: comm_elems_def comm_elems_3_def comm_elems_4_def comm_elems_n_def Let_def
      fits_product_in fits_1 simp del: bv_prod.simps intro!: fits_bv_prod fits_ops_nth)

lemma fits_mask_poly:
  assumes "fits_ops n ops" "0 < n" "\<forall>r \<in> set rnd. fits n r" "length rnd = com_count (length ops)" "k < 2" "l < 2"
  shows "fits n (mask_poly rnd ops k l)"
proof -
  have r: "i < com_count (length ops) \<Longrightarrow> fits n (rnd ! i)" for i
    using assms(3,4) nth_mem by metis
  show ?thesis
    using assms r
    by (auto simp: mask_poly_def mask_poly_3_def mask_poly_4_def Let_def com_count_3_4 fits_swap_terms fits_masked_sum
        simp del: bv_prod.simps bv_sum.simps intro!: fits_bv_sum fits_bv_prod fits_ops_nth)
qed

subsection \<open>The receiver's polynomial\<close>

text \<open>
  The roles in one direction of a gate: the sender of the masked products holds
  \<open>v \<oplus> m\<close>, the receiver \<open>v \<oplus> p\<close> and \<open>m\<close>, and party 2 both masks, \<open>m\<close> as its
  \<open>k\<close>-th and \<open>p\<close> as its \<open>l\<close>-th component.
\<close>

definition roles :: "bitvec list \<Rightarrow> bitvec list \<Rightarrow> bitvec list \<Rightarrow> share list \<Rightarrow> share list \<Rightarrow> share list \<Rightarrow> nat \<Rightarrow> nat \<Rightarrow> bool" where
  "roles vs ms ps snd_ops rcv_ops masks k l \<longleftrightarrow>
     length ms = length vs \<and> length ps = length vs \<and> length snd_ops = length vs \<and>
     length rcv_ops = length vs \<and> length masks = length vs \<and>
     (\<forall>j < length vs. snd_ops ! j ! 0 = vs ! j XOR ms ! j \<and> rcv_ops ! j ! 0 = vs ! j XOR ps ! j
        \<and> rcv_ops ! j ! Suc 0 = ms ! j \<and> masks ! j ! k = ms ! j \<and> masks ! j ! l = ps ! j)"

lemma foldl_sum: "foldl bv_add a xs = a XOR foldl bv_add 0 xs"
  using bv.foldl_zero [of a xs] by (simp add: bv_defs)

lemma bv_sum_append: "bv_sum (xs @ [y]) = bv_sum xs XOR y"
  by (cases xs) (simp_all add: bv_defs)

lemma bv_sum_two: "bv_sum [x, y] = x XOR y"
  by (simp add: bv_defs)

lemma nat_lt_3_4:
  "(\<forall>j < 3. P j) \<longleftrightarrow> P 0 \<and> P (Suc 0) \<and> P 2"
  "(\<forall>j < 4. P j) \<longleftrightarrow> P 0 \<and> P (Suc 0) \<and> P 2 \<and> P (3 :: nat)"
  by (auto simp: numeral_eq_Suc less_Suc_eq)

lemma list3: "length xs = 3 \<longleftrightarrow> (\<exists>a b c. xs = [a, b, c])"
  by (auto simp: numeral_eq_Suc length_Suc_conv)

lemma list4: "length xs = 4 \<longleftrightarrow> (\<exists>a b c d. xs = [a, b, c, d])"
  by (auto simp: numeral_eq_Suc length_Suc_conv)

lemma list11: "length xs = 11 \<longleftrightarrow> (\<exists>a b c d e f g h i j k. xs = [a, b, c, d, e, f, g, h, i, j, k])"
  by (auto simp: numeral_eq_Suc length_Suc_conv)

lemma unmask_3:
  assumes "roles vs ms ps snd_ops rcv_ops masks k l" "length vs = 3" "length rs = 4"
  shows "bv_sum (unmask_poly_3 (map2 bv_add (comm_elems_3 snd_ops) rs) rcv_ops @ [rnd])
    = (and_all vs XOR mask_poly_3 rs masks k l) XOR rnd"
proof -
  obtain v0 v1 v2 where vs: "vs = [v0, v1, v2]" using assms(2) by (auto simp: list3)
  obtain r0 r1 r2 r3 where rs: "rs = [r0, r1, r2, r3]" using assms(3) by (auto simp: list4)
  have "\<forall>j < 3. snd_ops ! j ! 0 = vs ! j XOR ms ! j \<and> rcv_ops ! j ! 0 = vs ! j XOR ps ! j
        \<and> rcv_ops ! j ! Suc 0 = ms ! j \<and> masks ! j ! k = ms ! j \<and> masks ! j ! l = ps ! j"
    using assms by (simp add: roles_def)
  note fs = this [unfolded nat_lt_3_4]
  show ?thesis
    using fs
    by (simp add: vs rs comm_elems_3_def unmask_poly_3_def mask_poly_3_def Let_def and_all_def bv_defs xor_simps)
qed

lemma unmask_4:
  assumes "roles vs ms ps snd_ops rcv_ops masks k l" "length vs = 4" "length rs = 11"
  shows "bv_sum (unmask_poly_4 (map2 bv_add (comm_elems_4 snd_ops) rs) rcv_ops @ [rnd])
    = (and_all vs XOR mask_poly_4 rs masks k l) XOR rnd"
proof -
  obtain v0 v1 v2 v3 where vs: "vs = [v0, v1, v2, v3]" using assms(2) by (auto simp: list4)
  obtain r0 r1 r2 r3 r4 r5 r6 r7 r8 r9 r10 where rs: "rs = [r0, r1, r2, r3, r4, r5, r6, r7, r8, r9, r10]"
    using assms(3) by (auto simp: list11)
  have "\<forall>j < 4. snd_ops ! j ! 0 = vs ! j XOR ms ! j \<and> rcv_ops ! j ! 0 = vs ! j XOR ps ! j
        \<and> rcv_ops ! j ! Suc 0 = ms ! j \<and> masks ! j ! k = ms ! j \<and> masks ! j ! l = ps ! j"
    using assms by (simp add: roles_def)
  note fs = this [unfolded nat_lt_3_4]
  show ?thesis
    using fs
    by (simp add: vs rs comm_elems_4_def unmask_poly_4_def mask_poly_4_def Let_def and_all_def bv_defs xor_simps)
qed

subsection \<open>The general case\<close>

lemma product_in_eq: "product_in ops k i c = c AND aprod (\<lambda>j. if bit i j then ops ! j ! k else - 1) (length ops)"
  unfolding product_in_def bv_defs by (rule foldl_and_if)

lemma product_out_eq: "product_out ops k i c = c AND aprod (\<lambda>j. if \<not> bit i j then ops ! j ! k else - 1) (length ops)"
  unfolding product_out_def bv_defs by (rule foldl_and_if)

lemma product_swap_eq:
  assumes "i < length ops"
  shows "product_swap ops k l i = 1 AND (ops ! i ! l AND aprod (\<lambda>j. if j = i then - 1 else ops ! j ! k) (length ops))"
proof -
  have "product_swap ops k l i = foldl (\<lambda>t j. t AND (if j = i then ops ! j ! l else ops ! j ! k)) 1 [0..<length ops]"
    unfolding product_swap_def bv_defs by (intro foldl_cong) auto
  then show ?thesis
    using aprod_single [OF assms, of "\<lambda>j. ops ! j ! l" "\<lambda>j. ops ! j ! k"] by (simp only: foldl_and)
qed

lemma swap_terms_eq:
  "swap_terms ops k l c = c XOR (1 AND xsum (\<lambda>i. ops ! i ! l AND aprod (\<lambda>j. if j = i then - 1 else ops ! j ! k) (length ops)) [0..<length ops])"
  (is "_ = c XOR (1 AND xsum ?f _)")
proof -
  have "swap_terms ops k l c = c XOR xsum (product_swap ops k l) [0..<length ops]"
    by (simp add: swap_terms_def bv_defs foldl_xor)
  also have "xsum (product_swap ops k l) [0..<length ops] = xsum (\<lambda>i. ?f i AND 1) [0..<length ops]"
    by (intro xsum_cong) (simp add: product_swap_eq and.commute)
  finally show ?thesis using xsum_and [of ?f 1 "[0..<length ops]"] by (simp only: and.commute)
qed

lemma product_out_xor: "product_out ops k i (bv_add a b) = product_out ops k i a XOR product_out ops k i b"
  by (simp add: product_out_eq bv_defs and_xor_distribs)

lemma masked_sum_eq: "masked_sum ops k is rs acc = acc XOR xsum (\<lambda>(i, r). product_out ops k i r) (zip is rs)"
  unfolding masked_sum_def bv_defs split_beta by (rule foldl_xor)

lemma masked_sum_split:
  "length rs = length is \<Longrightarrow> masked_sum ops k is (map2 bv_add (map f is) rs) acc
     = xsum (\<lambda>i. product_out ops k i (f i)) is XOR masked_sum ops k is rs acc"
proof -
  assume len: "length rs = length is"
  then have "xsum (\<lambda>(i, r). product_out ops k i r) (zip is (map2 bv_add (map f is) rs))
     = xsum (\<lambda>i. product_out ops k i (f i)) is XOR xsum (\<lambda>(i, r). product_out ops k i r) (zip is rs)"
    by (induction rs "is" rule: list_induct2) (simp_all add: product_out_xor xor_ac)
  then show ?thesis by (simp add: masked_sum_eq xor_ac)
qed

lemma masked_sum_cong:
  assumes "length ops = length ops'" "\<And>j. j < length ops \<Longrightarrow> ops ! j ! k = ops' ! j ! k'"
  shows "masked_sum ops k is rs acc = masked_sum ops' k' is rs acc"
proof -
  have "product_out ops k = product_out ops' k'"
    using assms by (auto simp: fun_eq_iff product_out_eq intro!: arg_cong [where f = "(AND) _"] aprod_cong)
  then show ?thesis by (simp add: masked_sum_def)
qed

lemma and_all_aprod: "and_all vs = aprod (\<lambda>j. vs ! j) (length vs)"
proof (induction vs rule: rev_induct)
  case Nil
  then show ?case by (simp add: and_all_def)
next
  case (snoc x xs)
  have f: "foldr (AND) xs y = foldr (AND) xs (- 1) AND y" for y :: word64
    by (induction xs) (simp_all add: and_ac)
  have "aprod (\<lambda>j. (xs @ [x]) ! j) (length xs) = aprod (\<lambda>j. xs ! j) (length xs)"
    by (intro aprod_cong) (simp add: nth_append)
  with snoc show ?case by (simp add: and_all_def f [of x])
qed

lemma low_bit_split:
  "(a XOR b XOR (if P then c else 0)) AND 1 = (a AND 1) XOR (1 AND b) XOR (if P then c AND 1 else (0 :: word64))"
  by (simp add: xor_simps)

lemma unmask_n:
  assumes R: "roles vs ms ps snd_ops rcv_ops masks k l" and rs: "length rs = com_count (length vs)"
  defines "r \<equiv> swap_terms rcv_ops 1 0 (unmask_terms (map2 bv_add (comm_elems_n snd_ops) rs) rcv_ops)"
  shows "(if even (length vs) then bv_add r (foldl (\<lambda>t i. bv_mul t (rcv_ops ! i ! 1)) 1 [0..<length vs]) else r)
    = (and_all vs AND 1) XOR swap_terms masks k l (masked_sum masks k (subsets_down (length vs)) rs 0)"
proof -
  let ?n = "length vs" and ?S = "subsets_down (length vs)"
  let ?M = "masked_sum masks k ?S rs 0"
  let ?rest = "\<lambda>i. aprod (\<lambda>j. if j = i then - 1 else ms ! j) ?n"
  let ?p = "\<lambda>j. vs ! j XOR ms ! j" and ?q = "\<lambda>j. ms ! j"
  have len: "length snd_ops = ?n" "length rcv_ops = ?n" "length masks = ?n"
    and f: "\<And>j. j < ?n \<Longrightarrow> snd_ops ! j ! 0 = ?p j" "\<And>j. j < ?n \<Longrightarrow> rcv_ops ! j ! 0 = vs ! j XOR ps ! j"
      "\<And>j. j < ?n \<Longrightarrow> rcv_ops ! j ! 1 = ?q j" "\<And>j. j < ?n \<Longrightarrow> masks ! j ! k = ?q j" "\<And>j. j < ?n \<Longrightarrow> masks ! j ! l = ps ! j"
    using R by (auto simp: roles_def)
  have rest: "aprod (\<lambda>j. if j = i then - 1 else rcv_ops ! j ! 1) ?n = ?rest i"
    "aprod (\<lambda>j. if j = i then - 1 else masks ! j ! k) ?n = ?rest i" for i
    using f by (auto intro!: aprod_cong)
  have "product_out rcv_ops 1 i (product_in snd_ops 0 i 1) = choice ?p ?q ?n i AND 1" for i
  proof -
    have "choice ?p ?q ?n i = aprod (\<lambda>j. (if bit i j then snd_ops ! j ! 0 else - 1) AND (if \<not> bit i j then rcv_ops ! j ! 1 else - 1)) ?n"
      unfolding choice_def using f by (auto intro!: aprod_cong)
    then show ?thesis by (simp add: product_out_eq product_in_eq len aprod_and and_ac del: One_nat_def)
  qed
  then have sp: "unmask_terms (map2 bv_add (comm_elems_n snd_ops) rs) rcv_ops = (xsum (choice ?p ?q ?n) ?S AND 1) XOR ?M"
    using masked_sum_split [of rs ?S rcv_ops 1 "\<lambda>i. product_in snd_ops 0 i 1" 0]
      masked_sum_cong [of rcv_ops masks 1 k ?S rs 0] len f rs
    by (simp add: unmask_terms_def masked_sum_def comm_elems_n_def length_subsets_down xsum_and)
  have x1: "xsum (\<lambda>i. rcv_ops ! i ! 0 AND ?rest i) [0..<?n] = xsum (\<lambda>i. (vs ! i XOR ps ! i) AND ?rest i) [0..<?n]"
    "xsum (\<lambda>i. masks ! i ! l AND ?rest i) [0..<?n] = xsum (\<lambda>i. ps ! i AND ?rest i) [0..<?n]"
    using f by (auto intro: xsum_cong)
  have r: "r = (xsum (choice ?p ?q ?n) ?S AND 1) XOR ?M XOR (1 AND xsum (\<lambda>i. (vs ! i XOR ps ! i) AND ?rest i) [0..<?n])"
    unfolding r_def sp swap_terms_eq len rest x1 by (simp only: xor.assoc)
  have m: "swap_terms masks k l ?M = ?M XOR (1 AND xsum (\<lambda>i. ps ! i AND ?rest i) [0..<?n])"
    unfolding swap_terms_eq len rest x1 ..
  have e: "foldl (\<lambda>t i. bv_mul t (rcv_ops ! i ! 1)) 1 [0..<?n] = aprod ?q ?n AND 1"
    unfolding bv_defs foldl_and using f(3) by (auto simp: and.commute intro!: arg_cong [where f = "(AND) 1"] aprod_cong)
  have x: "xsum (\<lambda>i. (vs ! i XOR ps ! i) AND ?rest i) [0..<?n]
      = xsum (\<lambda>i. (?p i XOR ?q i) AND ?rest i) [0..<?n] XOR xsum (\<lambda>i. ps ! i AND ?rest i) [0..<?n]"
    by (subst xsum_xor [symmetric]) (intro xsum_cong, simp add: xor_simps)
  have "aprod (\<lambda>j. ?p j XOR ?q j) ?n = and_all vs"
    unfolding and_all_aprod by (intro aprod_cong) (simp add: xor_ac)
  then have big: "and_all vs AND 1 = (xsum (choice ?p ?q ?n) ?S AND 1) XOR (1 AND xsum (\<lambda>i. (?p i XOR ?q i) AND ?rest i) [0..<?n])
      XOR (if even ?n then aprod ?q ?n AND 1 else 0)"
    unfolding low_bit_split [symmetric] subsets_down_eq xsum_rev expand_large_subsets by simp
  show ?thesis
    unfolding m r e big x by (simp add: bv_defs xor_simps)
qed

lemma unmask_correct:
  assumes "roles vs ms ps snd_ops rcv_ops masks k l" "3 \<le> length vs" "length rs = com_count (length vs)"
  shows "bv_sum (unmask_poly (map2 bv_add (comm_elems snd_ops) rs) rcv_ops @ [rnd])
    = gate_result vs XOR mask_poly rs masks k l XOR rnd"
proof -
  have len: "length snd_ops = length vs" "length rcv_ops = length vs" "length masks = length vs"
    using assms(1) by (simp_all add: roles_def)
  consider "length vs = 3" | "length vs = 4" | "4 < length vs" using assms(2) by linarith
  then show ?thesis
  proof cases
    case 1
    with unmask_3 [OF assms(1) 1] assms(3) len show ?thesis
      by (simp add: unmask_poly_def comm_elems_def gate_result_def mask_poly_def com_count_3_4 xor.assoc del: bv_sum.simps)
  next
    case 2
    with unmask_4 [OF assms(1) 2] assms(3) len show ?thesis
      by (simp add: unmask_poly_def comm_elems_def gate_result_def mask_poly_def com_count_3_4 xor.assoc del: bv_sum.simps)
  next
    case 3
    with unmask_n [OF assms(1,3)] len show ?thesis
      by (cases "even (length vs)")
         (simp_all add: unmask_poly_def comm_elems_def gate_result_def mask_poly_def Let_def bv_sum_two
           flip: xor.assoc del: One_nat_def bv_sum.simps)
  qed
qed

end
