(* ===== verification/Trifecta.thy ===== *)
theory Trifecta
  imports TrifectaAlgebra Parties
begin

text \<open>
  The Trifecta protocol as run by three parties: what \<open>prepare_mul\<close> sends, what
  \<open>exchange\<close> delivers, what \<open>finalize_mul\<close> computes, for a batch of gates of
  any fan-in. Each primitive is described by the relations \<open>did\<close> (what was drawn, sent and
  remembered) and \<open>took\<close> (what was read back); the gates are composed by these relations.
\<close>

unbundle bit_operations_syntax

subsection \<open>State of a party\<close>

definition mr_inv :: "multi_replicated \<Rightarrow> bool" where
  "mr_inv s \<longleftrightarrow> length (shared_prngs s) = 4 \<and> length (ostreams s) = 4 \<and> (\<forall>o1 \<in> set (ostreams s). os_inv o1) \<and>
     pv_inv (and_operands s) \<and> pv_inv (add_shares s) \<and> pv_inv (add_shares_2 s)"

definition did :: "multi_replicated \<Rightarrow> prng list \<Rightarrow> octet list \<Rightarrow> octet list \<Rightarrow> share list list \<Rightarrow> bitvec list \<Rightarrow> bitvec list
    \<Rightarrow> multi_replicated \<Rightarrow> bool" where
  "did s gs e0 e1 ps a a2 s' \<longleftrightarrow> mr_inv s' \<and> my_num s' = my_num s \<and> shared_prngs s' = gs \<and>
     contents (ostreams s' ! 0) = contents (ostreams s ! 0) @ e0 \<and>
     contents (ostreams s' ! 1) = contents (ostreams s ! 1) @ e1 \<and>
     pv_rest (and_operands s') = pv_rest (and_operands s) @ ps \<and>
     pv_rest (add_shares s') = pv_rest (add_shares s) @ a \<and>
     pv_rest (add_shares_2 s') = pv_rest (add_shares_2 s) @ a2"

definition took :: "multi_replicated \<Rightarrow> octet list \<Rightarrow> octet list \<Rightarrow> share list list \<Rightarrow> bitvec list \<Rightarrow> bitvec list
    \<Rightarrow> multi_replicated \<Rightarrow> bool" where
  "took s u1 u2 ps a a2 s' \<longleftrightarrow> mr_inv s' \<and> my_num s' = my_num s \<and> shared_prngs s' = shared_prngs s \<and>
     unread (ostreams s ! 1) = u1 @ unread (ostreams s' ! 1) \<and>
     unread (ostreams s ! 2) = u2 @ unread (ostreams s' ! 2) \<and>
     pv_rest (and_operands s) = ps @ pv_rest (and_operands s') \<and>
     pv_rest (add_shares s) = a @ pv_rest (add_shares s') \<and>
     pv_rest (add_shares_2 s) = a2 @ pv_rest (add_shares_2 s')"

lemma did_trans:
  "did s gs e0 e1 ps a a2 s' \<Longrightarrow> did s' gs' e0' e1' ps' a' a2' s''
    \<Longrightarrow> did s gs' (e0 @ e0') (e1 @ e1') (ps @ ps') (a @ a') (a2 @ a2') s''"
  by (simp add: did_def)

lemma did_refl: "mr_inv s \<Longrightarrow> did s (shared_prngs s) [] [] [] [] [] s"
  by (simp add: did_def)

lemma took_trans:
  "took s u1 u2 ps a a2 s' \<Longrightarrow> took s' u1' u2' ps' a' a2' s''
    \<Longrightarrow> took s (u1 @ u1') (u2 @ u2') (ps @ ps') (a @ a') (a2 @ a2') s''"
  by (simp add: took_def)

lemma took_refl: "mr_inv s \<Longrightarrow> took s [] [] [] [] [] s"
  by (simp add: took_def)

lemma did_inv: "did s gs e0 e1 ps a a2 s' \<Longrightarrow> mr_inv s' \<and> my_num s' = my_num s \<and> shared_prngs s' = gs"
  by (simp add: did_def)

lemma took_inv: "took s u1 u2 ps a a2 s' \<Longrightarrow> mr_inv s' \<and> my_num s' = my_num s \<and> shared_prngs s' = shared_prngs s"
  by (simp add: took_def)

subsection \<open>Draws\<close>

fun draws :: "cipher \<Rightarrow> nat \<Rightarrow> nat \<Rightarrow> prng \<Rightarrow> bitvec list \<times> prng" where
  "draws E n 0 G = ([], G)"
| "draws E n (Suc k) G =
     (let (r, G1) = bv_randomize E G n; (rs, G2) = draws E n k G1 in (r # rs, G2))"

lemma draws_fits: "draws E n k G = (rs, G') \<Longrightarrow> length rs = k \<and> (\<forall>r \<in> set rs. fits n r)"
  by (induction E n k G arbitrary: rs G' rule: draws.induct)
     (force split: prod.splits dest: fits_randomize)+

lemma fits_draws [simp]: "r \<in> set (fst (draws E n k G)) \<Longrightarrow> fits n r"
  using draws_fits by (metis prod.collapse)

lemma length_draws [simp]: "length (fst (draws E n k G)) = k"
  using draws_fits by (metis prod.collapse)

lemma draws_1: "draws E n 1 G = ([fst (bv_randomize E G n)], snd (bv_randomize E G n))"
  by (simp split: prod.splits)

lemma draw_shared_did:
  assumes "mr_inv s" "j < 4"
  shows "\<exists>s'. draw_shared E j n s = Inr (fst (bv_randomize E (shared_prngs s ! j) n), s')
     \<and> did s ((shared_prngs s)[j := snd (bv_randomize E (shared_prngs s ! j) n)]) [] [] [] [] [] s'"
  using assms by (auto simp: draw_shared_def mr_inv_def did_def split: prod.splits)

lemma draw_shared_n_did:
  assumes "mr_inv s" "j < 4"
  shows "\<exists>s'. draw_shared_n E j n k s = Inr (fst (draws E n k (shared_prngs s ! j)), s')
     \<and> did s ((shared_prngs s)[j := snd (draws E n k (shared_prngs s ! j))]) [] [] [] [] [] s'"
  using assms
proof (induction k arbitrary: s)
  case 0
  then show ?case by (simp add: did_refl)
next
  case (Suc k)
  let ?G = "shared_prngs s ! j"
  obtain s1 where s1: "draw_shared E j n s = Inr (fst (bv_randomize E ?G n), s1)"
      "did s ((shared_prngs s)[j := snd (bv_randomize E ?G n)]) [] [] [] [] [] s1"
    using draw_shared_did [OF Suc.prems] by blast
  have len: "j < length (shared_prngs s)" using Suc.prems by (simp add: mr_inv_def)
  obtain s2 where s2: "draw_shared_n E j n k s1 = Inr (fst (draws E n k (shared_prngs s1 ! j)), s2)"
      "did s1 ((shared_prngs s1)[j := snd (draws E n k (shared_prngs s1 ! j))]) [] [] [] [] [] s2"
    using Suc.IH [of s1] s1(2) Suc.prems(2) did_inv by blast
  have g: "shared_prngs s1 = (shared_prngs s)[j := snd (bv_randomize E ?G n)]"
    using did_inv [OF s1(2)] by simp
  show ?case
    using s1(1) s2(1) did_trans [OF s1(2) s2(2)] len by (auto simp: g split: prod.splits)
qed

lemma masked_terms_did:
  assumes "mr_inv s" "j < 4"
  shows "\<exists>s'. masked_terms E j n ops k is acc s
       = Inr (masked_sum ops k is (fst (draws E n (length is) (shared_prngs s ! j))) acc, s')
     \<and> did s ((shared_prngs s)[j := snd (draws E n (length is) (shared_prngs s ! j))]) [] [] [] [] [] s'"
  using assms
proof (induction "is" arbitrary: s acc)
  case Nil
  then show ?case by (simp add: did_refl masked_sum_def)
next
  case (Cons i "is")
  let ?G = "shared_prngs s ! j"
  obtain s1 where s1: "draw_shared E j n s = Inr (fst (bv_randomize E ?G n), s1)"
      "did s ((shared_prngs s)[j := snd (bv_randomize E ?G n)]) [] [] [] [] [] s1"
    using draw_shared_did [OF Cons.prems] by blast
  have len: "j < length (shared_prngs s)" using Cons.prems by (simp add: mr_inv_def)
  let ?acc = "bv_add acc (product_out ops k i (fst (bv_randomize E ?G n)))"
  obtain s2 where s2: "masked_terms E j n ops k is ?acc s1
       = Inr (masked_sum ops k is (fst (draws E n (length is) (shared_prngs s1 ! j))) ?acc, s2)"
      "did s1 ((shared_prngs s1)[j := snd (draws E n (length is) (shared_prngs s1 ! j))]) [] [] [] [] [] s2"
    using Cons.IH [of s1 ?acc] s1(2) Cons.prems(2) did_inv by blast
  have g: "shared_prngs s1 = (shared_prngs s)[j := snd (bv_randomize E ?G n)]"
    using did_inv [OF s1(2)] by simp
  show ?case
    using s1(1) s2(1) did_trans [OF s1(2) s2(2)] len
    by (auto simp: g masked_sum_def split: prod.splits)
qed

subsection \<open>Sending and remembering\<close>

abbreviation enc :: "nat \<Rightarrow> bitvec list \<Rightarrow> octet list" where
  "enc n vs \<equiv> bv_codec.enc_list n vs"

lemma pack_os_did:
  assumes "mr_inv s" "k < 2" "n \<le> 64" "fits n x"
  shows "\<exists>s'. pack_os k n x s = Inr s' \<and>
    did s (shared_prngs s) (if k = 0 then enc n [x] else []) (if k = 1 then enc n [x] else []) [] [] [] s'"
proof -
  have k: "k < length (ostreams s)" and o: "os_inv (ostreams s ! k)"
    using assms by (auto simp: mr_inv_def)
  obtain o' where o': "bv_pack n x (ostreams s ! k) = Inr o'" "extends (octets_of (DIV_CEIL n 8) x) (ostreams s ! k) o'"
    using bv_codec.put_ok [OF o, of n x] assms(3,4) by auto
  have "k = 0 \<or> k = 1" using assms(2) by auto
  with o' k assms(1) show ?thesis
    by (auto simp: pack_os_def did_def mr_inv_def extends_def dest!: set_update_subset_insert [THEN subsetD])
qed

lemma push_add_did: "mr_inv s \<Longrightarrow> did s (shared_prngs s) [] [] [] [x] [] (push_add x s)"
  using pv.push_rest [of "add_shares s" x] by (simp add: did_def mr_inv_def push_add_def)

lemma push_add_2_did: "mr_inv s \<Longrightarrow> did s (shared_prngs s) [] [] [] [] [x] (push_add_2 x s)"
  using pv.push_rest [of "add_shares_2 s" x] by (simp add: did_def mr_inv_def push_add_2_def)

lemma save_operands_did: "mr_inv s \<Longrightarrow> did s (shared_prngs s) [] [] [xs] [] [] (save_operands xs s)"
  using pv.push_rest [of "and_operands s" xs] by (simp add: did_def mr_inv_def save_operands_def)

subsection \<open>Masked elements, fan-in above 2\<close>

lemma randomize_comm_elem_masked:
  assumes "mr_inv s" "j < 2" "n \<le> 64" "fits n c" "fanin \<noteq> 2"
  shows "\<exists>s'. (if j = 0 then randomize_comm_elem_0 E c n fanin else randomize_comm_elem_1 E c n fanin) s = Inr s' \<and>
    did s ((shared_prngs s)[j := snd (bv_randomize E (shared_prngs s ! j) n)])
      (enc n [bv_add c (fst (bv_randomize E (shared_prngs s ! j) n))]) [] [] [] [] s'"
proof -
  let ?G = "shared_prngs s ! j" and ?r = "fst (bv_randomize E (shared_prngs s ! j) n)"
  have j4: "j < 4" using assms(2) by simp
  obtain s1 where s1: "draw_shared E j n s = Inr (?r, s1)"
      "did s ((shared_prngs s)[j := snd (bv_randomize E ?G n)]) [] [] [] [] [] s1"
    using draw_shared_did [OF assms(1) j4] by blast
  have "fits n ?r" using fits_randomize by (metis prod.collapse)
  then have f: "fits n (bv_add c ?r)" using assms(4) by auto
  obtain s2 where s2: "pack_os 0 n (bv_add c ?r) s1 = Inr s2"
      "did s1 (shared_prngs s1) (enc n [bv_add c ?r]) [] [] [] [] s2"
    using pack_os_did [of s1 0 n "bv_add c ?r"] did_inv [OF s1(2)] assms(3) f by auto
  have "j = 0 \<or> j = 1" using assms(2) by auto
  with s1(1) s2(1) did_trans [OF s1(2) s2(2)] did_inv [OF s1(2)] assms(5) show ?thesis
    by (auto simp: randomize_comm_elem_0_def randomize_comm_elem_1_def)
qed

lemma randomize_comm_elems_masked:
  assumes "mr_inv s" "j < 2" "n \<le> 64" "\<forall>c \<in> set cs. fits n c" "fanin \<noteq> 2"
  shows "\<exists>s'. foldE (\<lambda>c. if j = 0 then randomize_comm_elem_0 E c n fanin else randomize_comm_elem_1 E c n fanin) cs s = Inr s' \<and>
    did s ((shared_prngs s)[j := snd (draws E n (length cs) (shared_prngs s ! j))])
      (enc n (map2 bv_add cs (fst (draws E n (length cs) (shared_prngs s ! j))))) [] [] [] [] s'"
  using assms
proof (induction cs arbitrary: s)
  case Nil
  then show ?case by (simp add: did_refl)
next
  case (Cons c cs)
  let ?f = "\<lambda>c. if j = 0 then randomize_comm_elem_0 E c n fanin else randomize_comm_elem_1 E c n fanin"
  let ?G = "shared_prngs s ! j" and ?r = "fst (bv_randomize E (shared_prngs s ! j) n)"
  have len: "j < length (shared_prngs s)" using Cons.prems by (simp add: mr_inv_def)
  have "fits n c" using Cons.prems(4) by simp
  then obtain s1 where s1: "?f c s = Inr s1"
      "did s ((shared_prngs s)[j := snd (bv_randomize E ?G n)]) (enc n [bv_add c ?r]) [] [] [] [] s1"
    using randomize_comm_elem_masked [OF Cons.prems(1-3) _ Cons.prems(5)] by blast
  obtain s2 where s2: "foldE ?f cs s1 = Inr s2"
      "did s1 ((shared_prngs s1)[j := snd (draws E n (length cs) (shared_prngs s1 ! j))])
        (enc n (map2 bv_add cs (fst (draws E n (length cs) (shared_prngs s1 ! j))))) [] [] [] [] s2"
    using Cons.IH [of s1] did_inv [OF s1(2)] Cons.prems by auto
  have g: "shared_prngs s1 = (shared_prngs s)[j := snd (bv_randomize E ?G n)]"
    using did_inv [OF s1(2)] by simp
  have "foldE ?f (c # cs) s = Inr s2"
    using s1(1) s2(1) by (simp del: if_split)
  with did_trans [OF s1(2) s2(2)] len show ?case
    by (auto simp: g split: prod.splits)
qed

text \<open>Party 2's two masks: \<open>elem_3\<close> to party 0, \<open>elem_2\<close> to party 1.\<close>

lemma randomize_comm_elem_23:
  assumes "mr_inv s" "n \<le> 64" "fits n c" "fanin \<noteq> 2"
  shows "\<exists>s'. randomize_comm_elem_3 E c n fanin s = Inr s' \<and>
    did s ((shared_prngs s)[0 := snd (bv_randomize E (shared_prngs s ! 0) n)])
      (enc n [bv_add c (fst (bv_randomize E (shared_prngs s ! 0) n))]) [] []
      [bv_add c (fst (bv_randomize E (shared_prngs s ! 0) n))] [] s'" (is ?A)
  and "\<exists>s'. randomize_comm_elem_2 E c n fanin s = Inr s' \<and>
    did s ((shared_prngs s)[1 := snd (bv_randomize E (shared_prngs s ! 1) n)])
      [] (enc n [bv_add c (fst (bv_randomize E (shared_prngs s ! 1) n))]) []
      [bv_add c (fst (bv_randomize E (shared_prngs s ! 1) n))] [] s'" (is ?B)
proof -
  have *: "\<exists>s1 s2. draw_shared E j n s = Inr (fst (bv_randomize E (shared_prngs s ! j) n), s1) \<and>
      pack_os j n (bv_add c (fst (bv_randomize E (shared_prngs s ! j) n)))
        (push_add (bv_add c (fst (bv_randomize E (shared_prngs s ! j) n))) s1) = Inr s2 \<and>
      did s ((shared_prngs s)[j := snd (bv_randomize E (shared_prngs s ! j) n)])
        (if j = 0 then enc n [bv_add c (fst (bv_randomize E (shared_prngs s ! j) n))] else [])
        (if j = 1 then enc n [bv_add c (fst (bv_randomize E (shared_prngs s ! j) n))] else []) []
        [bv_add c (fst (bv_randomize E (shared_prngs s ! j) n))] [] s2" if j: "j < 2" for j
  proof -
    let ?G = "shared_prngs s ! j" and ?r = "fst (bv_randomize E (shared_prngs s ! j) n)"
    have j4: "j < 4" using j by simp
    obtain s1 where s1: "draw_shared E j n s = Inr (?r, s1)"
        "did s ((shared_prngs s)[j := snd (bv_randomize E ?G n)]) [] [] [] [] [] s1"
      using draw_shared_did [OF assms(1) j4] by blast
    have "fits n ?r" using fits_randomize by (metis prod.collapse)
    then have f: "fits n (bv_add c ?r)" using assms(3) by auto
    note p = push_add_did [of s1 "bv_add c ?r"]
    have i1: "mr_inv s1" using did_inv [OF s1(2)] by simp
    obtain s2 where s2: "pack_os j n (bv_add c ?r) (push_add (bv_add c ?r) s1) = Inr s2"
        "did (push_add (bv_add c ?r) s1) (shared_prngs (push_add (bv_add c ?r) s1))
          (if j = 0 then enc n [bv_add c ?r] else []) (if j = 1 then enc n [bv_add c ?r] else []) [] [] [] s2"
      using pack_os_did [OF _ j assms(2) f] did_inv [OF p [OF i1]] by blast
    have "shared_prngs (push_add (bv_add c ?r) s1) = (shared_prngs s)[j := snd (bv_randomize E ?G n)]"
      using did_inv [OF p [OF i1]] did_inv [OF s1(2)] by simp
    with s1(1) s2(1) did_trans [OF s1(2) did_trans [OF p [OF i1] s2(2)]] show ?thesis by auto
  qed
  show ?A using * [of 0] assms(4) by (auto simp: randomize_comm_elem_3_def Let_def)
  show ?B using * [of 1] assms(4) by (auto simp: randomize_comm_elem_2_def Let_def)
qed

subsection \<open>One gate, fan-in above 2\<close>

text \<open>Parties 0 and 1: one draw to remember, and the masked products.\<close>

lemma prepare_mul_sender:
  assumes "mr_inv s" "my_num s = i" "i < 2" "0 < n" "n \<le> 64" "fits_ops n ops" "3 \<le> length ops"
  defines "m \<equiv> com_count (length ops)" and "d \<equiv> (if i = 0 then 3 else 2)" and "gs \<equiv> shared_prngs s"
  shows "\<exists>s'. prepare_mul E ops n s = Inr s' \<and>
    did s (gs[d := snd (bv_randomize E (gs ! d) n), i := snd (draws E n m (gs ! i))])
      (enc n (map2 bv_add (comm_elems ops) (fst (draws E n m (gs ! i))))) [] [ops]
      [fst (bv_randomize E (gs ! d) n)] [] s'"
proof -
  let ?r = "fst (bv_randomize E (gs ! d) n)"
  let ?f = "\<lambda>c. if i = 0 then randomize_comm_elem_0 E c n (length ops) else randomize_comm_elem_1 E c n (length ops)"
  have ops: "length ops = 3 \<Longrightarrow> [ops ! 0, ops ! 1, ops ! 2] = ops" "length ops = 4 \<Longrightarrow> [ops ! 0, ops ! 1, ops ! 2, ops ! 3] = ops"
    by (auto simp: list3 list4)
  have d: "d < 4" "d \<noteq> i" using assms(3) by (auto simp: d_def)
  define s1 where "s1 = save_operands ops s"
  have s1: "did s gs [] [] [ops] [] [] s1"
    unfolding s1_def gs_def by (rule save_operands_did [OF assms(1)])
  note i1 = did_inv [OF s1]
  obtain s2 where s2: "draw_shared E d n s1 = Inr (?r, s2)"
      "did s1 (gs[d := snd (bv_randomize E (gs ! d) n)]) [] [] [] [] [] s2"
    using draw_shared_did [OF _ d(1), of s1 E n] i1 by auto
  note i2 = did_inv [OF s2(2)]
  have s3: "did s2 (gs[d := snd (bv_randomize E (gs ! d) n)]) [] [] [] [?r] [] (push_add ?r s2)"
    using push_add_did [of s2 ?r] i2 by simp
  note i3 = did_inv [OF s3]
  have len: "length (comm_elems ops) = m" by (simp add: m_def length_comm_elems)
  obtain s4 where s4: "foldE ?f (comm_elems ops) (push_add ?r s2) = Inr s4"
      "did (push_add ?r s2) (gs[d := snd (bv_randomize E (gs ! d) n), i := snd (draws E n m (gs ! i))])
        (enc n (map2 bv_add (comm_elems ops) (fst (draws E n m (gs ! i))))) [] [] [] [] s4"
    using randomize_comm_elems_masked [of "push_add ?r s2" i n "comm_elems ops" "length ops" E]
      fits_comm_elems [OF assms(6,4,7)] i3 assms(3,5,7) d(2) len by auto
  have num: "my_num s1 = i" using i1 assms(2) by simp
  have "prepare_mul E ops n s = Inr s4"
  proof -
    have i: "i = 0 \<or> i = 1" using assms(3) by auto
    consider "length ops = 3" | "length ops = 4" | "4 < length ops" using assms(7) by linarith
    then show ?thesis
    proof cases
      case 1
      with ops(1) i s2(1) s4(1) num assms(2) show ?thesis
        by (auto simp: prepare_mul_def prepare_mul_3_def comm_elems_def d_def s1_def)
    next
      case 2
      with ops(2) i s2(1) s4(1) num assms(2) show ?thesis
        by (auto simp: prepare_mul_def prepare_mul_4_def comm_elems_def d_def s1_def)
    next
      case 3
      with i s2(1) s4(1) num assms(2) show ?thesis
        by (auto simp: prepare_mul_def prepare_mul_n_def comm_elems_def d_def s1_def)
    qed
  qed
  with did_trans [OF s1 did_trans [OF s2(2) did_trans [OF s3 s4(2)]]] show ?thesis by auto
qed

text \<open>Party 2: the two mask polynomials, masked once more.\<close>

lemma prepare_mul_masker:
  fixes E
  assumes "mr_inv s" "my_num s = 2" "0 < n" "n \<le> 64" "fits_ops n ops" "3 \<le> length ops"
  defines "m \<equiv> com_count (length ops)" and "gs \<equiv> shared_prngs s"
  defines "beta \<equiv> bv_add (mask_poly (fst (draws E n m (gs ! 2))) ops 0 1) (fst (bv_randomize E (gs ! 0) n))"
  defines "alpha \<equiv> bv_add (mask_poly (fst (draws E n m (gs ! 3))) ops 1 0) (fst (bv_randomize E (gs ! 1) n))"
  shows "\<exists>s'. prepare_mul E ops n s = Inr s' \<and>
    did s (gs[0 := snd (bv_randomize E (gs ! 0) n), 1 := snd (bv_randomize E (gs ! 1) n),
              2 := snd (draws E n m (gs ! 2)), 3 := snd (draws E n m (gs ! 3))])
      (enc n [beta]) (enc n [alpha]) [ops] [beta, alpha] [] s'"
proof -
  let ?c0 = "mask_poly (fst (draws E n m (gs ! 2))) ops 0 1"
  let ?c1 = "mask_poly (fst (draws E n m (gs ! 3))) ops 1 0"
  have ops: "length ops = 3 \<Longrightarrow> [ops ! 0, ops ! 1, ops ! 2] = ops" "length ops = 4 \<Longrightarrow> [ops ! 0, ops ! 1, ops ! 2, ops ! 3] = ops"
    by (auto simp: list3 list4)
  have fc: "fits n ?c0" "fits n ?c1"
    using fits_mask_poly [OF assms(5,3)] by (auto simp: m_def)
  have lg: "length gs = 4" using assms(1) by (simp add: gs_def mr_inv_def)
  define s1 where "s1 = save_operands ops s"
  have s1: "did s gs [] [] [ops] [] [] s1"
    unfolding s1_def gs_def by (rule save_operands_did [OF assms(1)])
  note i1 = did_inv [OF s1]
  have num: "my_num s1 = 2" using i1 assms(2) by simp
  show ?thesis
  proof (cases "length ops \<le> 4")
    case True
    obtain s2 where s2: "draw_shared_n E 2 n m s1 = Inr (fst (draws E n m (gs ! 2)), s2)"
        "did s1 (gs[2 := snd (draws E n m (gs ! 2))]) [] [] [] [] [] s2"
      using draw_shared_n_did [of s1 2 E n m] i1 by auto
    note i2 = did_inv [OF s2(2)]
    obtain s3 where s3: "draw_shared_n E 3 n m s2 = Inr (fst (draws E n m (gs ! 3)), s3)"
        "did s2 (gs[2 := snd (draws E n m (gs ! 2)), 3 := snd (draws E n m (gs ! 3))]) [] [] [] [] [] s3"
      using draw_shared_n_did [of s2 3 E n m] i2 by auto
    note i3 = did_inv [OF s3(2)]
    obtain s4 where s4: "randomize_comm_elem_3 E ?c0 n (length ops) s3 = Inr s4"
        "did s3 (gs[2 := snd (draws E n m (gs ! 2)), 3 := snd (draws E n m (gs ! 3)), 0 := snd (bv_randomize E (gs ! 0) n)])
          (enc n [beta]) [] [] [beta] [] s4"
      using randomize_comm_elem_23(1) [of s3 n ?c0 "length ops" E] i3 assms(4,6) fc(1) by (auto simp: beta_def)
    note i4 = did_inv [OF s4(2)]
    obtain s5 where s5: "randomize_comm_elem_2 E ?c1 n (length ops) s4 = Inr s5"
        "did s4 (gs[2 := snd (draws E n m (gs ! 2)), 3 := snd (draws E n m (gs ! 3)), 0 := snd (bv_randomize E (gs ! 0) n),
            1 := snd (bv_randomize E (gs ! 1) n)]) [] (enc n [alpha]) [] [alpha] [] s5"
      using randomize_comm_elem_23(2) [of s4 n ?c1 "length ops" E] i4 assms(4,6) fc(2) by (auto simp: alpha_def)
    have "length ops = 3 \<or> length ops = 4" using True assms(6) by linarith
    then have "prepare_mul E ops n s = Inr s5"
      using ops s2(1) s3(1) s4(1) s5(1) num
      by (elim disjE) (simp_all add: prepare_mul_def prepare_mul_3_def prepare_mul_4_def mask_poly_def s1_def m_def com_count_3_4)
    moreover have "gs[2 := a, 3 := b, 0 := c, 1 := d] = gs[0 := c, 1 := d, 2 := a, 3 := b]" for a b c d
      by (simp add: list_update_swap)
    ultimately show ?thesis
      using did_trans [OF s1 did_trans [OF s2(2) did_trans [OF s3(2) did_trans [OF s4(2) s5(2)]]]] by simp
  next
    case False
    let ?S = "subsets_down (length ops)"
    have m: "length ?S = m" by (simp add: m_def length_subsets_down)
    have c: "?c0 = swap_terms ops 0 1 (masked_sum ops 0 ?S (fst (draws E n m (gs ! 2))) 0)"
      "?c1 = swap_terms ops 1 0 (masked_sum ops 1 ?S (fst (draws E n m (gs ! 3))) 0)"
      using False by (auto simp: mask_poly_def)
    obtain s2 where s2: "masked_terms E 2 n ops 0 ?S 0 s1 = Inr (masked_sum ops 0 ?S (fst (draws E n m (gs ! 2))) 0, s2)"
        "did s1 (gs[2 := snd (draws E n m (gs ! 2))]) [] [] [] [] [] s2"
      using masked_terms_did [of s1 2 E n ops 0 ?S 0] i1 m by auto
    note i2 = did_inv [OF s2(2)]
    obtain s3 where s3: "randomize_comm_elem_3 E ?c0 n (length ops) s2 = Inr s3"
        "did s2 (gs[2 := snd (draws E n m (gs ! 2)), 0 := snd (bv_randomize E (gs ! 0) n)])
          (enc n [beta]) [] [] [beta] [] s3"
      using randomize_comm_elem_23(1) [of s2 n ?c0 "length ops" E] i2 assms(4,6) fc(1) by (auto simp: beta_def)
    note i3 = did_inv [OF s3(2)]
    obtain s4 where s4: "masked_terms E 3 n ops 1 ?S 0 s3 = Inr (masked_sum ops 1 ?S (fst (draws E n m (gs ! 3))) 0, s4)"
        "did s3 (gs[2 := snd (draws E n m (gs ! 2)), 0 := snd (bv_randomize E (gs ! 0) n), 3 := snd (draws E n m (gs ! 3))])
          [] [] [] [] [] s4"
      using masked_terms_did [of s3 3 E n ops 1 ?S 0] i3 m by auto
    note i4 = did_inv [OF s4(2)]
    obtain s5 where s5: "randomize_comm_elem_2 E ?c1 n (length ops) s4 = Inr s5"
        "did s4 (gs[2 := snd (draws E n m (gs ! 2)), 0 := snd (bv_randomize E (gs ! 0) n), 3 := snd (draws E n m (gs ! 3)),
            1 := snd (bv_randomize E (gs ! 1) n)]) [] (enc n [alpha]) [] [alpha] [] s5"
      using randomize_comm_elem_23(2) [of s4 n ?c1 "length ops" E] i4 assms(4,6) fc(2) by (auto simp: alpha_def)
    have "prepare_mul E ops n s = Inr s5"
      using False s2(1) s3(1) s4(1) s5(1) num
      by (simp add: prepare_mul_def prepare_mul_n_def c s1_def Let_def del: One_nat_def)
    moreover have "gs[2 := a, 0 := c, 3 := b, 1 := d] = gs[0 := c, 1 := d, 2 := a, 3 := b]" for a b c d
      by (simp add: list_update_swap)
    ultimately show ?thesis
      using did_trans [OF s1 did_trans [OF s2(2) did_trans [OF s3(2) did_trans [OF s4(2) s5(2)]]]] by simp
  qed
qed

subsection \<open>One gate of fan-in 2\<close>

definition comm_elem_2 :: "nat \<Rightarrow> share list \<Rightarrow> bitvec" where
  "comm_elem_2 i ops = (let x = ops ! 0; y = ops ! 1 in
     if i = 0 then bv_mul (x ! 0) (y ! 0)
     else if i = 1 then bv_sum [bv_mul (x ! 0) (y ! 1), bv_mul (x ! 1) (y ! 0)]
     else bv_sum [bv_mul (x ! 0) (y ! 1), bv_mul (x ! 1) (y ! 0), bv_mul (x ! 0) (y ! 0)])"

lemma fits_comm_elem_2: "fits_ops n ops \<Longrightarrow> length ops = 2 \<Longrightarrow> fits n (comm_elem_2 i ops)"
  using fits_ops_nth [of n ops 0 0] fits_ops_nth [of n ops 0 1]
  by (auto simp: comm_elem_2_def Let_def simp del: bv_sum.simps intro!: fits_bv_sum)

lemma push_pack_did:
  assumes "mr_inv s" "n \<le> 64" "fits n x"
  shows "\<exists>s'. pack_os 0 n x (push_add_2 b (push_add_2 a s)) = Inr s'
    \<and> did s (shared_prngs s) (enc n [x]) [] [] [] [a, b] s'"
proof -
  note a = push_add_2_did [OF assms(1), of a]
  note b = push_add_2_did [of "push_add_2 a s" b]
  have inv: "mr_inv (push_add_2 a s)" "mr_inv (push_add_2 b (push_add_2 a s))"
    using did_inv [OF a] did_inv [OF b] by auto
  obtain s' where s': "pack_os 0 n x (push_add_2 b (push_add_2 a s)) = Inr s'"
      "did (push_add_2 b (push_add_2 a s)) (shared_prngs (push_add_2 b (push_add_2 a s))) (enc n [x]) [] [] [] [] s'"
    using pack_os_did [OF inv(2) _ assms(2,3), of 0] by auto
  have "shared_prngs (push_add_2 b (push_add_2 a s)) = shared_prngs s"
    using did_inv [OF a] did_inv [OF b [OF inv(1)]] by simp
  with did_trans [OF a did_trans [OF b [OF inv(1)] s'(2)]] s'(1) show ?thesis by auto
qed

text \<open>The three ways to mask the product, party by party.\<close>

abbreviation rnd_of :: "cipher \<Rightarrow> nat \<Rightarrow> multi_replicated \<Rightarrow> nat \<Rightarrow> bitvec" where
  "rnd_of E n s j \<equiv> fst (bv_randomize E (shared_prngs s ! j) n)"

abbreviation gen_of :: "cipher \<Rightarrow> nat \<Rightarrow> multi_replicated \<Rightarrow> nat \<Rightarrow> prng" where
  "gen_of E n s j \<equiv> snd (bv_randomize E (shared_prngs s ! j) n)"

lemma fits_rnd: "fits n (fst (bv_randomize E G n))"
  using fits_randomize by (metis prod.collapse)

lemma randomize_2_party_0:
  assumes "mr_inv s" "n \<le> 64" "fits n c"
  shows "\<exists>s'. randomize_comm_elem_0 E c n 2 s = Inr s' \<and>
    did s ((shared_prngs s)[0 := gen_of E n s 0]) (enc n [bv_add c (rnd_of E n s 0)]) [] [] [] [c, rnd_of E n s 0] s'"
proof -
  obtain s2 where s2: "draw_shared E 0 n s = Inr (rnd_of E n s 0, s2)"
      "did s ((shared_prngs s)[0 := gen_of E n s 0]) [] [] [] [] [] s2"
    using draw_shared_did [OF assms(1), of 0] by auto
  note i2 = did_inv [OF s2(2)]
  have "fits n (bv_add c (rnd_of E n s 0))" using assms(3) fits_rnd by auto
  then obtain s3 where "pack_os 0 n (bv_add c (rnd_of E n s 0)) (push_add_2 (rnd_of E n s 0) (push_add_2 c s2)) = Inr s3"
      "did s2 (shared_prngs s2) (enc n [bv_add c (rnd_of E n s 0)]) [] [] [] [c, rnd_of E n s 0] s3"
    using push_pack_did [of s2 n _ "rnd_of E n s 0" c] i2 assms(2) by blast
  with s2(1) did_trans [OF s2(2)] i2 show ?thesis
    by (fastforce simp: randomize_comm_elem_0_def)
qed

lemma randomize_2_party_1:
  assumes "mr_inv s" "n \<le> 64" "fits n c"
  shows "\<exists>s'. randomize_comm_elem_1 E c n 2 s = Inr s' \<and>
    did s ((shared_prngs s)[1 := gen_of E n s 1, 2 := gen_of E n s 2])
      (enc n [bv_add c (rnd_of E n s 1)]) [] [] []
      [bv_add c (rnd_of E n s 2), bv_add (rnd_of E n s 1) (rnd_of E n s 2)] s'"
proof -
  let ?x = "bv_add c (rnd_of E n s 1)" and ?a = "bv_add c (rnd_of E n s 2)" and ?b = "bv_add (rnd_of E n s 1) (rnd_of E n s 2)"
  obtain s2 where s2: "draw_shared E 1 n s = Inr (rnd_of E n s 1, s2)"
      "did s ((shared_prngs s)[1 := gen_of E n s 1]) [] [] [] [] [] s2"
    using draw_shared_did [OF assms(1), of 1] by auto
  note i2 = did_inv [OF s2(2)]
  obtain s3 where s3: "draw_shared E 2 n s2 = Inr (rnd_of E n s 2, s3)"
      "did s2 ((shared_prngs s)[1 := gen_of E n s 1, 2 := gen_of E n s 2]) [] [] [] [] [] s3"
    using draw_shared_did [of s2 2 E n] i2 by auto
  note i3 = did_inv [OF s3(2)]
  have "fits n ?x" using assms(3) fits_rnd by auto
  then obtain s4 where "pack_os 0 n ?x (push_add_2 ?b (push_add_2 ?a s3)) = Inr s4"
      "did s3 (shared_prngs s3) (enc n [?x]) [] [] [] [?a, ?b] s4"
    using push_pack_did [of s3 n ?x ?b ?a] i3 assms(2) by blast
  with s2(1) s3(1) did_trans [OF s2(2) did_trans [OF s3(2)]] i3 show ?thesis
    by (fastforce simp: randomize_comm_elem_1_def)
qed

lemma randomize_2_party_2:
  assumes "mr_inv s" "n \<le> 64" "fits n c"
  shows "\<exists>s'. randomize_comm_elem_2 E c n 2 s = Inr s' \<and>
    did s ((shared_prngs s)[0 := gen_of E n s 0, 2 := gen_of E n s 2, 3 := gen_of E n s 3])
      (enc n [bv_add c (rnd_of E n s 0)]) [] [] []
      [bv_add (rnd_of E n s 0) (rnd_of E n s 3), bv_add (bv_add c (rnd_of E n s 0)) (rnd_of E n s 2)] s'"
proof -
  let ?x = "bv_add c (rnd_of E n s 0)" and ?a = "bv_add (rnd_of E n s 0) (rnd_of E n s 3)"
    and ?b = "bv_add (bv_add c (rnd_of E n s 0)) (rnd_of E n s 2)"
  obtain s2 where s2: "draw_shared E 3 n s = Inr (rnd_of E n s 3, s2)"
      "did s ((shared_prngs s)[3 := gen_of E n s 3]) [] [] [] [] [] s2"
    using draw_shared_did [OF assms(1), of 3] by auto
  note i2 = did_inv [OF s2(2)]
  obtain s3 where s3: "draw_shared E 2 n s2 = Inr (rnd_of E n s 2, s3)"
      "did s2 ((shared_prngs s)[3 := gen_of E n s 3, 2 := gen_of E n s 2]) [] [] [] [] [] s3"
    using draw_shared_did [of s2 2 E n] i2 by auto
  note i3 = did_inv [OF s3(2)]
  obtain s4 where s4: "draw_shared E 0 n s3 = Inr (rnd_of E n s 0, s4)"
      "did s3 ((shared_prngs s)[3 := gen_of E n s 3, 2 := gen_of E n s 2, 0 := gen_of E n s 0]) [] [] [] [] [] s4"
    using draw_shared_did [of s3 0 E n] i3 by auto
  note i4 = did_inv [OF s4(2)]
  have "fits n ?x" using assms(3) fits_rnd by auto
  then obtain s5 where s5: "pack_os 0 n ?x (push_add_2 ?b (push_add_2 ?a s4)) = Inr s5"
      "did s4 (shared_prngs s4) (enc n [?x]) [] [] [] [?a, ?b] s5"
    using push_pack_did [of s4 n ?x ?b ?a] i4 assms(2) by blast
  have "(shared_prngs s)[3 := gen_of E n s 3, 2 := gen_of E n s 2, 0 := gen_of E n s 0]
      = (shared_prngs s)[0 := gen_of E n s 0, 2 := gen_of E n s 2, 3 := gen_of E n s 3]"
    by (simp add: list_update_swap)
  with s2(1) s3(1) s4(1) s5(1) did_trans [OF s2(2) did_trans [OF s3(2) did_trans [OF s4(2) s5(2)]]] i4 show ?thesis
    by (auto simp: randomize_comm_elem_2_def Let_def)
qed

lemma prepare_mul_2_eq:
  assumes "length ops = 2" "my_num (save_operands ops s) = i"
  shows "prepare_mul E ops n s =
    (if i = 0 then randomize_comm_elem_0 E (comm_elem_2 i ops) n 2 (save_operands ops s)
     else if i = 1 then randomize_comm_elem_1 E (comm_elem_2 i ops) n 2 (save_operands ops s)
     else randomize_comm_elem_2 E (comm_elem_2 i ops) n 2 (save_operands ops s))"
proof -
  have "[ops ! 0, ops ! 1] = ops" using assms(1) by (auto simp: numeral_eq_Suc length_Suc_conv)
  with assms show ?thesis
    by (simp add: prepare_mul_def prepare_mul_2_def comm_elem_2_def Let_def del: One_nat_def)
qed

lemma prepare_mul_2_did:
  assumes "mr_inv s" "my_num s = i" "i < 3" "n \<le> 64" "fits_ops n ops" "length ops = 2"
  shows "\<exists>s'. prepare_mul E ops n s = Inr s' \<and>
    did s (if i = 0 then (shared_prngs s)[0 := gen_of E n s 0]
           else if i = 1 then (shared_prngs s)[1 := gen_of E n s 1, 2 := gen_of E n s 2]
           else (shared_prngs s)[0 := gen_of E n s 0, 2 := gen_of E n s 2, 3 := gen_of E n s 3])
      (enc n [bv_add (comm_elem_2 i ops) (rnd_of E n s (if i = 1 then 1 else 0))]) [] [ops] []
      (if i = 0 then [comm_elem_2 i ops, rnd_of E n s 0]
       else if i = 1 then [bv_add (comm_elem_2 i ops) (rnd_of E n s 2), bv_add (rnd_of E n s 1) (rnd_of E n s 2)]
       else [bv_add (rnd_of E n s 0) (rnd_of E n s 3), bv_add (bv_add (comm_elem_2 i ops) (rnd_of E n s 0)) (rnd_of E n s 2)]) s'"
proof -
  let ?s1 = "save_operands ops s"
  have s1: "did s (shared_prngs s) [] [] [ops] [] [] ?s1"
    by (rule save_operands_did [OF assms(1)])
  note i1 = did_inv [OF s1]
  have fc: "fits n (comm_elem_2 i ops)" by (rule fits_comm_elem_2 [OF assms(5,6)])
  have pm: "prepare_mul E ops n s =
    (if i = 0 then randomize_comm_elem_0 E (comm_elem_2 i ops) n 2 ?s1
     else if i = 1 then randomize_comm_elem_1 E (comm_elem_2 i ops) n 2 ?s1
     else randomize_comm_elem_2 E (comm_elem_2 i ops) n 2 ?s1)"
    using prepare_mul_2_eq [OF assms(6)] i1 assms(2) by simp
  consider "i = 0" | "i = 1" | "i = 2" using assms(3) by linarith
  then show ?thesis
  proof cases
    case 1
    with randomize_2_party_0 [of ?s1 n "comm_elem_2 i ops" E] i1 assms(4) fc pm show ?thesis
      using did_trans [OF s1] by fastforce
  next
    case 2
    with randomize_2_party_1 [of ?s1 n "comm_elem_2 i ops" E] i1 assms(4) fc pm show ?thesis
      using did_trans [OF s1] by fastforce
  next
    case 3
    with randomize_2_party_2 [of ?s1 n "comm_elem_2 i ops" E] i1 assms(4) fc pm show ?thesis
      using did_trans [OF s1] by fastforce
  qed
qed

end
