(* ===== verification/TrifectaRun.thy ===== *)
theory TrifectaRun
  imports Trifecta
begin

text \<open>
  Whole runs of the Trifecta protocol: the sharing relation of the three parties, one gate of
  any fan-in seen from all three parties, the exchange under any schedule of the network, and
  the batch of gates that \<^verbatim>\<open>ShareThread::and_\<close> runs.
\<close>

unbundle bit_operations_syntax

subsection \<open>Sharings and gates\<close>

text \<open>
  \<open>sharing n v t0 t1 t2\<close>: the three parties hold a Trifecta sharing of the \<open>n\<close>-bit value
  \<open>v\<close>; party 2 holds the two masks.
\<close>

definition sharing :: "nat \<Rightarrow> bitvec \<Rightarrow> share \<Rightarrow> share \<Rightarrow> share \<Rightarrow> bool" where
  "sharing n v t0 t1 t2 \<longleftrightarrow> fits n v \<and> length t2 = 2 \<and> fits n (t2 ! 0) \<and> fits n (t2 ! 1) \<and>
     t0 = [bv_add v (t2 ! 0), t2 ! 1] \<and> t1 = [bv_add v (t2 ! 1), t2 ! 0]"

record gate =
  g_len :: nat
  g_vals :: "bitvec list"
  g_ops :: "nat \<Rightarrow> share list"

definition gate_ok :: "gate \<Rightarrow> bool" where
  "gate_ok g \<longleftrightarrow> 0 < g_len g \<and> g_len g \<le> 64 \<and> 2 \<le> length (g_vals g) \<and>
     (\<forall>i < 3. length (g_ops g i) = length (g_vals g)) \<and>
     (\<forall>j < length (g_vals g). sharing (g_len g) (g_vals g ! j) (g_ops g 0 ! j) (g_ops g 1 ! j) (g_ops g 2 ! j))"

text \<open>The pairwise generators: what one party draws, another draws too.\<close>

definition synced :: "prng list \<Rightarrow> prng list \<Rightarrow> prng list \<Rightarrow> bool" where
  "synced g0 g1 g2 \<longleftrightarrow> length g0 = 4 \<and> length g1 = 4 \<and> length g2 = 4 \<and>
     g0 ! 0 = g2 ! 2 \<and> g1 ! 1 = g2 ! 3 \<and> g2 ! 0 = g1 ! 2 \<and> g2 ! 1 = g0 ! 3"

text \<open>The values that a gate puts on the streams and on the lists of the parties.\<close>

record msgs =
  to1 :: "bitvec list"
  to0 :: "bitvec list"
  mask0 :: "bitvec list"
  mask1 :: "bitvec list"
  adds :: "nat \<Rightarrow> bitvec list"
  adds2 :: "nat \<Rightarrow> bitvec list"

definition result_0 :: "share list \<Rightarrow> msgs \<Rightarrow> share" where
  "result_0 ops m = (if length ops = 2
     then [bv_sum [adds2 m 0 ! 0, to0 m ! 0, mask0 m ! 0], bv_add (mask0 m ! 0) (adds2 m 0 ! 1)]
     else [bv_sum (unmask_poly (to0 m) ops @ [adds m 0 ! 0]), mask0 m ! 0])"

definition result_1 :: "share list \<Rightarrow> msgs \<Rightarrow> share" where
  "result_1 ops m = (if length ops = 2 then [bv_add (to1 m ! 0) (adds2 m 1 ! 0), adds2 m 1 ! 1]
     else [bv_sum (unmask_poly (to1 m) ops @ [adds m 1 ! 0]), mask1 m ! 0])"

definition result_2 :: "share list \<Rightarrow> msgs \<Rightarrow> share" where
  "result_2 ops m = (if length ops = 2 then [adds2 m 2 ! 0, adds2 m 2 ! 1] else [adds m 2 ! 1, adds m 2 ! 0])"

definition msgs_ok :: "gate \<Rightarrow> msgs \<Rightarrow> bool" where
  "msgs_ok g m \<longleftrightarrow>
     length (to0 m) = com_count (length (g_vals g)) \<and> length (to1 m) = com_count (length (g_vals g)) \<and>
     length (mask0 m) = 1 \<and> length (mask1 m) = (if length (g_vals g) = 2 then 0 else 1) \<and>
     (if length (g_vals g) = 2 then (\<forall>i < 3. length (adds2 m i) = 2 \<and> adds m i = [])
      else (\<forall>i < 3. length (adds m i) = (if i = 2 then 2 else 1) \<and> adds2 m i = [])) \<and>
     (\<forall>x \<in> set (to0 m @ to1 m @ mask0 m @ mask1 m). fits (g_len g) x) \<and>
     sharing (g_len g) (gate_result (g_vals g)) (result_0 (g_ops g 0) m) (result_1 (g_ops g 1) m) (result_2 (g_ops g 2) m)"

lemma fits_and_all: "\<forall>v \<in> set vs. fits n v \<Longrightarrow> vs \<noteq> [] \<Longrightarrow> fits n (and_all vs)"
  unfolding and_all_def
  by (cases vs) (use fits_ring(3) in \<open>auto simp: bv_mul_def\<close>)

lemma fits_gate_result: "\<forall>v \<in> set vs. fits n v \<Longrightarrow> vs \<noteq> [] \<Longrightarrow> fits n (gate_result vs)"
  using fits_and_all [of vs n] fits_ring(3) [of n "and_all vs" 1] by (auto simp: gate_result_def bv_mul_def)

lemma sharing_fits:
  assumes "sharing n v t0 t1 t2" "k < 2"
  shows "fits n (t0 ! k)" "fits n (t1 ! k)" "fits n (t2 ! k)" "fits n v"
proof -
  have "k = 0 \<or> k = 1" using assms(2) by auto
  with assms(1) show "fits n (t0 ! k)" "fits n (t1 ! k)" "fits n (t2 ! k)" "fits n v"
    by (auto simp: sharing_def)
qed

lemma gate_ok_fits:
  assumes "gate_ok g" "i < 3"
  shows "fits_ops (g_len g) (g_ops g i)" "\<forall>v \<in> set (g_vals g). fits (g_len g) v"
proof -
  have "i = 0 \<or> i = 1 \<or> i = 2" using assms(2) by auto
  with assms(1) show "fits_ops (g_len g) (g_ops g i)"
    unfolding fits_ops_def gate_ok_def by (metis in_set_conv_nth sharing_fits(1-3) One_nat_def lessI numeral_3_eq_3 less_SucI zero_less_Suc numeral_2_eq_2)
  show "\<forall>v \<in> set (g_vals g). fits (g_len g) v"
    using assms(1) unfolding gate_ok_def by (metis in_set_conv_nth sharing_fits(4) zero_less_numeral)
qed

lemma gate_roles:
  assumes "gate_ok g"
  shows "roles (g_vals g) (map (\<lambda>t. t ! 1) (g_ops g 2)) (map (\<lambda>t. t ! 0) (g_ops g 2)) (g_ops g 1) (g_ops g 0) (g_ops g 2) 1 0"
    "roles (g_vals g) (map (\<lambda>t. t ! 0) (g_ops g 2)) (map (\<lambda>t. t ! 1) (g_ops g 2)) (g_ops g 0) (g_ops g 1) (g_ops g 2) 0 1"
  using assms by (auto simp: gate_ok_def roles_def sharing_def bv_defs)

subsection \<open>Preparation of one gate by the three parties\<close>

lemma product_2:
  assumes "sharing n x a0 a1 a2" "sharing n y b0 b1 b2"
  shows "comm_elem_2 0 [a0, b0] XOR comm_elem_2 1 [a1, b1] XOR comm_elem_2 2 [a2, b2] = x AND y"
  using assms by (auto simp: sharing_def comm_elem_2_def bv_defs xor_simps)

type_synonym parties = "nat \<Rightarrow> multi_replicated"

definition ready :: "parties \<Rightarrow> bool" where
  "ready S \<longleftrightarrow> (\<forall>i < 3. mr_inv (S i) \<and> my_num (S i) = i)
     \<and> synced (shared_prngs (S 0)) (shared_prngs (S 1)) (shared_prngs (S 2))"

definition out0 :: "msgs \<Rightarrow> nat \<Rightarrow> bitvec list" where "out0 m = three (to1 m) (to0 m) (mask0 m)"
definition out1 :: "msgs \<Rightarrow> nat \<Rightarrow> bitvec list" where "out1 m = three [] [] (mask1 m)"

definition prepared :: "cipher \<Rightarrow> gate \<Rightarrow> parties \<Rightarrow> parties \<Rightarrow> msgs \<Rightarrow> bool" where
  "prepared E g S S' m \<longleftrightarrow> msgs_ok g m \<and> ready S' \<and>
     (\<forall>i < 3. prepare_mul E (g_ops g i) (g_len g) (S i) = Inr (S' i) \<and>
        did (S i) (shared_prngs (S' i)) (enc (g_len g) (out0 m i)) (enc (g_len g) (out1 m i)) [g_ops g i]
          (adds m i) (adds2 m i) (S' i))"

lemma com_count_2: "com_count 2 = 1"
  by (simp add: com_count_def)

lemma list2: "length xs = 2 \<Longrightarrow> xs = [xs ! 0, xs ! 1]"
  by (auto simp: numeral_eq_Suc length_Suc_conv)

lemma gate_product_2:
  assumes "gate_ok g" "length (g_vals g) = 2"
  shows "comm_elem_2 0 (g_ops g 0) XOR comm_elem_2 1 (g_ops g 1) XOR comm_elem_2 2 (g_ops g 2) = gate_result (g_vals g)"
proof -
  have l: "length (g_ops g i) = 2" if "i < 3" for i using assms that by (simp add: gate_ok_def)
  have "comm_elem_2 0 [g_ops g 0 ! 0, g_ops g 0 ! 1] XOR comm_elem_2 1 [g_ops g 1 ! 0, g_ops g 1 ! 1]
     XOR comm_elem_2 2 [g_ops g 2 ! 0, g_ops g 2 ! 1] = g_vals g ! 0 AND g_vals g ! 1"
    using assms by (intro product_2 [where n = "g_len g"]) (auto simp: gate_ok_def)
  also have "\<dots> = gate_result (g_vals g)"
    using assms(2) by (auto simp: gate_result_def and_all_def numeral_eq_Suc length_Suc_conv)
  finally show ?thesis
    using list2 [OF l [of 0]] list2 [OF l [of 1]] list2 [OF l [of 2]] by simp
qed

lemma prepare_gate_2:
  assumes R: "ready S" and G: "gate_ok g" and k: "length (g_vals g) = 2"
  shows "\<exists>S' m. prepared E g S S' m"
proof -
  let ?n = "g_len g"
  let ?c = "\<lambda>i. comm_elem_2 i (g_ops g i)" and ?r = "\<lambda>i. rnd_of E ?n (S i)"
  have len: "length (g_ops g i) = 2" if "i < 3" for i using G k that by (simp add: gate_ok_def)
  have n: "?n \<le> 64" using G by (simp add: gate_ok_def)
  have inv: "mr_inv (S i)" "my_num (S i) = i" if "i < 3" for i using R that by (auto simp: ready_def)
  note p = prepare_mul_2_did [OF inv _ n gate_ok_fits(1) [OF G] len, where E = E]
  obtain s0 where s0: "prepare_mul E (g_ops g 0) ?n (S 0) = Inr s0"
    "did (S 0) ((shared_prngs (S 0))[0 := gen_of E ?n (S 0) 0]) (enc ?n [bv_add (?c 0) (?r 0 0)]) [] [g_ops g 0] []
       [?c 0, ?r 0 0] s0" using p [of 0 0] by auto
  obtain s1 where s1: "prepare_mul E (g_ops g 1) ?n (S 1) = Inr s1"
    "did (S 1) ((shared_prngs (S 1))[1 := gen_of E ?n (S 1) 1, 2 := gen_of E ?n (S 1) 2])
       (enc ?n [bv_add (?c 1) (?r 1 1)]) [] [g_ops g 1] []
       [bv_add (?c 1) (?r 1 2), bv_add (?r 1 1) (?r 1 2)] s1" using p [of 1 1] by auto
  obtain s2 where s2: "prepare_mul E (g_ops g 2) ?n (S 2) = Inr s2"
    "did (S 2) ((shared_prngs (S 2))[0 := gen_of E ?n (S 2) 0, 2 := gen_of E ?n (S 2) 2, 3 := gen_of E ?n (S 2) 3])
       (enc ?n [bv_add (?c 2) (?r 2 0)]) [] [g_ops g 2] []
       [bv_add (?r 2 0) (?r 2 3), bv_add (bv_add (?c 2) (?r 2 0)) (?r 2 2)] s2" using p [of 2 2] by auto
  define m where "m = \<lparr>to1 = [bv_add (?c 0) (?r 0 0)], to0 = [bv_add (?c 1) (?r 1 1)], mask0 = [bv_add (?c 2) (?r 2 0)],
    mask1 = [], adds = (\<lambda>_. []), adds2 = three [?c 0, ?r 0 0] [bv_add (?c 1) (?r 1 2), bv_add (?r 1 1) (?r 1 2)]
      [bv_add (?r 2 0) (?r 2 3), bv_add (bv_add (?c 2) (?r 2 0)) (?r 2 2)]\<rparr>"
  have sy: "synced (shared_prngs (S 0)) (shared_prngs (S 1)) (shared_prngs (S 2))" using R by (simp add: ready_def)
  then have rs: "?r 0 0 = ?r 2 2" "?r 1 1 = ?r 2 3" "?r 2 0 = ?r 1 2" by (auto simp: synced_def)
  have fr: "fits ?n (?r i j)" for i j by (rule fits_rnd)
  have fc: "fits ?n (?c i)" if "i < 3" for i
    using that by (intro fits_comm_elem_2 gate_ok_fits [OF G] len)
  have gr: "gate_result (g_vals g) = ?c 0 XOR ?c 1 XOR ?c 2" using gate_product_2 [OF G k] by simp
  have "msgs_ok g m"
    unfolding msgs_ok_def sharing_def
    using len k rs fr fc [of 0] fc [of 1] fc [of 2]
    by (simp add: m_def com_count_2 all_lt_3 result_0_def result_1_def result_2_def gr fits_ring [unfolded bv_defs]
        bv_defs xor_ac)
  moreover have "ready (three s0 s1 s2)"
    using did_inv [OF s0(2)] did_inv [OF s1(2)] did_inv [OF s2(2)] inv sy by (auto simp: ready_def all_lt_3 synced_def)
  ultimately have "prepared E g S (three s0 s1 s2) m"
    using s0 s1 s2 did_inv [OF s0(2)] did_inv [OF s1(2)] did_inv [OF s2(2)]
    by (simp add: prepared_def all_lt_3 out0_def out1_def m_def)
  then show ?thesis by blast
qed

lemma fits_map2_add:
  "\<forall>x \<in> set xs. fits n x \<Longrightarrow> \<forall>y \<in> set ys. fits n y \<Longrightarrow> \<forall>z \<in> set (map2 bv_add xs ys). fits n z"
  by (induction xs ys rule: list_induct2') auto

lemma prepare_gate_n:
  assumes R: "ready S" and G: "gate_ok g" and k: "3 \<le> length (g_vals g)"
  shows "\<exists>S' m. prepared E g S S' m"
proof -
  let ?n = "g_len g" and ?k = "com_count (length (g_vals g))" and ?o = "g_ops g"
  let ?r = "\<lambda>i. rnd_of E ?n (S i)" and ?d = "\<lambda>i j. fst (draws E ?n ?k (shared_prngs (S i) ! j))"
  let ?h = "\<lambda>i j. snd (draws E ?n ?k (shared_prngs (S i) ! j))"
  let ?beta = "bv_add (mask_poly (?d 2 2) (?o 2) 0 1) (?r 2 0)" and ?alpha = "bv_add (mask_poly (?d 2 3) (?o 2) 1 0) (?r 2 1)"
  have len: "length (?o i) = length (g_vals g)" if "i < 3" for i using G that by (simp add: gate_ok_def)
  have n: "0 < ?n" "?n \<le> 64" using G by (auto simp: gate_ok_def)
  have inv: "mr_inv (S i)" "my_num (S i) = i" if "i < 3" for i using R that by (auto simp: ready_def)
  note p = prepare_mul_sender [OF inv _ n gate_ok_fits(1) [OF G], where E = E]
  obtain s0 where s0: "prepare_mul E (?o 0) ?n (S 0) = Inr s0"
    "did (S 0) ((shared_prngs (S 0))[3 := gen_of E ?n (S 0) 3, 0 := ?h 0 0]) (enc ?n (map2 bv_add (comm_elems (?o 0)) (?d 0 0))) []
       [?o 0] [?r 0 3] [] s0" using p [of 0 0] len [of 0] k by auto
  obtain s1 where s1: "prepare_mul E (?o 1) ?n (S 1) = Inr s1"
    "did (S 1) ((shared_prngs (S 1))[2 := gen_of E ?n (S 1) 2, 1 := ?h 1 1]) (enc ?n (map2 bv_add (comm_elems (?o 1)) (?d 1 1))) []
       [?o 1] [?r 1 2] [] s1" using p [of 1 1] len [of 1] k by auto
  obtain s2 where s2: "prepare_mul E (?o 2) ?n (S 2) = Inr s2"
    "did (S 2) ((shared_prngs (S 2))[0 := gen_of E ?n (S 2) 0, 1 := gen_of E ?n (S 2) 1, 2 := ?h 2 2, 3 := ?h 2 3])
       (enc ?n [?beta]) (enc ?n [?alpha]) [?o 2] [?beta, ?alpha] [] s2"
    using prepare_mul_masker [OF inv n gate_ok_fits(1) [OF G], where E = E, of 2] len [of 2] k by auto
  define m where "m = \<lparr>to1 = map2 bv_add (comm_elems (?o 0)) (?d 0 0), to0 = map2 bv_add (comm_elems (?o 1)) (?d 1 1),
    mask0 = [?beta], mask1 = [?alpha], adds = three [?r 0 3] [?r 1 2] [?beta, ?alpha], adds2 = (\<lambda>_. [])\<rparr>"
  have sy: "synced (shared_prngs (S 0)) (shared_prngs (S 1)) (shared_prngs (S 2))" using R by (simp add: ready_def)
  then have rs: "?r 1 2 = ?r 2 0" "?r 0 3 = ?r 2 1" "?d 0 0 = ?d 2 2" "?d 1 1 = ?d 2 3" by (auto simp: synced_def)
  have fm: "fits ?n ?beta" "fits ?n ?alpha"
    using fits_mask_poly [OF gate_ok_fits(1) [OF G] n(1), of 2] len [of 2] fits_rnd by auto
  have fe: "\<forall>x \<in> set (map2 bv_add (comm_elems (?o i)) (?d i i)). fits ?n x" if "i < 2" for i
    using fits_comm_elems [OF gate_ok_fits(1) [OF G] n(1), of i] len [of i] k that
    by (intro fits_map2_add) auto
  have u: "bv_sum (unmask_poly (map2 bv_add (comm_elems (?o 1)) (?d 1 1)) (?o 0) @ [?r 0 3]) = bv_add (gate_result (g_vals g)) ?alpha"
      "bv_sum (unmask_poly (map2 bv_add (comm_elems (?o 0)) (?d 0 0)) (?o 1) @ [?r 1 2]) = bv_add (gate_result (g_vals g)) ?beta"
    using unmask_correct [OF gate_roles(1) [OF G] k] unmask_correct [OF gate_roles(2) [OF G] k] rs by (auto simp: bv_add_def)
  have ne: "g_vals g \<noteq> []" using k by auto
  have "msgs_ok g m"
    unfolding msgs_ok_def sharing_def
    using len k ne fm fe [of 0] fe [of 1] fits_gate_result [OF gate_ok_fits(2) [OF G, of 0]]
    by (auto simp: m_def length_comm_elems all_lt_3 result_0_def result_1_def result_2_def u [unfolded One_nat_def] simp del: bv_sum.simps)
  moreover have "ready (three s0 s1 s2)"
    using did_inv [OF s0(2)] did_inv [OF s1(2)] did_inv [OF s2(2)] inv sy by (auto simp: ready_def all_lt_3 synced_def)
  ultimately have "prepared E g S (three s0 s1 s2) m"
    using s0 s1 s2 did_inv [OF s0(2)] did_inv [OF s1(2)] did_inv [OF s2(2)]
    by (simp add: prepared_def all_lt_3 out0_def out1_def m_def)
  then show ?thesis by blast
qed

lemma prepare_gate: "ready S \<Longrightarrow> gate_ok g \<Longrightarrow> \<exists>S' m. prepared E g S S' m"
  using prepare_gate_2 [of S g E] prepare_gate_n [of S g E]
  by (cases "length (g_vals g) = 2") (auto simp: gate_ok_def)

subsection \<open>A batch of gates\<close>

definition prepare_all :: "cipher \<Rightarrow> gate list \<Rightarrow> nat \<Rightarrow> multi_replicated \<Rightarrow> multi_replicated res" where
  "prepare_all E gs i s = foldE (\<lambda>g. prepare_mul E (g_ops g i) (g_len g)) gs s"

abbreviation streamed :: "gate list \<Rightarrow> msgs list \<Rightarrow> (msgs \<Rightarrow> bitvec list) \<Rightarrow> octet list" where
  "streamed gs ms f \<equiv> concat (map2 (\<lambda>g m. enc (g_len g) (f m)) gs ms)"

lemma prepare_batch:
  assumes "ready S" "\<forall>g \<in> set gs. gate_ok g"
  shows "\<exists>S' ms. list_all2 msgs_ok gs ms \<and> ready S' \<and>
     (\<forall>i < 3. prepare_all E gs i (S i) = Inr (S' i) \<and>
        did (S i) (shared_prngs (S' i)) (streamed gs ms (\<lambda>m. out0 m i)) (streamed gs ms (\<lambda>m. out1 m i))
          (map (\<lambda>g. g_ops g i) gs) (concat (map (\<lambda>m. adds m i) ms)) (concat (map (\<lambda>m. adds2 m i) ms)) (S' i))"
  using assms
proof (induction gs arbitrary: S)
  case Nil
  then show ?case
    by (intro exI [of _ S] exI [of _ "[]"]) (auto simp: prepare_all_def ready_def did_refl)
next
  case (Cons g gs)
  obtain S1 m where p: "prepared E g S S1 m" using prepare_gate Cons.prems by (meson list.set_intros(1))
  then obtain S' ms where IH: "list_all2 msgs_ok gs ms" "ready S'"
    "\<And>i. i < 3 \<Longrightarrow> prepare_all E gs i (S1 i) = Inr (S' i) \<and>
        did (S1 i) (shared_prngs (S' i)) (streamed gs ms (\<lambda>m. out0 m i)) (streamed gs ms (\<lambda>m. out1 m i))
          (map (\<lambda>g. g_ops g i) gs) (concat (map (\<lambda>m. adds m i) ms)) (concat (map (\<lambda>m. adds2 m i) ms)) (S' i)"
    using Cons.IH [of S1] Cons.prems(2) unfolding prepared_def by auto
  have "prepare_all E (g # gs) i (S i) = Inr (S' i) \<and>
        did (S i) (shared_prngs (S' i)) (streamed (g # gs) (m # ms) (\<lambda>m. out0 m i)) (streamed (g # gs) (m # ms) (\<lambda>m. out1 m i))
          (map (\<lambda>g. g_ops g i) (g # gs)) (concat (map (\<lambda>m. adds m i) (m # ms))) (concat (map (\<lambda>m. adds2 m i) (m # ms))) (S' i)"
    if i: "i < 3" for i
  proof -
    have "prepare_mul E (g_ops g i) (g_len g) (S i) = Inr (S1 i)"
      "did (S i) (shared_prngs (S1 i)) (enc (g_len g) (out0 m i)) (enc (g_len g) (out1 m i)) [g_ops g i] (adds m i) (adds2 m i) (S1 i)"
      using p i unfolding prepared_def by auto
    with IH(3) [OF i] did_trans show ?thesis by (fastforce simp: prepare_all_def)
  qed
  moreover have "list_all2 msgs_ok (g # gs) (m # ms)" using p IH(1) by (simp add: prepared_def)
  ultimately show ?case using IH(2) by (intro exI [of _ S'] exI [of _ "m # ms"]) simp
qed

end
