(* ===== verification/TrifectaBatch.thy ===== *)
theory TrifectaBatch
  imports TrifectaRun
begin

text \<open>
  The second half of a Trifecta batch: what the exchange delivers, what \<open>finalize_mul\<close> reads
  back, and the correctness of the whole batch: the result of every gate is shared between the
  three parties, for any number of gates of any fan-in.
\<close>

unbundle bit_operations_syntax

subsection \<open>Reading back\<close>

lemma unpack_os_took:
  assumes "mr_inv s" "k = 1 \<or> k = 2" "n \<le> 64" "fits n x" "unread (ostreams s ! k) = enc n [x] @ u"
  shows "\<exists>s'. unpack_os k n s = Inr (x, s') \<and>
    took s (if k = 1 then enc n [x] else []) (if k = 2 then enc n [x] else []) [] [] [] s'"
proof -
  have k: "k < length (ostreams s)" and o: "os_inv (ostreams s ! k)"
    using assms(1,2) by (auto simp: mr_inv_def)
  obtain o' where o': "bv_unpack n (ostreams s ! k) = Inr (x, o')" "os_inv o'" "unread o' = u"
    using bv_codec.get_ok [OF o, of n x u] assms(3-5) by auto
  with k assms(1,2,5) show ?thesis
    by (auto simp: unpack_os_def took_def mr_inv_def dest!: set_update_subset_insert [THEN subsetD])
qed

lemma unpack_os_n_took:
  assumes "mr_inv s" "k = 1 \<or> k = 2" "n \<le> 64" "\<forall>x \<in> set xs. fits n x" "unread (ostreams s ! k) = enc n xs @ u"
  shows "\<exists>s'. unpack_os_n k n (length xs) s = Inr (xs, s') \<and>
    took s (if k = 1 then enc n xs else []) (if k = 2 then enc n xs else []) [] [] [] s'"
  using assms
proof (induction xs arbitrary: s)
  case Nil
  then show ?case by (simp add: took_refl)
next
  case (Cons x xs)
  have e: "unread (ostreams s ! k) = enc n [x] @ (enc n xs @ u)" and fx: "fits n x"
    using Cons.prems(4,5) by auto
  obtain s1 where s1: "unpack_os k n s = Inr (x, s1)"
      "took s (if k = 1 then enc n [x] else []) (if k = 2 then enc n [x] else []) [] [] [] s1"
    using unpack_os_took [OF Cons.prems(1-3) fx e] by blast
  then have "unread (ostreams s1 ! k) = enc n xs @ u"
    using e Cons.prems(2) by (auto simp: took_def)
  then obtain s2 where "unpack_os_n k n (length xs) s1 = Inr (xs, s2)"
      "took s1 (if k = 1 then enc n xs else []) (if k = 2 then enc n xs else []) [] [] [] s2"
    using Cons.IH [of s1] took_inv [OF s1(2)] Cons.prems(2-4) by auto
  with s1(1) took_trans [OF s1(2)] show ?case by (fastforce split: if_splits)
qed

lemma next_add_took:
  assumes "mr_inv s" "pv_rest (add_shares s) = x # u"
  shows "\<exists>s'. next_add s = Inr (x, s') \<and> took s [] [] [] [x] [] s'"
proof -
  obtain q where "pv_next (add_shares s) = Inr (x, q)" "pv_rest q = u" "pv_inv q"
    using pv.next_rest [of "add_shares s" x u] assms by (auto simp: mr_inv_def)
  with assms show ?thesis by (auto simp: next_add_def took_def mr_inv_def)
qed

lemma next_add_2_took:
  assumes "mr_inv s" "pv_rest (add_shares_2 s) = x # u"
  shows "\<exists>s'. next_add_2 s = Inr (x, s') \<and> took s [] [] [] [] [x] s'"
proof -
  obtain q where "pv_next (add_shares_2 s) = Inr (x, q)" "pv_rest q = u" "pv_inv q"
    using pv.next_rest [of "add_shares_2 s" x u] assms by (auto simp: mr_inv_def)
  with assms show ?thesis by (auto simp: next_add_2_def took_def mr_inv_def)
qed

lemma next_operands_took:
  assumes "mr_inv s" "pv_rest (and_operands s) = ops # u"
  shows "\<exists>q. pv_next (and_operands s) = Inr (ops, q) \<and> took s [] [] [ops] [] [] (s\<lparr>and_operands := q\<rparr>)"
proof -
  obtain q where "pv_next (and_operands s) = Inr (ops, q)" "pv_rest q = u" "pv_inv q"
    using pv.next_rest [of "and_operands s" ops u] assms by (auto simp: mr_inv_def)
  with assms show ?thesis by (auto simp: took_def mr_inv_def)
qed

text \<open>What is still to be read starts with the given values.\<close>

definition avail :: "multi_replicated \<Rightarrow> octet list \<Rightarrow> octet list \<Rightarrow> share list list \<Rightarrow> bitvec list \<Rightarrow> bitvec list \<Rightarrow> bool" where
  "avail s u1 u2 ps a a2 \<longleftrightarrow> mr_inv s \<and> (\<exists>r. unread (ostreams s ! 1) = u1 @ r) \<and> (\<exists>r. unread (ostreams s ! 2) = u2 @ r) \<and>
     (\<exists>r. pv_rest (and_operands s) = ps @ r) \<and> (\<exists>r. pv_rest (add_shares s) = a @ r) \<and> (\<exists>r. pv_rest (add_shares_2 s) = a2 @ r)"

lemma avail_took:
  "avail s (u1 @ v1) (u2 @ v2) (ps @ qs) (a @ b) (a2 @ b2) \<Longrightarrow> took s u1 u2 ps a a2 s' \<Longrightarrow> avail s' v1 v2 qs b b2"
  by (auto simp: avail_def took_def)

lemma avail_unpack_n:
  assumes "avail s (enc n xs @ u1) u2 ps a a2" "n \<le> 64" "\<forall>x \<in> set xs. fits n x"
  shows "\<exists>s'. unpack_os_n 1 n (length xs) s = Inr (xs, s') \<and> took s (enc n xs) [] [] [] [] s' \<and> avail s' u1 u2 ps a a2"
proof -
  from assms(1) obtain r where i: "mr_inv s" and r: "unread (ostreams s ! 1) = enc n xs @ (u1 @ r)"
    by (auto simp: avail_def)
  have "\<exists>s'. unpack_os_n 1 n (length xs) s = Inr (xs, s') \<and> took s (enc n xs) [] [] [] [] s'"
    using unpack_os_n_took [OF i disjI1 assms(2,3), of 1 "u1 @ r"] r by simp
  then obtain s' where "unpack_os_n 1 n (length xs) s = Inr (xs, s')" "took s (enc n xs) [] [] [] [] s'" by blast
  with avail_took [of s "enc n xs" u1 "[]" u2 "[]" ps "[]" a "[]" a2 s'] assms(1) show ?thesis by auto
qed

lemma avail_unpack:
  assumes "n \<le> 64" "fits n x"
  shows "avail s (enc n [x] @ u1) u2 ps a a2 \<Longrightarrow>
      \<exists>s'. unpack_os 1 n s = Inr (x, s') \<and> took s (enc n [x]) [] [] [] [] s' \<and> avail s' u1 u2 ps a a2"
    and "avail s u1 (enc n [x] @ u2) ps a a2 \<Longrightarrow>
      \<exists>s'. unpack_os 2 n s = Inr (x, s') \<and> took s [] (enc n [x]) [] [] [] s' \<and> avail s' u1 u2 ps a a2"
proof -
  assume A: "avail s (enc n [x] @ u1) u2 ps a a2"
  then obtain r where "mr_inv s" "unread (ostreams s ! 1) = enc n [x] @ (u1 @ r)" by (auto simp: avail_def)
  with unpack_os_took [of s 1 n x] assms obtain s' where
    "unpack_os 1 n s = Inr (x, s')" "took s (enc n [x]) [] [] [] [] s'" by auto
  with avail_took [of s "enc n [x]" u1 "[]" u2 "[]" ps "[]" a "[]" a2 s'] A
  show "\<exists>s'. unpack_os 1 n s = Inr (x, s') \<and> took s (enc n [x]) [] [] [] [] s' \<and> avail s' u1 u2 ps a a2" by auto
next
  assume A: "avail s u1 (enc n [x] @ u2) ps a a2"
  then obtain r where "mr_inv s" "unread (ostreams s ! 2) = enc n [x] @ (u2 @ r)" by (auto simp: avail_def)
  with unpack_os_took [of s 2 n x] assms obtain s' where
    "unpack_os 2 n s = Inr (x, s')" "took s [] (enc n [x]) [] [] [] s'" by auto
  with avail_took [of s "[]" u1 "enc n [x]" u2 "[]" ps "[]" a "[]" a2 s'] A
  show "\<exists>s'. unpack_os 2 n s = Inr (x, s') \<and> took s [] (enc n [x]) [] [] [] s' \<and> avail s' u1 u2 ps a a2" by auto
qed

lemma avail_next_add:
  assumes "avail s u1 u2 ps (x # a) a2"
  shows "\<exists>s'. next_add s = Inr (x, s') \<and> took s [] [] [] [x] [] s' \<and> avail s' u1 u2 ps a a2"
proof -
  obtain s' where s': "next_add s = Inr (x, s')" "took s [] [] [] [x] [] s'"
    using next_add_took assms by (fastforce simp: avail_def)
  with avail_took [of s "[]" u1 "[]" u2 "[]" ps "[x]" a "[]" a2 s'] assms show ?thesis by auto
qed

lemma avail_next_add_2:
  assumes "avail s u1 u2 ps a (x # a2)"
  shows "\<exists>s'. next_add_2 s = Inr (x, s') \<and> took s [] [] [] [] [x] s' \<and> avail s' u1 u2 ps a a2"
proof -
  obtain s' where s': "next_add_2 s = Inr (x, s')" "took s [] [] [] [] [x] s'"
    using next_add_2_took assms by (fastforce simp: avail_def)
  with avail_took [of s "[]" u1 "[]" u2 "[]" ps "[]" a "[x]" a2 s'] assms show ?thesis by auto
qed

lemma avail_next_operands:
  assumes "avail s u1 u2 (ops # ps) a a2"
  shows "\<exists>q. pv_next (and_operands s) = Inr (ops, q) \<and> took s [] [] [ops] [] [] (s\<lparr>and_operands := q\<rparr>)
    \<and> avail (s\<lparr>and_operands := q\<rparr>) u1 u2 ps a a2"
proof -
  from assms obtain r where "mr_inv s" "pv_rest (and_operands s) = ops # ps @ r" by (auto simp: avail_def)
  then obtain q where q: "pv_next (and_operands s) = Inr (ops, q)" "took s [] [] [ops] [] [] (s\<lparr>and_operands := q\<rparr>)"
    using next_operands_took by blast
  with avail_took [of s "[]" u1 "[]" u2 "[ops]" ps "[]" a "[]" a2 "s\<lparr>and_operands := q\<rparr>"] assms show ?thesis by auto
qed

subsection \<open>Finalizing one gate\<close>

definition in1 :: "msgs \<Rightarrow> nat \<Rightarrow> bitvec list" where "in1 m = three (to0 m) (to1 m) []"
definition in2 :: "msgs \<Rightarrow> nat \<Rightarrow> bitvec list" where "in2 m = three (mask0 m) (mask1 m) []"
definition result_of :: "gate \<Rightarrow> msgs \<Rightarrow> nat \<Rightarrow> share" where
  "result_of g m = three (result_0 (g_ops g 0) m) (result_1 (g_ops g 1) m) (result_2 (g_ops g 2) m)"

text \<open>The two parties that receive products, fan-in above 2.\<close>

definition finalize_receive :: "nat \<Rightarrow> share list \<Rightarrow> multi_replicated \<Rightarrow> (share \<times> multi_replicated) res" where
  "finalize_receive n saved s =
     bindE (unpack_os_n 1 n (com_count (length saved)) s) (\<lambda>(c, s1).
     bindE (unpack_os 2 n s1) (\<lambda>(second, s2).
     bindE (next_add s2) (\<lambda>(rnd, s3). Inr ([bv_sum (unmask_poly c saved @ [rnd]), second], s3))))"

lemma finalize_mul_large:
  assumes "3 \<le> length ops" "my_num s < 3"
  shows "(if length ops = 3 then finalize_mul_3 n ops s else if length ops = 4 then finalize_mul_4 n ops s
          else finalize_mul_n n ops s) = (if my_num s = 2 then finalize_masks s else finalize_receive n ops s)"
proof -
  have i: "my_num s = 0 \<or> my_num s = 1 \<or> my_num s = 2" using assms(2) by auto
  consider "length ops = 3" | "length ops = 4" | "4 < length ops" using assms(1) by linarith
  then show ?thesis
  proof cases
    case 1
    with i show ?thesis
      by (auto simp: finalize_mul_3_def finalize_receive_def unmask_poly_def com_count_3_4 simp del: bv_sum.simps unpack_os_n.simps)
  next
    case 2
    with i show ?thesis
      by (auto simp: finalize_mul_4_def finalize_receive_def unmask_poly_def com_count_3_4 simp del: bv_sum.simps unpack_os_n.simps)
  next
    case 3
    with i show ?thesis
      by (auto simp: finalize_mul_n_def finalize_receive_def unmask_poly_def Let_def bv_defs split_beta)
  qed
qed

lemma finalize_receive_took:
  assumes "avail s (enc n xs @ u1) (enc n [y] @ u2) ps (d # a) a2" "n \<le> 64" "\<forall>x \<in> set xs. fits n x" "fits n y"
    "length xs = com_count (length ops)"
  shows "\<exists>s'. finalize_receive n ops s = Inr ([bv_sum (unmask_poly xs ops @ [d]), y], s') \<and>
    took s (enc n xs) (enc n [y]) [] [d] [] s' \<and> avail s' u1 u2 ps a a2"
proof -
  obtain s1 where s1: "unpack_os_n 1 n (length xs) s = Inr (xs, s1)" "took s (enc n xs) [] [] [] [] s1"
    "avail s1 u1 (enc n [y] @ u2) ps (d # a) a2" using avail_unpack_n [OF assms(1-3)] by blast
  obtain s2 where s2: "unpack_os 2 n s1 = Inr (y, s2)" "took s1 [] (enc n [y]) [] [] [] s2"
    "avail s2 u1 u2 ps (d # a) a2" using avail_unpack(2) [OF assms(2,4) s1(3)] by blast
  obtain s3 where s3: "next_add s2 = Inr (d, s3)" "took s2 [] [] [] [d] [] s3" "avail s3 u1 u2 ps a a2"
    using avail_next_add [OF s2(3)] by blast
  from s1(1) s2(1) s3(1,3) took_trans [OF s1(2) took_trans [OF s2(2) s3(2)]] assms(5) show ?thesis
    by (simp add: finalize_receive_def del: bv_sum.simps)
qed

lemma finalize_masks_took:
  assumes "avail s u1 u2 ps ([x, y] @ a) a2"
  shows "\<exists>s'. finalize_masks s = Inr ([y, x], s') \<and> took s [] [] [] [x, y] [] s' \<and> avail s' u1 u2 ps a a2"
proof -
  obtain s1 where s1: "next_add s = Inr (x, s1)" "took s [] [] [] [x] [] s1" "avail s1 u1 u2 ps (y # a) a2"
    using avail_next_add assms by fastforce
  obtain s2 where "next_add s1 = Inr (y, s2)" "took s1 [] [] [] [y] [] s2" "avail s2 u1 u2 ps a a2"
    using avail_next_add [OF s1(3)] by blast
  with s1 took_trans [OF s1(2)] show ?thesis by (fastforce simp: finalize_masks_def)
qed

lemma next_add_2_pair:
  assumes "avail t u1 u2 ps a (c # d # a2)"
  shows "\<exists>s1 s2. next_add_2 t = Inr (c, s1) \<and> next_add_2 s1 = Inr (d, s2) \<and> took t [] [] [] [] [c, d] s2 \<and> avail s2 u1 u2 ps a a2"
proof -
  obtain s1 where s1: "next_add_2 t = Inr (c, s1)" "took t [] [] [] [] [c] s1" "avail s1 u1 u2 ps a (d # a2)"
    using avail_next_add_2 [OF assms] by blast
  obtain s2 where "next_add_2 s1 = Inr (d, s2)" "took s1 [] [] [] [] [d] s2" "avail s2 u1 u2 ps a a2"
    using avail_next_add_2 [OF s1(3)] by blast
  with s1 took_trans [OF s1(2)] show ?thesis by fastforce
qed

lemma finalize_2_took:
  assumes "avail s (enc n xs @ u1) (enc n ys @ u2) ps a ([c, d] @ a2)" "n \<le> 64" "my_num s = i" "i < 3"
    "\<forall>x \<in> set (xs @ ys). fits n x" "length xs = (if i = 2 then 0 else 1)" "length ys = (if i = 0 then 1 else 0)"
  shows "\<exists>s'. finalize_mul_2 n s = Inr (three [bv_sum [c, xs ! 0, ys ! 0], bv_add (ys ! 0) d] [bv_add (xs ! 0) c, d] [c, d] i, s')
    \<and> took s (enc n xs) (enc n ys) [] [] [c, d] s' \<and> avail s' u1 u2 ps a a2"
proof -
  consider (0) "i = 0" | (1) "i = 1" | (2) "i = 2" using assms(4) by linarith
  then show ?thesis
  proof cases
    case 0
    then obtain x y where xy: "xs = [x]" "ys = [y]" using assms(6,7) by (auto simp: length_Suc_conv)
    then have A: "avail s (enc n [x] @ u1) (enc n [y] @ u2) ps a (c # d # a2)" and f: "fits n x" "fits n y"
      using assms(1,5) by auto
    obtain s1 where s1: "unpack_os 1 n s = Inr (x, s1)" "took s (enc n [x]) [] [] [] [] s1"
      "avail s1 u1 (enc n [y] @ u2) ps a (c # d # a2)" using avail_unpack(1) [OF assms(2) f(1) A] by blast
    obtain s2 where s2: "unpack_os 2 n s1 = Inr (y, s2)" "took s1 [] (enc n [y]) [] [] [] s2"
      "avail s2 u1 u2 ps a (c # d # a2)" using avail_unpack(2) [OF assms(2) f(2) s1(3)] by blast
    obtain s3 s4 where s4: "next_add_2 s2 = Inr (c, s3)" "next_add_2 s3 = Inr (d, s4)"
      "took s2 [] [] [] [] [c, d] s4" "avail s4 u1 u2 ps a a2" using next_add_2_pair [OF s2(3)] by blast
    from s1(1) s2(1) s4 took_trans [OF s1(2) took_trans [OF s2(2) s4(3)]] 0 xy assms(3) show ?thesis
      by (simp add: finalize_mul_2_def)
  next
    case 1
    then obtain x where x: "xs = [x]" "ys = []" using assms(6,7) by (auto simp: length_Suc_conv)
    then have A: "avail s (enc n [x] @ u1) u2 ps a (c # d # a2)" and f: "fits n x" using assms(1,5) by auto
    obtain s1 where s1: "unpack_os 1 n s = Inr (x, s1)" "took s (enc n [x]) [] [] [] [] s1"
      "avail s1 u1 u2 ps a (c # d # a2)" using avail_unpack(1) [OF assms(2) f A] by blast
    obtain s3 s4 where s4: "next_add_2 s1 = Inr (c, s3)" "next_add_2 s3 = Inr (d, s4)"
      "took s1 [] [] [] [] [c, d] s4" "avail s4 u1 u2 ps a a2" using next_add_2_pair [OF s1(3)] by blast
    from s1(1) s4 took_trans [OF s1(2) s4(3)] 1 x assms(3) show ?thesis
      by (simp add: finalize_mul_2_def)
  next
    case 2
    then have x: "xs = []" "ys = []" using assms(6,7) by auto
    then have A: "avail s u1 u2 ps a (c # d # a2)" using assms(1) by simp
    obtain s3 s4 where s4: "next_add_2 s = Inr (c, s3)" "next_add_2 s3 = Inr (d, s4)"
      "took s [] [] [] [] [c, d] s4" "avail s4 u1 u2 ps a a2" using next_add_2_pair [OF A] by blast
    with 2 x assms(3) show ?thesis by (simp add: finalize_mul_2_def)
  qed
qed

lemma finalize_gate_2:
  assumes G: "gate_ok g" and M: "msgs_ok g m" and k: "length (g_vals g) = 2" and i: "my_num s = i" "i < 3"
    and A: "avail s (enc (g_len g) (in1 m i) @ u1) (enc (g_len g) (in2 m i) @ u2) ps (adds m i @ a) (adds2 m i @ a2)"
  shows "\<exists>s'. finalize_mul_2 (g_len g) s = Inr (result_of g m i, s') \<and> my_num s' = i \<and>
    shared_prngs s' = shared_prngs s \<and> avail s' u1 u2 ps a a2"
proof -
  let ?n = "g_len g"
  have n: "?n \<le> 64" and len: "\<forall>i < 3. length (g_ops g i) = 2" using G k by (auto simp: gate_ok_def)
  have i3: "i = 0 \<or> i = 1 \<or> i = 2" using i(2) by auto
  have fin: "\<forall>x \<in> set (in1 m i @ in2 m i). fits ?n x"
    using M i3 by (auto simp: msgs_ok_def in1_def in2_def)
  have l1: "length (in1 m i) = (if i = 2 then 0 else 1)" and l2: "length (in2 m i) = (if i = 0 then 1 else 0)"
    using M i3 k by (auto simp: msgs_ok_def in1_def in2_def com_count_2)
  have l: "length (adds2 m i) = 2" "adds m i = []" using M i(2) k by (auto simp: msgs_ok_def)
  then obtain c d where cd: "adds2 m i = [c, d]" by (auto simp: numeral_eq_Suc length_Suc_conv)
  have "avail s (enc ?n (in1 m i) @ u1) (enc ?n (in2 m i) @ u2) ps a ([c, d] @ a2)"
    using A l(2) cd by simp
  note f = finalize_2_took [OF this n i fin l1 l2]
  have "three [bv_sum [c, in1 m i ! 0, in2 m i ! 0], bv_add (in2 m i ! 0) d] [bv_add (in1 m i ! 0) c, d] [c, d] i = result_of g m i"
    using i3 len cd by (auto simp: result_of_def result_0_def result_1_def result_2_def in1_def in2_def)
  with f took_inv i(1) show ?thesis by metis
qed

lemma finalize_gate_n:
  assumes G: "gate_ok g" and M: "msgs_ok g m" and k: "3 \<le> length (g_vals g)" and i: "i < 3"
    and A: "avail s (enc (g_len g) (in1 m i) @ u1) (enc (g_len g) (in2 m i) @ u2) ps (adds m i @ a) (adds2 m i @ a2)"
  shows "\<exists>s'. (if i = 2 then finalize_masks s else finalize_receive (g_len g) (g_ops g i) s) = Inr (result_of g m i, s')
    \<and> my_num s' = my_num s \<and> shared_prngs s' = shared_prngs s \<and> avail s' u1 u2 ps a a2"
proof -
  let ?n = "g_len g"
  have n: "?n \<le> 64" and len: "\<forall>i < 3. length (g_ops g i) = length (g_vals g)" using G by (auto simp: gate_ok_def)
  have i3: "i = 0 \<or> i = 1 \<or> i = 2" using i by auto
  show ?thesis
  proof (cases "i = 2")
    case True
    have "length (adds m 2) = 2" and l: "adds2 m 2 = []" using M k by (auto simp: msgs_ok_def)
    then obtain c d where cd: "adds m 2 = [c, d]" by (auto simp: numeral_eq_Suc length_Suc_conv)
    have "avail s u1 u2 ps ([c, d] @ a) a2"
      using A True l cd by (auto simp: in1_def in2_def)
    from finalize_masks_took [OF this] took_inv True len k cd show ?thesis
      by (fastforce simp: result_of_def result_2_def)
  next
    case False
    then obtain y d where yd: "in2 m i = [y]" "adds m i = [d]" "adds2 m i = []"
      using M k i3 by (auto simp: msgs_ok_def in2_def all_lt_3 length_Suc_conv)
    have lx: "length (in1 m i) = com_count (length (g_ops g i))"
      using M i3 False len by (auto simp: msgs_ok_def in1_def)
    have fx: "\<forall>x \<in> set (in1 m i). fits ?n x" "fits ?n y"
      using M i3 False yd(1) by (auto simp: msgs_ok_def in1_def in2_def)
    have A': "avail s (enc ?n (in1 m i) @ u1) (enc ?n [y] @ u2) ps (d # a) a2"
      using A yd by simp
    have "result_of g m i = [bv_sum (unmask_poly (in1 m i) (g_ops g i) @ [d]), y]"
      using i3 False len k yd by (auto simp: result_of_def result_0_def result_1_def in1_def in2_def simp del: bv_sum.simps)
    with finalize_receive_took [OF A' n fx lx] took_inv False show ?thesis by (metis (no_types, lifting))
  qed
qed

lemma finalize_gate:
  assumes G: "gate_ok g" and M: "msgs_ok g m" and i: "my_num s = i" "i < 3"
    and A: "avail s (enc (g_len g) (in1 m i) @ u1) (enc (g_len g) (in2 m i) @ u2) (g_ops g i # ps) (adds m i @ a) (adds2 m i @ a2)"
  shows "\<exists>s'. finalize_mul (g_len g) s = Inr (result_of g m i, s') \<and> my_num s' = i \<and>
    shared_prngs s' = shared_prngs s \<and> avail s' u1 u2 ps a a2"
proof -
  let ?n = "g_len g"
  have len: "length (g_ops g i) = length (g_vals g)" and k: "2 \<le> length (g_vals g)" using G i by (auto simp: gate_ok_def)
  obtain q where q: "pv_next (and_operands s) = Inr (g_ops g i, q)"
    "avail (s\<lparr>and_operands := q\<rparr>) (enc ?n (in1 m i) @ u1) (enc ?n (in2 m i) @ u2) ps (adds m i @ a) (adds2 m i @ a2)"
    using avail_next_operands [OF A] by blast
  have num: "my_num (s\<lparr>and_operands := q\<rparr>) = i" using i by simp
  show ?thesis
  proof (cases "length (g_vals g) = 2")
    case True
    with finalize_gate_2 [OF G M True num i(2) q(2)] q(1) len show ?thesis
      by (simp add: finalize_mul_def)
  next
    case False
    with k len have k3: "3 \<le> length (g_ops g i)" by linarith
    have "finalize_mul ?n s = (if i = 2 then finalize_masks (s\<lparr>and_operands := q\<rparr>)
        else finalize_receive ?n (g_ops g i) (s\<lparr>and_operands := q\<rparr>))"
      using finalize_mul_large [OF k3, of "s\<lparr>and_operands := q\<rparr>" ?n] q(1) k3 i by (auto simp: finalize_mul_def)
    with finalize_gate_n [OF G M _ i(2) q(2)] k3 len i show ?thesis by simp
  qed
qed

subsection \<open>Finalizing a batch\<close>

fun finalize_all :: "nat list \<Rightarrow> multi_replicated \<Rightarrow> (share list \<times> multi_replicated) res" where
  "finalize_all [] s = Inr ([], s)"
| "finalize_all (n # ns) s =
     bindE (finalize_mul n s) (\<lambda>(x, s1). bindE (finalize_all ns s1) (\<lambda>(xs, s2). Inr (x # xs, s2)))"

lemma finalize_batch:
  assumes "list_all2 msgs_ok gs ms" "\<forall>g \<in> set gs. gate_ok g" "my_num s = i" "i < 3"
    "avail s (streamed gs ms (\<lambda>m. in1 m i)) (streamed gs ms (\<lambda>m. in2 m i)) (map (\<lambda>g. g_ops g i) gs)
       (concat (map (\<lambda>m. adds m i) ms)) (concat (map (\<lambda>m. adds2 m i) ms))"
  shows "\<exists>s'. finalize_all (map g_len gs) s = Inr (map2 (\<lambda>g m. result_of g m i) gs ms, s') \<and> my_num s' = i \<and>
    shared_prngs s' = shared_prngs s \<and> mr_inv s'"
  using assms
proof (induction arbitrary: s rule: list_all2_induct)
  case Nil
  then show ?case by (simp add: avail_def)
next
  case (Cons g gs m ms)
  have G: "gate_ok g" and Gs: "\<forall>g \<in> set gs. gate_ok g" using Cons.prems(1) by auto
  have "avail s (enc (g_len g) (in1 m i) @ streamed gs ms (\<lambda>m. in1 m i)) (enc (g_len g) (in2 m i) @ streamed gs ms (\<lambda>m. in2 m i))
     (g_ops g i # map (\<lambda>g. g_ops g i) gs) (adds m i @ concat (map (\<lambda>m. adds m i) ms)) (adds2 m i @ concat (map (\<lambda>m. adds2 m i) ms))"
    using Cons.prems(4) by simp
  from finalize_gate [OF G Cons.hyps(1) Cons.prems(2,3) this] obtain s1 where
    s1: "finalize_mul (g_len g) s = Inr (result_of g m i, s1)" "my_num s1 = i" "shared_prngs s1 = shared_prngs s"
      "avail s1 (streamed gs ms (\<lambda>m. in1 m i)) (streamed gs ms (\<lambda>m. in2 m i)) (map (\<lambda>g. g_ops g i) gs)
         (concat (map (\<lambda>m. adds m i) ms)) (concat (map (\<lambda>m. adds2 m i) ms))" by blast
  from Cons.IH [OF Gs s1(2) Cons.prems(3) s1(4)] s1(1,3) show ?case by auto
qed

subsection \<open>The exchange\<close>

definition exchange_schedule :: "nat list" where
  "exchange_schedule = [2, 2, 0, 1, 0, 0, 1, 1]"

lemma exchange_run:
  assumes "length (ostreams s0) = 4" "length (ostreams s1) = 4" "length (ostreams s2) = 4"
    "small (ostreams s0 ! 0)" "small (ostreams s1 ! 0)" "small (ostreams s2 ! 0)" "small (ostreams s2 ! 1)"
  shows "\<exists>c a1 a2 b1 b2. run_schedule exchange_schedule (exchange_net s0 s1 s2) = Some c \<and> finished c \<and>
    streams c 0 = (ostreams s0)[2 := a2, 1 := a1] \<and> holds a1 (contents (ostreams s1 ! 0)) \<and> holds a2 (contents (ostreams s2 ! 0)) \<and>
    streams c 1 = (ostreams s1)[1 := b1, 2 := b2] \<and> holds b1 (contents (ostreams s0 ! 0)) \<and> holds b2 (contents (ostreams s2 ! 1)) \<and>
    streams c 2 = ostreams s2"
proof -
  obtain a1 where a1: "Receive (frame (ostreams s1 ! 0)) (reset_write_head (ostreams s0 ! 1)) = Inr (a1, [])"
      "holds a1 (contents (ostreams s1 ! 0))" using Receive_small assms(5) by blast
  obtain a2 where a2: "Receive (frame (ostreams s2 ! 0)) (reset_write_head (ostreams s0 ! 2)) = Inr (a2, [])"
      "holds a2 (contents (ostreams s2 ! 0))" using Receive_small assms(6) by blast
  obtain b1 where b1: "Receive (frame (ostreams s0 ! 0)) (reset_write_head (ostreams s1 ! 1)) = Inr (b1, [])"
      "holds b1 (contents (ostreams s0 ! 0))" using Receive_small assms(4) by blast
  obtain b2 where b2: "Receive (frame (ostreams s2 ! 1)) (reset_write_head (ostreams s1 ! 2)) = Inr (b2, [])"
      "holds b2 (contents (ostreams s2 ! 1))" using Receive_small assms(7) by blast
  note net = exchange_schedule_def exchange_net_def exchange_script_def send_relative_def receive_relative_def
    get_player_3 [unfolded One_nat_def] comm_do_def assms(1-3) Send_small [OF assms(4)] Send_small [OF assms(5)]
    Send_small [OF assms(6)] Send_small [OF assms(7), unfolded One_nat_def]
  show ?thesis
    using a1 a2 b1 b2 by (auto simp: net finished_def)
qed

subsection \<open>The whole batch\<close>

definition run_batch :: "cipher \<Rightarrow> gate list \<Rightarrow> multi_replicated \<Rightarrow> multi_replicated \<Rightarrow> multi_replicated
    \<Rightarrow> ((share list \<times> multi_replicated) \<times> (share list \<times> multi_replicated) \<times> (share list \<times> multi_replicated)) res" where
  "run_batch E gs s0 s1 s2 =
     bindE (prepare_all E gs 0 (init_mul s0)) (\<lambda>p0.
     bindE (prepare_all E gs 1 (init_mul s1)) (\<lambda>p1.
     bindE (prepare_all E gs 2 (init_mul s2)) (\<lambda>p2.
     (case exchange p0 p1 p2 of
        None \<Rightarrow> Inl (Runtime_Error ''exchange blocked'')
      | Some (q0, q1, q2) \<Rightarrow>
          bindE (finalize_all (map g_len gs) q0) (\<lambda>r0.
          bindE (finalize_all (map g_len gs) q1) (\<lambda>r1.
          bindE (finalize_all (map g_len gs) q2) (\<lambda>r2. Inr (r0, r1, r2))))))))"

text \<open>The octets that a batch puts on any one stream, at most.\<close>

definition batch_size :: "gate list \<Rightarrow> nat" where
  "batch_size gs = sum_list (map (\<lambda>g. 8 * com_count (length (g_vals g))) gs)"

lemma length_enc: "n \<le> 64 \<Longrightarrow> length (enc n xs) \<le> 8 * length xs"
  using DIV_CEIL_le [of n] by (induction xs) auto

lemma com_count_pos: "2 \<le> k \<Longrightarrow> 1 \<le> com_count k"
proof (induction k rule: nat_induct_at_least)
  case base
  then show ?case by (simp add: com_count_def)
next
  case (Suc k)
  then show ?case by (auto simp: com_count_def)
qed

lemma length_streamed:
  assumes "list_all2 msgs_ok gs ms" "\<forall>g \<in> set gs. gate_ok g"
    "\<And>g m. gate_ok g \<Longrightarrow> msgs_ok g m \<Longrightarrow> length (f m) \<le> com_count (length (g_vals g))"
  shows "length (streamed gs ms f) \<le> batch_size gs"
  using assms(1,2)
proof (induction rule: list_all2_induct)
  case Nil
  then show ?case by simp
next
  case (Cons g gs m ms)
  then have "length (enc (g_len g) (f m)) \<le> 8 * com_count (length (g_vals g))"
    using assms(3) [of g m] length_enc [of "g_len g" "f m"] by (fastforce simp: gate_ok_def)
  with Cons show ?case by (simp add: batch_size_def)
qed

lemma msgs_short:
  assumes "gate_ok g" "msgs_ok g m"
  shows "length (out0 m 0) \<le> com_count (length (g_vals g))" "length (out0 m 1) \<le> com_count (length (g_vals g))"
    "length (out0 m 2) \<le> com_count (length (g_vals g))" "length (out1 m 2) \<le> com_count (length (g_vals g))"
  using assms com_count_pos [of "length (g_vals g)"]
  by (auto simp: msgs_ok_def out0_def out1_def gate_ok_def split: if_splits)

lemma init_mul_fresh:
  assumes "length (shared_prngs s) = 4"
  shows "mr_inv (init_mul s)" "my_num (init_mul s) = my_num s" "shared_prngs (init_mul s) = shared_prngs s"
    "k < 4 \<Longrightarrow> contents (ostreams (init_mul s) ! k) = []" "pv_rest (and_operands (init_mul s)) = []"
    "pv_rest (add_shares (init_mul s)) = []" "pv_rest (add_shares_2 (init_mul s)) = []"
  using assms by (auto simp: init_mul_def mr_inv_def nth_append)

lemma in_out: "in1 m 0 = out0 m 1" "in1 m 1 = out0 m 0" "in1 m 2 = []" "in2 m 0 = out0 m 2" "in2 m 1 = out1 m 2" "in2 m 2 = []"
  by (simp_all add: in1_def in2_def out0_def out1_def)

lemma concat_map2_Nil [simp]: "concat (map2 (\<lambda>x y. []) xs ys) = []"
  by (auto simp: concat_eq_Nil_conv)

text \<open>From fresh states the exchange turns what was sent into what is available.\<close>

lemma exchange_available:
  assumes P: "ready P" and ms: "list_all2 msgs_ok gs ms" "\<forall>g \<in> set gs. gate_ok g" and size: "batch_size gs < 2 ^ 32"
    and D: "\<And>i. i < 3 \<Longrightarrow> did (init_mul (S i)) (shared_prngs (P i)) (streamed gs ms (\<lambda>m. out0 m i)) (streamed gs ms (\<lambda>m. out1 m i))
          (map (\<lambda>g. g_ops g i) gs) (concat (map (\<lambda>m. adds m i) ms)) (concat (map (\<lambda>m. adds2 m i) ms)) (P i)"
    and len: "\<And>i. i < 3 \<Longrightarrow> length (shared_prngs (S i)) = 4"
  shows "\<exists>Q. exchange (P 0) (P 1) (P 2) = Some (Q 0, Q 1, Q 2) \<and> (\<forall>i < 3. my_num (Q i) = i \<and> shared_prngs (Q i) = shared_prngs (P i) \<and>
     avail (Q i) (streamed gs ms (\<lambda>m. in1 m i)) (streamed gs ms (\<lambda>m. in2 m i)) (map (\<lambda>g. g_ops g i) gs)
       (concat (map (\<lambda>m. adds m i) ms)) (concat (map (\<lambda>m. adds2 m i) ms)))"
proof -
  have c: "contents (ostreams (P i) ! 0) = streamed gs ms (\<lambda>m. out0 m i)" "contents (ostreams (P i) ! 1) = streamed gs ms (\<lambda>m. out1 m i)"
    "pv_rest (and_operands (P i)) = map (\<lambda>g. g_ops g i) gs" "pv_rest (add_shares (P i)) = concat (map (\<lambda>m. adds m i) ms)"
    "pv_rest (add_shares_2 (P i)) = concat (map (\<lambda>m. adds2 m i) ms)" "mr_inv (P i)" "my_num (P i) = i" if "i < 3" for i
    using D [OF that] len [OF that] P that by (auto simp: did_def init_mul_fresh ready_def)
  have inv: "length (ostreams (P i)) = 4" "k < 4 \<Longrightarrow> os_inv (ostreams (P i) ! k)" if "i < 3" for i k
    using c(6) [OF that] by (auto simp: mr_inv_def)
  have ol: "os_len (ostreams (P i) ! k) = length (contents (ostreams (P i) ! k))" if "i < 3" "k < 4" for i k
    using inv that by (simp add: length_contents)
  have sm: "small (ostreams (P 0) ! 0)" "small (ostreams (P 1) ! 0)" "small (ostreams (P 2) ! 0)" "small (ostreams (P 2) ! 1)"
    unfolding small_def
    using inv ol c(1) [of 0] c(1) [of 1] c(1) [of 2] c(2) [of 2] size
      length_streamed [OF ms, of "\<lambda>m. out0 m 0", OF msgs_short(1)] length_streamed [OF ms, of "\<lambda>m. out0 m 1", OF msgs_short(2)]
      length_streamed [OF ms, of "\<lambda>m. out0 m 2", OF msgs_short(3)] length_streamed [OF ms, of "\<lambda>m. out1 m 2", OF msgs_short(4)] by auto
  obtain cc a1 a2 b1 b2 where R: "run_schedule exchange_schedule (exchange_net (P 0) (P 1) (P 2)) = Some cc"
    "streams cc 0 = (ostreams (P 0))[2 := a2, 1 := a1]" "holds a1 (contents (ostreams (P 1) ! 0))" "holds a2 (contents (ostreams (P 2) ! 0))"
    "streams cc 1 = (ostreams (P 1))[1 := b1, 2 := b2]" "holds b1 (contents (ostreams (P 0) ! 0))" "holds b2 (contents (ostreams (P 2) ! 1))"
    "streams cc 2 = ostreams (P 2)"
    using exchange_run [OF inv(1) inv(1) inv(1) sm] by auto
  define Q where "Q = (\<lambda>i. (P i)\<lparr>ostreams := streams cc i\<rparr>)"
  have "exchange (P 0) (P 1) (P 2) = Some (Q 0, Q 1, Q 2)"
    using R(1) by (simp add: exchange_def exchange_schedule_def Q_def)
  moreover have "avail (Q i) (streamed gs ms (\<lambda>m. in1 m i)) (streamed gs ms (\<lambda>m. in2 m i)) (map (\<lambda>g. g_ops g i) gs)
       (concat (map (\<lambda>m. adds m i) ms)) (concat (map (\<lambda>m. adds2 m i) ms))" if i: "i < 3" for i
  proof -
    have mr: "mr_inv (Q i)"
      using i c(6) [OF i] R(2-) inv(2) [OF i] unfolding Q_def mr_inv_def holds_def
      by (auto simp: all_lt_3 numeral_eq_Suc less_Suc_eq dest!: set_update_subset_insert [THEN subsetD])
    have "i = 0 \<or> i = 1 \<or> i = 2" using i by auto
    then show ?thesis
      using mr R(2-) c inv(1) [OF i] unfolding avail_def Q_def holds_def
      by (auto simp: in_out [unfolded One_nat_def])
  qed
  ultimately show ?thesis
    using c(7) by (intro exI [of _ Q]) (auto simp: Q_def)
qed

lemma run_batch_shares:
  assumes "\<forall>i < 3. my_num (S i) = i" "synced (shared_prngs (S 0)) (shared_prngs (S 1)) (shared_prngs (S 2))"
    "\<forall>g \<in> set gs. gate_ok g" "batch_size gs < 2 ^ 32"
  shows "\<exists>R T. run_batch E gs (S 0) (S 1) (S 2) = Inr ((R 0, T 0), (R 1, T 1), (R 2, T 2)) \<and>
     (\<forall>i < 3. my_num (T i) = i \<and> length (R i) = length gs) \<and>
     synced (shared_prngs (T 0)) (shared_prngs (T 1)) (shared_prngs (T (2 :: nat))) \<and>
     (\<forall>j < length gs. sharing (g_len (gs ! j)) (gate_result (g_vals (gs ! j))) (R 0 ! j) (R 1 ! j) (R 2 ! j))"
proof -
  have len: "length (shared_prngs (S i)) = 4" if "i < 3" for i
    using assms(2) that by (auto simp: synced_def numeral_eq_Suc less_Suc_eq)
  have "ready (\<lambda>i. init_mul (S i))"
    using assms(1,2) len by (auto simp: ready_def init_mul_fresh)
  from prepare_batch [OF this assms(3), of E] obtain P ms where P: "list_all2 msgs_ok gs ms" "ready P"
    "\<And>i. i < 3 \<Longrightarrow> prepare_all E gs i (init_mul (S i)) = Inr (P i)"
    "\<And>i. i < 3 \<Longrightarrow> did (init_mul (S i)) (shared_prngs (P i)) (streamed gs ms (\<lambda>m. out0 m i)) (streamed gs ms (\<lambda>m. out1 m i))
          (map (\<lambda>g. g_ops g i) gs) (concat (map (\<lambda>m. adds m i) ms)) (concat (map (\<lambda>m. adds2 m i) ms)) (P i)"
    by auto
  obtain Q where Q: "exchange (P 0) (P 1) (P 2) = Some (Q 0, Q 1, Q 2)"
    "\<And>i. i < 3 \<Longrightarrow> my_num (Q i) = i \<and> shared_prngs (Q i) = shared_prngs (P i) \<and>
     avail (Q i) (streamed gs ms (\<lambda>m. in1 m i)) (streamed gs ms (\<lambda>m. in2 m i)) (map (\<lambda>g. g_ops g i) gs)
       (concat (map (\<lambda>m. adds m i) ms)) (concat (map (\<lambda>m. adds2 m i) ms))"
    using exchange_available [OF P(2,1) assms(3,4) P(4) len] by auto
  let ?R = "\<lambda>i. map2 (\<lambda>g m. result_of g m i) gs ms"
  have "\<exists>t. finalize_all (map g_len gs) (Q i) = Inr (?R i, t) \<and> my_num t = i \<and> shared_prngs t = shared_prngs (Q i)"
    if "i < 3" for i
    using finalize_batch [OF P(1) assms(3), of "Q i" i] Q(2) [OF that] that by auto
  then obtain T where T: "\<And>i. i < 3 \<Longrightarrow> finalize_all (map g_len gs) (Q i) = Inr (?R i, T i) \<and> my_num (T i) = i
      \<and> shared_prngs (T i) = shared_prngs (Q i)" by metis
  have "sharing (g_len (gs ! j)) (gate_result (g_vals (gs ! j))) (?R 0 ! j) (?R 1 ! j) (?R 2 ! j)" if "j < length gs" for j
    using P(1) that by (auto simp: list_all2_conv_all_nth msgs_ok_def result_of_def)
  moreover have "run_batch E gs (S 0) (S 1) (S 2) = Inr ((?R 0, T 0), (?R 1, T 1), (?R 2, T 2))"
    using P(3) [of 0] P(3) [of 1] P(3) [of 2] Q(1) T [of 0] T [of 1] T [of 2] by (simp add: run_batch_def)
  moreover have "synced (shared_prngs (T 0)) (shared_prngs (T 1)) (shared_prngs (T 2))"
    using P(2) T Q(2) by (simp add: ready_def)
  ultimately show ?thesis
    using T P(1) by (intro exI [of _ ?R] exI [of _ T]) (auto dest: list_all2_lengthD)
qed

end
