(* ===== verification/Opening.thy ===== *)
theory Opening
  imports Rep3 TrifectaBatch
begin

text \<open>
  \<^verbatim>\<open>Protocols/ReplicatedMC.h\<close>, \<^verbatim>\<open>Protocols/ReplicatedMC.hpp\<close> and
  \<^verbatim>\<open>Protocols/MultiReplicatedMC.hpp\<close>: opening of shared values. Every party passes its first
  components around the ring and adds what it receives: to the sum of its two components
  (replicated sharing, passed backwards), or to the one component that its role determines
  (Trifecta sharing, passed forwards).
\<close>

unbundle bit_operations_syntax

record mac_check =
  mc_o :: octetStream
  mc_to_send :: octetStream

definition mc_prepare :: "'a value_ops \<Rightarrow> 'a fixedvec list \<Rightarrow> mac_check \<Rightarrow> mac_check res" where
  "mc_prepare R S mc =
     (let o1 = reset_write_head (mc_o mc);
          t1 = reserve (length S * v_size R) (reset_write_head (mc_to_send mc))
      in bindE (foldE (\<lambda>x. v_pack R None (x ! 0)) S t1) (\<lambda>t2. Inr \<lparr>mc_o = o1, mc_to_send = t2\<rparr>))"

fun open_values :: "'a value_ops \<Rightarrow> ('a fixedvec \<Rightarrow> 'a \<Rightarrow> 'a) \<Rightarrow> 'a fixedvec list \<Rightarrow> octetStream \<Rightarrow> ('a list \<times> octetStream) res" where
  "open_values R f [] o1 = Inr ([], o1)"
| "open_values R f (s # S) o1 =
     bindE (v_unpack R None o1) (\<lambda>(tmp, o2). bindE (open_values R f S o2) (\<lambda>(vs, o3). Inr (f s tmp # vs, o3)))"

text \<open>The two ways to combine: \<^verbatim>\<open>ReplicatedMC\<close> and \<^verbatim>\<open>MultiReplicatedMC\<close>.\<close>

definition rep_open_share :: "'a value_ops \<Rightarrow> nat \<Rightarrow> 'a fixedvec \<Rightarrow> 'a \<Rightarrow> 'a" where
  "rep_open_share R me s tmp = v_add R (fv_sum (v_add R) s) tmp"

definition multi_open_share :: "'a value_ops \<Rightarrow> nat \<Rightarrow> 'a fixedvec \<Rightarrow> 'a \<Rightarrow> 'a" where
  "multi_open_share R me s tmp = (if me = 0 then v_add R (s ! 0) tmp else v_add R (s ! 1) tmp)"

definition mc_finalize :: "'a value_ops \<Rightarrow> ('a fixedvec \<Rightarrow> 'a \<Rightarrow> 'a) \<Rightarrow> 'a fixedvec list \<Rightarrow> mac_check \<Rightarrow> ('a list \<times> mac_check) res" where
  "mc_finalize R f S mc = bindE (open_values R f S (mc_o mc)) (\<lambda>(vs, o1). Inr (vs, mc\<lparr>mc_o := o1\<rparr>))"

definition popen_net :: "int \<Rightarrow> (nat \<Rightarrow> mac_check) \<Rightarrow> net" where
  "popen_net offset M = ring_net offset 0 1 (\<lambda>i. [mc_to_send (M i), mc_o (M i)])"

text \<open>The three parties' \<open>POpen\<close>: values and final states.\<close>

definition popen :: "'a value_ops \<Rightarrow> int \<Rightarrow> (nat \<Rightarrow> 'a fixedvec \<Rightarrow> 'a \<Rightarrow> 'a) \<Rightarrow> (nat \<Rightarrow> 'a fixedvec list) \<Rightarrow> (nat \<Rightarrow> mac_check)
    \<Rightarrow> (('a list \<times> mac_check) \<times> ('a list \<times> mac_check) \<times> ('a list \<times> mac_check)) res" where
  "popen R offset f S M =
     bindE (mc_prepare R (S 0) (M 0)) (\<lambda>m0.
     bindE (mc_prepare R (S 1) (M 1)) (\<lambda>m1.
     bindE (mc_prepare R (S 2) (M 2)) (\<lambda>m2.
     (case run_schedule ring_schedule (popen_net offset (three m0 m1 m2)) of
        None \<Rightarrow> Inl (Runtime_Error ''exchange blocked'')
      | Some c \<Rightarrow>
          let r = (\<lambda>i. \<lparr>mc_o = streams c i ! 1, mc_to_send = streams c i ! 0\<rparr>)
          in bindE (mc_finalize R (f 0) (S 0) (r 0)) (\<lambda>r0.
             bindE (mc_finalize R (f 1) (S 1) (r 1)) (\<lambda>r1.
             bindE (mc_finalize R (f 2) (S 2) (r 2)) (\<lambda>r2. Inr (r0, r1, r2))))))))"

definition rep_popen where "rep_popen R = popen R (- 1) (rep_open_share R)"
definition multi_popen where "multi_popen R = popen R 1 (multi_open_share R)"

definition mc_inv :: "mac_check \<Rightarrow> bool" where
  "mc_inv mc \<longleftrightarrow> os_inv (mc_o mc) \<and> os_inv (mc_to_send mc)"

context value_type
begin

abbreviation enc_all :: "'a list \<Rightarrow> octet list" where
  "enc_all vs \<equiv> concat (map (enc None) vs)"

lemma length_enc_all: "length (enc_all vs) \<le> length vs * v_size R"
  using enc_size [OF okn_full(1)] by (induction vs) (auto intro: add_mono)

lemma mc_prepare_ok:
  "\<exists>m. mc_prepare R S mc = Inr m \<and> mc_o m = reset_write_head (mc_o mc) \<and> os_inv (mc_to_send m)
     \<and> contents (mc_to_send m) = enc_all (map (\<lambda>x. x ! 0) S)"
proof -
  let ?t = "reserve (length S * v_size R) (reset_write_head (mc_to_send mc))"
  have t: "os_inv ?t" "contents ?t = []"
    using reserve_props [OF os_inv_reset(2)] by auto
  obtain t2 where "foldE (v_pack R None) (map (\<lambda>x. x ! 0) S) ?t = Inr t2" "extends (enc_all (map (\<lambda>x. x ! 0) S)) ?t t2"
    using codec.put_list [OF pack_codec [of None] t(1), of "map (\<lambda>x. x ! 0) S"] okn_full
    by (auto simp: codec.enc_list_def [OF pack_codec [of None]])
  moreover have "foldE (\<lambda>x. v_pack R None (x ! 0)) S u = foldE (v_pack R None) (map (\<lambda>x. x ! 0) S) u" for u
    by (induction S arbitrary: u) (auto intro: bindE_cong)
  ultimately show ?thesis
    using t by (auto simp: mc_prepare_def extends_def)
qed

lemma open_values_ok:
  assumes "os_inv o1" "length vs = length S" "unread o1 = enc_all vs @ r"
  shows "\<exists>o2. open_values R f S o1 = Inr (map2 f S vs, o2)"
  using assms
proof (induction S arbitrary: vs o1)
  case Nil
  then show ?case by simp
next
  case (Cons s S)
  then obtain v ws where vs: "vs = v # ws" by (cases vs) auto
  then obtain o2 where "v_unpack R None o1 = Inr (v, o2)" "os_inv o2" "unread o2 = enc_all ws @ r"
    using unpack_ok [of o1 None v "enc_all ws @ r"] Cons.prems okn_full by auto
  with Cons.IH [of o2 ws] Cons.prems vs show ?case by auto
qed

text \<open>Every party combines its shares with the first components of its neighbour.\<close>

lemma popen_values:
  fixes f
  assumes offset: "offset = 1 \<or> offset = - 1" and len: "\<And>i. i < 3 \<Longrightarrow> length (S i) = m"
    and size: "m * v_size R < 2 ^ 32"
  defines "vals \<equiv> \<lambda>i. map2 (f i) (S i) (map (\<lambda>x. x ! 0) (S (get_player 3 i (- offset))))"
  shows "\<exists>T. popen R offset f S M = Inr ((vals 0, T 0), (vals 1, T 1), (vals 2, T (2 :: nat)))"
proof -
  let ?c = "\<lambda>i. enc_all (map (\<lambda>x. x ! 0) (S i))"
  obtain m0 m1 m2 where m: "mc_prepare R (S 0) (M 0) = Inr m0" "mc_prepare R (S 1) (M 1) = Inr m1" "mc_prepare R (S 2) (M 2) = Inr m2"
    "os_inv (mc_to_send m0)" "contents (mc_to_send m0) = ?c 0" "os_inv (mc_to_send m1)" "contents (mc_to_send m1) = ?c 1"
    "os_inv (mc_to_send m2)" "contents (mc_to_send m2) = ?c 2"
    using mc_prepare_ok by metis
  let ?P = "three m0 m1 m2"
  have P: "os_inv (mc_to_send (?P i))" "contents (mc_to_send (?P i)) = ?c i" if "i < 3" for i
  proof -
    have "i = 0 \<or> i = 1 \<or> i = 2" using that by auto
    then show "os_inv (mc_to_send (?P i))" "contents (mc_to_send (?P i)) = ?c i" using m by auto
  qed
  have sm: "small (mc_to_send (?P i))" if "i < 3" for i
    using P [OF that] length_contents [OF P(1) [OF that]] length_enc_all [of "map (\<lambda>x. x ! 0) (S i)"] len [OF that] size
    by (auto simp: small_def)
  obtain r c where R: "run_schedule ring_schedule (popen_net offset ?P) = Some c"
    "\<And>i. i < 3 \<Longrightarrow> streams c i = [mc_to_send (?P i), mc_o (?P i)][1 := r i] \<and> holds (r i) (contents (mc_to_send (?P (get_player 3 i (- offset)))))"
    unfolding popen_net_def
    using ring_run [OF offset, of 0 "\<lambda>i. [mc_to_send (?P i), mc_o (?P i)]" 1] sm by auto
  have gp: "get_player 3 i (- offset) < 3" for i
    by (simp add: get_player_def positive_modulo_mod)
  have "\<exists>o2. open_values R (f i) (S i) (streams c i ! 1) = Inr (vals i, o2)" if i: "i < 3" for i
  proof -
    have "os_inv (r i)" "unread (r i) = ?c (get_player 3 i (- offset)) @ []"
      using R(2) [OF i] P(2) [OF gp] by (auto simp: holds_def)
    from open_values_ok [OF this(1) _ this(2), of "S i" "f i"] R(2) [OF i] len i gp
    show ?thesis by (auto simp: vals_def)
  qed
  then obtain o0 o1 o2 where "open_values R (f 0) (S 0) (streams c 0 ! 1) = Inr (vals 0, o0)"
    "open_values R (f 1) (S 1) (streams c 1 ! 1) = Inr (vals 1, o1)" "open_values R (f 2) (S 2) (streams c 2 ! 1) = Inr (vals 2, o2)"
    by (metis one_less_numeral_iff semiring_norm(77) lessI numeral_3_eq_3 numeral_2_eq_2 zero_less_numeral)
  with m(1-3) R(1) have "popen R offset f S M = Inr ((vals 0, (\<lambda>i. \<lparr>mc_o = three o0 o1 o2 i, mc_to_send = streams c i ! 0\<rparr>) 0),
      (vals 1, (\<lambda>i. \<lparr>mc_o = three o0 o1 o2 i, mc_to_send = streams c i ! 0\<rparr>) 1),
      (vals 2, (\<lambda>i. \<lparr>mc_o = three o0 o1 o2 i, mc_to_send = streams c i ! 0\<rparr>) 2))"
    by (simp add: popen_def mc_finalize_def Let_def)
  then show ?thesis by (intro exI) assumption
qed

text \<open>Replicated sharings open to their value at every party.\<close>

lemma rep_popen_opens:
  assumes "\<And>i. i < 3 \<Longrightarrow> length (S i) = length vs" "length vs * v_size R < 2 ^ 32"
    and sh: "\<And>j. j < length vs \<Longrightarrow> rep3 R (vs ! j) (\<lambda>i. S i ! j)"
  shows "\<exists>T. rep_popen R S M = Inr ((vs, T 0), (vs, T 1), (vs, T (2 :: nat)))"
proof -
  have "map2 (rep_open_share R i) (S i) (map (\<lambda>x. x ! 0) (S (get_player 3 i 1))) = vs" if i: "i < 3" for i
  proof (rule nth_equalityI)
    have gp: "get_player 3 i 1 < 3" by (simp add: get_player_def positive_modulo_mod)
    then show len: "length (map2 (rep_open_share R i) (S i) (map (\<lambda>x. x ! 0) (S (get_player 3 i 1)))) = length vs"
      using assms(1) i by simp
    fix j assume "j < length (map2 (rep_open_share R i) (S i) (map (\<lambda>x. x ! 0) (S (get_player 3 i 1))))"
    then have j: "j < length vs" using len by (simp only:)
    obtain a b c where t: "S 0 ! j = [a, c]" "S 1 ! j = [b, a]" "S 2 ! j = [c, b]" "vs ! j = v_add R (v_add R a b) c"
      using sh [OF j] unfolding rep3_shape by metis
    have "i = 0 \<or> i = 1 \<or> i = 2" using i by auto
    then show "map2 (rep_open_share R i) (S i) (map (\<lambda>x. x ! 0) (S (get_player 3 i 1))) ! j = vs ! j"
      using t j assms(1) [of 0] assms(1) [of 1] assms(1) [of 2]
      by (auto simp: rep_open_share_def get_player_3 [unfolded One_nat_def] add_ac)
  qed
  note v = this
  show ?thesis
    using popen_values [of "- 1" S "length vs" "rep_open_share R" M] assms(1,2) v [of 0] v [of 1] v [of 2]
    by (simp add: rep_popen_def)
qed

end

text \<open>Trifecta sharings open to their value at every party.\<close>

lemma multi_popen_opens:
  assumes len: "\<And>i. i < 3 \<Longrightarrow> length (S i) = length vs" and size: "length vs * 8 < 2 ^ 32"
    and sh: "\<And>j. j < length vs \<Longrightarrow> sharing (ns ! j) (vs ! j) (S 0 ! j) (S 1 ! j) (S 2 ! j)"
  shows "\<exists>T. multi_popen bitvec_ops S M = Inr ((vs, T 0), (vs, T 1), (vs, T (2 :: nat)))"
proof -
  have "map2 (multi_open_share bitvec_ops i) (S i) (map (\<lambda>x. x ! 0) (S (get_player 3 i (- 1)))) = vs" if i: "i < 3" for i
  proof (rule nth_equalityI)
    have gp: "get_player 3 i (- 1) < 3" by (simp add: get_player_def positive_modulo_mod)
    then show l: "length (map2 (multi_open_share bitvec_ops i) (S i) (map (\<lambda>x. x ! 0) (S (get_player 3 i (- 1))))) = length vs"
      using len i by simp
    fix j assume "j < length (map2 (multi_open_share bitvec_ops i) (S i) (map (\<lambda>x. x ! 0) (S (get_player 3 i (- 1)))))"
    then have j: "j < length vs" using l by (simp only:)
    have "i = 0 \<or> i = 1 \<or> i = 2" using i by auto
    then show "map2 (multi_open_share bitvec_ops i) (S i) (map (\<lambda>x. x ! 0) (S (get_player 3 i (- 1)))) ! j = vs ! j"
      using sh [OF j] j len [of 0] len [of 1] len [of 2]
      by (auto simp: multi_open_share_def get_player_3 [unfolded One_nat_def] sharing_def bitvec_ops_def bv_defs xor_ac)
  qed
  note v = this
  show ?thesis
    using bvt.popen_values [of 1 S "length vs" "multi_open_share bitvec_ops" M] len size v [of 0] v [of 1] v [of 2]
    by (simp add: multi_popen_def bitvec_ops_def)
qed

end
