(* ===== verification/Inputs.thy ===== *)
theory Inputs
  imports Opening
begin

text \<open>
  \<^verbatim>\<open>Protocols/ReplicatedInput.h\<close>, \<^verbatim>\<open>Protocols/ReplicatedInput.hpp\<close> and the part of
  \<^verbatim>\<open>Processor/Input.hpp\<close> they use: secret sharing of private inputs, for replicated sharing
  (\<open>ReplicatedInput\<close>) and for the Trifecta format (\<open>MultiReplicatedInput\<close>).
\<close>

unbundle bit_operations_syntax

record 'a input_state =
  in_num :: nat
  in_shares :: "'a fixedvec list"
  in_i_share :: nat
  in_os :: "octetStream list"
  in_prng :: prng
  in_shared :: "prng list"
  in_expect :: "bool list"
  in_recv :: "octetStream list"
  in_count :: nat

subsection \<open>Operations common to both\<close>

definition in_reset :: "nat \<Rightarrow> 'a input_state \<Rightarrow> 'a input_state res" where
  "in_reset player s =
     (let s1 = (if player = in_num s
                then s\<lparr>in_shares := [], in_i_share := 0,
                       in_os := map reset_write_head (take 2 (in_os s) @ replicate (2 - length (in_os s)) empty_stream)\<rparr>
                else s)
      in bindE (updE (in_expect s1) player False) (\<lambda>e. Inr (s1\<lparr>in_expect := e\<rparr>)))"

definition in_reset_all :: "'a input_state \<Rightarrow> 'a input_state res" where
  "in_reset_all s =
     foldE in_reset [0..<3] (s\<lparr>in_recv := take 3 (in_recv s) @ replicate (3 - length (in_recv s)) empty_stream\<rparr>)"

definition in_add_other :: "nat \<Rightarrow> 'a input_state \<Rightarrow> 'a input_state res" where
  "in_add_other player s = bindE (updE (in_expect s) player True) (\<lambda>e. Inr (s\<lparr>in_expect := e\<rparr>))"

definition in_finalize_mine :: "'a input_state \<Rightarrow> ('a fixedvec \<times> 'a input_state) res" where
  "in_finalize_mine s =
     bindE (nthE (in_shares s) (in_i_share s)) (\<lambda>x. Inr (x, s\<lparr>in_i_share := in_i_share s + 1\<rparr>))"

definition in_pack :: "'a value_ops \<Rightarrow> nat \<Rightarrow> nat option \<Rightarrow> 'a \<Rightarrow> 'a input_state \<Rightarrow> 'a input_state res" where
  "in_pack R k n x s =
     bindE (nthE (in_os s) k) (\<lambda>o1. bindE (v_pack R n x o1) (\<lambda>o2. Inr (s\<lparr>in_os := (in_os s)[k := o2]\<rparr>)))"

definition in_unpack :: "'a value_ops \<Rightarrow> nat \<Rightarrow> nat option \<Rightarrow> 'a input_state \<Rightarrow> ('a \<times> 'a input_state) res" where
  "in_unpack R player n s =
     bindE (nthE (in_recv s) player) (\<lambda>o1. bindE (v_unpack R n o1) (\<lambda>(x, o2). Inr (x, s\<lparr>in_recv := (in_recv s)[player := o2]\<rparr>)))"

subsection \<open>\<^verbatim>\<open>ReplicatedInput\<close>\<close>

definition rep_add_mine :: "'a value_ops \<Rightarrow> cipher \<Rightarrow> 'a \<Rightarrow> nat option \<Rightarrow> 'a input_state \<Rightarrow> 'a input_state res" where
  "rep_add_mine R E input n s =
     bindE (nthE (in_shared s) 0) (\<lambda>G.
     let (r, G') = v_rand R E G n; d = v_sub R input r
     in bindE (in_pack R 1 n d (s\<lparr>in_shared := (in_shared s)[0 := G'], in_shares := in_shares s @ [[r, d]]\<rparr>)) (\<lambda>s1.
        Inr (s1\<lparr>in_count := in_count s1 + 1\<rparr>)))"

definition rep_finalize_other :: "'a value_ops \<Rightarrow> cipher \<Rightarrow> nat \<Rightarrow> nat option \<Rightarrow> 'a input_state \<Rightarrow> ('a fixedvec \<times> 'a input_state) res" where
  "rep_finalize_other R E player n s =
     (if int player - int (in_num s) = 1 \<or> int player - int (in_num s) = - 2
      then bindE (in_unpack R player n s) (\<lambda>(t, s1). Inr ([t, v_zero R], s1))
      else bindE (nthE (in_shared s) 1) (\<lambda>G.
           let (r, G') = v_rand R E G n in Inr ([v_zero R, r], s\<lparr>in_shared := (in_shared s)[1 := G']\<rparr>)))"

text \<open>The exchange, as a list of sends (own stream 1) and receives (stream \<open>2 + player\<close>).\<close>

definition rep_input_script :: "'a input_state \<Rightarrow> comm list" where
  "rep_input_script s =
     (let me = in_num s; nx = get_player 3 me 1;
          receive = in_expect s ! nx; send = \<not> stream_is_empty (in_os s ! 1)
      in if send then
           (if receive then [send_relative 3 me (- 1) 1, receive_relative 3 me 1 (2 + nx)]
            else [SendTo (get_player 3 me (- 1)) 1])
         else if receive then [ReceiveFrom nx (2 + nx)] else [])"

subsection \<open>\<^verbatim>\<open>MultiReplicatedInput\<close>\<close>

definition multi_add_mine :: "'a value_ops \<Rightarrow> cipher \<Rightarrow> 'a \<Rightarrow> nat option \<Rightarrow> 'a input_state \<Rightarrow> 'a input_state res" where
  "multi_add_mine R E input n s =
     (let (alpha, G1) = v_rand R E (in_prng s) n;
          (beta, G2) = v_rand R E G1 n;
          my_share = [v_sub R input alpha, beta];
          next_share_0 = v_sub R input beta;
          next_share_1 = alpha;
          s0 = s\<lparr>in_prng := G2, in_shares := in_shares s @ [my_share]\<rparr>
      in bindE (in_pack R 0 n next_share_0 s0) (\<lambda>s1.
         bindE (in_pack R 0 n next_share_1 s1) (\<lambda>s2.
         bindE (in_pack R 1 n alpha s2) (\<lambda>s3.
         bindE (in_pack R 1 n beta s3) (\<lambda>s4. Inr (s4\<lparr>in_count := in_count s4 + 1\<rparr>))))))"

definition multi_finalize_other :: "'a value_ops \<Rightarrow> nat \<Rightarrow> nat option \<Rightarrow> 'a fixedvec \<Rightarrow> 'a input_state \<Rightarrow> ('a fixedvec \<times> 'a input_state) res" where
  "multi_finalize_other R player n target s =
     (if player \<noteq> in_num s
      then bindE (in_unpack R player n s) (\<lambda>(t1, s1). bindE (in_unpack R player n s1) (\<lambda>(t2, s2). Inr ([t1, t2], s2)))
      else Inr (target, s))"

text \<open>\<^verbatim>\<open>InputBase::finalize\<close>; a fresh share is all zero.\<close>

definition multi_finalize :: "'a value_ops \<Rightarrow> nat \<Rightarrow> nat option \<Rightarrow> 'a input_state \<Rightarrow> ('a fixedvec \<times> 'a input_state) res" where
  "multi_finalize R player n s =
     (if player = in_num s then in_finalize_mine s
      else multi_finalize_other R player n (fv_const 2 (v_zero R)) s)"

definition rep_finalize :: "'a value_ops \<Rightarrow> cipher \<Rightarrow> nat \<Rightarrow> nat option \<Rightarrow> 'a input_state \<Rightarrow> ('a fixedvec \<times> 'a input_state) res" where
  "rep_finalize R E player n s =
     (if player = in_num s then in_finalize_mine s else rep_finalize_other R E player n s)"

definition multi_input_script :: "'a input_state \<Rightarrow> comm list" where
  "multi_input_script s =
     (let me = in_num s; nx = get_player 3 me 1; pr = get_player 3 me (- 1)
      in (if \<not> stream_is_empty (in_os s ! 0) then [SendTo nx 0, SendTo pr 1] else []) @
         (if in_expect s ! nx then [ReceiveFrom nx (2 + nx)] else []) @
         (if in_expect s ! pr then [ReceiveFrom pr (2 + pr)] else []))"

definition input_net :: "('a input_state \<Rightarrow> comm list) \<Rightarrow> (nat \<Rightarrow> 'a input_state) \<Rightarrow> net" where
  "input_net script S =
     \<lparr>todo = (\<lambda>i. if i < 3 then script (S i) else []),
      streams = (\<lambda>i. in_os (S i) @ in_recv (S i)), chan = (\<lambda>_ _. [])\<rparr>"

definition input_exchange :: "('a input_state \<Rightarrow> comm list) \<Rightarrow> nat list \<Rightarrow> (nat \<Rightarrow> 'a input_state) \<Rightarrow> (nat \<Rightarrow> 'a input_state) option" where
  "input_exchange script sched S =
     map_option (\<lambda>c i. (S i)\<lparr>in_os := take 2 (streams c i), in_recv := drop 2 (streams c i)\<rparr>)
       (run_schedule sched (input_net script S))"

subsection \<open>Inputs of one player\<close>

text \<open>
  Player \<open>p\<close> inputs the values \<open>xs\<close> with their bit counts; the others expect them. The
  whole round for the Trifecta format: the shares that each party ends up with.
\<close>

definition multi_input_round :: "'a value_ops \<Rightarrow> cipher \<Rightarrow> nat \<Rightarrow> (nat option \<times> 'a) list \<Rightarrow> (nat \<Rightarrow> 'a input_state)
    \<Rightarrow> ((nat \<Rightarrow> 'a input_state) \<times> (nat \<Rightarrow> 'a input_state)) res" where
  "multi_input_round R E p xs S =
     bindE (mapE (\<lambda>i. bindE (in_reset_all (S i)) (\<lambda>s.
              foldE (\<lambda>(n, x). if i = p then multi_add_mine R E x n else in_add_other p) xs s)) [0..<3]) (\<lambda>ss.
     let P = (\<lambda>i. ss ! i) in
     (case input_exchange multi_input_script [p, p, get_player 3 p 1, get_player 3 p (- 1)] P of
        None \<Rightarrow> Inl (Runtime_Error ''exchange blocked'')
      | Some Q \<Rightarrow> Inr (P, Q)))"

fun finalize_inputs :: "(nat option \<Rightarrow> 'a input_state \<Rightarrow> ('a fixedvec \<times> 'a input_state) res) \<Rightarrow> nat option list
    \<Rightarrow> 'a input_state \<Rightarrow> ('a fixedvec list \<times> 'a input_state) res" where
  "finalize_inputs f [] s = Inr ([], s)"
| "finalize_inputs f (n # ns) s =
     bindE (f n s) (\<lambda>(x, s1). bindE (finalize_inputs f ns s1) (\<lambda>(xs, s2). Inr (x # xs, s2)))"

text \<open>The masks that player \<open>p\<close> draws for its inputs.\<close>

fun input_masks :: "'a value_ops \<Rightarrow> cipher \<Rightarrow> nat option list \<Rightarrow> prng \<Rightarrow> ('a \<times> 'a) list" where
  "input_masks R E [] G = []"
| "input_masks R E (n # ns) G =
     (let (a, G1) = v_rand R E G n; (b, G2) = v_rand R E G1 n in (a, b) # input_masks R E ns G2)"

lemma length_input_masks [simp]: "length (input_masks R E ns G) = length ns"
  by (induction ns arbitrary: G) (auto split: prod.splits)

subsection \<open>What the round does\<close>

definition in_inv :: "nat \<Rightarrow> 'a input_state \<Rightarrow> bool" where
  "in_inv i s \<longleftrightarrow> in_num s = i \<and> length (in_expect s) = 3"

text \<open>The state after \<open>reset_all\<close>.\<close>

definition in_fresh :: "nat \<Rightarrow> 'a input_state \<Rightarrow> 'a input_state \<Rightarrow> bool" where
  "in_fresh i s s' \<longleftrightarrow> in_num s' = i \<and> in_expect s' = [False, False, False] \<and> in_shares s' = [] \<and> in_i_share s' = 0 \<and>
     length (in_os s') = 2 \<and> (\<forall>o1 \<in> set (in_os s'). os_inv o1 \<and> contents o1 = [])
     \<and> length (in_recv s') = 3 \<and> in_prng s' = in_prng s \<and> in_shared s' = in_shared s"

lemma list3_eq: "length xs = 3 \<Longrightarrow> xs[0 := a, 1 := b, 2 := c] = [a, b, c]"
  by (auto simp: numeral_eq_Suc length_Suc_conv)

lemma pad_length: "min (length xs) n + (n - length xs) = n"
  by simp

lemma in_reset_eq:
  assumes "length (in_expect s) = 3" "player < 3"
  shows "in_reset player s = Inr ((if player = in_num s
     then s\<lparr>in_shares := [], in_i_share := 0,
            in_os := map reset_write_head (take 2 (in_os s) @ replicate (2 - length (in_os s)) empty_stream)\<rparr>
     else s)\<lparr>in_expect := (in_expect s)[player := False]\<rparr>)"
  using assms by (simp add: in_reset_def Let_def)

lemma in_reset_all_fresh:
  assumes "in_inv i s" "i < 3"
  shows "\<exists>s'. in_reset_all s = Inr s' \<and> in_fresh i s s'"
proof -
  have u: "[0..<3] = [0, 1, 2]" by (simp add: upt_rec)
  have l: "length (in_expect s) = 3" using assms(1) by (simp add: in_inv_def)
  have w: "length (map reset_write_head (take 2 xs @ replicate (2 - length xs) empty_stream)) = 2"
    "\<forall>o1 \<in> set (map reset_write_head (take 2 xs @ replicate (2 - length xs) empty_stream)). os_inv o1 \<and> contents o1 = []" for xs
    by auto
  have "i = 0 \<or> i = 1 \<or> i = 2" using assms(2) by auto
  with assms(1) show ?thesis
    unfolding in_reset_all_def u
    using w [of "in_os s"] list3_eq [OF l, of False False False]
    by (elim disjE) (simp_all add: in_reset_eq l in_inv_def in_fresh_def pad_length)
qed

lemma add_others:
  assumes "length (in_expect s) = 3" "p < 3"
  shows "foldE (\<lambda>(n, x). in_add_other p) xs s = Inr (if xs = [] then s else s\<lparr>in_expect := (in_expect s)[p := True]\<rparr>)"
  using assms by (induction xs arbitrary: s) (auto simp: in_add_other_def split: if_splits)

subsection \<open>The exchange\<close>

definition input_ready :: "nat \<Rightarrow> (nat \<Rightarrow> 'a input_state) \<Rightarrow> bool" where
  "input_ready p P \<longleftrightarrow> p < 3 \<and>
     (\<forall>i < 3. in_num (P i) = i \<and> length (in_os (P i)) = 2 \<and> length (in_recv (P i)) = 3 \<and>
        in_expect (P i) = (if i = p then [False, False, False] else [False, False, False][p := True]) \<and>
        (i \<noteq> p \<longrightarrow> stream_is_empty (in_os (P i) ! 0))) \<and>
     small (in_os (P p) ! 0) \<and> small (in_os (P p) ! 1) \<and> \<not> stream_is_empty (in_os (P p) ! 0)"

lemma multi_input_exchange_run:
  assumes "input_ready p P"
  shows "\<exists>Q r1 r2. input_exchange multi_input_script [p, p, get_player 3 p 1, get_player 3 p (- 1)] P = Some Q \<and>
    holds r1 (contents (in_os (P p) ! 0)) \<and> holds r2 (contents (in_os (P p) ! 1)) \<and> Q p = P p \<and>
    Q (get_player 3 p 1) = (P (get_player 3 p 1))\<lparr>in_recv := (in_recv (P (get_player 3 p 1)))[p := r1]\<rparr> \<and>
    Q (get_player 3 p (- 1)) = (P (get_player 3 p (- 1)))\<lparr>in_recv := (in_recv (P (get_player 3 p (- 1))))[p := r2]\<rparr>"
proof -
  let ?nx = "get_player 3 p 1" and ?pr = "get_player 3 p (- 1)"
  have sm: "small (in_os (P p) ! 0)" "small (in_os (P p) ! 1)" using assms by (auto simp: input_ready_def)
  obtain r1 where r1: "Receive (frame (in_os (P p) ! 0)) (reset_write_head (in_recv (P ?nx) ! p)) = Inr (r1, [])"
    "holds r1 (contents (in_os (P p) ! 0))" using Receive_small [OF sm(1)] by blast
  obtain r2 where r2: "Receive (frame (in_os (P p) ! 1)) (reset_write_head (in_recv (P ?pr) ! p)) = Inr (r2, [])"
    "holds r2 (contents (in_os (P p) ! 1))" using Receive_small [OF sm(2)] by blast
  have l: "length (in_os (P i)) = 2" "length (in_recv (P i)) = 3" "in_num (P i) = i" if "i < 3" for i
    using assms that by (auto simp: input_ready_def)
  have n: "(in_os (P i) @ in_recv (P i)) ! 0 = in_os (P i) ! 0" "(in_os (P i) @ in_recv (P i)) ! Suc 0 = in_os (P i) ! 1"
    "(in_os (P i) @ in_recv (P i)) ! 2 = in_recv (P i) ! 0" "(in_os (P i) @ in_recv (P i)) ! 3 = in_recv (P i) ! 1"
    "(in_os (P i) @ in_recv (P i)) ! 4 = in_recv (P i) ! 2" if "i < 3" for i
    using l [OF that] by (auto simp: nth_append)
  have u: "(in_os (P i) @ in_recv (P i))[2 + k := r] = in_os (P i) @ (in_recv (P i))[k := r]" if "i < 3" for i k r
    using l [OF that] by (auto simp: list_update_append)
  have e: "in_expect (P p) = [False, False, False]"
    "\<And>i. i < 3 \<Longrightarrow> i \<noteq> p \<Longrightarrow> in_expect (P i) = [False, False, False][p := True]"
    "\<And>i. i < 3 \<Longrightarrow> i \<noteq> p \<Longrightarrow> stream_is_empty (in_os (P i) ! 0)" "\<not> stream_is_empty (in_os (P p) ! 0)"
    using assms by (auto simp: input_ready_def)
  note net = input_net_def multi_input_script_def comm_do_def Let_def get_player_3 [unfolded One_nat_def]
  define w where "w = (\<lambda>i. in_os (P i) @ in_recv (P i))"
  have sw: "streams (input_net multi_input_script P) = w" by (simp add: w_def input_net_def)
  have lw: "length (w i) = 5" if "i < 3" for i using l [OF that] by (simp add: w_def)
  have tp: "todo (input_net multi_input_script P) p = [SendTo ?nx 0, SendTo ?pr 1]"
    "todo (input_net multi_input_script P) ?nx = [ReceiveFrom p (2 + p)]"
    "todo (input_net multi_input_script P) ?pr = [ReceiveFrom p (2 + p)]"
    "chan (input_net multi_input_script P) = (\<lambda>_ _. [])"
    and ne: "?nx \<noteq> p" "?pr \<noteq> p" "?nx \<noteq> ?pr" "?nx < 3" "?pr < 3" "p < 3"
  proof -
    have "p = 0 \<or> p = 1 \<or> p = 2" using assms by (auto simp: input_ready_def)
    then show "todo (input_net multi_input_script P) p = [SendTo ?nx 0, SendTo ?pr 1]"
      "todo (input_net multi_input_script P) ?nx = [ReceiveFrom p (2 + p)]"
      "todo (input_net multi_input_script P) ?pr = [ReceiveFrom p (2 + p)]"
      "?nx \<noteq> p" "?pr \<noteq> p" "?nx \<noteq> ?pr" "?nx < 3" "?pr < 3" "p < 3"
      using e(1,4) e(2,3) [of 0] e(2,3) [of 1] e(2,3) [of 2] l(3) [of 0] l(3) [of 1] l(3) [of 2]
      by (auto simp: net)
  qed (simp add: input_net_def)
  have wn: "w p ! 0 = in_os (P p) ! 0" "w p ! Suc 0 = in_os (P p) ! 1"
    "w ?nx ! Suc (Suc p) = in_recv (P ?nx) ! p" "w ?pr ! Suc (Suc p) = in_recv (P ?pr) ! p"
    using l ne by (auto simp: w_def nth_append)
  obtain c where c: "run_schedule [p, p, ?nx, ?pr] (input_net multi_input_script P) = Some c"
    "streams c = w(?nx := (w ?nx)[2 + p := r1], ?pr := (w ?pr)[2 + p := r2])"
    using sm r1 r2 tp ne lw [OF ne(4)] lw [OF ne(5)] lw [OF ne(6)] ne(1-3) [symmetric]
    by (auto simp: comm_do_def Send_small [of _ "[]"] sw wn fun_upd_twist)
  have "(P i)\<lparr>in_os := take 2 (w i), in_recv := drop 2 (w i)\<rparr> = P i"
    "(P i)\<lparr>in_os := take 2 ((w i)[2 + k := r]), in_recv := drop 2 ((w i)[2 + k := r])\<rparr> = (P i)\<lparr>in_recv := (in_recv (P i))[k := r]\<rparr>"
    if "i < 3" for i k r
    using l [OF that] u [OF that] by (auto simp: w_def)
  with c ne r1(2) r2(2) show ?thesis
    by (intro exI [of _ "\<lambda>i. (P i)\<lparr>in_os := take 2 (streams c i), in_recv := drop 2 (streams c i)\<rparr>"] exI [of _ r1] exI [of _ r2])
       (auto simp: input_exchange_def)
qed

context value_type
begin

abbreviation to_next :: "(nat option \<times> 'a) list \<Rightarrow> ('a \<times> 'a) list \<Rightarrow> octet list" where
  "to_next xs ms \<equiv> concat (map2 (\<lambda>(n, x) (a, b). enc n (v_sub R x b) @ enc n a) xs ms)"

abbreviation to_prev :: "(nat option \<times> 'a) list \<Rightarrow> ('a \<times> 'a) list \<Rightarrow> octet list" where
  "to_prev xs ms \<equiv> concat (map2 (\<lambda>(n, x) (a, b). enc n a @ enc n b) xs ms)"

abbreviation mine :: "(nat option \<times> 'a) list \<Rightarrow> ('a \<times> 'a) list \<Rightarrow> 'a fixedvec list" where
  "mine xs ms \<equiv> map2 (\<lambda>(n, x) (a, b). [v_sub R x a, b]) xs ms"

definition os_ok :: "'a input_state \<Rightarrow> bool" where
  "os_ok s \<longleftrightarrow> length (in_os s) = 2 \<and> (\<forall>o1 \<in> set (in_os s). os_inv o1)"

lemma in_pack_ok:
  assumes "os_ok s" "k < 2" "okn n" "fit n x"
  shows "\<exists>o2. in_pack R k n x s = Inr (s\<lparr>in_os := (in_os s)[k := o2]\<rparr>) \<and> os_ok (s\<lparr>in_os := (in_os s)[k := o2]\<rparr>)
    \<and> contents o2 = contents (in_os s ! k) @ enc n x"
proof -
  have k: "k < length (in_os s)" "os_inv (in_os s ! k)" using assms(1,2) by (auto simp: os_ok_def)
  obtain o2 where "v_pack R n x (in_os s ! k) = Inr o2" "extends (enc n x) (in_os s ! k) o2"
    using pack_ok [OF k(2) assms(3,4)] by blast
  with k assms(1) show ?thesis
    by (auto simp: in_pack_def os_ok_def extends_def dest!: set_update_subset_insert [THEN subsetD])
qed

lemma multi_add_mine_ok:
  fixes E
  assumes "os_ok s" "okn n" "fit n x"
  defines "a \<equiv> fst (v_rand R E (in_prng s) n)" and "G1 \<equiv> snd (v_rand R E (in_prng s) n)"
  defines "b \<equiv> fst (v_rand R E G1 n)" and "G2 \<equiv> snd (v_rand R E G1 n)"
  shows "\<exists>o1 o2. multi_add_mine R E x n s = Inr (s\<lparr>in_prng := G2, in_shares := in_shares s @ [[v_sub R x a, b]],
      in_os := [o1, o2], in_count := in_count s + 1\<rparr>) \<and> os_inv o1 \<and> os_inv o2
    \<and> contents o1 = contents (in_os s ! 0) @ enc n (v_sub R x b) @ enc n a
    \<and> contents o2 = contents (in_os s ! 1) @ enc n a @ enc n b"
proof -
  let ?s0 = "s\<lparr>in_prng := G2, in_shares := in_shares s @ [[v_sub R x a, b]]\<rparr>"
  have f: "fit n a" "fit n b" "fit n (v_sub R x b)" using assms(3) fit_rand fit_sub by (auto simp: a_def b_def)
  have k: "(0 :: nat) < 2" "(1 :: nat) < 2" by auto
  have l: "length (in_os s) = 2" using assms(1) by (simp add: os_ok_def)
  have i0: "os_ok ?s0" using assms(1) by (simp add: os_ok_def)
  obtain p1 where p1: "in_pack R 0 n (v_sub R x b) ?s0 = Inr (?s0\<lparr>in_os := (in_os s)[0 := p1]\<rparr>)" "os_ok (?s0\<lparr>in_os := (in_os s)[0 := p1]\<rparr>)"
    "contents p1 = contents (in_os s ! 0) @ enc n (v_sub R x b)" using in_pack_ok [OF i0 k(1) assms(2) f(3)] by auto
  obtain p2 where p2: "in_pack R 0 n a (?s0\<lparr>in_os := (in_os s)[0 := p1]\<rparr>) = Inr (?s0\<lparr>in_os := (in_os s)[0 := p2]\<rparr>)"
    "os_ok (?s0\<lparr>in_os := (in_os s)[0 := p2]\<rparr>)" "contents p2 = contents p1 @ enc n a"
    using in_pack_ok [OF p1(2) k(1) assms(2) f(1)] l by auto
  obtain p3 where p3: "in_pack R 1 n a (?s0\<lparr>in_os := (in_os s)[0 := p2]\<rparr>) = Inr (?s0\<lparr>in_os := (in_os s)[0 := p2, 1 := p3]\<rparr>)"
    "os_ok (?s0\<lparr>in_os := (in_os s)[0 := p2, 1 := p3]\<rparr>)" "contents p3 = contents (in_os s ! 1) @ enc n a"
    using in_pack_ok [OF p2(2) k(2) assms(2) f(1)] l by auto
  obtain p4 where p4: "in_pack R 1 n b (?s0\<lparr>in_os := (in_os s)[0 := p2, 1 := p3]\<rparr>) = Inr (?s0\<lparr>in_os := (in_os s)[0 := p2, 1 := p4]\<rparr>)"
    "os_ok (?s0\<lparr>in_os := (in_os s)[0 := p2, 1 := p4]\<rparr>)" "contents p4 = contents p3 @ enc n b"
    using in_pack_ok [OF p3(2) k(2) assms(2) f(2)] l by auto
  have u: "(in_os s)[0 := p2, 1 := p4] = [p2, p4]" using l by (auto simp: numeral_eq_Suc length_Suc_conv)
  have "multi_add_mine R E x n s = Inr (s\<lparr>in_prng := G2, in_shares := in_shares s @ [[v_sub R x a, b]],
      in_os := [p2, p4], in_count := in_count s + 1\<rparr>)"
    using p1(1) p2(1) p3(1) p4(1) u
    by (simp add: multi_add_mine_def split_beta Let_def a_def [symmetric] G1_def [symmetric] b_def [symmetric] G2_def [symmetric])
  with p1 p2 p3 p4 u show ?thesis by (auto simp: os_ok_def)
qed

lemma multi_add_mine_all:
  assumes "os_ok s" "\<forall>(n, x) \<in> set xs. okn n \<and> fit n x" "ms = input_masks R E (map fst xs) (in_prng s)"
  shows "\<exists>s'. foldE (\<lambda>(n, x). multi_add_mine R E x n) xs s = Inr s' \<and> os_ok s' \<and>
    contents (in_os s' ! 0) = contents (in_os s ! 0) @ to_next xs ms \<and>
    contents (in_os s' ! 1) = contents (in_os s ! 1) @ to_prev xs ms \<and> in_shares s' = in_shares s @ mine xs ms \<and>
    in_num s' = in_num s \<and> in_expect s' = in_expect s \<and> in_recv s' = in_recv s \<and> in_i_share s' = in_i_share s"
  using assms
proof (induction xs arbitrary: s ms)
  case Nil
  then show ?case by simp
next
  case (Cons nx xs)
  obtain n x where nx: "nx = (n, x)" by force
  let ?a = "fst (v_rand R E (in_prng s) n)" and ?G1 = "snd (v_rand R E (in_prng s) n)"
  let ?b = "fst (v_rand R E ?G1 n)" and ?G2 = "snd (v_rand R E ?G1 n)"
  have ms: "ms = (?a, ?b) # input_masks R E (map fst xs) ?G2"
    using Cons.prems(3) by (simp add: nx split_beta Let_def)
  obtain o1 o2 where o: "multi_add_mine R E x n s = Inr (s\<lparr>in_prng := ?G2, in_shares := in_shares s @ [[v_sub R x ?a, ?b]],
      in_os := [o1, o2], in_count := in_count s + 1\<rparr>)" "os_inv o1" "os_inv o2"
    "contents o1 = contents (in_os s ! 0) @ enc n (v_sub R x ?b) @ enc n ?a"
    "contents o2 = contents (in_os s ! 1) @ enc n ?a @ enc n ?b"
    using multi_add_mine_ok [OF Cons.prems(1), where n = n and x = x and E = E] Cons.prems(2) nx by auto
  let ?s = "s\<lparr>in_prng := ?G2, in_shares := in_shares s @ [[v_sub R x ?a, ?b]], in_os := [o1, o2], in_count := in_count s + 1\<rparr>"
  have "os_ok ?s" using o by (simp add: os_ok_def)
  from Cons.IH [OF this _ refl] Cons.prems(2) o ms nx show ?case by auto
qed

text \<open>Reading the shares of a batch of inputs back.\<close>

definition pair_fit :: "nat option \<times> 'a \<Rightarrow> 'a \<times> 'a \<Rightarrow> bool" where
  "pair_fit nx m \<longleftrightarrow> okn (fst nx) \<and> fit (fst nx) (snd nx) \<and> fit (fst nx) (fst m) \<and> fit (fst nx) (snd m)"

lemma masks_fit:
  "\<forall>(n, x) \<in> set xs. okn n \<and> fit n x \<Longrightarrow> list_all2 pair_fit xs (input_masks R E (map fst xs) G)"
proof (induction xs arbitrary: G)
  case Nil
  then show ?case by simp
next
  case (Cons nx xs)
  then show ?case by (cases nx) (auto simp: pair_fit_def split_beta Let_def fit_rand)
qed

definition recv_avail :: "nat \<Rightarrow> octet list \<Rightarrow> 'a input_state \<Rightarrow> bool" where
  "recv_avail p u s \<longleftrightarrow> p < length (in_recv s) \<and> os_inv (in_recv s ! p) \<and> (\<exists>r. unread (in_recv s ! p) = u @ r)"

lemma in_unpack_ok:
  assumes "recv_avail p (enc n x @ u) s" "okn n" "fit n x"
  shows "\<exists>s'. in_unpack R p n s = Inr (x, s') \<and> recv_avail p u s' \<and> in_num s' = in_num s"
proof -
  from assms(1) obtain r where r: "unread (in_recv s ! p) = enc n x @ (u @ r)" "os_inv (in_recv s ! p)" "p < length (in_recv s)"
    by (auto simp: recv_avail_def)
  obtain o' where "v_unpack R n (in_recv s ! p) = Inr (x, o')" "os_inv o'" "unread o' = u @ r"
    using unpack_ok [OF r(2) assms(2,3) r(1)] by blast
  with r(3) show ?thesis by (auto simp: in_unpack_def recv_avail_def)
qed

lemma finalize_others:
  assumes "list_all2 (\<lambda>n (y, z). okn n \<and> fit n y \<and> fit n z) ns yzs" "in_num s \<noteq> p"
    "recv_avail p (concat (map2 (\<lambda>n (y, z). enc n y @ enc n z) ns yzs)) s"
  shows "\<exists>s'. finalize_inputs (multi_finalize R p) ns s = Inr (map (\<lambda>(y, z). [y, z]) yzs, s')"
  using assms
proof (induction arbitrary: s rule: list_all2_induct)
  case Nil
  then show ?case by simp
next
  case (Cons n ns yz yzs)
  obtain y z where yz: "yz = (y, z)" by force
  let ?u = "concat (map2 (\<lambda>n (y, z). enc n y @ enc n z) ns yzs)"
  have A: "recv_avail p (enc n y @ (enc n z @ ?u)) s" using Cons.prems(2) by (simp add: yz)
  obtain s1 where s1: "in_unpack R p n s = Inr (y, s1)" "recv_avail p (enc n z @ ?u) s1" "in_num s1 = in_num s"
    using in_unpack_ok [OF A] Cons.hyps(1) yz by auto
  obtain s2 where s2: "in_unpack R p n s1 = Inr (z, s2)" "recv_avail p ?u s2" "in_num s2 = in_num s"
    using in_unpack_ok [OF s1(2)] Cons.hyps(1) yz s1(3) by auto
  with Cons.IH [of s2] Cons.prems(1) s1 yz show ?case
    by (auto simp: multi_finalize_def multi_finalize_other_def)
qed

lemma finalize_mine:
  assumes "in_num s = p" "drop (in_i_share s) (in_shares s) = ts" "length ns = length ts"
  shows "\<exists>s'. finalize_inputs (multi_finalize R p) ns s = Inr (ts, s')"
  using assms
proof (induction ns arbitrary: s ts)
  case Nil
  then show ?case by simp
next
  case (Cons n ns)
  obtain t ts' where ts: "ts = t # ts'" "length ns = length ts'" using Cons.prems(3) by (cases ts) auto
  have l: "in_i_share s < length (in_shares s)" using Cons.prems(2) ts by (metis drop_all list.distinct(1) not_le_imp_less)
  have "in_shares s ! in_i_share s = t \<and> drop (Suc (in_i_share s)) (in_shares s) = ts'"
    using Cons.prems(2) ts l by (metis Cons_nth_drop_Suc list.inject)
  with Cons.IH [of "s\<lparr>in_i_share := in_i_share s + 1\<rparr>" ts'] Cons.prems(1) ts l show ?case
    by (auto simp: multi_finalize_def in_finalize_mine_def nthE_def)
qed

text \<open>The shares that the round leaves at a party.\<close>

abbreviation at_next :: "(nat option \<times> 'a) list \<Rightarrow> ('a \<times> 'a) list \<Rightarrow> 'a fixedvec list" where
  "at_next xs ms \<equiv> map2 (\<lambda>(n, x) (a, b). [v_sub R x b, a]) xs ms"

abbreviation at_prev :: "(nat option \<times> 'a) list \<Rightarrow> ('a \<times> 'a) list \<Rightarrow> 'a fixedvec list" where
  "at_prev xs ms \<equiv> map2 (\<lambda>(n, x) (a, b). [a, b]) xs ms"

lemma finalize_next:
  assumes "list_all2 pair_fit xs ms" "in_num s \<noteq> p" "recv_avail p (to_next xs ms) s"
  shows "\<exists>s'. finalize_inputs (multi_finalize R p) (map fst xs) s = Inr (at_next xs ms, s')"
proof -
  let ?yz = "map2 (\<lambda>(n, x) (a, b). (v_sub R x b, a)) xs ms"
  have m: "map2 (\<lambda>n (y, z). enc n y @ enc n z) (map fst xs) ?yz = map2 (\<lambda>(n, x) (a, b). enc n (v_sub R x b) @ enc n a) xs ms"
    "map (\<lambda>(y, z). [y, z]) ?yz = at_next xs ms"
    using assms(1) by (induction rule: list_all2_induct) auto
  have "list_all2 (\<lambda>n (y, z). okn n \<and> fit n y \<and> fit n z) (map fst xs) ?yz"
    using assms(1) by (induction rule: list_all2_induct) (auto simp: pair_fit_def fit_sub)
  from finalize_others [OF this assms(2)] assms(3) show ?thesis by (simp add: m del: map_map)
qed

lemma finalize_prev:
  assumes "list_all2 pair_fit xs ms" "in_num s \<noteq> p" "recv_avail p (to_prev xs ms) s"
  shows "\<exists>s'. finalize_inputs (multi_finalize R p) (map fst xs) s = Inr (at_prev xs ms, s')"
proof -
  have m: "map2 (\<lambda>n (y, z). enc n y @ enc n z) (map fst xs) ms = map2 (\<lambda>(n, x) (a, b). enc n a @ enc n b) xs ms"
    "map (\<lambda>(y, z). [y, z]) ms = at_prev xs ms"
    using assms(1) by (induction rule: list_all2_induct) auto
  have "list_all2 (\<lambda>n (y, z). okn n \<and> fit n y \<and> fit n z) (map fst xs) ms"
    using assms(1) by (induction rule: list_all2_induct) (auto simp: pair_fit_def)
  from finalize_others [OF this assms(2)] assms(3) show ?thesis by (simp add: m)
qed

lemma length_to_others:
  assumes "list_all2 pair_fit xs ms"
  shows "length (to_next xs ms) \<le> v_size R * (2 * length xs) \<and> length (to_prev xs ms) \<le> v_size R * (2 * length xs)"
  using assms
proof (induction rule: list_all2_induct)
  case Nil
  then show ?case by simp
next
  case (Cons nx xs m ms)
  obtain n x a b where nx: "nx = (n, x)" "m = (a, b)" by (cases nx, cases m) auto
  have "length (enc n c) \<le> v_size R" for c using Cons.hyps(1) enc_size nx by (auto simp: pair_fit_def)
  from this [of "v_sub R x b"] this [of a] this [of b] Cons.IH show ?case by (simp add: nx algebra_simps)
qed

theorem multi_input_round_shares:
  assumes inv: "\<And>i. i < 3 \<Longrightarrow> in_inv i (S i)" and p: "p < 3"
    and xs: "\<forall>(n, x) \<in> set xs. okn n \<and> fit n x" and size: "v_size R * (2 * length xs) < 2 ^ 32"
    and ms: "ms = input_masks R E (map fst xs) (in_prng (S p))" and ne: "to_next xs ms \<noteq> []"
  shows "\<exists>P Q. multi_input_round R E p xs S = Inr (P, Q) \<and>
    (\<exists>s. finalize_inputs (multi_finalize R p) (map fst xs) (Q p) = Inr (mine xs ms, s)) \<and>
    (\<exists>s. finalize_inputs (multi_finalize R p) (map fst xs) (Q (get_player 3 p 1)) = Inr (at_next xs ms, s)) \<and>
    (\<exists>s. finalize_inputs (multi_finalize R p) (map fst xs) (Q (get_player 3 p (- 1))) = Inr (at_prev xs ms, s))"
proof -
  have pf: "list_all2 pair_fit xs ms" unfolding ms by (rule masks_fit [OF xs])
  have ne_xs: "xs \<noteq> []" using ne by auto
  have "\<exists>s'. in_reset_all (S i) = Inr s' \<and> in_fresh i (S i) s'" if "i < 3" for i
    using in_reset_all_fresh [OF inv [OF that] that] .
  then obtain F where F: "\<And>i. i < 3 \<Longrightarrow> in_reset_all (S i) = Inr (F i) \<and> in_fresh i (S i) (F i)" by metis
  have "os_ok (F p)" using F [OF p] by (auto simp: in_fresh_def os_ok_def)
  from multi_add_mine_all [OF this xs refl, of E] obtain M where
    M: "foldE (\<lambda>(n, x). multi_add_mine R E x n) xs (F p) = Inr M" "os_ok M"
      "contents (in_os M ! 0) = contents (in_os (F p) ! 0) @ to_next xs ms" "contents (in_os M ! 1) = contents (in_os (F p) ! 1) @ to_prev xs ms"
      "in_shares M = in_shares (F p) @ mine xs ms" "in_num M = in_num (F p)" "in_expect M = in_expect (F p)"
      "in_recv M = in_recv (F p)" "in_i_share M = in_i_share (F p)"
    using F [OF p] ms by (auto simp: in_fresh_def)
  define P where "P = (\<lambda>i. if i = p then M else (F i)\<lparr>in_expect := (in_expect (F i))[p := True]\<rparr>)"
  have each: "bindE (in_reset_all (S i)) (\<lambda>s. foldE (\<lambda>(n, x). if i = p then multi_add_mine R E x n else in_add_other p) xs s) = Inr (P i)"
    if "i < 3" for i
    using F [OF that] M(1) add_others [of "F i" p xs] p ne_xs by (auto simp: P_def in_fresh_def)
  have "[0..<3] = [0, 1, 2]" by (simp add: upt_rec)
  with each [of 0] each [of 1] each [of 2] have step1: "mapE (\<lambda>i. bindE (in_reset_all (S i))
      (\<lambda>s. foldE (\<lambda>(n, x). if i = p then multi_add_mine R E x n else in_add_other p) xs s)) [0..<3] = Inr [P 0, P 1, P 2]"
    by simp
  let ?P = "\<lambda>i. [P 0, P 1, P 2] ! i"
  have PP: "?P i = P i" if "i < 3" for i
  proof -
    have "i = 0 \<or> i = 1 \<or> i = 2" using that by auto
    then show ?thesis by auto
  qed
  have c0: "contents (in_os (F p) ! k) = []" if "k < 2" for k using F [OF p] that by (auto simp: in_fresh_def)
  have sm: "small (in_os M ! k)" "contents (in_os M ! k) = (if k = 0 then to_next xs ms else to_prev xs ms)" if "k < 2" for k
  proof -
    have k: "k = 0 \<or> k = 1" using that by auto
    have i: "os_inv (in_os M ! k)" using M(2) that by (auto simp: os_ok_def)
    show c: "contents (in_os M ! k) = (if k = 0 then to_next xs ms else to_prev xs ms)"
      using M(3,4) c0 k by auto
    have "length (contents (in_os M ! k)) < 2 ^ 32"
      unfolding c using le_less_trans [OF length_to_others [OF pf, THEN conjunct1] size]
        le_less_trans [OF length_to_others [OF pf, THEN conjunct2] size] by (cases "k = 0") (simp_all only: refl simp_thms if_True if_False)
    then show "small (in_os M ! k)" using length_contents [OF i] i by (simp add: small_def)
  qed
  have nonempty: "\<not> stream_is_empty (in_os M ! 0)"
    using ne sm [of 0] length_contents [of "in_os M ! 0"] by (auto simp: stream_is_empty_def small_def)
  have empty: "stream_is_empty (in_os (F i) ! 0)" if "i < 3" for i
    using F [OF that] length_contents [of "in_os (F i) ! 0"] by (auto simp: stream_is_empty_def in_fresh_def)
  have ready: "input_ready p ?P"
    using p sm [of 0] sm [of 1] nonempty empty F M(2,6,7,8) PP by (auto simp: input_ready_def P_def in_fresh_def os_ok_def)
  obtain Q r1 r2 where Q: "input_exchange multi_input_script [p, p, get_player 3 p 1, get_player 3 p (- 1)] ?P = Some Q"
    "holds r1 (to_next xs ms)" "holds r2 (to_prev xs ms)" "Q p = P p"
    "Q (get_player 3 p 1) = (P (get_player 3 p 1))\<lparr>in_recv := (in_recv (P (get_player 3 p 1)))[p := r1]\<rparr>"
    "Q (get_player 3 p (- 1)) = (P (get_player 3 p (- 1)))\<lparr>in_recv := (in_recv (P (get_player 3 p (- 1))))[p := r2]\<rparr>"
    and nxt: "get_player 3 p 1 < 3" "get_player 3 p (- 1) < 3" "get_player 3 p 1 \<noteq> p" "get_player 3 p (- 1) \<noteq> p"
  proof -
    have "p = 0 \<or> p = 1 \<or> p = 2" using p by auto
    then have "get_player 3 p 1 < 3 \<and> get_player 3 p (- 1) < 3 \<and> get_player 3 p 1 \<noteq> p \<and> get_player 3 p (- 1) \<noteq> p"
      by (auto simp: get_player_3 [unfolded One_nat_def])
    with multi_input_exchange_run [OF ready] sm [of 0] sm [of 1] PP p that show ?thesis by (auto simp: P_def)
  qed
  have sh: "in_num (Q p) = p" "drop (in_i_share (Q p)) (in_shares (Q p)) = mine xs ms"
    using Q(4) M F [OF p] by (auto simp: P_def in_fresh_def)
  have av: "recv_avail p (to_next xs ms) (Q (get_player 3 p 1))" "recv_avail p (to_prev xs ms) (Q (get_player 3 p (- 1)))"
      "in_num (Q (get_player 3 p 1)) \<noteq> p" "in_num (Q (get_player 3 p (- 1))) \<noteq> p"
    using Q nxt F p by (auto simp: recv_avail_def holds_def P_def in_fresh_def)
  have "multi_input_round R E p xs S = Inr (?P, Q)"
    using step1 Q(1) by (simp add: multi_input_round_def Let_def)
  with finalize_mine [OF sh] finalize_next [OF pf av(3,1)] finalize_prev [OF pf av(4,2)] list_all2_lengthD [OF pf]
  show ?thesis by auto
qed

end

end
