(* ===== verification/Session.thy ===== *)
theory Session
  imports Inputs
begin

text \<open>
  Whole sessions of the Trifecta protocol: private input, AND gates and opening put together.
\<close>

unbundle bit_operations_syntax

subsection \<open>AND gates that are opened\<close>

lemma and_then_open:
  assumes "\<forall>i < 3. my_num (S i) = i" "synced (shared_prngs (S 0)) (shared_prngs (S 1)) (shared_prngs (S 2))"
    "\<forall>g \<in> set gs. gate_ok g" "batch_size gs < 2 ^ 32" "length gs * 8 < 2 ^ 32"
  shows "\<exists>(R :: nat \<Rightarrow> share list) (T :: nat \<Rightarrow> multi_replicated) (U :: nat \<Rightarrow> mac_check).
     run_batch E gs (S 0) (S 1) (S 2) = Inr ((R 0, T 0), (R 1, T 1), (R 2, T 2)) \<and>
     multi_popen bitvec_ops R M = Inr ((map (\<lambda>g. gate_result (g_vals g)) gs, U 0), (map (\<lambda>g. gate_result (g_vals g)) gs, U 1),
       (map (\<lambda>g. gate_result (g_vals g)) gs, U 2))"
proof -
  obtain R T where RT: "run_batch E gs (S 0) (S 1) (S 2) = Inr ((R 0, T 0), (R 1, T 1), (R 2, T (2 :: nat)))"
    "\<forall>i < 3. my_num (T i) = i \<and> length (R i) = length gs"
    "\<forall>j < length gs. sharing (g_len (gs ! j)) (gate_result (g_vals (gs ! j))) (R 0 ! j) (R 1 ! j) (R 2 ! j)"
    using run_batch_shares [OF assms(1-4), of E] by blast
  have "\<exists>U. multi_popen bitvec_ops R M = Inr ((map (\<lambda>g. gate_result (g_vals g)) gs, U 0), (map (\<lambda>g. gate_result (g_vals g)) gs, U 1),
       (map (\<lambda>g. gate_result (g_vals g)) gs, U (2 :: nat)))"
    using multi_popen_opens [of R "map (\<lambda>g. gate_result (g_vals g)) gs" "map g_len gs" M] RT(2,3) assms(5) by simp
  with RT(1) show ?thesis by blast
qed

subsection \<open>Inputs that are opened\<close>

text \<open>What the inputs of player \<open>p\<close> leave at party \<open>i\<close>.\<close>

definition input_shares :: "nat \<Rightarrow> (nat option \<times> bitvec) list \<Rightarrow> (bitvec \<times> bitvec) list \<Rightarrow> nat \<Rightarrow> share list" where
  "input_shares p xs ms i =
     (if i = p then bvt.mine xs ms else if i = get_player 3 p 1 then bvt.at_next xs ms else bvt.at_prev xs ms)"

text \<open>What the three parties read when they open such shares.\<close>

definition opened_input :: "nat \<Rightarrow> (nat option \<times> bitvec) list \<Rightarrow> (bitvec \<times> bitvec) list \<Rightarrow> nat \<Rightarrow> bitvec list" where
  "opened_input p xs ms i =
     (if p = 0 \<or> p + i = 3 then map snd xs
      else if p = 1 \<and> i = 0 then map2 (\<lambda>x (a, b). snd x XOR a XOR b) xs ms
      else map (\<lambda>(a, b). a XOR b) ms)"

lemma opened_input_values:
  assumes "length ms = length xs" "p < 3" "i < 3"
  shows "map2 (multi_open_share bitvec_ops i) (input_shares p xs ms i)
     (map (\<lambda>x. x ! 0) (input_shares p xs ms (get_player 3 i (- 1)))) = opened_input p xs ms i"
proof (rule nth_equalityI)
  show l: "length (map2 (multi_open_share bitvec_ops i) (input_shares p xs ms i)
     (map (\<lambda>x. x ! 0) (input_shares p xs ms (get_player 3 i (- 1))))) = length (opened_input p xs ms i)"
    using assms(1) by (simp add: input_shares_def opened_input_def)
  fix j assume "j < length (map2 (multi_open_share bitvec_ops i) (input_shares p xs ms i)
     (map (\<lambda>x. x ! 0) (input_shares p xs ms (get_player 3 i (- 1)))))"
  then have j: "j < length xs" using assms(1) by (simp add: input_shares_def split: if_splits)
  obtain n x a b where x: "xs ! j = (n, x)" "ms ! j = (a, b)" by (cases "xs ! j", cases "ms ! j") auto
  have "p = 0 \<or> p = 1 \<or> p = 2" "i = 0 \<or> i = 1 \<or> i = 2" using assms(2,3) by auto
  then show "map2 (multi_open_share bitvec_ops i) (input_shares p xs ms i)
     (map (\<lambda>x. x ! 0) (input_shares p xs ms (get_player 3 i (- 1)))) ! j = opened_input p xs ms i ! j"
    using j x assms(1)
    by (elim disjE) (simp_all add: input_shares_def opened_input_def multi_open_share_def bitvec_ops_def bv_defs
        get_player_3 [unfolded One_nat_def] xor_ac)
qed

lemma input_shares_open:
  assumes "length ms = length xs" "length xs * 8 < 2 ^ 32" "p < 3"
  shows "\<exists>U. multi_popen bitvec_ops (input_shares p xs ms) M
      = Inr ((opened_input p xs ms 0, U 0), (opened_input p xs ms 1, U 1), (opened_input p xs ms 2, U (2 :: nat)))"
proof -
  have len: "length (input_shares p xs ms i) = length xs" for i using assms(1) by (simp add: input_shares_def)
  have sz: "length xs * v_size bitvec_ops < 2 ^ 32" using assms(2) by (simp add: bitvec_ops_def)
  have v: "map2 (multi_open_share bitvec_ops i) (input_shares p xs ms i)
     (map (\<lambda>x. x ! 0) (input_shares p xs ms (get_player 3 i (- 1)))) = opened_input p xs ms i" if "i < 3" for i
    by (rule opened_input_values [OF assms(1,3) that])
  show ?thesis
    using bvt.popen_values [where offset = 1 and S = "input_shares p xs ms" and f = "multi_open_share bitvec_ops" and M = M, OF _ len sz] v [of 0] v [of 1] v [of 2]
    by (simp add: multi_popen_def)
qed

text \<open>Only player 0's inputs are in the format of the protocol.\<close>

lemma input_0_sharing:
  assumes "list_all2 bvt.pair_fit xs ms" "j < length xs" "fst (xs ! j) = Some n"
  shows "sharing n (snd (xs ! j)) (input_shares 0 xs ms 0 ! j) (input_shares 0 xs ms 1 ! j) (input_shares 0 xs ms 2 ! j)"
proof -
  obtain x a b where x: "xs ! j = (Some n, x)" "ms ! j = (a, b)" using assms(3) by (cases "xs ! j", cases "ms ! j") auto
  have "bvt.pair_fit (xs ! j) (ms ! j)" "length ms = length xs" using assms(1,2) by (auto simp: list_all2_conv_all_nth)
  with x assms(2) show ?thesis
    by (simp add: input_shares_def sharing_def bvt.pair_fit_def bv_fit_def get_player_3 [unfolded One_nat_def] bitvec_ops_def bv_defs)
qed

text \<open>The whole round: inputs of player \<open>p\<close>, as every party then holds them.\<close>

lemma input_round:
  fixes E
  assumes "\<And>i. i < 3 \<Longrightarrow> in_inv i (S i)" "p < 3" "\<forall>(n, x) \<in> set xs. bv_okn n \<and> bv_fit n x" "16 * length xs < 2 ^ 32"
    "xs \<noteq> []" "fst (hd xs) \<noteq> Some 0"
  defines "ms \<equiv> input_masks bitvec_ops E (map fst xs) (in_prng (S p))"
  shows "\<exists>P Q. multi_input_round bitvec_ops E p xs S = Inr (P, Q) \<and> list_all2 bvt.pair_fit xs ms \<and>
    (\<forall>i < 3. \<exists>s. finalize_inputs (multi_finalize bitvec_ops p) (map fst xs) (Q i) = Inr (input_shares p xs ms i, s))"
proof -
  have sz: "v_size bitvec_ops * (2 * length xs) < 2 ^ 32" using assms(4) by (simp add: bitvec_ops_def)
  obtain n x ys where xs: "xs = (n, x) # ys" "n \<noteq> Some 0" using assms(5,6) by (cases xs) auto
  have "bv_enc n y \<noteq> []" for y
    using xs(2) by (auto simp: bv_enc_def octets_of_def DIV_CEIL_def split: option.splits)
  then have ne: "bvt.to_next xs ms \<noteq> []" using xs by (auto simp: ms_def split_beta Let_def)
  obtain P Q where PQ: "multi_input_round bitvec_ops E p xs S = Inr (P, Q)"
    "\<exists>s. finalize_inputs (multi_finalize bitvec_ops p) (map fst xs) (Q p) = Inr (bvt.mine xs ms, s)"
    "\<exists>s. finalize_inputs (multi_finalize bitvec_ops p) (map fst xs) (Q (get_player 3 p 1)) = Inr (bvt.at_next xs ms, s)"
    "\<exists>s. finalize_inputs (multi_finalize bitvec_ops p) (map fst xs) (Q (get_player 3 p (- 1))) = Inr (bvt.at_prev xs ms, s)"
    using bvt.multi_input_round_shares [OF assms(1-3) sz ms_def [THEN meta_eq_to_obj_eq] ne] by blast
  have "\<exists>s. finalize_inputs (multi_finalize bitvec_ops p) (map fst xs) (Q i) = Inr (input_shares p xs ms i, s)" if "i < 3" for i
  proof -
    have "p = 0 \<or> p = 1 \<or> p = 2" "i = 0 \<or> i = 1 \<or> i = 2" using assms(2) that by auto
    then have i: "i = p \<or> i = get_player 3 p 1 \<or> i = get_player 3 p (- 1)"
      and d: "get_player 3 p 1 \<noteq> p" "get_player 3 p (- 1) \<noteq> p" "get_player 3 p (- 1) \<noteq> get_player 3 p 1"
      by (auto simp: get_player_3 [unfolded One_nat_def])
    from i show ?thesis
      using PQ(2-4) d by (elim disjE) (simp_all only: input_shares_def refl if_True if_False)
  qed
  with PQ(1) bvt.masks_fit [OF assms(3)] show ?thesis unfolding ms_def by blast
qed

subsection \<open>Replicated multiplications that are opened\<close>

definition rep_shares :: "(nat \<Rightarrow> 'a) list \<Rightarrow> nat \<Rightarrow> 'a fixedvec list" where
  "rep_shares zs i = map (\<lambda>z. [z i, z (prv i)]) zs"

lemma rep_shares_parties: "rep_shares zs 0 = map (\<lambda>z. [z 0, z 2]) zs" "rep_shares zs 1 = map (\<lambda>z. [z 1, z 0]) zs"
  "rep_shares zs 2 = map (\<lambda>z. [z 2, z 1]) zs"
  by (simp_all add: rep_shares_def)

context value_type
begin

lemma rep_run_then_open:
  assumes "rep_synced S" "\<forall>g \<in> set gs. gate_fit g" "v_size R * length gs < 2 ^ 32"
  shows "\<exists>W T U. rep_run R E gs S = Inr ((W 0, T 0), (W 1, T 1), (W 2, T 2)) \<and> rep_synced T \<and>
    rep_popen R W M = Inr ((map (\<lambda>g. v_mul R (rg_x g) (rg_y g)) gs, U 0), (map (\<lambda>g. v_mul R (rg_x g) (rg_y g)) gs, U 1),
      (map (\<lambda>g. v_mul R (rg_x g) (rg_y g)) gs, U (2 :: nat)))"
proof -
  obtain T and zs :: "(nat \<Rightarrow> 'a) list" where 1:
    "rep_run R E gs S = Inr ((map (\<lambda>z. [z 0, z 2]) zs, T 0), (map (\<lambda>z. [z 1, z 0]) zs, T 1), (map (\<lambda>z. [z 2, z 1]) zs, T 2))"
    "length zs = length gs" "rep_synced T"
    "\<forall>j < length gs. v_add R (v_add R ((zs ! j) 0) ((zs ! j) 1)) ((zs ! j) 2) = v_mul R (rg_x (gs ! j)) (rg_y (gs ! j))"
    using rep_run_shares [OF assms, of E] by blast
  let ?vs = "map (\<lambda>g. v_mul R (rg_x g) (rg_y g)) gs"
  have l: "length (rep_shares zs i) = length ?vs" for i using 1(2) by (simp add: rep_shares_def)
  have sz: "length ?vs * v_size R < 2 ^ 32" using assms(3) by (simp add: mult.commute)
  have sh: "rep3 R (?vs ! j) (\<lambda>i. rep_shares zs i ! j)" if "j < length ?vs" for j
    using that 1(2,4) by (simp add: rep3_shape rep_shares_def)
  from rep_popen_opens [OF l sz sh, of M] 1(1,3) rep_shares_parties [of zs] show ?thesis
    by (intro exI [of _ "rep_shares zs"]) (auto simp del: One_nat_def)
qed

end

subsection \<open>Concrete parties and gates\<close>

text \<open>Parties right after set-up and gates over trivially shared values, to run the protocol on.\<close>

definition start_party :: "nat \<Rightarrow> multi_replicated" where
  "start_party i = \<lparr>my_num = i, shared_prngs = replicate 4 PRNG_init, ostreams = [], and_operands = pv_of [],
     add_shares = pv_of [], add_shares_2 = pv_of []\<rparr>"

definition and_gate :: "nat \<Rightarrow> bitvec list \<Rightarrow> gate" where
  "and_gate n vs = \<lparr>g_len = n, g_vals = vs, g_ops = (\<lambda>i. map (\<lambda>v. [three v v 0 i, 0]) vs)\<rparr>"

definition start_input :: "nat \<Rightarrow> 'a input_state" where
  "start_input i = \<lparr>in_num = i, in_shares = [], in_i_share = 0, in_os = [], in_prng = PRNG_init,
     in_shared = [PRNG_init, PRNG_init], in_expect = [False, False, False], in_recv = [], in_count = 0\<rparr>"

definition start_mc :: mac_check where
  "start_mc = \<lparr>mc_o = empty_stream, mc_to_send = empty_stream\<rparr>"

definition start_replicated :: "'a value_ops \<Rightarrow> nat \<Rightarrow> 'a replicated" where
  "start_replicated R i = \<lparr>rep_num = i, rep_prngs = [PRNG_init, PRNG_init], rep_os = [], rep_adds = pv_of [], rep_dotprod = v_zero R\<rparr>"

definition rep_gate :: "'a value_ops \<Rightarrow> 'a \<Rightarrow> 'a \<Rightarrow> 'a rgate" where
  "rep_gate R x y = \<lparr>rg_n = None, rg_x = x, rg_y = y, rg_sx = rep_assign R x, rg_sy = rep_assign R y\<rparr>"

lemma start_party_simps [simp]:
  "my_num (start_party i) = i" "shared_prngs (start_party i) = replicate 4 PRNG_init"
  by (simp_all add: start_party_def)

lemma start_synced: "synced (shared_prngs (start_party 0)) (shared_prngs (start_party 1)) (shared_prngs (start_party 2))"
  by (simp add: synced_def)

lemma and_gate_simps [simp]: "g_len (and_gate n vs) = n" "g_vals (and_gate n vs) = vs"
  by (simp_all add: and_gate_def)

lemma and_gate_ok: "0 < n \<Longrightarrow> n \<le> 64 \<Longrightarrow> 2 \<le> length vs \<Longrightarrow> \<forall>v \<in> set vs. fits n v \<Longrightarrow> gate_ok (and_gate n vs)"
  by (auto simp: gate_ok_def and_gate_def sharing_def bv_add_def)

lemma start_input_inv: "in_inv i (start_input i)"
  by (simp add: in_inv_def start_input_def)

lemma start_rep_synced: "rep_synced (start_replicated R)"
  by (simp add: rep_synced_def start_replicated_def)

context value_type
begin

lemma rep_gate_fit: "gate_fit (rep_gate R x y)"
  using okn_full rep3_constant by (auto simp: gate_fit_def rep_gate_def)

end

end
