(* ===== verification/Opcodes.thy ===== *)
theory Opcodes
  imports Prelude
begin

text \<open>
  The operation codes of the byte code: the enumeration of \<^verbatim>\<open>Processor/Instruction.h\<close>
  and its extension by the binary-circuit codes in \<^verbatim>\<open>GC/Instruction.h\<close>, name by
  name, and the register and secrecy types of \<^verbatim>\<open>Processor/Instruction.h\<close>.
\<close>

subsection \<open>Arithmetic and control codes\<close>

text \<open>Load/store\<close>

abbreviation (input) LDI :: nat where "LDI \<equiv> 0x1"
abbreviation (input) LDSI :: nat where "LDSI \<equiv> 0x2"
abbreviation (input) LDMC :: nat where "LDMC \<equiv> 0x3"
abbreviation (input) LDMS :: nat where "LDMS \<equiv> 0x4"
abbreviation (input) STMC :: nat where "STMC \<equiv> 0x5"
abbreviation (input) STMS :: nat where "STMS \<equiv> 0x6"
abbreviation (input) LDMCI :: nat where "LDMCI \<equiv> 0x7"
abbreviation (input) LDMSI :: nat where "LDMSI \<equiv> 0x8"
abbreviation (input) STMCI :: nat where "STMCI \<equiv> 0x9"
abbreviation (input) STMSI :: nat where "STMSI \<equiv> 0xA"
abbreviation (input) MOVC :: nat where "MOVC \<equiv> 0xB"
abbreviation (input) MOVS :: nat where "MOVS \<equiv> 0xC"
abbreviation (input) PROTECTMEMS :: nat where "PROTECTMEMS \<equiv> 0xD"
abbreviation (input) PROTECTMEMC :: nat where "PROTECTMEMC \<equiv> 0xE"
abbreviation (input) PROTECTMEMINT :: nat where "PROTECTMEMINT \<equiv> 0xF"
abbreviation (input) LDMINT :: nat where "LDMINT \<equiv> 0xCA"
abbreviation (input) STMINT :: nat where "STMINT \<equiv> 0xCB"
abbreviation (input) LDMINTI :: nat where "LDMINTI \<equiv> 0xCC"
abbreviation (input) STMINTI :: nat where "STMINTI \<equiv> 0xCD"
abbreviation (input) PUSHINT :: nat where "PUSHINT \<equiv> 0xCE"
abbreviation (input) POPINT :: nat where "POPINT \<equiv> 0xCF"
abbreviation (input) MOVINT :: nat where "MOVINT \<equiv> 0xD0"

text \<open>Machine\<close>

abbreviation (input) LDTN :: nat where "LDTN \<equiv> 0x10"
abbreviation (input) LDARG :: nat where "LDARG \<equiv> 0x11"
abbreviation (input) REQBL :: nat where "REQBL \<equiv> 0x12"
abbreviation (input) STARG :: nat where "STARG \<equiv> 0x13"
abbreviation (input) TIME :: nat where "TIME \<equiv> 0x14"
abbreviation (input) START :: nat where "START \<equiv> 0x15"
abbreviation (input) STOP :: nat where "STOP \<equiv> 0x16"
abbreviation (input) USE :: nat where "USE \<equiv> 0x17"
abbreviation (input) USE_INP :: nat where "USE_INP \<equiv> 0x18"
abbreviation (input) RUN_TAPE :: nat where "RUN_TAPE \<equiv> 0x19"
abbreviation (input) JOIN_TAPE :: nat where "JOIN_TAPE \<equiv> 0x1A"
abbreviation (input) CRASH :: nat where "CRASH \<equiv> 0x1B"
abbreviation (input) USE_PREP :: nat where "USE_PREP \<equiv> 0x1C"
abbreviation (input) STARTGRIND :: nat where "STARTGRIND \<equiv> 0x1D"
abbreviation (input) STOPGRIND :: nat where "STOPGRIND \<equiv> 0x1E"
abbreviation (input) NPLAYERS :: nat where "NPLAYERS \<equiv> 0xE2"
abbreviation (input) THRESHOLD :: nat where "THRESHOLD \<equiv> 0xE3"
abbreviation (input) PLAYERID :: nat where "PLAYERID \<equiv> 0xE4"
abbreviation (input) USE_EDABIT :: nat where "USE_EDABIT \<equiv> 0xE5"

text \<open>Addition\<close>

abbreviation (input) ADDC :: nat where "ADDC \<equiv> 0x20"
abbreviation (input) ADDS :: nat where "ADDS \<equiv> 0x21"
abbreviation (input) ADDM :: nat where "ADDM \<equiv> 0x22"
abbreviation (input) ADDCI :: nat where "ADDCI \<equiv> 0x23"
abbreviation (input) ADDSI :: nat where "ADDSI \<equiv> 0x24"
abbreviation (input) SUBC :: nat where "SUBC \<equiv> 0x25"
abbreviation (input) SUBS :: nat where "SUBS \<equiv> 0x26"
abbreviation (input) SUBML :: nat where "SUBML \<equiv> 0x27"
abbreviation (input) SUBMR :: nat where "SUBMR \<equiv> 0x28"
abbreviation (input) SUBCI :: nat where "SUBCI \<equiv> 0x29"
abbreviation (input) SUBSI :: nat where "SUBSI \<equiv> 0x2A"
abbreviation (input) SUBCFI :: nat where "SUBCFI \<equiv> 0x2B"
abbreviation (input) SUBSFI :: nat where "SUBSFI \<equiv> 0x2C"

text \<open>Multiplication/division/other arithmetic\<close>

abbreviation (input) MULC :: nat where "MULC \<equiv> 0x30"
abbreviation (input) MULM :: nat where "MULM \<equiv> 0x31"
abbreviation (input) MULCI :: nat where "MULCI \<equiv> 0x32"
abbreviation (input) MULSI :: nat where "MULSI \<equiv> 0x33"
abbreviation (input) DIVC :: nat where "DIVC \<equiv> 0x34"
abbreviation (input) DIVCI :: nat where "DIVCI \<equiv> 0x35"
abbreviation (input) MODC :: nat where "MODC \<equiv> 0x36"
abbreviation (input) MODCI :: nat where "MODCI \<equiv> 0x37"
abbreviation (input) LEGENDREC :: nat where "LEGENDREC \<equiv> 0x38"
abbreviation (input) DIGESTC :: nat where "DIGESTC \<equiv> 0x39"
abbreviation (input) INV2M :: nat where "INV2M \<equiv> 0x3A"

text \<open>Open\<close>

abbreviation (input) OPEN :: nat where "OPEN \<equiv> 0xA5"
abbreviation (input) MULS :: nat where "MULS \<equiv> 0xA6"
abbreviation (input) MULRS :: nat where "MULRS \<equiv> 0xA7"
abbreviation (input) DOTPRODS :: nat where "DOTPRODS \<equiv> 0xA8"
abbreviation (input) TRUNC_PR :: nat where "TRUNC_PR \<equiv> 0xA9"
abbreviation (input) MATMULS :: nat where "MATMULS \<equiv> 0xAA"
abbreviation (input) MATMULSM :: nat where "MATMULSM \<equiv> 0xAB"
abbreviation (input) CONV2DS :: nat where "CONV2DS \<equiv> 0xAC"

text \<open>Data access\<close>

abbreviation (input) TRIPLE :: nat where "TRIPLE \<equiv> 0x50"
abbreviation (input) BIT :: nat where "BIT \<equiv> 0x51"
abbreviation (input) SQUARE :: nat where "SQUARE \<equiv> 0x52"
abbreviation (input) INV :: nat where "INV \<equiv> 0x53"
abbreviation (input) INPUTMASK :: nat where "INPUTMASK \<equiv> 0x56"
abbreviation (input) PREP :: nat where "PREP \<equiv> 0x57"
abbreviation (input) DABIT :: nat where "DABIT \<equiv> 0x58"
abbreviation (input) EDABIT :: nat where "EDABIT \<equiv> 0x59"
abbreviation (input) SEDABIT :: nat where "SEDABIT \<equiv> 0x5A"

text \<open>Input\<close>

abbreviation (input) INPUT :: nat where "INPUT \<equiv> 0x60"
abbreviation (input) INPUTFIX :: nat where "INPUTFIX \<equiv> 0xF0"
abbreviation (input) INPUTFLOAT :: nat where "INPUTFLOAT \<equiv> 0xF1"
abbreviation (input) INPUTMIXED :: nat where "INPUTMIXED \<equiv> 0xF2"
abbreviation (input) INPUTMIXEDREG :: nat where "INPUTMIXEDREG \<equiv> 0xF3"
abbreviation (input) RAWINPUT :: nat where "RAWINPUT \<equiv> 0xF4"
abbreviation (input) STARTINPUT :: nat where "STARTINPUT \<equiv> 0x61"
abbreviation (input) STOPINPUT :: nat where "STOPINPUT \<equiv> 0x62"
abbreviation (input) READSOCKETC :: nat where "READSOCKETC \<equiv> 0x63"
abbreviation (input) READSOCKETS :: nat where "READSOCKETS \<equiv> 0x64"
abbreviation (input) WRITESOCKETC :: nat where "WRITESOCKETC \<equiv> 0x65"
abbreviation (input) WRITESOCKETS :: nat where "WRITESOCKETS \<equiv> 0x66"
abbreviation (input) READSOCKETINT :: nat where "READSOCKETINT \<equiv> 0x69"
abbreviation (input) WRITESOCKETINT :: nat where "WRITESOCKETINT \<equiv> 0x6A"
abbreviation (input) WRITESOCKETSHARE :: nat where "WRITESOCKETSHARE \<equiv> 0x6B"
abbreviation (input) LISTEN :: nat where "LISTEN \<equiv> 0x6C"
abbreviation (input) ACCEPTCLIENTCONNECTION :: nat where "ACCEPTCLIENTCONNECTION \<equiv> 0x6D"
abbreviation (input) CONNECTIPV4 :: nat where "CONNECTIPV4 \<equiv> 0x6E"
abbreviation (input) READCLIENTPUBLICKEY :: nat where "READCLIENTPUBLICKEY \<equiv> 0x6F"

text \<open>Bitwise logic\<close>

abbreviation (input) ANDC :: nat where "ANDC \<equiv> 0x70"
abbreviation (input) XORC :: nat where "XORC \<equiv> 0x71"
abbreviation (input) ORC :: nat where "ORC \<equiv> 0x72"
abbreviation (input) ANDCI :: nat where "ANDCI \<equiv> 0x73"
abbreviation (input) XORCI :: nat where "XORCI \<equiv> 0x74"
abbreviation (input) ORCI :: nat where "ORCI \<equiv> 0x75"
abbreviation (input) NOTC :: nat where "NOTC \<equiv> 0x76"

text \<open>Bitwise shifts\<close>

abbreviation (input) SHLC :: nat where "SHLC \<equiv> 0x80"
abbreviation (input) SHRC :: nat where "SHRC \<equiv> 0x81"
abbreviation (input) SHLCI :: nat where "SHLCI \<equiv> 0x82"
abbreviation (input) SHRCI :: nat where "SHRCI \<equiv> 0x83"

text \<open>Branching and comparison\<close>

abbreviation (input) JMP :: nat where "JMP \<equiv> 0x90"
abbreviation (input) JMPNZ :: nat where "JMPNZ \<equiv> 0x91"
abbreviation (input) JMPEQZ :: nat where "JMPEQZ \<equiv> 0x92"
abbreviation (input) EQZC :: nat where "EQZC \<equiv> 0x93"
abbreviation (input) LTZC :: nat where "LTZC \<equiv> 0x94"
abbreviation (input) LTC :: nat where "LTC \<equiv> 0x95"
abbreviation (input) GTC :: nat where "GTC \<equiv> 0x96"
abbreviation (input) EQC :: nat where "EQC \<equiv> 0x97"
abbreviation (input) JMPI :: nat where "JMPI \<equiv> 0x98"

text \<open>Integers\<close>

abbreviation (input) BITDECINT :: nat where "BITDECINT \<equiv> 0x99"
abbreviation (input) LDINT :: nat where "LDINT \<equiv> 0x9A"
abbreviation (input) ADDINT :: nat where "ADDINT \<equiv> 0x9B"
abbreviation (input) SUBINT :: nat where "SUBINT \<equiv> 0x9C"
abbreviation (input) MULINT :: nat where "MULINT \<equiv> 0x9D"
abbreviation (input) DIVINT :: nat where "DIVINT \<equiv> 0x9E"
abbreviation (input) PRINTINT :: nat where "PRINTINT \<equiv> 0x9F"
abbreviation (input) INCINT :: nat where "INCINT \<equiv> 0xD1"
abbreviation (input) SHUFFLE :: nat where "SHUFFLE \<equiv> 0xD2"

text \<open>Conversion\<close>

abbreviation (input) CONVINT :: nat where "CONVINT \<equiv> 0xC0"
abbreviation (input) CONVMODP :: nat where "CONVMODP \<equiv> 0xC1"

text \<open>IO\<close>

abbreviation (input) PRINTMEM :: nat where "PRINTMEM \<equiv> 0xB0"
abbreviation (input) PRINTREG :: nat where "PRINTREG \<equiv> 0xB1"
abbreviation (input) RAND :: nat where "RAND \<equiv> 0xB2"
abbreviation (input) PRINTREGPLAIN :: nat where "PRINTREGPLAIN \<equiv> 0xB3"
abbreviation (input) PRINTCHR :: nat where "PRINTCHR \<equiv> 0xB4"
abbreviation (input) PRINTSTR :: nat where "PRINTSTR \<equiv> 0xB5"
abbreviation (input) PUBINPUT :: nat where "PUBINPUT \<equiv> 0xB6"
abbreviation (input) RAWOUTPUT :: nat where "RAWOUTPUT \<equiv> 0xB7"
abbreviation (input) STARTPRIVATEOUTPUT :: nat where "STARTPRIVATEOUTPUT \<equiv> 0xB8"
abbreviation (input) STOPPRIVATEOUTPUT :: nat where "STOPPRIVATEOUTPUT \<equiv> 0xB9"
abbreviation (input) PRINTCHRINT :: nat where "PRINTCHRINT \<equiv> 0xBA"
abbreviation (input) PRINTSTRINT :: nat where "PRINTSTRINT \<equiv> 0xBB"
abbreviation (input) PRINTFLOATPLAIN :: nat where "PRINTFLOATPLAIN \<equiv> 0xBC"
abbreviation (input) WRITEFILESHARE :: nat where "WRITEFILESHARE \<equiv> 0xBD"
abbreviation (input) READFILESHARE :: nat where "READFILESHARE \<equiv> 0xBE"
abbreviation (input) CONDPRINTSTR :: nat where "CONDPRINTSTR \<equiv> 0xBF"
abbreviation (input) PRINTFLOATPREC :: nat where "PRINTFLOATPREC \<equiv> 0xE0"
abbreviation (input) CONDPRINTPLAIN :: nat where "CONDPRINTPLAIN \<equiv> 0xE1"

text \<open>GF(2^n) versions\<close>


text \<open>Load/store\<close>

abbreviation (input) GLDI :: nat where "GLDI \<equiv> 0x101"
abbreviation (input) GLDSI :: nat where "GLDSI \<equiv> 0x102"
abbreviation (input) GLDMC :: nat where "GLDMC \<equiv> 0x103"
abbreviation (input) GLDMS :: nat where "GLDMS \<equiv> 0x104"
abbreviation (input) GSTMC :: nat where "GSTMC \<equiv> 0x105"
abbreviation (input) GSTMS :: nat where "GSTMS \<equiv> 0x106"
abbreviation (input) GLDMCI :: nat where "GLDMCI \<equiv> 0x107"
abbreviation (input) GLDMSI :: nat where "GLDMSI \<equiv> 0x108"
abbreviation (input) GSTMCI :: nat where "GSTMCI \<equiv> 0x109"
abbreviation (input) GSTMSI :: nat where "GSTMSI \<equiv> 0x10A"
abbreviation (input) GMOVC :: nat where "GMOVC \<equiv> 0x10B"
abbreviation (input) GMOVS :: nat where "GMOVS \<equiv> 0x10C"
abbreviation (input) GPROTECTMEMS :: nat where "GPROTECTMEMS \<equiv> 0x10D"
abbreviation (input) GPROTECTMEMC :: nat where "GPROTECTMEMC \<equiv> 0x10E"

text \<open>Machine\<close>

abbreviation (input) GREQBL :: nat where "GREQBL \<equiv> 0x112"
abbreviation (input) GUSE_PREP :: nat where "GUSE_PREP \<equiv> 0x11C"

text \<open>Addition\<close>

abbreviation (input) GADDC :: nat where "GADDC \<equiv> 0x120"
abbreviation (input) GADDS :: nat where "GADDS \<equiv> 0x121"
abbreviation (input) GADDM :: nat where "GADDM \<equiv> 0x122"
abbreviation (input) GADDCI :: nat where "GADDCI \<equiv> 0x123"
abbreviation (input) GADDSI :: nat where "GADDSI \<equiv> 0x124"
abbreviation (input) GSUBC :: nat where "GSUBC \<equiv> 0x125"
abbreviation (input) GSUBS :: nat where "GSUBS \<equiv> 0x126"
abbreviation (input) GSUBML :: nat where "GSUBML \<equiv> 0x127"
abbreviation (input) GSUBMR :: nat where "GSUBMR \<equiv> 0x128"
abbreviation (input) GSUBCI :: nat where "GSUBCI \<equiv> 0x129"
abbreviation (input) GSUBSI :: nat where "GSUBSI \<equiv> 0x12A"
abbreviation (input) GSUBCFI :: nat where "GSUBCFI \<equiv> 0x12B"
abbreviation (input) GSUBSFI :: nat where "GSUBSFI \<equiv> 0x12C"

text \<open>Multiplication/division\<close>

abbreviation (input) GMULC :: nat where "GMULC \<equiv> 0x130"
abbreviation (input) GMULM :: nat where "GMULM \<equiv> 0x131"
abbreviation (input) GMULCI :: nat where "GMULCI \<equiv> 0x132"
abbreviation (input) GMULSI :: nat where "GMULSI \<equiv> 0x133"
abbreviation (input) GDIVC :: nat where "GDIVC \<equiv> 0x134"
abbreviation (input) GDIVCI :: nat where "GDIVCI \<equiv> 0x135"
abbreviation (input) GMULBITC :: nat where "GMULBITC \<equiv> 0x136"
abbreviation (input) GMULBITM :: nat where "GMULBITM \<equiv> 0x137"

text \<open>Open\<close>

abbreviation (input) GOPEN :: nat where "GOPEN \<equiv> 0x1A5"
abbreviation (input) GMULS :: nat where "GMULS \<equiv> 0x1A6"
abbreviation (input) GMULRS :: nat where "GMULRS \<equiv> 0x1A7"
abbreviation (input) GDOTPRODS :: nat where "GDOTPRODS \<equiv> 0x1A8"

text \<open>Data access\<close>

abbreviation (input) GTRIPLE :: nat where "GTRIPLE \<equiv> 0x150"
abbreviation (input) GBIT :: nat where "GBIT \<equiv> 0x151"
abbreviation (input) GSQUARE :: nat where "GSQUARE \<equiv> 0x152"
abbreviation (input) GINV :: nat where "GINV \<equiv> 0x153"
abbreviation (input) GBITTRIPLE :: nat where "GBITTRIPLE \<equiv> 0x154"
abbreviation (input) GBITGF2NTRIPLE :: nat where "GBITGF2NTRIPLE \<equiv> 0x155"
abbreviation (input) GINPUTMASK :: nat where "GINPUTMASK \<equiv> 0x156"
abbreviation (input) GPREP :: nat where "GPREP \<equiv> 0x157"

text \<open>Input\<close>

abbreviation (input) GINPUT :: nat where "GINPUT \<equiv> 0x160"
abbreviation (input) GSTARTINPUT :: nat where "GSTARTINPUT \<equiv> 0x161"
abbreviation (input) GSTOPINPUT :: nat where "GSTOPINPUT \<equiv> 0x162"
abbreviation (input) GREADSOCKETS :: nat where "GREADSOCKETS \<equiv> 0x164"
abbreviation (input) GWRITESOCKETS :: nat where "GWRITESOCKETS \<equiv> 0x166"
abbreviation (input) GRAWINPUT :: nat where "GRAWINPUT \<equiv> 0x1F4"

text \<open>Bitwise logic\<close>

abbreviation (input) GANDC :: nat where "GANDC \<equiv> 0x170"
abbreviation (input) GXORC :: nat where "GXORC \<equiv> 0x171"
abbreviation (input) GORC :: nat where "GORC \<equiv> 0x172"
abbreviation (input) GANDCI :: nat where "GANDCI \<equiv> 0x173"
abbreviation (input) GXORCI :: nat where "GXORCI \<equiv> 0x174"
abbreviation (input) GORCI :: nat where "GORCI \<equiv> 0x175"
abbreviation (input) GNOTC :: nat where "GNOTC \<equiv> 0x176"

text \<open>Bitwise shifts\<close>

abbreviation (input) GSHLCI :: nat where "GSHLCI \<equiv> 0x182"
abbreviation (input) GSHRCI :: nat where "GSHRCI \<equiv> 0x183"
abbreviation (input) GBITDEC :: nat where "GBITDEC \<equiv> 0x184"
abbreviation (input) GBITCOM :: nat where "GBITCOM \<equiv> 0x185"

text \<open>Conversion\<close>

abbreviation (input) GCONVINT :: nat where "GCONVINT \<equiv> 0x1C0"
abbreviation (input) GCONVGF2N :: nat where "GCONVGF2N \<equiv> 0x1C1"

text \<open>IO\<close>

abbreviation (input) GPRINTMEM :: nat where "GPRINTMEM \<equiv> 0x1B0"
abbreviation (input) GPRINTREG :: nat where "GPRINTREG \<equiv> 0x1B1"
abbreviation (input) GPRINTREGPLAIN :: nat where "GPRINTREGPLAIN \<equiv> 0x1B3"
abbreviation (input) GRAWOUTPUT :: nat where "GRAWOUTPUT \<equiv> 0x1B7"
abbreviation (input) GSTARTPRIVATEOUTPUT :: nat where "GSTARTPRIVATEOUTPUT \<equiv> 0x1B8"
abbreviation (input) GSTOPPRIVATEOUTPUT :: nat where "GSTOPPRIVATEOUTPUT \<equiv> 0x1B9"

text \<open>Commsec ops\<close>

abbreviation (input) INITSECURESOCKET :: nat where "INITSECURESOCKET \<equiv> 0x1BA"
abbreviation (input) RESPSECURESOCKET :: nat where "RESPSECURESOCKET \<equiv> 0x1BB"

subsection \<open>Codes of the binary-circuit machine\<close>

text \<open>GC specific\<close>


text \<open>write to secret\<close>

abbreviation (input) SECRET_WRITE :: nat where "SECRET_WRITE \<equiv> 0x200"
abbreviation (input) XORS :: nat where "XORS \<equiv> 0x200"
abbreviation (input) XORM :: nat where "XORM \<equiv> 0x201"
abbreviation (input) ANDRS :: nat where "ANDRS \<equiv> 0x202"
abbreviation (input) BITDECS :: nat where "BITDECS \<equiv> 0x203"
abbreviation (input) BITCOMS :: nat where "BITCOMS \<equiv> 0x204"
abbreviation (input) CONVSINT :: nat where "CONVSINT \<equiv> 0x205"
abbreviation (input) LDMSDI :: nat where "LDMSDI \<equiv> 0x206"
abbreviation (input) STMSDI :: nat where "STMSDI \<equiv> 0x207"
abbreviation (input) LDMSD :: nat where "LDMSD \<equiv> 0x208"
abbreviation (input) STMSD :: nat where "STMSD \<equiv> 0x209"
abbreviation (input) LDBITS :: nat where "LDBITS \<equiv> 0x20A"
abbreviation (input) ANDS :: nat where "ANDS \<equiv> 0x20B"
abbreviation (input) TRANS :: nat where "TRANS \<equiv> 0x20C"
abbreviation (input) BITB :: nat where "BITB \<equiv> 0x20D"
abbreviation (input) ANDM :: nat where "ANDM \<equiv> 0x20E"
abbreviation (input) NOTS :: nat where "NOTS \<equiv> 0x20F"
abbreviation (input) LDMSB :: nat where "LDMSB \<equiv> 0x240"
abbreviation (input) STMSB :: nat where "STMSB \<equiv> 0x241"
abbreviation (input) LDMSBI :: nat where "LDMSBI \<equiv> 0x242"
abbreviation (input) STMSBI :: nat where "STMSBI \<equiv> 0x243"
abbreviation (input) MOVSB :: nat where "MOVSB \<equiv> 0x244"
abbreviation (input) INPUTB :: nat where "INPUTB \<equiv> 0x246"
abbreviation (input) SPLIT :: nat where "SPLIT \<equiv> 0x248"
abbreviation (input) CONVCBIT2S :: nat where "CONVCBIT2S \<equiv> 0x249"

text \<open>write to clear\<close>

abbreviation (input) CLEAR_WRITE :: nat where "CLEAR_WRITE \<equiv> 0x210"
abbreviation (input) XORCBI :: nat where "XORCBI \<equiv> 0x210"
abbreviation (input) BITDECC :: nat where "BITDECC \<equiv> 0x211"
abbreviation (input) CONVCINT :: nat where "CONVCINT \<equiv> 0x213"
abbreviation (input) REVEAL :: nat where "REVEAL \<equiv> 0x214"
abbreviation (input) STMSDCI :: nat where "STMSDCI \<equiv> 0x215"
abbreviation (input) LDMCB :: nat where "LDMCB \<equiv> 0x217"
abbreviation (input) STMCB :: nat where "STMCB \<equiv> 0x218"
abbreviation (input) XORCB :: nat where "XORCB \<equiv> 0x219"
abbreviation (input) ADDCB :: nat where "ADDCB \<equiv> 0x21A"
abbreviation (input) ADDCBI :: nat where "ADDCBI \<equiv> 0x21B"
abbreviation (input) MULCBI :: nat where "MULCBI \<equiv> 0x21C"
abbreviation (input) SHRCBI :: nat where "SHRCBI \<equiv> 0x21D"
abbreviation (input) SHLCBI :: nat where "SHLCBI \<equiv> 0x21E"
abbreviation (input) CONVCINTVEC :: nat where "CONVCINTVEC \<equiv> 0x21F"

text \<open>don't write\<close>

abbreviation (input) PRINTREGSIGNED :: nat where "PRINTREGSIGNED \<equiv> 0x220"
abbreviation (input) PRINTREGB :: nat where "PRINTREGB \<equiv> 0x221"
abbreviation (input) PRINTREGPLAINB :: nat where "PRINTREGPLAINB \<equiv> 0x222"
abbreviation (input) PRINTFLOATPLAINB :: nat where "PRINTFLOATPLAINB \<equiv> 0x223"
abbreviation (input) CONDPRINTSTRB :: nat where "CONDPRINTSTRB \<equiv> 0x224"

text \<open>write to regint\<close>

abbreviation (input) CONVCBIT :: nat where "CONVCBIT \<equiv> 0x230"
abbreviation (input) CONVCBITVEC :: nat where "CONVCBITVEC \<equiv> 0x231"

subsection \<open>Register and secrecy types\<close>

datatype RegType = MODP | GF2N | INT_REG | SBIT | CBIT | DYN_SBIT | MAX_REG_TYPE | NONE_REG

datatype SecrecyType = SECRET | CLEAR | MAX_SECRECY_TYPE

end
