(* ===== verification/Bytecode.thy ===== *)
theory Bytecode
  imports Opcodes BitVec
begin

text \<open>
  Reading a byte-code file: the stream reads of \<^verbatim>\<open>Tools/parse.h\<close>,
  \<^verbatim>\<open>BaseInstruction::parse\<close> and \<^verbatim>\<open>parse_operands\<close> of
  \<^verbatim>\<open>Processor/Instruction.hpp\<close>, the instruction filter of \<^verbatim>\<open>GC/Instruction.hpp\<close>
  and \<^verbatim>\<open>GC::Program::parse\<close>. The input stream is the list of the octets not read yet.
  The degree of the field of \<^verbatim>\<open>gf2n\<close>, a setting of the run, is a parameter.
\<close>

unbundle bit_operations_syntax

subsection \<open>Instructions\<close>

record instruction =
  i_opcode :: nat
  i_size :: int
  i_r :: "int list"
  i_n :: "32 word"
  i_start :: "int list"

definition get_r :: "instruction \<Rightarrow> nat \<Rightarrow> int" where "get_r ins k = i_r ins ! k"

subsection \<open>Reading integers\<close>

text \<open>
  The integers of the file are big-endian. A read past the end leaves the rest of its
  destination as it was: the vectors and the register array hold zeros there, the local
  variable of \<^verbatim>\<open>get_int\<close> is uninitialised.
\<close>

fun be_word :: "octet list \<Rightarrow> 32 word" where
  "be_word [] = 0"
| "be_word (b # bs) = push_bit (8 * length bs) (ucast b) OR be_word bs"

definition le_word :: "octet list \<Rightarrow> 32 word" where
  "le_word bs = be_word (rev bs)"

definition stream_int :: "octet list \<Rightarrow> (int \<times> octet list) res" where
  "stream_int s =
     (if length s < 4 then Inl (Undefined_Behaviour ''uninitialised integer'')
      else Inr (sint (be_word (take 4 s)), drop 4 s))"

definition padded :: "nat \<Rightarrow> octet list \<Rightarrow> octet list" where
  "padded k s = take (4 * k) s @ replicate (4 * k - length s) 0"

fun words_of :: "(octet list \<Rightarrow> 32 word) \<Rightarrow> nat \<Rightarrow> octet list \<Rightarrow> int list" where
  "words_of f 0 s = []"
| "words_of f (Suc k) s = sint (f (take 4 s)) # words_of f k (drop 4 s)"

definition stream_ints :: "nat \<Rightarrow> octet list \<Rightarrow> int list \<times> octet list" where
  "stream_ints count s = (words_of be_word count (padded count s), drop (4 * count) s)"

text \<open>\<^verbatim>\<open>get_vector\<close> computes the number of octets, \<open>4 * m\<close>, as an \<^verbatim>\<open>int\<close>.\<close>

definition stream_vector :: "int \<Rightarrow> octet list \<Rightarrow> (int list \<times> octet list) res" where
  "stream_vector m s =
     (if m < 0 then Inl (Invalid_Length ''vector::resize'')
      else if 2 ^ 31 \<le> 4 * m then Inl (Undefined_Behaviour ''overflow of 4 * m'')
      else Inr (stream_ints (nat m) s))"

definition stream_raw_regs :: "octet list \<Rightarrow> int list \<times> octet list" where
  "stream_raw_regs s = (words_of le_word 4 (padded 4 s), drop 16 s)"

subsection \<open>Operand formats\<close>

definition three_register_codes :: "nat list" where
  "three_register_codes =
    [ADDC, ADDCB, ADDS, ADDM, SUBC, SUBS, SUBML, SUBMR, MULC, MULM, DIVC, MODC, TRIPLE,
     ANDC, XORC, XORCB, ORC, SHLC, SHRC, GADDC, GADDS, GADDM, GSUBC, GSUBS, GSUBML,
     GSUBMR, GMULC, GMULM, GDIVC, GTRIPLE, GBITTRIPLE, GBITGF2NTRIPLE, GANDC, GXORC, GORC,
     GMULBITC, GMULBITM, LTC, GTC, EQC, ADDINT, SUBINT, MULINT, DIVINT, CONDPRINTPLAIN]"

definition two_register_codes :: "nat list" where
  "two_register_codes =
    [LDMCI, LDMSI, STMCI, STMSI, LDMSBI, STMSBI, MOVC, MOVS, MOVSB, MOVINT, LDMINTI,
     STMINTI, LEGENDREC, SQUARE, INV, GINV, CONVINT, GLDMCI, GLDMSI, GSTMCI, GSTMSI,
     GMOVC, GMOVS, GSQUARE, GNOTC, GCONVINT, GCONVGF2N, LTZC, EQZC, RAND, PROTECTMEMS,
     PROTECTMEMC, GPROTECTMEMS, GPROTECTMEMC, PROTECTMEMINT, DABIT, SHUFFLE]"

definition one_register_codes :: "nat list" where
  "one_register_codes =
    [BIT, BITB, PRINTMEM, PRINTREGPLAIN, PRINTREGPLAINB, LDTN, LDARG, STARG, JMPI, GBIT,
     GPRINTMEM, GPRINTREGPLAIN, JOIN_TAPE, PUSHINT, POPINT, PUBINPUT, RAWOUTPUT,
     GRAWOUTPUT, PRINTCHRINT, PRINTSTRINT, PRINTINT, NPLAYERS, THRESHOLD, PLAYERID]"

definition two_register_int_codes :: "nat list" where
  "two_register_int_codes =
    [ADDCI, ADDCBI, ADDSI, SUBCI, SUBSI, SUBCFI, SUBSFI, MULCI, MULCBI, MULSI, DIVCI,
     MODCI, ANDCI, XORCI, XORCBI, ORCI, SHLCI, SHRCI, SHLCBI, SHRCBI, NOTC, CONVMODP,
     GADDCI, GADDSI, GSUBCI, GSUBSI, GSUBCFI, GSUBSFI, GMULCI, GMULSI, GDIVCI, GANDCI,
     GXORCI, GORCI, GSHLCI, GSHRCI, USE, USE_INP, USE_EDABIT, RUN_TAPE,
     STARTPRIVATEOUTPUT, GSTARTPRIVATEOUTPUT, STOPPRIVATEOUTPUT, GSTOPPRIVATEOUTPUT,
     DIGESTC]"

definition one_register_int_codes :: "nat list" where
  "one_register_int_codes =
    [LDI, LDSI, LDMC, LDMS, STMC, STMS, LDMSB, STMSB, LDMCB, STMCB, LDMINT, STMINT, JMPNZ,
     JMPEQZ, GLDI, GLDSI, GLDMC, GLDMS, GSTMC, GSTMS, PRINTREG, PRINTREGB, GPRINTREG,
     LDINT, INPUTMASK, GINPUTMASK, ACCEPTCLIENTCONNECTION, INV2M, CONDPRINTSTR,
     CONDPRINTSTRB]"

definition one_int_codes :: "nat list" where
  "one_int_codes =
    [PRINTSTR, PRINTCHR, JMP, START, STOP, LISTEN, PRINTFLOATPREC]"

definition no_operand_codes :: "nat list" where
  "no_operand_codes =
    [TIME, CRASH, STARTGRIND, STOPGRIND]"

definition variable_codes :: "nat list" where
  "variable_codes =
    [WRITEFILESHARE, OPEN, GOPEN, MULS, GMULS, MULRS, GMULRS, DOTPRODS, GDOTPRODS, INPUT,
     GINPUT, INPUTFIX, INPUTFLOAT, INPUTMIXED, INPUTMIXEDREG, RAWINPUT, GRAWINPUT,
     TRUNC_PR]"

subsection \<open>Operands\<close>

text \<open>\<open>set_regs\<close> writes the first registers of \<open>r\<close>, \<open>read_reg k\<close> is \<^verbatim>\<open>r[k]=get_int(s)\<close>.\<close>

definition set_regs :: "int list \<Rightarrow> instruction \<Rightarrow> instruction" where
  "set_regs xs ins = ins\<lparr>i_r := xs @ drop (length xs) (i_r ins)\<rparr>"

definition read_reg :: "nat \<Rightarrow> instruction \<times> octet list \<Rightarrow> (instruction \<times> octet list) res" where
  "read_reg k = (\<lambda>(ins, s). bindE (stream_int s) (\<lambda>(x, s'). Inr (ins\<lparr>i_r := (i_r ins)[k := x]\<rparr>, s')))"

definition read_n :: "instruction \<times> octet list \<Rightarrow> (instruction \<times> octet list) res" where
  "read_n = (\<lambda>(ins, s). bindE (stream_int s) (\<lambda>(x, s'). Inr (ins\<lparr>i_n := word_of_int x\<rparr>, s')))"

definition read_ints :: "nat \<Rightarrow> instruction \<times> octet list \<Rightarrow> (instruction \<times> octet list) res" where
  "read_ints count = (\<lambda>(ins, s). let (xs, s') = stream_ints count s in Inr (set_regs xs ins, s'))"

definition read_vector :: "int \<Rightarrow> instruction \<times> octet list \<Rightarrow> (instruction \<times> octet list) res" where
  "read_vector m = (\<lambda>(ins, s). bindE (stream_vector m s) (\<lambda>(xs, s'). Inr (ins\<lparr>i_start := xs\<rparr>, s')))"

definition read_raw :: "instruction \<times> octet list \<Rightarrow> (instruction \<times> octet list) res" where
  "read_raw = (\<lambda>(ins, s). let (xs, s') = stream_raw_regs s in Inr (set_regs xs ins, s'))"

text \<open>\<open>steps\<close> performs the reads of a case from left to right.\<close>

definition steps :: "('a \<Rightarrow> 'a res) list \<Rightarrow> 'a \<Rightarrow> 'a res" where
  "steps fs = foldE (\<lambda>f. f) fs"

text \<open>\<open>counted k f\<close> reads the number of arguments, less the \<open>k\<close> integers that precede the vector.\<close>

definition counted :: "int \<Rightarrow> (instruction \<times> octet list \<Rightarrow> (instruction \<times> octet list) res) list \<Rightarrow>
    instruction \<times> octet list \<Rightarrow> (instruction \<times> octet list) res" where
  "counted k fs = (\<lambda>(ins, s). bindE (stream_int s) (\<lambda>(c, s'). bindE (steps fs (ins, s')) (read_vector (c - k))))"

definition parse_binary_operands :: "nat \<Rightarrow> instruction \<times> octet list \<Rightarrow> (instruction \<times> octet list) res" where
  "parse_binary_operands opc x =
     (if opc = LDBITS then steps [read_ints 2, read_n] x
      else if opc \<in> {BITDECS, BITCOMS, BITDECC, CONVCINTVEC} then counted 1 [read_ints 1] x
      else if opc \<in> {CONVCINT, CONVCBIT} then read_ints 2 x
      else if opc \<in> {CONVSINT, CONVCBITVEC, CONVCBIT2S, NOTS} then steps [read_n, read_ints 2] x
      else if opc \<in> {LDMSDI, STMSDI, LDMSD, STMSD, STMSDCI, XORS, ANDRS, ANDS, INPUTB, REVEAL} then counted 0 [] x
      else if opc = PRINTREGSIGNED then steps [read_n, read_ints 1] x
      else if opc = TRANS then counted 1 [read_n] x
      else if opc = SPLIT then counted 2 [read_n, read_ints 1] x
      else Inl (Invalid_Instruction ''Invalid instruction''))"

definition parse_variable_operands :: "int \<Rightarrow> nat \<Rightarrow> instruction \<times> octet list \<Rightarrow> (instruction \<times> octet list) res" where
  "parse_variable_operands gf2n_degree opc x =
     (if opc \<in> {PRINTFLOATPLAIN, PRINTFLOATPLAINB} then read_vector 5 x
      else if opc = INCINT then steps [read_reg 0, read_reg 1, read_n, read_vector 2] x
      else if opc \<in> set variable_codes then counted 0 [] x
      else if opc = MATMULS then steps [read_ints 3, read_vector 3] x
      else if opc = MATMULSM then steps [read_ints 3, read_vector 9] x
      else if opc = CONV2DS then steps [read_ints 3, read_vector 11] x
      else if opc = READFILESHARE then counted 2 [read_reg 0, read_reg 1] x
      else if opc \<in> {READSOCKETC, READSOCKETS, READSOCKETINT} then counted 1 [read_reg 0] x
      else if opc \<in> {WRITESOCKETC, WRITESOCKETS, WRITESOCKETSHARE, WRITESOCKETINT}
        then counted 2 [read_reg 0, read_reg 1] x
      else if opc = CONNECTIPV4 then Inl (Runtime_Error ''parties as clients not supported any more'')
      else if opc \<in> {READCLIENTPUBLICKEY, INITSECURESOCKET, RESPSECURESOCKET}
        then Inl (Runtime_Error ''VM-controlled encryption not supported any more'')
      else if opc \<in> {STARTINPUT, GSTARTINPUT, STOPINPUT, GSTOPINPUT}
        then Inl (Runtime_Error ''two-stage input not supported any more'')
      else if opc \<in> {GBITDEC, GBITCOM} then counted 2 [read_reg 0, read_n] x
      else if opc \<in> {BITDECINT, EDABIT, SEDABIT} then counted 1 [read_reg 0] x
      else if opc \<in> {PREP, GPREP} then counted 1 [read_raw] x
      else if opc \<in> {USE_PREP, GUSE_PREP} then steps [read_raw, read_n] x
      else if opc = REQBL then bindE (read_n x) (\<lambda>_. Inl (Runtime_Error ''not defined''))
      else if opc = GREQBL then bindE (read_n x) (\<lambda>(ins, s).
        if uint (i_n ins) > 0 \<and> gf2n_degree < sint (i_n ins)
        then Inl (Processor_Error ''Tape requires prime of bit length'') else Inr (ins, s))
      else if opc \<in> {XORM, ANDM} then steps [read_n, read_ints 3] x
      else parse_binary_operands opc x)"

definition parse_operands :: "int \<Rightarrow> nat \<Rightarrow> instruction \<times> octet list \<Rightarrow> (instruction \<times> octet list) res" where
  "parse_operands gf2n_degree opc x =
     (if opc \<in> set three_register_codes then steps [read_reg 0, read_reg 1, read_reg 2] x
      else if opc \<in> set two_register_codes then steps [read_reg 0, read_reg 1] x
      else if opc \<in> set one_register_codes then read_reg 0 x
      else if opc \<in> set two_register_int_codes then steps [read_reg 0, read_reg 1, read_n] x
      else if opc \<in> set one_register_int_codes then steps [read_reg 0, read_n] x
      else if opc \<in> set one_int_codes then read_n x
      else if opc \<in> set no_operand_codes then Inr x
      else parse_variable_operands gf2n_degree opc x)"

subsection \<open>Instructions and programs\<close>

definition base_parse :: "int \<Rightarrow> octet list \<Rightarrow> (instruction \<times> octet list) res" where
  "base_parse gf2n_degree s =
     bindE (stream_int s) (\<lambda>(code, s').
     let w = word_of_int code :: 32 word;
         sz = uint (drop_bit 10 w);
         opc = unat (w AND 0x3FF)
     in parse_operands gf2n_degree opc
          (\<lparr>i_opcode = opc, i_size = (if sz = 0 then 1 else sz), i_r = [0, 0, 0, 0], i_n = 0, i_start = []\<rparr>, s'))"

definition bit_instructions :: "nat list" where
  "bit_instructions =
    [XORS, XORCB, XORCBI, NOTS, ANDRS, ANDS, ADDCB, ADDCBI, MULCBI, BITDECS, BITCOMS,
     BITDECC, SHRCBI, SHLCBI, LDBITS, LDMSB, STMSB, LDMCB, STMCB, LDMSBI, STMSBI, MOVSB,
     TRANS, BITB, REVEAL, PRINTREGSIGNED, PRINTREGB, PRINTREGPLAINB, PRINTFLOATPLAINB,
     CONDPRINTSTRB]"

definition gc_instructions :: "nat list" where
  "gc_instructions =
    [INPUTB, LDMSD, STMSD, LDMSDI, STMSDI, STMSDCI, CONVSINT, CONVCINT, CONVCBIT,
     PRINTCHR, PRINTSTR, PRINTFLOATPREC, LDINT, ADDINT, SUBINT, MULINT, DIVINT, JMP,
     JMPNZ, JMPEQZ, EQZC, LTZC, LTC, GTC, EQC, JMPI, LDMINT, STMINT, LDMINTI, STMINTI,
     PUSHINT, POPINT, MOVINT, BITDECINT, LDARG, STARG, TIME, START, STOP, GLDMS, GLDMC,
     LDMS, LDMC, PRINTINT, STARTGRIND, STOPGRIND, RUN_TAPE, JOIN_TAPE, USE]"

definition gc_parse :: "int \<Rightarrow> octet list \<Rightarrow> (instruction \<times> octet list) res" where
  "gc_parse gf2n_degree s =
     bindE (base_parse gf2n_degree s) (\<lambda>(ins, s').
     if i_opcode ins \<in> set bit_instructions \<union> set gc_instructions then Inr (ins, s')
     else Inl (Invalid_Instruction ''Code not defined for instruction''))"

subsection \<open>Reading makes progress\<close>

text \<open>No read lengthens the stream, and every instruction consumes the four octets of its code.\<close>

definition shrinks :: "(instruction \<times> octet list \<Rightarrow> (instruction \<times> octet list) res) \<Rightarrow> bool" where
  "shrinks f \<longleftrightarrow> (\<forall>x y. f x = Inr y \<longrightarrow> length (snd y) \<le> length (snd x))"

named_theorems shrink_intros \<open>operand readers that do not lengthen the stream\<close>

lemma stream_int_length: "stream_int s = Inr (x, s') \<Longrightarrow> length s = length s' + 4"
  by (auto simp: stream_int_def split: if_splits)

lemma stream_int_drop: "stream_int s = Inr (x, s') \<Longrightarrow> s' = drop 4 s"
  by (auto simp: stream_int_def split: if_splits)

lemma shrinks_readers [shrink_intros]:
  "shrinks (read_reg k)" "shrinks read_n" "shrinks (read_ints n)" "shrinks (read_vector m)" "shrinks read_raw"
  by (auto simp: shrinks_def read_reg_def read_n_def read_ints_def read_vector_def read_raw_def res_simps
      stream_ints_def stream_vector_def stream_raw_regs_def dest!: stream_int_drop split: if_splits)

lemma shrinks_steps [shrink_intros]: "list_all shrinks fs \<Longrightarrow> shrinks (steps fs)"
  unfolding shrinks_def steps_def
proof (induction fs)
  case Nil
  then show ?case by simp
next
  case (Cons f fs)
  then show ?case by (fastforce simp: res_simps)
qed

lemma shrinks_counted [shrink_intros]:
  assumes "list_all shrinks fs"
  shows "shrinks (counted k fs)"
proof -
  have F: "shrinks (steps fs)" using assms by (rule shrinks_steps)
  have V: "shrinks (read_vector m)" for m by (rule shrinks_readers)
  show ?thesis
    unfolding shrinks_def counted_def
  proof (clarsimp simp: res_simps)
    fix ins s c s' a b ins' s''
    assume "stream_int s = Inr (c, s')" "steps fs (ins, s') = Inr (a, b)" "read_vector (c - k) (a, b) = Inr (ins', s'')"
    then show "length s'' \<le> length s"
      using F V [of "c - k"] stream_int_length unfolding shrinks_def by fastforce
  qed
qed

lemma shrinks_if: "(b \<Longrightarrow> shrinks f) \<Longrightarrow> (\<not> b \<Longrightarrow> shrinks g) \<Longrightarrow> shrinks (\<lambda>x. if b then f x else g x)"
  by (cases b) simp_all

lemma shrinks_error: "shrinks (\<lambda>x. Inl e)" "shrinks (\<lambda>x. bindE (f x) (\<lambda>_. Inl e))" "shrinks Inr"
  by (auto simp: shrinks_def res_simps)

lemma shrinks_check: "shrinks f \<Longrightarrow> shrinks (\<lambda>x. bindE (f x) (\<lambda>(ins, s). if b ins then Inl e else Inr (ins, s)))"
  by (fastforce simp: shrinks_def res_simps split: if_splits)

lemma shrinks_parse_binary: "shrinks (parse_binary_operands opc)"
  unfolding parse_binary_operands_def
  by (intro shrinks_if shrinks_error shrink_intros; simp add: shrink_intros)

lemma shrinks_parse_variable: "shrinks (parse_variable_operands d opc)"
  unfolding parse_variable_operands_def
  by (intro shrinks_if shrinks_error shrinks_check shrink_intros shrinks_parse_binary; simp add: shrink_intros)

lemma shrinks_parse_operands: "shrinks (parse_operands d opc)"
  unfolding parse_operands_def
  by (intro shrinks_if shrinks_error shrink_intros shrinks_parse_variable; simp add: shrink_intros)

lemma base_parse_length: "base_parse d s = Inr (ins, s') \<Longrightarrow> length s' < length s"
  using shrinks_parse_operands unfolding base_parse_def shrinks_def Let_def
  by (fastforce simp: res_simps dest: stream_int_length)

lemma gc_parse_length: "gc_parse d s = Inr (ins, s') \<Longrightarrow> length s' < length s"
  by (auto simp: gc_parse_def res_simps dest: base_parse_length split: if_splits)

text \<open>
  \<^verbatim>\<open>GC::Program::parse\<close>: instructions until the end of the file, appended to the program so
  far. As a loop that might not end, \<open>parse_loop\<close> is \<open>None\<close> if it does not return; as every
  instruction consumes octets it is the total function \<open>parse_instructions\<close>.
\<close>

partial_function (option) parse_loop :: "int \<Rightarrow> instruction list \<Rightarrow> octet list \<Rightarrow> (exn + instruction list) option" where
  "parse_loop d p s =
     (if s = [] then Some (Inr p)
      else case gc_parse d s of Inl e \<Rightarrow> Some (Inl e) | Inr (ins, s') \<Rightarrow> parse_loop d (p @ [ins]) s')"

function parse_instructions :: "int \<Rightarrow> octet list \<Rightarrow> instruction list res" where
  "parse_instructions d s =
     (if s = [] then Inr []
      else bindE (gc_parse d s) (\<lambda>(ins, s'). bindE (parse_instructions d s') (\<lambda>p. Inr (ins # p))))"
  by pat_completeness auto
termination
  by (relation "measure (\<lambda>(d, s). length s)") (auto dest: gc_parse_length)

declare parse_instructions.simps [simp del]

lemma parse_instructions_Nil [simp]: "parse_instructions d [] = Inr []"
  by (simp add: parse_instructions.simps)

lemma parse_instructions_step:
  "gc_parse d s = Inr (ins, s') \<Longrightarrow> parse_instructions d s = bindE (parse_instructions d s') (\<lambda>p. Inr (ins # p))"
  using gc_parse_length [of d s ins s'] by (subst parse_instructions.simps) auto

lemma parse_loop_Nil: "parse_loop d p [] = Some (Inr p)"
  by (subst parse_loop.simps) simp

lemma parse_loop_error: "s \<noteq> [] \<Longrightarrow> gc_parse d s = Inl e \<Longrightarrow> parse_loop d p s = Some (Inl e)"
  by (subst parse_loop.simps) simp

lemma parse_loop_step: "s \<noteq> [] \<Longrightarrow> gc_parse d s = Inr (ins, s') \<Longrightarrow> parse_loop d p s = parse_loop d (p @ [ins]) s'"
  by (subst parse_loop.simps) simp

lemma parse_loop_returns: "parse_loop d p s = Some (bindE (parse_instructions d s) (\<lambda>q. Inr (p @ q)))"
proof (induction d s arbitrary: p rule: parse_instructions.induct)
  case (1 d s)
  show ?case
  proof (cases "s = []")
    case True
    then show ?thesis by (simp add: parse_loop_Nil)
  next
    case False
    show ?thesis
    proof (cases "gc_parse d s")
      case (Inl e)
      then show ?thesis using False parse_loop_error [OF False Inl] by (simp add: parse_instructions.simps [of d s])
    next
      case (Inr x)
      obtain ins s' where x: "x = (ins, s')" by (cases x)
      have "parse_loop d p s = parse_loop d (p @ [ins]) s'" using parse_loop_step [OF False] Inr x by simp
      also have "\<dots> = Some (bindE (parse_instructions d s') (\<lambda>q. Inr ((p @ [ins]) @ q)))"
        by (rule 1 [OF False Inr x [symmetric]])
      finally show ?thesis
        using parse_instructions_step [of d s ins s'] Inr x by (cases "parse_instructions d s'") simp_all
    qed
  qed
qed

end
