(* ===== verification/GCProgram.thy ===== *)
theory GCProgram
  imports Bytecode
begin

text \<open>
  The static view of a program: the register type of an instruction, the registers and the
  memory it needs (\<^verbatim>\<open>Processor/Instruction.hpp\<close>, \<^verbatim>\<open>GC/Instruction.hpp\<close>) and the
  maxima over the program that size the register files (\<^verbatim>\<open>GC/Program.hpp\<close>).
\<close>

unbundle bit_operations_syntax

subsection \<open>Register types\<close>

definition is_gf2n_instruction :: "nat \<Rightarrow> bool" where
  "is_gf2n_instruction opc \<longleftrightarrow> opc AND 0x100 \<noteq> 0"

definition get_reg_type :: "nat \<Rightarrow> RegType" where
  "get_reg_type opc =
     (if opc AND 0x2B0 = SECRET_WRITE then SBIT
      else if opc AND 0x2B0 = CLEAR_WRITE then CBIT
      else if opc \<in> {LDMINT, STMINT, LDMINTI, STMINTI, PUSHINT, POPINT, MOVINT, READSOCKETINT,
          WRITESOCKETINT, READCLIENTPUBLICKEY, INITSECURESOCKET, RESPSECURESOCKET, LDARG, LDINT,
          INCINT, SHUFFLE, CONVMODP, GCONVGF2N, RAND, NPLAYERS, THRESHOLD, PLAYERID, CONVCBIT,
          CONVCBITVEC} then INT_REG
      else if opc \<in> {PREP, USE_PREP, GUSE_PREP, USE_EDABIT} then NONE_REG
      else if is_gf2n_instruction opc then GF2N
      else if drop_bit 4 opc = 0x9 then INT_REG
      else MODP)"

subsection \<open>Registers used\<close>

definition div_ceil :: "int \<Rightarrow> int \<Rightarrow> int" where
  "div_ceil n k = (n + k - 1) sdiv k"

text \<open>
  The walk of the \<^verbatim>\<open>DOTPRODS\<close> case over the argument list. Its position alone
  decides where it goes next, so a walk that has not ended after one step more than there
  are positions never ends; a loop without effects that never ends is undefined.
\<close>

fun dotprods_max :: "nat \<Rightarrow> int list \<Rightarrow> int \<Rightarrow> int \<Rightarrow> int res" where
  "dotprods_max 0 st pos acc = Inl (Undefined_Behaviour ''endless loop'')"
| "dotprods_max (Suc fuel) st pos acc =
     (if pos = int (length st) then Inr acc
      else if pos < 0 then Inl (Undefined_Behaviour ''iterator before the beginning'')
      else bindE (guardE (pos < int (length st)) (Assertion ''it < start.end()'')) (\<lambda>_.
        let n = st ! nat pos in dotprods_max fuel st (pos + 1 + (n - 1)) (max acc n)))"

text \<open>
  What the second \<^verbatim>\<open>switch\<close> of \<^verbatim>\<open>get_max_reg\<close> sets: the step over the arguments, the
  first position, where the length of an argument stands relative to it, and the length.
\<close>

definition arg_shape :: "instruction \<Rightarrow> nat \<times> nat \<times> int \<times> int" where
  "arg_shape ins =
     (let opc = i_opcode ins; sz = i_size ins; n = uint (i_n ins) in
      if opc \<in> {LDMSD, LDMSDI} then (3, 0, 0, sz)
      else if opc \<in> {STMSD, STMSDI} then (2, 0, 0, sz)
      else if opc \<in> {ANDRS, XORS, ANDS} then (4, 1, -1, sz)
      else if opc = INPUTB then (4, 3, -2, sz)
      else if opc \<in> {ANDM, NOTS} then (0, 0, 0, div_ceil n 64)
      else if opc = CONVCBIT2S then (0, 0, 0, div_ceil n 64)
      else if opc = CONVCINTVEC then (0, 0, 0, div_ceil sz 64)
      else if opc = CONVCBITVEC then (0, 0, 0, n)
      else if opc = REVEAL then (3, 1, -1, div_ceil n 64)
      else if opc = SPLIT then (1, 0, 0, div_ceil sz 64)
      else if opc \<in> {EDABIT, SEDABIT} then (1, 0, 0, sz)
      else (0, 0, 0, sz))"

definition arg_positions :: "nat \<Rightarrow> nat \<Rightarrow> nat \<Rightarrow> nat list" where
  "arg_positions skip offset n = filter (\<lambda>i. offset \<le> i \<and> (i - offset) mod skip = 0) [0..<n]"

definition args_max :: "int list \<Rightarrow> nat \<times> nat \<times> int \<times> int \<Rightarrow> 32 word" where
  "args_max st = (\<lambda>(skip, offset, size_offset, sz).
     fold (\<lambda>i m. max m (word_of_int (st ! i) +
         word_of_int (if size_offset \<noteq> 0 then div_ceil (st ! nat (int i + size_offset)) 64 else sz)))
       (arg_positions skip offset (length st)) 0)"

definition regs_max :: "instruction \<Rightarrow> int \<Rightarrow> 32 word" where
  "regs_max ins sz = fold (\<lambda>x m. max m (word_of_int x)) (i_start ins @ i_r ins) 0 + word_of_int sz"

definition get_max_reg :: "RegType \<Rightarrow> instruction \<Rightarrow> 32 word res" where
  "get_max_reg reg_type ins =
     (let opc = i_opcode ins; sz = i_size ins; st = i_start ins in
      if opc = DABIT then
        Inr (if reg_type = SBIT then word_of_int (get_r ins 1 + sz)
             else if reg_type = MODP then word_of_int (get_r ins 0 + sz) else 0)
      else if opc \<in> {EDABIT, SEDABIT} \<and> reg_type \<noteq> SBIT then
        Inr (if reg_type = MODP then word_of_int (get_r ins 0 + sz) else 0)
      else if opc \<notin> {EDABIT, SEDABIT} \<and> get_reg_type opc \<noteq> reg_type then Inr 0
      else if opc = DOTPRODS then
        bindE (dotprods_max (Suc (length st)) st 0 0) (\<lambda>x. Inr (word_of_int x))
      else if opc \<in> {MATMULS, MATMULSM} then
        bindE (nthE st 0) (\<lambda>a. bindE (nthE st 2) (\<lambda>b. Inr (word_of_int (get_r ins 0 + a * b))))
      else if opc = CONV2DS then
        bindE (nthE st 0) (\<lambda>a. bindE (nthE st 1) (\<lambda>b. Inr (word_of_int (get_r ins 0 + a * b))))
      else let (skip, offset, size_offset, size1) = arg_shape ins in
        Inr (if skip > 0 then args_max st (skip, offset, size_offset, size1) else regs_max ins size1))"

subsection \<open>Memory used\<close>

definition is_direct_memory_access :: "SecrecyType \<Rightarrow> nat \<Rightarrow> bool" where
  "is_direct_memory_access sec_type opc =
     (if opc \<in> {LDMS, STMS, GLDMS, GSTMS} then sec_type = SECRET
      else if opc \<in> {LDMC, STMC, GLDMC, GSTMC} then sec_type = CLEAR
      else opc \<in> {LDMINT, STMINT, LDMSB, STMSB, LDMCB, STMCB})"

definition base_get_mem :: "RegType \<Rightarrow> SecrecyType \<Rightarrow> instruction \<Rightarrow> 32 word" where
  "base_get_mem reg_type sec_type ins =
     (if get_reg_type (i_opcode ins) = reg_type \<and> is_direct_memory_access sec_type (i_opcode ins)
      then i_n ins + word_of_int (i_size ins) else 0)"

definition gc_get_mem :: "RegType \<Rightarrow> instruction \<Rightarrow> 32 word" where
  "gc_get_mem reg_type ins =
     (let st = i_start ins in
      if i_opcode ins = LDMSD then
        (if reg_type = DYN_SBIT
         then fold (\<lambda>i m. max m (word_of_int (st ! (3 * i + 1)) + 1)) [0..<length st div 3] 0 else 0)
      else if i_opcode ins = STMSD then
        (if reg_type = DYN_SBIT
         then fold (\<lambda>i m. max m (word_of_int (st ! (2 * i + 1)) + 1)) [0..<length st div 2] 0 else 0)
      else base_get_mem reg_type MAX_SECRECY_TYPE ins)"

definition get_offline_data_usage :: "instruction \<Rightarrow> int \<Rightarrow> int \<times> bool" where
  "get_offline_data_usage ins usage =
     (if i_opcode ins = USE then (usage + uint (i_n ins), sint (i_n ins) \<ge> 0) else (usage, True))"

subsection \<open>Programs\<close>

record program =
  instrs :: "instruction list"
  max_reg :: "RegType \<Rightarrow> 32 word"
  max_mem :: "RegType \<Rightarrow> 32 word"

definition reg_types :: "RegType list" where
  "reg_types = [MODP, GF2N, INT_REG, SBIT, CBIT, DYN_SBIT]"

definition scan_type :: "instruction \<Rightarrow> RegType \<Rightarrow> program \<Rightarrow> program res" where
  "scan_type ins t P =
     bindE (get_max_reg t ins) (\<lambda>m.
     Inr (P\<lparr>max_reg := (max_reg P)(t := max (max_reg P t) m),
            max_mem := (max_mem P)(t := max (max_mem P t) (gc_get_mem t ins))\<rparr>))"

definition compute_constants :: "program \<Rightarrow> program res" where
  "compute_constants P =
     foldE (\<lambda>ins. foldE (scan_type ins) reg_types) (instrs P) (P\<lparr>max_reg := \<lambda>_. 0, max_mem := \<lambda>_. 0\<rparr>)"

definition parse_program :: "int \<Rightarrow> octet list \<Rightarrow> program res" where
  "parse_program gf2n_degree s =
     bindE (parse_instructions gf2n_degree s) (\<lambda>p. compute_constants \<lparr>instrs = p, max_reg = \<lambda>_. 0, max_mem = \<lambda>_. 0\<rparr>)"

definition num_reg :: "RegType \<Rightarrow> program \<Rightarrow> 32 word" where
  "num_reg t P = max_reg P t"

definition direct_mem :: "RegType \<Rightarrow> program \<Rightarrow> 32 word" where
  "direct_mem t P = max_mem P t"

subsection \<open>What the maxima are\<close>

lemma scan_type_Inr:
  "scan_type ins t P = Inr Q \<longleftrightarrow>
     (\<exists>m. get_max_reg t ins = Inr m \<and>
      Q = P\<lparr>max_reg := (max_reg P)(t := max (max_reg P t) m), max_mem := (max_mem P)(t := max (max_mem P t) (gc_get_mem t ins))\<rparr>)"
  by (auto simp: scan_type_def res_simps)

end
