(* ===== verification/GCProcessor.thy ===== *)
theory GCProcessor
  imports GCProgram FixedVec
begin

text \<open>
  The virtual machine for binary circuits: \<^verbatim>\<open>GC/Processor.h\<close>, \<^verbatim>\<open>GC/Processor.hpp\<close>,
  \<^verbatim>\<open>GC/instructions.h\<close>, \<^verbatim>\<open>GC/Memory.h\<close>, \<^verbatim>\<open>GC/Access.h\<close>, \<^verbatim>\<open>GC/ArgTuples.h\<close>,
  \<^verbatim>\<open>GC/Clear.h\<close> and the local operations of \<^verbatim>\<open>GC/ShareSecret.hpp\<close>. The model is generic in
  the type of a secret register, as the C++ templates are; the operations on secrets are a
  record. Registers and memories are vectors indexed without a check (\<^verbatim>\<open>CHECK_SIZE\<close> is
  not defined in the default build): an index outside is \<open>Undefined_Behaviour\<close>.
  What a program prints, the timer commands and the tapes it starts on other threads are
  events, recorded in order.
\<close>

unbundle bit_operations_syntax

subsection \<open>Immediates\<close>

definition IMM :: "instruction \<Rightarrow> int" where "IMM ins = uint (i_n ins)"
definition IMM_int :: "instruction \<Rightarrow> int" where "IMM_int ins = sint (i_n ins)"

subsection \<open>Processor state\<close>

datatype out_item =
    Out_Signed int
  | Out_Reg int int
  | Out_Hex word64
  | Out_Chr int
  | Out_Str int
  | Out_Int word64
  | Out_Float "word64 list"
  | Out_Float_Prec int
  | Out_Timer nat int
  | Run_Tape int int int
  | Join_Tape int
  | Out_Undefined nat

record 'x processor =
  rS :: "'x list"
  rC :: "word64 list"
  rI :: "word64 list"
  mMS :: "'x list"
  mMC :: "word64 list"
  mMI :: "word64 list"
  mMD :: "'x list"
  p_PC :: "32 word"
  p_arg :: "32 word"
  p_stack :: "word64 list"
  p_out :: "out_item list"
  p_complexity :: nat

text \<open>The operations of a secret register that the local instructions use.\<close>

record 'x secret_ops =
  so_const :: "word64 \<Rightarrow> 'x"
  so_xor :: "'x \<Rightarrow> 'x \<Rightarrow> 'x"
  so_and :: "'x \<Rightarrow> word64 \<Rightarrow> 'x"
  so_shl :: "'x \<Rightarrow> nat \<Rightarrow> 'x res"
  so_shr :: "'x \<Rightarrow> nat \<Rightarrow> 'x res"
  so_trans :: "nat \<Rightarrow> nat \<Rightarrow> 'x list \<Rightarrow> 'x list"

definition memory_get :: "'a list \<Rightarrow> int \<Rightarrow> 'a res" where
  "memory_get M i = (if i < 0 then Inl (Undefined_Behaviour ''vector index'') else nthE M (nat i))"

definition memory_put :: "'a list \<Rightarrow> int \<Rightarrow> 'a \<Rightarrow> 'a list res" where
  "memory_put M i x = (if i < 0 then Inl (Undefined_Behaviour ''vector index'') else updE M (nat i) x)"

definition getS :: "int \<Rightarrow> 'x processor \<Rightarrow> 'x res" where "getS i p = memory_get (rS p) i"
definition getC :: "int \<Rightarrow> 'x processor \<Rightarrow> word64 res" where "getC i p = memory_get (rC p) i"
definition getI :: "int \<Rightarrow> 'x processor \<Rightarrow> word64 res" where "getI i p = memory_get (rI p) i"

definition putS :: "int \<Rightarrow> 'x \<Rightarrow> 'x processor \<Rightarrow> 'x processor res" where
  "putS i x p = bindE (memory_put (rS p) i x) (\<lambda>m. Inr (p\<lparr>rS := m\<rparr>))"
definition putC :: "int \<Rightarrow> word64 \<Rightarrow> 'x processor \<Rightarrow> 'x processor res" where
  "putC i x p = bindE (memory_put (rC p) i x) (\<lambda>m. Inr (p\<lparr>rC := m\<rparr>))"
definition putI :: "int \<Rightarrow> word64 \<Rightarrow> 'x processor \<Rightarrow> 'x processor res" where
  "putI i x p = bindE (memory_put (rI p) i x) (\<lambda>m. Inr (p\<lparr>rI := m\<rparr>))"

definition getMS :: "int \<Rightarrow> 'x processor \<Rightarrow> 'x res" where "getMS i p = memory_get (mMS p) i"
definition putMS :: "int \<Rightarrow> 'x \<Rightarrow> 'x processor \<Rightarrow> 'x processor res" where
  "putMS i x p = bindE (memory_put (mMS p) i x) (\<lambda>m. Inr (p\<lparr>mMS := m\<rparr>))"
definition getMC :: "int \<Rightarrow> 'x processor \<Rightarrow> word64 res" where "getMC i p = memory_get (mMC p) i"
definition putMC :: "int \<Rightarrow> word64 \<Rightarrow> 'x processor \<Rightarrow> 'x processor res" where
  "putMC i x p = bindE (memory_put (mMC p) i x) (\<lambda>m. Inr (p\<lparr>mMC := m\<rparr>))"
definition getMI :: "int \<Rightarrow> 'x processor \<Rightarrow> word64 res" where "getMI i p = memory_get (mMI p) i"
definition putMI :: "int \<Rightarrow> word64 \<Rightarrow> 'x processor \<Rightarrow> 'x processor res" where
  "putMI i x p = bindE (memory_put (mMI p) i x) (\<lambda>m. Inr (p\<lparr>mMI := m\<rparr>))"
definition getMD :: "int \<Rightarrow> 'x processor \<Rightarrow> 'x res" where "getMD i p = memory_get (mMD p) i"
definition putMD :: "int \<Rightarrow> 'x \<Rightarrow> 'x processor \<Rightarrow> 'x processor res" where
  "putMD i x p = bindE (memory_put (mMD p) i x) (\<lambda>m. Inr (p\<lparr>mMD := m\<rparr>))"

subsection \<open>Argument lists\<close>

definition check_args :: "int list \<Rightarrow> nat \<Rightarrow> unit res" where
  "check_args args n = guardE (length args mod n = 0) (Runtime_Error ''invalid number of arguments'')"

fun chunks2 :: "int list \<Rightarrow> (int \<times> int) list" where
  "chunks2 (a # b # xs) = (a, b) # chunks2 xs"
| "chunks2 _ = []"

fun chunks3 :: "int list \<Rightarrow> (int \<times> int \<times> int) list" where
  "chunks3 (a # b # c # xs) = (a, b, c) # chunks3 xs"
| "chunks3 _ = []"

fun chunks4 :: "int list \<Rightarrow> (int \<times> int \<times> int \<times> int) list" where
  "chunks4 (a # b # c # d # xs) = (a, b, c, d) # chunks4 xs"
| "chunks4 _ = []"

text \<open>A value of \<open>n\<close> bits takes \<open>DIV_CEIL(n, 64)\<close> registers, the last one with the rest of the bits.\<close>

definition default_length :: int where "default_length = 64"

definition n_units :: "int \<Rightarrow> nat" where
  "n_units n = nat ((n + default_length - 1) sdiv default_length)"

definition unit_length :: "int \<Rightarrow> nat \<Rightarrow> int" where
  "unit_length n j = min default_length (n - int j * default_length)"

subsection \<open>Secrets\<close>

definition get_mask :: "int \<Rightarrow> word64" where
  "get_mask n = (if n \<ge> 64 then - 1 else push_bit (nat n) 1 - 1)"

definition check_length :: "int \<Rightarrow> word64 \<Rightarrow> unit res" where
  "check_length n x =
     (if 0 \<le> n \<and> n < 64 \<and> \<bar>sint x\<bar> \<ge> 2 ^ nat n then Inl (Out_Of_Range ''public value too long'') else Inr ())"

definition load_clear :: "'x secret_ops \<Rightarrow> int \<Rightarrow> word64 \<Rightarrow> 'x res" where
  "load_clear A n x = bindE (check_length n x) (\<lambda>_. Inr (so_const A x))"

definition invert :: "'x secret_ops \<Rightarrow> int \<Rightarrow> 'x \<Rightarrow> 'x res" where
  "invert A n x = bindE (load_clear A 64 (- 1)) (\<lambda>ones. Inr (so_and A (so_xor A x ones) (get_mask n)))"

text \<open>The references of \<open>bitdec\<close> and \<open>bitcom\<close> may alias: the source register is read in every round.\<close>

definition bitdec :: "'x secret_ops \<Rightarrow> int list \<Rightarrow> int \<Rightarrow> 'x processor \<Rightarrow> 'x processor res" where
  "bitdec A regs r p =
     foldE (\<lambda>(i, d) p. bindE (getS r p) (\<lambda>x. bindE (so_shr A x i) (\<lambda>y. putS d (so_and A y 1) p)))
       (enumerate 0 regs) p"

definition bitcom :: "'x secret_ops \<Rightarrow> int list \<Rightarrow> int \<Rightarrow> 'x processor \<Rightarrow> 'x processor res" where
  "bitcom A regs r p =
     bindE (putS r (so_const A 0) p)
       (foldE (\<lambda>(i, s) p. bindE (getS s p) (\<lambda>x. bindE (so_shl A x i) (\<lambda>y.
          bindE (getS r p) (\<lambda>z. putS r (so_xor A z y) p)))) (enumerate 0 regs))"

definition bitdecc :: "int list \<Rightarrow> int \<Rightarrow> 'x processor \<Rightarrow> 'x processor res" where
  "bitdecc regs r p =
     foldE (\<lambda>(i, d) p. bindE (getC r p) (\<lambda>x. bindE (IntBase_shr x (of_nat i)) (\<lambda>y. putC d (y AND 1) p)))
       (enumerate 0 regs) p"

definition bitdecint :: "int list \<Rightarrow> int \<Rightarrow> 'x processor \<Rightarrow> 'x processor res" where
  "bitdecint regs r p =
     foldE (\<lambda>(i, d) p. bindE (getI r p) (\<lambda>x. bindE (IntBase_shr x (of_nat i)) (\<lambda>y. putI d (y AND 1) p)))
       (enumerate 0 regs) p"

subsection \<open>Processor operations\<close>

definition xors :: "'x secret_ops \<Rightarrow> int list \<Rightarrow> 'x processor \<Rightarrow> 'x processor res" where
  "xors A args p =
     bindE (check_args args 4) (\<lambda>_.
     foldE (\<lambda>(n, d, l, r). foldE (\<lambda>j p. bindE (getS (l + int j) p) (\<lambda>x. bindE (getS (r + int j) p) (\<lambda>y.
         putS (d + int j) (so_xor A x y) p))) [0..<n_units n]) (chunks4 args) p)"

definition nots :: "'x secret_ops \<Rightarrow> instruction \<Rightarrow> 'x processor \<Rightarrow> 'x processor res" where
  "nots A ins p =
     foldE (\<lambda>j p. bindE (getS (get_r ins 1 + int j) p) (\<lambda>x. bindE (invert A (unit_length (IMM_int ins) j) x) (\<lambda>y.
       putS (get_r ins 0 + int j) y p))) [0..<n_units (IMM_int ins)] p"

text \<open>Every \<^verbatim>\<open>ReadAccess\<close> adds its length to the complexity, a \<^verbatim>\<open>size_t\<close>.\<close>

definition add_load_complexity :: "(int \<times> int \<times> int) list \<Rightarrow> 'x processor \<Rightarrow> 'x processor" where
  "add_load_complexity acc p =
     p\<lparr>p_complexity := nat ((int (p_complexity p) + sum_list (map (\<lambda>(d, a, l). l) acc)) mod 2 ^ 64)\<rparr>"

definition load_direct :: "int list \<Rightarrow> 'x processor \<Rightarrow> 'x processor res" where
  "load_direct args p =
     bindE (check_args args 3) (\<lambda>_.
     bindE (mapE (\<lambda>(d, a, l). bindE (getS d p) (\<lambda>_. Inr (d, a, l))) (chunks3 args)) (\<lambda>acc.
     foldE (\<lambda>(d, a, l) p. bindE (getMD a p) (\<lambda>x. putS d x p)) acc
       (add_load_complexity acc p)))"

definition load_indirect :: "int list \<Rightarrow> 'x processor \<Rightarrow> 'x processor res" where
  "load_indirect args p =
     bindE (check_args args 3) (\<lambda>_.
     bindE (mapE (\<lambda>(d, a, l). bindE (getS d p) (\<lambda>_. bindE (getC a p) (\<lambda>c. Inr (d, sint c, l)))) (chunks3 args)) (\<lambda>acc.
     foldE (\<lambda>(d, a, l) p. bindE (getMD a p) (\<lambda>x. putS d x p)) acc
       (add_load_complexity acc p)))"

definition add_store_complexity :: "int list \<Rightarrow> 'x processor \<Rightarrow> 'x processor" where
  "add_store_complexity args p = p\<lparr>p_complexity := p_complexity p + length (chunks2 args) div 2 * 64\<rparr>"

definition store_direct :: "int list \<Rightarrow> 'x processor \<Rightarrow> 'x processor res" where
  "store_direct args p =
     bindE (check_args args 2) (\<lambda>_.
     bindE (mapE (\<lambda>(s, a). bindE (getS s p) (\<lambda>x. Inr (a, x))) (chunks2 args)) (\<lambda>acc.
     bindE (foldE (\<lambda>(a, x). putMD a x) acc p) (\<lambda>p. Inr (add_store_complexity args p))))"

definition store_indirect :: "int list \<Rightarrow> 'x processor \<Rightarrow> 'x processor res" where
  "store_indirect args p =
     bindE (check_args args 2) (\<lambda>_.
     bindE (mapE (\<lambda>(s, a). bindE (getC a p) (\<lambda>c. bindE (getS s p) (\<lambda>x. Inr (sint c, x)))) (chunks2 args)) (\<lambda>acc.
     bindE (foldE (\<lambda>(a, x). putMD a x) acc p) (\<lambda>p. Inr (add_store_complexity args p))))"

definition store_clear_in_dynamic :: "'x secret_ops \<Rightarrow> int list \<Rightarrow> 'x processor \<Rightarrow> 'x processor res" where
  "store_clear_in_dynamic A args p =
     bindE (check_args args 2) (\<lambda>_.
     bindE (mapE (\<lambda>(s, a). bindE (getC a p) (\<lambda>c. bindE (getC s p) (\<lambda>x. Inr (sint c, x)))) (chunks2 args)) (\<lambda>acc.
     foldE (\<lambda>(a, x). putMD a (so_const A x)) acc p))"

definition mem_op :: "int \<Rightarrow> (int \<Rightarrow> 'v \<Rightarrow> 'x processor \<Rightarrow> 'x processor res) \<Rightarrow> (int \<Rightarrow> 'x processor \<Rightarrow> 'v res)
    \<Rightarrow> int \<Rightarrow> int \<Rightarrow> 'x processor \<Rightarrow> 'x processor res" where
  "mem_op n put get dest source p =
     foldE (\<lambda>i p. bindE (get (source + int i) p) (\<lambda>x. put (dest + int i) x p)) [0..<nat n] p"

text \<open>Transposition of a bit matrix, block by block.\<close>

definition trans_block :: "'x secret_ops \<Rightarrow> nat \<Rightarrow> int list \<Rightarrow> nat \<Rightarrow> nat \<Rightarrow> 'x processor \<Rightarrow> 'x processor res" where
  "trans_block A n_outputs args j l p =
     (let ins = take 64 (drop (n_outputs + l * 64) args);
          outs = take (min n_outputs (j * 64 + 64) - j * 64) (drop (j * 64) args)
      in bindE (mapE (\<lambda>a. getS (a + int j) p) ins) (\<lambda>rows.
         foldE (\<lambda>(a, x). putS (a + int l) x)
           (zip outs (so_trans A (min 64 (length args - n_outputs - l * 64)) (min 64 (n_outputs - j * 64)) rows)) p))"

definition trans :: "'x secret_ops \<Rightarrow> int \<Rightarrow> int list \<Rightarrow> 'x processor \<Rightarrow> 'x processor res" where
  "trans A n args p =
     (if n < 0 \<or> int (length args) < n then Inl (Undefined_Behaviour ''TRANS arguments'')
      else foldE (\<lambda>j. foldE (\<lambda>l. trans_block A (nat n) args j l)
             [0..<DIV_CEIL (length args - nat n) 64]) [0..<DIV_CEIL (nat n) 64] p)"

subsection \<open>Output\<close>

definition emit :: "out_item \<Rightarrow> 'x processor \<Rightarrow> 'x processor" where
  "emit x p = p\<lparr>p_out := p_out p @ [x]\<rparr>"

fun get_all :: "(int \<Rightarrow> word64 res) \<Rightarrow> int \<Rightarrow> nat \<Rightarrow> word64 list res" where
  "get_all g r 0 = Inr []"
| "get_all g r (Suc k) = bindE (g r) (\<lambda>x. bindE (get_all g (r + 1) k) (\<lambda>xs. Inr (x # xs)))"

definition limbs_value :: "word64 list \<Rightarrow> int" where
  "limbs_value ws = foldr (\<lambda>w acc. uint w + 2 ^ 64 * acc) ws 0"

definition print_reg :: "int \<Rightarrow> int \<Rightarrow> int \<Rightarrow> 'x processor \<Rightarrow> 'x processor res" where
  "print_reg reg n sz p =
     bindE (get_all (\<lambda>r. getC r p) reg (nat sz)) (\<lambda>ws. Inr (emit (Out_Str n) (emit (Out_Reg reg (limbs_value ws)) p)))"

definition print_reg_signed :: "int \<Rightarrow> int \<Rightarrow> 'x processor \<Rightarrow> 'x processor res" where
  "print_reg_signed n_bits reg p =
     (if n_bits \<le> 64
      then bindE (getC reg p) (\<lambda>v.
           let s = (if n_bits > 1 then nat (64 - n_bits) else 0)
           in Inr (emit (Out_Signed (sint (signed_drop_bit s (push_bit s v)))) p))
      else bindE (get_all (\<lambda>r. getC r p) reg (n_units n_bits)) (\<lambda>ws.
           let t = limbs_value ws
           in Inr (emit (Out_Signed (if t \<ge> 2 ^ nat (n_bits - 1) then t - 2 ^ nat n_bits else t)) p)))"

definition print_float :: "int list \<Rightarrow> 'x processor \<Rightarrow> 'x processor res" where
  "print_float args p =
     bindE (mapE (\<lambda>i. bindE (nthE args i) (\<lambda>a. getC a p)) [0, 1, 2, 3, 4]) (\<lambda>ws. Inr (emit (Out_Float ws) p))"

subsection \<open>Local instructions\<close>

definition jump :: "int \<Rightarrow> 'x processor \<Rightarrow> 'x processor" where
  "jump offset p = p\<lparr>p_PC := p_PC p + word_of_int offset\<rparr>"

definition pushi :: "word64 \<Rightarrow> 'x processor \<Rightarrow> 'x processor" where
  "pushi x p = p\<lparr>p_stack := x # p_stack p\<rparr>"

definition popi :: "'x processor \<Rightarrow> (word64 \<times> 'x processor) res" where
  "popi p = (case p_stack p of [] \<Rightarrow> Inl (Undefined_Behaviour ''empty stack'') | x # xs \<Rightarrow> Inr (x, p\<lparr>p_stack := xs\<rparr>))"

definition clear_op :: "(word64 \<Rightarrow> word64 res) \<Rightarrow> instruction \<Rightarrow> 'x processor \<Rightarrow> 'x processor res" where
  "clear_op f ins p = bindE (getC (get_r ins 1) p) (\<lambda>x. bindE (f x) (\<lambda>y. putC (get_r ins 0) y p))"

definition int_op :: "(word64 \<Rightarrow> word64 \<Rightarrow> word64 res) \<Rightarrow> instruction \<Rightarrow> 'x processor \<Rightarrow> 'x processor res" where
  "int_op f ins p = bindE (getI (get_r ins 1) p) (\<lambda>x. bindE (getI (get_r ins 2) p) (\<lambda>y. bindE (f x y) (\<lambda>z. putI (get_r ins 0) z p)))"

definition int_op1 :: "(word64 \<Rightarrow> word64 res) \<Rightarrow> instruction \<Rightarrow> 'x processor \<Rightarrow> 'x processor res" where
  "int_op1 f ins p = bindE (getI (get_r ins 1) p) (\<lambda>x. bindE (f x) (\<lambda>z. putI (get_r ins 0) z p))"

text \<open>The instructions that only one party is involved in; the others (\<open>shared_codes\<close>) are in \<open>GCThread\<close>.\<close>

definition shared_codes :: "nat list" where
  "shared_codes = [ANDRS, ANDS, BITB, REVEAL, INPUTB]"

definition execute_gc :: "'x secret_ops \<Rightarrow> instruction \<Rightarrow> 'x processor \<Rightarrow> 'x processor res" where
  "execute_gc A ins p =
     (let opc = i_opcode ins in
      if opc = LDMSD then load_direct (i_start ins) p
      else if opc = STMSD then store_direct (i_start ins) p
      else if opc = LDMSDI then load_indirect (i_start ins) p
      else if opc = STMSDI then store_indirect (i_start ins) p
      else if opc = STMSDCI then store_clear_in_dynamic A (i_start ins) p
      else if opc = CONVSINT then bindE (getI (get_r ins 1) p) (\<lambda>x. bindE (load_clear A (IMM_int ins) x) (\<lambda>y. putS (get_r ins 0) y p))
      else if opc = CONVCINT then bindE (getI (get_r ins 1) p) (\<lambda>x. putC (get_r ins 0) x p)
      else if opc = CONVCBIT then bindE (getC (get_r ins 1) p) (\<lambda>x. putI (get_r ins 0) x p)
      else if opc = PRINTCHR then Inr (emit (Out_Chr (IMM_int ins)) p)
      else if opc = PRINTSTR then Inr (emit (Out_Str (IMM_int ins)) p)
      else if opc = PRINTINT then bindE (getI (get_r ins 0) p) (\<lambda>x. Inr (emit (Out_Int x) p))
      else if opc = LDINT then putI (get_r ins 0) (word_of_int (IMM_int ins)) p
      else if opc = ADDINT then int_op (\<lambda>x y. Inr (Integer_add x y)) ins p
      else if opc = SUBINT then int_op (\<lambda>x y. Inr (Integer_sub x y)) ins p
      else if opc = MULINT then int_op (\<lambda>x y. Inr (Integer_mul x y)) ins p
      else if opc = DIVINT then int_op Integer_div ins p
      else if opc = JMP then Inr (jump (IMM ins) p)
      else if opc = JMPNZ then bindE (getI (get_r ins 0) p) (\<lambda>x. Inr (if x \<noteq> 0 then jump (IMM ins) p else p))
      else if opc = JMPEQZ then bindE (getI (get_r ins 0) p) (\<lambda>x. Inr (if x = 0 then jump (IMM ins) p else p))
      else if opc = EQZC then int_op1 (\<lambda>x. Inr (of_bool (x = 0))) ins p
      else if opc = LTZC then int_op1 (\<lambda>x. Inr (of_bool (Integer_lt x 0))) ins p
      else if opc = LTC then int_op (\<lambda>x y. Inr (of_bool (Integer_lt x y))) ins p
      else if opc = GTC then int_op (\<lambda>x y. Inr (of_bool (Integer_gt x y))) ins p
      else if opc = EQC then int_op (\<lambda>x y. Inr (of_bool (IntBase_eq x y))) ins p
      else if opc = JMPI then bindE (getI (get_r ins 0) p) (\<lambda>x. Inr (jump (sint x) p))
      else if opc = LDMINT then bindE (getMI (IMM ins) p) (\<lambda>x. putI (get_r ins 0) x p)
      else if opc = STMINT then bindE (getI (get_r ins 0) p) (\<lambda>x. putMI (IMM ins) x p)
      else if opc = LDMINTI then bindE (getI (get_r ins 1) p) (\<lambda>a. bindE (getMI (sint a) p) (\<lambda>x. putI (get_r ins 0) x p))
      else if opc = STMINTI then bindE (getI (get_r ins 1) p) (\<lambda>a. bindE (getI (get_r ins 0) p) (\<lambda>x. putMI (sint a) x p))
      else if opc = PUSHINT then bindE (getI (get_r ins 0) p) (\<lambda>x. Inr (pushi x p))
      else if opc = POPINT then bindE (popi p) (\<lambda>(x, p1). putI (get_r ins 0) x p1)
      else if opc = MOVINT then bindE (getI (get_r ins 1) p) (\<lambda>x. putI (get_r ins 0) x p)
      else if opc = BITDECINT then bitdecint (i_start ins) (get_r ins 0) p
      else if opc = LDARG then putI (get_r ins 0) (scast (p_arg p)) p
      else if opc = STARG then bindE (getI (get_r ins 0) p) (\<lambda>x. Inr (p\<lparr>p_arg := ucast x\<rparr>))
      else if opc = PRINTFLOATPREC then Inr (emit (Out_Float_Prec (IMM_int ins)) p)
      else if opc \<in> {TIME, START, STOP} then Inr (emit (Out_Timer opc (IMM_int ins)) p)
      else if opc = RUN_TAPE then Inr (emit (Run_Tape (get_r ins 0) (IMM_int ins) (get_r ins 1)) p)
      else if opc = JOIN_TAPE then Inr (emit (Join_Tape (get_r ins 0)) p)
      else if opc \<in> {GLDMS, GLDMC, LDMS, LDMC, STARTGRIND, STOPGRIND, USE} then Inr p
      else Inr (emit (Out_Undefined opc) p))"

definition execute_local :: "'x secret_ops \<Rightarrow> instruction \<Rightarrow> 'x processor \<Rightarrow> 'x processor res" where
  "execute_local A ins p =
     (let opc = i_opcode ins in
      if opc = XORS then xors A (i_start ins) p
      else if opc = XORCB then bindE (getC (get_r ins 2) p) (\<lambda>y. clear_op (\<lambda>x. Inr (x XOR y)) ins p)
      else if opc = XORCBI then clear_op (\<lambda>x. Inr (x XOR word_of_int (IMM ins))) ins p
      else if opc = NOTS then nots A ins p
      else if opc = ADDCB then bindE (getC (get_r ins 2) p) (\<lambda>y. clear_op (\<lambda>x. Inr (x + y)) ins p)
      else if opc = ADDCBI then clear_op (\<lambda>x. Inr (x + word_of_int (IMM_int ins))) ins p
      else if opc = MULCBI then clear_op (\<lambda>x. Inr (x * word_of_int (IMM_int ins))) ins p
      else if opc = BITDECS then bitdec A (i_start ins) (get_r ins 0) p
      else if opc = BITCOMS then bitcom A (i_start ins) (get_r ins 0) p
      else if opc = BITDECC then bitdecc (i_start ins) (get_r ins 0) p
      else if opc = SHRCBI then clear_op (\<lambda>x. IntBase_shr x (word_of_int (IMM ins))) ins p
      else if opc = SHLCBI then clear_op (\<lambda>x. IntBase_shl x (word_of_int (IMM ins))) ins p
      else if opc = LDBITS then bindE (load_clear A (get_r ins 1) (word_of_int (IMM ins))) (\<lambda>x. putS (get_r ins 0) x p)
      else if opc = LDMSB then mem_op (i_size ins) putS getMS (get_r ins 0) (IMM ins) p
      else if opc = STMSB then mem_op (i_size ins) putMS getS (IMM ins) (get_r ins 0) p
      else if opc = LDMCB then mem_op (i_size ins) putC getMC (get_r ins 0) (IMM ins) p
      else if opc = STMCB then mem_op (i_size ins) putMC getC (IMM ins) (get_r ins 0) p
      else if opc = LDMSBI then bindE (getI (get_r ins 1) p) (\<lambda>a. mem_op (i_size ins) putS getMS (get_r ins 0) (sint a) p)
      else if opc = STMSBI then bindE (getI (get_r ins 1) p) (\<lambda>a. mem_op (i_size ins) putMS getS (sint a) (get_r ins 0) p)
      else if opc = MOVSB then bindE (getS (get_r ins 1) p) (\<lambda>x. putS (get_r ins 0) x p)
      else if opc = TRANS then trans A (IMM_int ins) (i_start ins) p
      else if opc = PRINTREGSIGNED then print_reg_signed (IMM ins) (get_r ins 0) p
      else if opc = PRINTREGB then print_reg (get_r ins 0) (IMM_int ins) (i_size ins) p
      else if opc = PRINTREGPLAINB then bindE (getC (get_r ins 0) p) (\<lambda>x. Inr (emit (Out_Hex x) p))
      else if opc = CONDPRINTSTRB then bindE (getC (get_r ins 0) p) (\<lambda>x. Inr (if x \<noteq> 0 then emit (Out_Str (IMM_int ins)) p else p))
      else if opc = PRINTFLOATPLAINB then print_float (i_start ins) p
      else execute_gc A ins p)"

end
