(* ===== verification/GCHom.thy ===== *)
theory GCHom
  imports GCProcessor
begin

text \<open>
  The machine is generic in its secrets: a map between two secret types that commutes with
  the operations on secrets commutes with every local instruction, errors included. The
  interface is a locale; the shares of a party and the values they stand for are its
  instances (\<open>GCShares\<close>).
\<close>

unbundle bit_operations_syntax

subsection \<open>Mapping results and processors\<close>

definition map_res :: "('a \<Rightarrow> 'b) \<Rightarrow> 'a res \<Rightarrow> 'b res" where
  "map_res h m = (case m of Inl e \<Rightarrow> Inl e | Inr x \<Rightarrow> Inr (h x))"

named_theorems hom_simps \<open>moving a map through the operations of the machine\<close>

lemma map_res_simps [simp]:
  "map_res h (Inl e) = Inl e"
  "map_res h (Inr x) = Inr (h x)"
  by (simp_all add: map_res_def)

lemma map_res_bindE [hom_simps]: "map_res h (bindE m f) = bindE m (\<lambda>x. map_res h (f x))"
  by (cases m) simp_all

lemma bindE_map_res [hom_simps]: "bindE (map_res h m) f = bindE m (\<lambda>x. f (h x))"
  by (cases m) simp_all

lemma map_res_eq_Inr: "map_res h m = Inr y \<longleftrightarrow> (\<exists>x. m = Inr x \<and> y = h x)"
  by (cases m) auto

lemma foldE_map_res:
  assumes "\<And>x s. x \<in> set xs \<Longrightarrow> f' x (h s) = map_res h (f x s)"
  shows "foldE f' xs (h s) = map_res h (foldE f xs s)"
  using assms
proof (induction xs arbitrary: s)
  case Nil
  then show ?case by simp
next
  case (Cons x xs)
  have "foldE f' xs (h t) = map_res h (foldE f xs t)" for t by (rule Cons.IH) (simp add: Cons.prems)
  with Cons.prems show ?case by (simp add: hom_simps)
qed

lemma mapE_map_res:
  "(\<And>x. f' x = map_res h (f x)) \<Longrightarrow> mapE f' xs = map_res (map h) (mapE f xs)"
  by (induction xs) (simp_all add: hom_simps)

definition map_proc :: "('x \<Rightarrow> 'y) \<Rightarrow> 'x processor \<Rightarrow> 'y processor" where
  "map_proc h p =
     \<lparr>rS = map h (rS p), rC = rC p, rI = rI p, mMS = map h (mMS p), mMC = mMC p, mMI = mMI p,
      mMD = map h (mMD p), p_PC = p_PC p, p_arg = p_arg p, p_stack = p_stack p, p_out = p_out p,
      p_complexity = p_complexity p\<rparr>"

lemma map_proc_simps [simp]:
  "rS (map_proc h p) = map h (rS p)" "rC (map_proc h p) = rC p" "rI (map_proc h p) = rI p"
  "mMS (map_proc h p) = map h (mMS p)" "mMC (map_proc h p) = mMC p" "mMI (map_proc h p) = mMI p"
  "mMD (map_proc h p) = map h (mMD p)" "p_PC (map_proc h p) = p_PC p" "p_arg (map_proc h p) = p_arg p"
  "p_stack (map_proc h p) = p_stack p" "p_out (map_proc h p) = p_out p"
  "p_complexity (map_proc h p) = p_complexity p"
  by (simp_all add: map_proc_def)

lemma map_proc_update [hom_simps]:
  "(map_proc h p)\<lparr>p_PC := i\<rparr> = map_proc h (p\<lparr>p_PC := i\<rparr>)"
  "(map_proc h p)\<lparr>p_arg := i\<rparr> = map_proc h (p\<lparr>p_arg := i\<rparr>)"
  "(map_proc h p)\<lparr>p_stack := ws\<rparr> = map_proc h (p\<lparr>p_stack := ws\<rparr>)"
  "(map_proc h p)\<lparr>p_out := out\<rparr> = map_proc h (p\<lparr>p_out := out\<rparr>)"
  "(map_proc h p)\<lparr>p_complexity := c\<rparr> = map_proc h (p\<lparr>p_complexity := c\<rparr>)"
  "(map_proc h p)\<lparr>rC := ws\<rparr> = map_proc h (p\<lparr>rC := ws\<rparr>)"
  "(map_proc h p)\<lparr>rI := ws\<rparr> = map_proc h (p\<lparr>rI := ws\<rparr>)"
  "(map_proc h p)\<lparr>mMC := ws\<rparr> = map_proc h (p\<lparr>mMC := ws\<rparr>)"
  "(map_proc h p)\<lparr>mMI := ws\<rparr> = map_proc h (p\<lparr>mMI := ws\<rparr>)"
  "(map_proc h p)\<lparr>rS := map h xs\<rparr> = map_proc h (p\<lparr>rS := xs\<rparr>)"
  "(map_proc h p)\<lparr>mMS := map h xs\<rparr> = map_proc h (p\<lparr>mMS := xs\<rparr>)"
  "(map_proc h p)\<lparr>mMD := map h xs\<rparr> = map_proc h (p\<lparr>mMD := xs\<rparr>)"
  by (simp_all add: map_proc_def)

lemma memory_map [hom_simps]:
  "memory_get (map h xs) i = map_res h (memory_get xs i)"
  "memory_put (map h xs) i (h x) = map_res (map h) (memory_put xs i x)"
  by (auto simp: memory_get_def memory_put_def nthE_def updE_def map_update)

lemmas access_defs = getS_def getC_def getI_def putS_def putC_def putI_def getMS_def putMS_def getMC_def
  putMC_def getMI_def putMI_def getMD_def putMD_def

lemma access_map [hom_simps]:
  "getS i (map_proc h p) = map_res h (getS i p)"
  "getC i (map_proc h p) = getC i p"
  "getI i (map_proc h p) = getI i p"
  "getMS i (map_proc h p) = map_res h (getMS i p)"
  "getMC i (map_proc h p) = getMC i p"
  "getMI i (map_proc h p) = getMI i p"
  "getMD i (map_proc h p) = map_res h (getMD i p)"
  "putS i (h x) (map_proc h p) = map_res (map_proc h) (putS i x p)"
  "putC i w (map_proc h p) = map_res (map_proc h) (putC i w p)"
  "putI i w (map_proc h p) = map_res (map_proc h) (putI i w p)"
  "putMS i (h x) (map_proc h p) = map_res (map_proc h) (putMS i x p)"
  "putMC i w (map_proc h p) = map_res (map_proc h) (putMC i w p)"
  "putMI i w (map_proc h p) = map_res (map_proc h) (putMI i w p)"
  "putMD i (h x) (map_proc h p) = map_res (map_proc h) (putMD i x p)"
  by (simp_all add: access_defs hom_simps)

lemma get_all_map [hom_simps]: "get_all (\<lambda>r. getC r (map_proc h p)) r k = get_all (\<lambda>r. getC r p) r k"
  by (simp add: hom_simps)

lemma simple_ops_map [hom_simps]:
  "emit x (map_proc h p) = map_proc h (emit x p)"
  "jump i (map_proc h p) = map_proc h (jump i p)"
  "pushi w (map_proc h p) = map_proc h (pushi w p)"
  by (simp_all add: emit_def jump_def pushi_def hom_simps)

lemma map_res_if [hom_simps]: "map_res h (if b then x else y) = (if b then map_res h x else map_res h y)"
  by simp

lemma Inr_if [hom_simps]: "Inr (if b then x else y) = (if b then Inr x else Inr y)"
  by simp

lemma popi_map: "bindE (popi (map_proc h p)) (\<lambda>(x, p1). putI i x p1) = map_res (map_proc h) (bindE (popi p) (\<lambda>(x, p1). putI i x p1))"
  by (simp add: popi_def hom_simps split: list.split)

lemma register_ops_map [hom_simps]:
  "clear_op f ins (map_proc h p) = map_res (map_proc h) (clear_op f ins p)"
  "int_op g ins (map_proc h p) = map_res (map_proc h) (int_op g ins p)"
  "int_op1 f ins (map_proc h p) = map_res (map_proc h) (int_op1 f ins p)"
  by (simp_all add: clear_op_def int_op_def int_op1_def hom_simps)

lemma bit_ops_map [hom_simps]:
  "bitdecc regs r (map_proc h p) = map_res (map_proc h) (bitdecc regs r p)"
  "bitdecint regs r (map_proc h p) = map_res (map_proc h) (bitdecint regs r p)"
  unfolding bitdecc_def bitdecint_def
  by (rule foldE_map_res, clarsimp simp: hom_simps)+

lemma mem_op_map [hom_simps]:
  "mem_op n putS getMS a b (map_proc h p) = map_res (map_proc h) (mem_op n putS getMS a b p)"
  "mem_op n putMS getS a b (map_proc h p) = map_res (map_proc h) (mem_op n putMS getS a b p)"
  "mem_op n putC getMC a b (map_proc h p) = map_res (map_proc h) (mem_op n putC getMC a b p)"
  "mem_op n putMC getC a b (map_proc h p) = map_res (map_proc h) (mem_op n putMC getC a b p)"
  unfolding mem_op_def
  by (rule foldE_map_res, simp add: hom_simps)+

lemma print_ops_map [hom_simps]:
  "print_reg r n sz (map_proc h p) = map_res (map_proc h) (print_reg r n sz p)"
  "print_reg_signed n r (map_proc h p) = map_res (map_proc h) (print_reg_signed n r p)"
  "print_float args (map_proc h p) = map_res (map_proc h) (print_float args p)"
  by (simp_all add: print_reg_def print_reg_signed_def print_float_def hom_simps Let_def)


lemma mapE_map_res_pair:
  "(\<And>x. f' x = map_res (map_prod id h) (f x)) \<Longrightarrow> mapE f' xs = map_res (map (map_prod id h)) (mapE f xs)"
  by (rule mapE_map_res)

lemma load_map [hom_simps]:
  "load_direct args (map_proc h p) = map_res (map_proc h) (load_direct args p)"
  "load_indirect args (map_proc h p) = map_res (map_proc h) (load_indirect args p)"
proof -
  have F: "foldE (\<lambda>(d, a, l) p. bindE (getMD a p) (\<lambda>x. putS d x p)) acc (map_proc h q)
      = map_res (map_proc h) (foldE (\<lambda>(d, a, l) p. bindE (getMD a p) (\<lambda>x. putS d x p)) acc q)" for acc :: "(int \<times> int \<times> int) list" and q
    by (rule foldE_map_res) (clarsimp simp: hom_simps)
  show "load_direct args (map_proc h p) = map_res (map_proc h) (load_direct args p)"
    "load_indirect args (map_proc h p) = map_res (map_proc h) (load_indirect args p)"
    unfolding load_direct_def load_indirect_def add_load_complexity_def by (simp_all add: hom_simps F)
qed

lemma store_fold_map:
  "foldE (\<lambda>(a, x). putMD a x) (map (map_prod id h) acc) (map_proc h q)
     = map_res (map_proc h) (foldE (\<lambda>(a, x). putMD a x) acc q)"
  by (induction acc arbitrary: q) (auto simp: hom_simps)

lemma store_map [hom_simps]:
  "store_direct args (map_proc h p) = map_res (map_proc h) (store_direct args p)"
  "store_indirect args (map_proc h p) = map_res (map_proc h) (store_indirect args p)"
proof -
  have D: "mapE (\<lambda>(s, a). bindE (getS s (map_proc h p)) (\<lambda>x. Inr (a, x))) xs
      = map_res (map (map_prod id h)) (mapE (\<lambda>(s, a). bindE (getS s p) (\<lambda>x. Inr (a, x))) xs)" for xs :: "(int \<times> int) list"
    by (rule mapE_map_res) (clarsimp simp: hom_simps)
  have I: "mapE (\<lambda>(s, a). bindE (getC a (map_proc h p)) (\<lambda>c. bindE (getS s (map_proc h p)) (\<lambda>x. Inr (sint c, x)))) xs
      = map_res (map (map_prod id h)) (mapE (\<lambda>(s, a). bindE (getC a p) (\<lambda>c. bindE (getS s p) (\<lambda>x. Inr (sint c, x)))) xs)" for xs :: "(int \<times> int) list"
    by (rule mapE_map_res) (clarsimp simp: hom_simps)
  show "store_direct args (map_proc h p) = map_res (map_proc h) (store_direct args p)"
    unfolding store_direct_def D by (simp add: hom_simps store_fold_map add_store_complexity_def)
  show "store_indirect args (map_proc h p) = map_res (map_proc h) (store_indirect args p)"
    unfolding store_indirect_def I by (simp add: hom_simps store_fold_map add_store_complexity_def)
qed

subsection \<open>Maps that commute with the operations on secrets\<close>

locale secret_hom =
  fixes A :: "'x secret_ops" and B :: "'y secret_ops" and h :: "'x \<Rightarrow> 'y"
  assumes const_hom: "so_const B w = h (so_const A w)"
    and xor_hom: "so_xor B (h x) (h y) = h (so_xor A x y)"
    and and_hom: "so_and B (h x) w = h (so_and A x w)"
    and shl_hom: "so_shl B (h x) i = map_res h (so_shl A x i)"
    and shr_hom: "so_shr B (h x) i = map_res h (so_shr A x i)"
    and trans_hom: "so_trans B m n (map h xs) = map h (so_trans A m n xs)"
begin

lemmas ops_hom = const_hom xor_hom and_hom shl_hom shr_hom trans_hom hom_simps

lemma load_clear_hom: "load_clear B n w = map_res h (load_clear A n w)"
  by (simp add: load_clear_def ops_hom)

lemma invert_hom: "invert B n (h x) = map_res h (invert A n x)"
  by (simp add: invert_def load_clear_hom ops_hom)

lemma bitdec_hom: "bitdec B regs r (map_proc h p) = map_res (map_proc h) (bitdec A regs r p)"
  unfolding bitdec_def by (rule foldE_map_res) (clarsimp simp: ops_hom)

lemma bitcom_hom: "bitcom B regs r (map_proc h p) = map_res (map_proc h) (bitcom A regs r p)"
proof -
  have "foldE (\<lambda>(i, s) p. bindE (getS s p) (\<lambda>x. bindE (so_shl B x i) (\<lambda>y. bindE (getS r p) (\<lambda>z. putS r (so_xor B z y) p)))) xs (map_proc h q)
    = map_res (map_proc h) (foldE (\<lambda>(i, s) p. bindE (getS s p) (\<lambda>x. bindE (so_shl A x i) (\<lambda>y. bindE (getS r p) (\<lambda>z. putS r (so_xor A z y) p)))) xs q)"
    for xs :: "(nat \<times> int) list" and q
    by (rule foldE_map_res) (clarsimp simp: ops_hom)
  then show ?thesis unfolding bitcom_def by (simp add: ops_hom)
qed

lemma xors_hom: "xors B args (map_proc h p) = map_res (map_proc h) (xors A args p)"
proof -
  have F: "foldE (\<lambda>j p. bindE (getS (l + int j) p) (\<lambda>x. bindE (getS (r + int j) p) (\<lambda>y. putS (d + int j) (so_xor B x y) p))) js (map_proc h q)
    = map_res (map_proc h) (foldE (\<lambda>j p. bindE (getS (l + int j) p) (\<lambda>x. bindE (getS (r + int j) p) (\<lambda>y. putS (d + int j) (so_xor A x y) p))) js q)"
    for l r d js q
    by (rule foldE_map_res) (simp add: ops_hom)
  have "foldE (\<lambda>(n, d, l, r). foldE (\<lambda>j p. bindE (getS (l + int j) p) (\<lambda>x. bindE (getS (r + int j) p) (\<lambda>y. putS (d + int j) (so_xor B x y) p))) [0..<n_units n]) xs (map_proc h p)
    = map_res (map_proc h) (foldE (\<lambda>(n, d, l, r). foldE (\<lambda>j p. bindE (getS (l + int j) p) (\<lambda>x. bindE (getS (r + int j) p) (\<lambda>y. putS (d + int j) (so_xor A x y) p))) [0..<n_units n]) xs p)" for xs
    by (rule foldE_map_res) (auto simp: F)
  then show ?thesis unfolding xors_def by (simp add: hom_simps)
qed

lemma nots_hom: "nots B ins (map_proc h p) = map_res (map_proc h) (nots A ins p)"
  unfolding nots_def by (rule foldE_map_res) (simp add: ops_hom invert_hom)

lemma store_clear_hom: "store_clear_in_dynamic B args (map_proc h p) = map_res (map_proc h) (store_clear_in_dynamic A args p)"
proof -
  have "foldE (\<lambda>(a, x). putMD a (so_const B x)) acc (map_proc h p) = map_res (map_proc h) (foldE (\<lambda>(a, x). putMD a (so_const A x)) acc p)"
    for acc :: "(int \<times> word64) list"
    by (rule foldE_map_res) (auto simp: ops_hom)
  then show ?thesis unfolding store_clear_in_dynamic_def by (simp add: hom_simps)
qed

lemma trans_block_hom: "trans_block B n args j l (map_proc h p) = map_res (map_proc h) (trans_block A n args j l p)"
proof -
  let ?ins = "take 64 (drop (n + l * 64) args)" and ?outs = "take (min n (j * 64 + 64) - j * 64) (drop (j * 64) args)"
  have M: "mapE (\<lambda>a. getS (a + int j) (map_proc h p)) ?ins = map_res (map h) (mapE (\<lambda>a. getS (a + int j) p) ?ins)"
    by (rule mapE_map_res) (simp add: hom_simps)
  have "foldE (\<lambda>(a, x). putS (a + int l) x) (zip as (map h xs)) (map_proc h p) = map_res (map_proc h) (foldE (\<lambda>(a, x). putS (a + int l) x) (zip as xs) p)"
    for as xs
  proof (induction as arbitrary: xs p)
    case Nil
    then show ?case by simp
  next
    case (Cons a as)
    then show ?case by (cases xs) (simp_all add: hom_simps)
  qed
  then show ?thesis unfolding trans_block_def Let_def M by (simp add: ops_hom)
qed

lemma trans_hom': "trans B n args (map_proc h p) = map_res (map_proc h) (trans A n args p)"
proof -
  have "foldE (trans_block B (nat n) args j) ls (map_proc h q) = map_res (map_proc h) (foldE (trans_block A (nat n) args j) ls q)" for j ls q
    by (rule foldE_map_res) (simp add: trans_block_hom)
  note inner = this
  have "foldE (\<lambda>j. foldE (trans_block B (nat n) args j) ls) js (map_proc h p)
      = map_res (map_proc h) (foldE (\<lambda>j. foldE (trans_block A (nat n) args j) ls) js p)" for js ls
    by (rule foldE_map_res, rule inner)
  then show ?thesis unfolding trans_def by simp
qed

lemmas instruction_homs = load_clear_hom bitdec_hom bitcom_hom xors_hom nots_hom store_clear_hom trans_hom' hom_simps popi_map

lemma execute_gc_hom: "execute_gc B ins (map_proc h p) = map_res (map_proc h) (execute_gc A ins p)"
  unfolding execute_gc_def Let_def if_distrib [of "map_res (map_proc h)"]
  by (intro if_cong refl) (simp_all add: instruction_homs cong: if_cong)

lemma execute_local_hom: "execute_local B ins (map_proc h p) = map_res (map_proc h) (execute_local A ins p)"
  unfolding execute_local_def Let_def if_distrib [of "map_res (map_proc h)"]
  by (intro if_cong refl) (simp_all add: instruction_homs execute_gc_hom cong: if_cong)

end

end
