(* ===== verification/Square64.thy ===== *)
theory Square64
  imports BitVec
begin

text \<open>
  \<^verbatim>\<open>GC/square64.h\<close> and \<^verbatim>\<open>GC/square64.cpp\<close>: the transposition of a 64 by 64 bit
  matrix with 256-bit vector instructions. A square is its list of 64 rows; a vector
  register is the list of its 32 octets. The vector instructions are written out as the
  processor manual describes them: interleaving within each 128-bit half, the mask of the top
  bits, and the shift of each 64-bit part. The theorem is that all the shuffling computes
  the transpose.
\<close>

unbundle bit_operations_syntax

subsection \<open>Vector instructions\<close>

definition interleave :: "nat \<Rightarrow> 'a list \<Rightarrow> 'a list \<Rightarrow> 'a list" where
  "interleave u xs ys =
     concat (map (\<lambda>i. take u (drop (u * i) xs) @ take u (drop (u * i) ys)) [0..<8 div u])"

definition unpacklo :: "nat \<Rightarrow> 'a list \<Rightarrow> 'a list \<Rightarrow> 'a list" where
  "unpacklo u a b =
     interleave u (take 8 a) (take 8 b) @ interleave u (take 8 (drop 16 a)) (take 8 (drop 16 b))"

definition unpackhi :: "nat \<Rightarrow> 'a list \<Rightarrow> 'a list \<Rightarrow> 'a list" where
  "unpackhi u a b =
     interleave u (take 8 (drop 8 a)) (take 8 (drop 8 b)) @ interleave u (drop 24 a) (drop 24 b)"

definition movemask :: "octet list \<Rightarrow> 32 word" where
  "movemask v = foldr (\<lambda>b acc. of_bool (bit b 7) OR push_bit 1 acc) v 0"

definition shift_parts :: "octet list \<Rightarrow> octet list" where
  "shift_parts v =
     concat (map (\<lambda>i. octets_of 8 (push_bit 1 (word_of_octets (take 8 (drop (8 * i) v))))) [0..<4])"

subsection \<open>The shuffling network\<close>

text \<open>\<open>zip_lanes\<close> is the function \<^verbatim>\<open>zip\<close>; chunk sizes other than those are an exception there and never used.\<close>

definition zip_lanes :: "nat \<Rightarrow> 'a list \<Rightarrow> 'a list \<Rightarrow> 'a list \<times> 'a list" where
  "zip_lanes chunk_size a b =
     (if chunk_size = 128 then (take 16 a @ take 16 b, drop 16 a @ drop 16 b)
      else (unpacklo (chunk_size div 8) a b, unpackhi (chunk_size div 8) a b))"

definition first_pair :: "nat \<Rightarrow> nat \<Rightarrow> nat \<times> nat" where
  "first_pair chunk_size j =
     (if chunk_size > 64 then (j, j + 4)
      else if chunk_size = 64 then (j div 2 * 2 + j, j div 2 * 2 + j + 2)
      else (2 * j, 2 * j + 1))"

definition second_pair :: "nat \<Rightarrow> nat \<Rightarrow> nat \<times> nat" where
  "second_pair chunk_size j =
     (if chunk_size = 8 then (j, j + 4)
      else if chunk_size = 64 \<or> chunk_size = 32 then (2 * j, 2 * j + 1)
      else (j div 2 * 2 + j, j div 2 * 2 + j + 2))"

definition shuffle_stage :: "(nat \<Rightarrow> nat \<Rightarrow> nat \<times> nat) \<Rightarrow> nat \<Rightarrow> 'a list list \<Rightarrow> 'a list list" where
  "shuffle_stage pair chunk_size x =
     (let zs = map (\<lambda>j. let (a, b) = pair chunk_size j in zip_lanes chunk_size (x ! a) (x ! b)) [0, 1, 2, 3]
      in map fst zs @ map snd zs)"

definition shuffle_network :: "'a list list \<Rightarrow> 'a list list" where
  "shuffle_network x =
     fold (shuffle_stage second_pair) [8, 16, 32, 64] (fold (shuffle_stage first_pair) [128, 64] x)"

definition load_vectors :: "'a list \<Rightarrow> 'a list list" where
  "load_vectors bytes = map (\<lambda>j. take 32 (drop (32 * j) bytes)) [0, 1, 2, 3, 4, 5, 6, 7]"

definition perm :: "nat list" where "perm = [0, 4, 2, 6, 1, 5, 3, 7]"

subsection \<open>Squares\<close>

type_synonym square64 = "word64 list"

definition square_get_bit :: "square64 \<Rightarrow> nat \<Rightarrow> nat \<Rightarrow> bool" where
  "square_get_bit sq x y \<longleftrightarrow> bit (octets_of 8 (sq ! x) ! (y div 8)) (y mod 8)"

definition set_half :: "nat \<Rightarrow> nat \<Rightarrow> 32 word \<Rightarrow> square64 \<Rightarrow> square64" where
  "set_half r y row sq =
     sq[r := (sq ! r AND NOT (push_bit (32 * y) (mask 32))) OR push_bit (32 * y) (ucast row)]"

text \<open>\<^verbatim>\<open>matrix32x8::transpose\<close>: eight rows of 32 bits, the highest bit first.\<close>

fun transpose_columns :: "nat \<Rightarrow> nat \<Rightarrow> nat \<Rightarrow> nat \<Rightarrow> octet list \<Rightarrow> square64 \<Rightarrow> square64" where
  "transpose_columns 0 j x y whole sq = sq"
| "transpose_columns (Suc k) j x y whole sq =
     transpose_columns k (Suc j) x y (shift_parts whole) (set_half (8 * x + 7 - j) y (movemask whole) sq)"

definition transpose_half :: "square64 \<Rightarrow> nat \<Rightarrow> nat \<Rightarrow> square64 \<Rightarrow> square64" where
  "transpose_half tmp n_cols k sq =
     (let x = shuffle_network (load_vectors (concat (map (octets_of 8) (take 32 (drop (32 * k) tmp)))))
      in fold (\<lambda>i. transpose_columns 8 0 i k (x ! (perm ! i))) [0..<DIV_CEIL n_cols 8] sq)"

definition square_transpose :: "nat \<Rightarrow> nat \<Rightarrow> square64 \<Rightarrow> square64 res" where
  "square_transpose n_rows n_cols sq =
     bindE (guardE (n_rows \<le> 64) (Assertion ''n_rows <= 64'')) (\<lambda>_.
     bindE (guardE (n_cols \<le> 64) (Assertion ''n_cols <= 64'')) (\<lambda>_.
     Inr (fold (transpose_half sq n_cols) [0..<DIV_CEIL n_rows 32] (replicate 64 0))))"

subsection \<open>The network moves column \<open>i\<close> of 32 rows into one vector\<close>

lemma interleave_map: "interleave u (map f xs) (map f ys) = map f (interleave u xs ys)"
  by (simp add: interleave_def map_concat comp_def take_map drop_map)

lemma zip_lanes_map: "zip_lanes c (map f a) (map f b) = map_prod (map f) (map f) (zip_lanes c a b)"
  by (simp add: zip_lanes_def unpacklo_def unpackhi_def take_map drop_map interleave_map)

lemma shuffle_stage_map:
  assumes "list_all (\<lambda>j. fst (pair c j) < length x \<and> snd (pair c j) < length x) [0, 1, 2, 3]"
  shows "shuffle_stage pair c (map (map f) x) = map (map f) (shuffle_stage pair c x)"
  using assms by (simp add: shuffle_stage_def Let_def split_beta zip_lanes_map fst_map_prod snd_map_prod)

lemma length_shuffle_stage [simp]: "length (shuffle_stage pair c x) = 8"
  by (simp add: shuffle_stage_def Let_def)

lemma shuffle_network_map:
  "length x = 8 \<Longrightarrow> shuffle_network (map (map f) x) = map (map f) (shuffle_network x)"
  by (simp add: shuffle_network_def shuffle_stage_map first_pair_def second_pair_def)

definition column_vectors :: "int list list" where
  "column_vectors = map (\<lambda>j. map (\<lambda>l. 8 * l + j) [0..31]) [0, 4, 2, 6, 1, 5, 3, 7]"

lemma shuffle_network_indices: "shuffle_network (load_vectors [0..255]) = column_vectors"
  by code_simp


lemma length_bytes [simp]: "length (concat (map (octets_of 8) rows)) = 8 * length rows"
  by (induction rows) simp_all

lemma nth_bytes: "i < 8 * length rows \<Longrightarrow> concat (map (octets_of 8) rows) ! i = octets_of 8 (rows ! (i div 8)) ! (i mod 8)"
proof (induction rows arbitrary: i)
  case Nil
  then show ?case by simp
next
  case (Cons r rows)
  show ?case
  proof (cases "i < 8")
    case True
    then show ?thesis by (simp add: nth_append)
  next
    case False
    then obtain k where k: "i = 8 + k" by (metis le_add_diff_inverse not_less)
    then have "concat (map (octets_of 8) rows) ! k = octets_of 8 (rows ! (k div 8)) ! (k mod 8)"
      using Cons by simp
    moreover have "(8 + k) div 8 = Suc (k div 8)" by simp
    ultimately show ?thesis by (simp add: k nth_append)
  qed
qed

lemma load_vectors_map: "load_vectors (map f xs) = map (map f) (load_vectors xs)"
  by (simp add: load_vectors_def take_map drop_map)

lemma length_load_vectors [simp]: "length (load_vectors xs) = 8"
  by (simp add: load_vectors_def)

lemma shuffled_column:
  assumes "length rows = 32" "i < 8" "l < 32"
  shows "shuffle_network (load_vectors (concat (map (octets_of 8) rows))) ! (perm ! i) ! l = octets_of 8 (rows ! l) ! i"
    "length (shuffle_network (load_vectors (concat (map (octets_of 8) rows))) ! (perm ! i)) = 32"
proof -
  let ?bytes = "concat (map (octets_of 8) rows)"
  have "?bytes = map (\<lambda>k. ?bytes ! nat k) [0..255]"
    using assms(1) by (intro nth_equalityI) (simp_all add: nth_upto)
  then have "shuffle_network (load_vectors ?bytes) = map (map (\<lambda>k. ?bytes ! nat k)) column_vectors"
    by (metis length_load_vectors load_vectors_map shuffle_network_indices shuffle_network_map)
  moreover have p: "perm ! i < 8" "[0, 4, 2, 6, 1, 5, 3, 7 :: int] ! (perm ! i) = int i"
    using assms(2) by (auto simp: perm_def numeral_eq_Suc less_Suc_eq)
  ultimately have c: "shuffle_network (load_vectors ?bytes) ! (perm ! i) = map (\<lambda>k. ?bytes ! nat k) (map (\<lambda>l. 8 * l + int i) [0..31])"
    unfolding column_vectors_def by (simp only: nth_map length_map list.size)
  then show "length (shuffle_network (load_vectors ?bytes) ! (perm ! i)) = 32"
    by simp
  have "nat (8 * ([0..31] ! l) + int i) = 8 * l + i" using assms(3) by (simp add: nth_upto nat_add_distrib nat_mult_distrib)
  then have "shuffle_network (load_vectors ?bytes) ! (perm ! i) ! l = ?bytes ! (8 * l + i)"
    unfolding c using assms(3) by (simp add: nth_upto)
  then show "shuffle_network (load_vectors ?bytes) ! (perm ! i) ! l = octets_of 8 (rows ! l) ! i"
    using assms by (simp add: nth_bytes)
qed

subsection \<open>Columns\<close>

lemma bit_movemask: "length v \<le> 32 \<Longrightarrow> bit (movemask v) l \<longleftrightarrow> l < length v \<and> bit (v ! l) 7"
proof (induction v arbitrary: l)
  case Nil
  then show ?case by (simp add: movemask_def)
next
  case (Cons b v)
  have "movemask (b # v) = of_bool (bit b 7) OR push_bit 1 (movemask v)" by (simp add: movemask_def)
  moreover have "bit (movemask v) k \<longleftrightarrow> k < length v \<and> bit (v ! k) 7" for k
    using Cons.IH [of k] Cons.prems by simp
  moreover have "bit (of_bool c OR push_bit 1 w :: 32 word) l \<longleftrightarrow> (c \<and> l = 0) \<or> (0 < l \<and> l < 32 \<and> bit w (l - 1))" for c w
    by (simp only: bit_or_iff bit_push_bit_iff bit_of_bool_iff possible_bit_word) auto
  ultimately show ?case
    using Cons.prems by (cases l) auto
qed


lemma bit_word_of_octets:
  "bit (word_of_octets bs) m \<longleftrightarrow> m < 64 \<and> m div 8 < length bs \<and> bit (bs ! (m div 8)) (m mod 8)"
proof (induction bs arbitrary: m)
  case Nil
  then show ?case by simp
next
  case (Cons b bs)
  have b: "bit (word_of_octets (b # bs)) m \<longleftrightarrow> (m < 8 \<and> bit b m) \<or> (8 \<le> m \<and> m < 64 \<and> bit (word_of_octets bs) (m - 8))"
    by (simp only: word_of_octets.simps bit_or_iff bit_push_bit_iff possible_bit_word bit_ucast_iff)
      (auto dest: bit_imp_le_length)
  show ?case
  proof (cases "m < 8")
    case True
    then show ?thesis unfolding b by simp
  next
    case False
    then have "m div 8 = Suc ((m - 8) div 8)" "(m - 8) mod 8 = m mod 8" by (simp_all add: le_div_geq le_mod_geq)
    with False show ?thesis unfolding b by (auto simp: Cons.IH)
  qed
qed

lemma bit_octets_of: "t < n \<Longrightarrow> bit (octets_of n w ! t) k \<longleftrightarrow> k < 8 \<and> bit w (8 * t + k)"
  by (auto simp: octets_of_def bit_simps)

lemma shift_parts_eq:
  "shift_parts v = concat (map (octets_of 8) (map (\<lambda>i. push_bit 1 (word_of_octets (take 8 (drop (8 * i) v)))) [0..<4]))"
  by (simp only: shift_parts_def map_map comp_def)

lemma length_shift_parts [simp]: "length (shift_parts v) = 32"
  unfolding shift_parts_eq length_bytes by simp

lemma bit_shift_parts:
  assumes "length v = 32" "t < 32" "0 < k" "k < 8"
  shows "bit (shift_parts v ! t) k \<longleftrightarrow> bit (v ! t) (k - 1)"
proof -
  define ws where "ws = map (\<lambda>i. push_bit 1 (word_of_octets (take 8 (drop (8 * i) v)))) [0..<4]"
  have "length ws = 4" by (simp add: ws_def)
  moreover have "shift_parts v = concat (map (octets_of 8) ws)"
    unfolding ws_def by (rule shift_parts_eq)
  ultimately have "shift_parts v ! t = octets_of 8 (ws ! (t div 8)) ! (t mod 8)"
    using assms(2) by (simp add: nth_bytes)
  moreover have "ws ! (t div 8) = push_bit 1 (word_of_octets (take 8 (drop (8 * (t div 8)) v)))"
    using assms(2) by (simp add: ws_def less_mult_imp_div_less)
  moreover have "8 * (t mod 8) + k < 64" using assms(4) by presburger
  moreover have "bit (push_bit 1 w) n \<longleftrightarrow> bit w (n - 1)" if "0 < n" "n < 64" for w :: word64 and n
    using that by (simp only: bit_push_bit_iff possible_bit_word) simp
  ultimately have "bit (shift_parts v ! t) k \<longleftrightarrow> bit (word_of_octets (take 8 (drop (8 * (t div 8)) v))) (8 * (t mod 8) + k - 1)"
    using assms(3,4) by (simp only: bit_octets_of [of "t mod 8" 8]) simp
  also have "\<dots> \<longleftrightarrow> bit (v ! t) (k - 1)"
  proof -
    have "8 * (t mod 8) + k - 1 = 8 * (t mod 8) + (k - 1)" "k - 1 < 8" using assms(3,4) by auto
    then have d: "(8 * (t mod 8) + k - 1) div 8 = t mod 8" "(8 * (t mod 8) + k - 1) mod 8 = k - 1" "8 * (t mod 8) + k - 1 < 64"
      by (simp_all add: div_mult_self4 mod_mult_self4)
    have "t mod 8 < 8" "t div 8 \<le> 3" using assms(2) by auto
    then have "t mod 8 < 32 - 8 * (t div 8)" by linarith
    moreover have "drop (8 * (t div 8)) v ! (t mod 8) = v ! t"
      using assms(1,2) by (subst nth_drop) auto
    ultimately show ?thesis using d assms(1) by (simp add: bit_word_of_octets)
  qed
  finally show ?thesis .
qed

lemma bit_set_half:
  assumes "r < length sq" "y < 2"
  shows "bit (set_half r y row sq ! c) m \<longleftrightarrow>
     (if c = r \<and> m div 32 = y then bit row (m - 32 * y) else bit (sq ! c) m)"
proof (cases "c = r")
  case True
  have "y = 0 \<or> y = 1" using assms(2) by auto
  then show ?thesis
    using assms(1) True bit_imp_le_length [of "sq ! r" m] bit_imp_le_length [of row m] bit_imp_le_length [of row "m - 32"]
    by (elim disjE) (auto simp: set_half_def bit_simps not_le not_less div_eq_0_iff div_nat_eqI split: if_splits)
next
  case False
  then show ?thesis by (simp add: set_half_def)
qed


lemma length_set_half [simp]: "length (set_half r y row sq) = length sq"
  by (simp add: set_half_def)

lemma length_transpose_columns [simp]: "length (transpose_columns k j x y v sq) = length sq"
  by (induction k j x y v sq rule: transpose_columns.induct) simp_all

lemma bit_transpose_columns:
  assumes "k + j = 8" "length v = 32" "8 * x + 8 \<le> length sq" "y < 2" "m < 64"
  shows "bit (transpose_columns k j x y v sq ! c) m \<longleftrightarrow>
     (if c div 8 = x \<and> c mod 8 < k \<and> m div 32 = y then bit (v ! (m mod 32)) (c mod 8 + j) else bit (sq ! c) m)"
  using assms
proof (induction k arbitrary: j v sq)
  case 0
  then show ?case by simp
next
  case (Suc k)
  have k: "k = 7 - j" "j \<le> 7" using Suc.prems(1) by auto
  let ?r = "8 * x + 7 - j"
  have rk: "?r = 8 * x + k" using k by simp
  have "c = 8 * x + k \<longleftrightarrow> c div 8 = x \<and> c mod 8 = k"
    using Suc.prems(1) mult_div_mod_eq [of 8 c] by auto
  with rk Suc.prems(1,3) have r: "?r < length sq" "c = ?r \<longleftrightarrow> c div 8 = x \<and> c mod 8 = k" by auto
  have m32: "m mod 32 < 32" "m div 32 = y \<Longrightarrow> m - 32 * y = m mod 32"
    by (auto simp: minus_mult_div_eq_mod)
  have "bit (transpose_columns (Suc k) j x y v sq ! c) m \<longleftrightarrow>
     (if c div 8 = x \<and> c mod 8 < k \<and> m div 32 = y then bit (shift_parts v ! (m mod 32)) (c mod 8 + Suc j)
      else bit (set_half ?r y (movemask v) sq ! c) m)"
    using Suc.IH [of "Suc j" "shift_parts v" "set_half ?r y (movemask v) sq"] Suc.prems by simp
  also have "bit (set_half ?r y (movemask v) sq ! c) m \<longleftrightarrow>
     (if c div 8 = x \<and> c mod 8 = k \<and> m div 32 = y then bit (v ! (m mod 32)) 7 else bit (sq ! c) m)"
    using bit_set_half [OF r(1) Suc.prems(4)] r(2) m32 Suc.prems(2) by (simp add: bit_movemask)
  also have "(if c div 8 = x \<and> c mod 8 < k \<and> m div 32 = y then bit (shift_parts v ! (m mod 32)) (c mod 8 + Suc j)
      else if c div 8 = x \<and> c mod 8 = k \<and> m div 32 = y then bit (v ! (m mod 32)) 7 else bit (sq ! c) m) \<longleftrightarrow>
     (if c div 8 = x \<and> c mod 8 < Suc k \<and> m div 32 = y then bit (v ! (m mod 32)) (c mod 8 + j) else bit (sq ! c) m)"
    using bit_shift_parts [OF Suc.prems(2) m32(1), of "c mod 8 + Suc j"] k by auto
  finally show ?case .
qed


lemma bit_transpose_half:
  assumes "length tmp = 64" "length sq = 64" "k < 2" "n \<le> 8" "m < 64"
  defines "x \<equiv> shuffle_network (load_vectors (concat (map (octets_of 8) (take 32 (drop (32 * k) tmp)))))"
  shows "length (fold (\<lambda>i. transpose_columns 8 0 i k (x ! (perm ! i))) [0..<n] sq) = 64 \<and>
    (bit (fold (\<lambda>i. transpose_columns 8 0 i k (x ! (perm ! i))) [0..<n] sq ! c) m \<longleftrightarrow>
      (if c < 8 * n \<and> m div 32 = k then bit (tmp ! m) c else bit (sq ! c) m))"
  using assms(4)
proof (induction n)
  case 0
  then show ?case using assms(2) by simp
next
  case (Suc n)
  let ?rows = "take 32 (drop (32 * k) tmp)"
  let ?sq = "fold (\<lambda>i. transpose_columns 8 0 i k (x ! (perm ! i))) [0..<n] sq"
  have rows: "length ?rows = 32" using assms(1,3) by auto
  have n: "n < 8" using Suc.prems by simp
  have IH: "length ?sq = 64" "bit (?sq ! c) m \<longleftrightarrow> (if c < 8 * n \<and> m div 32 = k then bit (tmp ! m) c else bit (sq ! c) m)"
    using Suc by auto
  have len: "length (x ! (perm ! n)) = 32" unfolding x_def by (rule shuffled_column(2) [OF rows n, of 0]) simp
  have m: "m mod 32 < 32" by simp
  have "m div 32 = k \<Longrightarrow> ?rows ! (m mod 32) = tmp ! m"
    using assms(1,3,5) by (auto simp: mult_div_mod_eq)
  then have col: "m div 32 = k \<Longrightarrow> c div 8 = n \<Longrightarrow> bit (x ! (perm ! n) ! (m mod 32)) (c mod 8) \<longleftrightarrow> bit (tmp ! m) c"
    unfolding x_def shuffled_column(1) [OF rows n m] using n by (auto simp: bit_octets_of mult_div_mod_eq)
  have "bit (transpose_columns 8 0 n k (x ! (perm ! n)) ?sq ! c) m \<longleftrightarrow>
      (if c div 8 = n \<and> m div 32 = k then bit (x ! (perm ! n) ! (m mod 32)) (c mod 8) else bit (?sq ! c) m)"
    using bit_transpose_columns [of 8 0 "x ! (perm ! n)" n ?sq k m c] n len IH(1) assms(3,5) by simp
  also have "\<dots> \<longleftrightarrow> (if c < 8 * Suc n \<and> m div 32 = k then bit (tmp ! m) c else bit (sq ! c) m)"
  proof -
    have "c < 8 * Suc n \<longleftrightarrow> c div 8 = n \<or> c < 8 * n" by auto
    then show ?thesis using col IH(2) by auto
  qed
  finally show ?case using IH(1) by simp
qed

lemma square_transpose_eq:
  assumes "length sq = 64" "n_rows \<le> 64" "n_cols \<le> 64"
  shows "\<exists>t. square_transpose n_rows n_cols sq = Inr t \<and> length t = 64 \<and>
    (\<forall>c < 64. \<forall>m < 64. bit (t ! c) m \<longleftrightarrow> c < 8 * DIV_CEIL n_cols 8 \<and> m < 32 * DIV_CEIL n_rows 32 \<and> bit (sq ! m) c)"
proof -
  have n: "DIV_CEIL n_cols 8 \<le> 8" using assms(3) by (simp add: DIV_CEIL_def)
  have step: "length (transpose_half sq n_cols k s) = 64 \<and> (\<forall>c. \<forall>m < 64. bit (transpose_half sq n_cols k s ! c) m \<longleftrightarrow>
      (if c < 8 * DIV_CEIL n_cols 8 \<and> m div 32 = k then bit (sq ! m) c else bit (s ! c) m))"
    if "k < 2" "length s = 64" for k s
    using bit_transpose_half [OF assms(1) that(2,1) n] bit_transpose_half [OF assms(1) that(2,1) n, of 0]
    unfolding transpose_half_def Let_def by simp
  have "length (fold (transpose_half sq n_cols) [0..<d] (replicate 64 0)) = 64 \<and>
    (\<forall>c < 64. \<forall>m < 64. bit (fold (transpose_half sq n_cols) [0..<d] (replicate 64 0) ! c) m \<longleftrightarrow>
        c < 8 * DIV_CEIL n_cols 8 \<and> m < 32 * d \<and> bit (sq ! m) c)" if "d \<le> 2" for d
    using that
  proof (induction d)
    case 0
    then show ?case by simp
  next
    case (Suc d)
    then show ?case
      using step [of d "fold (transpose_half sq n_cols) [0..<d] (replicate 64 0)"]
      by (auto simp: less_Suc_eq_le div_le_mono)
  qed
  moreover have "DIV_CEIL n_rows 32 \<le> 2" using assms(2) by (simp add: DIV_CEIL_def)
  ultimately show ?thesis using assms(2,3) by (simp add: square_transpose_def)
qed

end
