(* ===== verification/GCShares.thy ===== *)
theory GCShares
  imports GCHom Square64 Parties
begin

text \<open>
  The secret registers of the Trifecta machine (\<^verbatim>\<open>GC/ShareSecret.h\<close>,
  \<^verbatim>\<open>GC/ShareSecret.hpp\<close>): share vectors of two 64-bit components, and what they stand for.
  A joint register is the value together with the two masks; each party's share and the
  value are homomorphic images of it, so that a local instruction on the shares of the three
  parties is one instruction on joint registers.
\<close>

unbundle bit_operations_syntax

subsection \<open>Transposition of component lists\<close>

definition trans_rows :: "nat \<Rightarrow> nat \<Rightarrow> bitvec list \<Rightarrow> bitvec list" where
  "trans_rows n_rows n_cols rows =
     (case square_transpose (min 64 n_rows) (min 64 n_cols) (take 64 (rows @ replicate 64 0)) of
        Inl e \<Rightarrow> [] | Inr t \<Rightarrow> t)"

lemma trans_rows_bits:
  "length (trans_rows m n rows) = 64"
  "c < 64 \<Longrightarrow> r < 64 \<Longrightarrow> bit (trans_rows m n rows ! c) r \<longleftrightarrow>
     c < 8 * DIV_CEIL (min 64 n) 8 \<and> r < 32 * DIV_CEIL (min 64 m) 32 \<and> r < length rows \<and> bit (rows ! r) c"
proof -
  have "length (take 64 (rows @ replicate 64 (0 :: bitvec))) = 64" by simp
  from square_transpose_eq [OF this, of "min 64 m" "min 64 n"] obtain t where
    t: "square_transpose (min 64 m) (min 64 n) (take 64 (rows @ replicate 64 0)) = Inr t" "length t = 64"
      "\<And>c r. c < 64 \<Longrightarrow> r < 64 \<Longrightarrow> bit (t ! c) r \<longleftrightarrow> c < 8 * DIV_CEIL (min 64 n) 8 \<and> r < 32 * DIV_CEIL (min 64 m) 32
         \<and> bit (take 64 (rows @ replicate 64 0) ! r) c" by auto
  then show "length (trans_rows m n rows) = 64" by (simp add: trans_rows_def)
  assume "c < 64" "r < 64"
  then show "bit (trans_rows m n rows ! c) r \<longleftrightarrow>
     c < 8 * DIV_CEIL (min 64 n) 8 \<and> r < 32 * DIV_CEIL (min 64 m) 32 \<and> r < length rows \<and> bit (rows ! r) c"
    using t by (auto simp: trans_rows_def nth_append)
qed

lemma trans_rows_xor:
  assumes "length xs = length ys"
  shows "trans_rows m n (map2 (XOR) xs ys) = map2 (XOR) (trans_rows m n xs) (trans_rows m n ys)"
proof (rule nth_equalityI)
  show "length (trans_rows m n (map2 (XOR) xs ys)) = length (map2 (XOR) (trans_rows m n xs) (trans_rows m n ys))"
    by (simp add: trans_rows_bits(1))
  fix c assume "c < length (trans_rows m n (map2 (XOR) xs ys))"
  then have c: "c < 64" by (simp add: trans_rows_bits(1))
  show "trans_rows m n (map2 (XOR) xs ys) ! c = map2 (XOR) (trans_rows m n xs) (trans_rows m n ys) ! c"
    using c assms by (intro bit_word_eqI) (auto simp: trans_rows_bits bit_xor_iff)
qed

lemma trans_rows_zero: "trans_rows m n (map (\<lambda>_. 0) xs) = replicate 64 0"
proof (rule nth_equalityI)
  show "length (trans_rows m n (map (\<lambda>_. 0) xs)) = length (replicate 64 (0 :: bitvec))" by (simp add: trans_rows_bits(1))
  fix c assume "c < length (trans_rows m n (map (\<lambda>_. 0) xs))"
  then have c: "c < 64" by (simp add: trans_rows_bits(1))
  show "trans_rows m n (map (\<lambda>_. 0) xs) ! c = replicate 64 0 ! c"
    using c by (intro bit_word_eqI) (auto simp: trans_rows_bits)
qed

subsection \<open>Shares\<close>

definition share_trans :: "nat \<Rightarrow> nat \<Rightarrow> bitvec fixedvec list \<Rightarrow> bitvec fixedvec list" where
  "share_trans m n xs =
     (let t0 = trans_rows m n (map (\<lambda>x. x ! 0) xs); t1 = trans_rows m n (map (\<lambda>x. x ! 1) xs)
      in map2 (\<lambda>a b. [a, b]) t0 t1)"

definition share_ops :: "bitvec fixedvec secret_ops" where
  "share_ops = \<lparr>so_const = fv_const 2, so_xor = fv_xor, so_and = (\<lambda>x w. fv_and x (fv_const 2 w)),
     so_shl = fv_shl, so_shr = fv_shr, so_trans = share_trans\<rparr>"

subsection \<open>Values\<close>

text \<open>
  \<open>value_ops k\<close>: what the operations do to the values. A constant is meant to load itself
  (\<open>k = id\<close>); the constant that the code stores in both components of all shares stands for
  0 (\<open>k = (\<lambda>_. 0)\<close>).
\<close>

definition value_secret :: "(word64 \<Rightarrow> word64) \<Rightarrow> bitvec secret_ops" where
  "value_secret k = \<lparr>so_const = k, so_xor = (XOR), so_and = (AND),
     so_shl = (\<lambda>x i. IntBase_shl x (of_nat i)), so_shr = (\<lambda>x i. IntBase_shr x (of_nat i)), so_trans = trans_rows\<rparr>"

subsection \<open>Joint registers\<close>

type_synonym joint = "bitvec \<times> bitvec \<times> bitvec"

definition map3 :: "(bitvec \<Rightarrow> bitvec) \<Rightarrow> joint \<Rightarrow> joint" where
  "map3 f = (\<lambda>(v, a, b). (f v, f a, f b))"

definition lift_res :: "(bitvec \<Rightarrow> bitvec res) \<Rightarrow> joint \<Rightarrow> joint res" where
  "lift_res f = (\<lambda>(v, a, b). bindE (f v) (\<lambda>v'. bindE (f a) (\<lambda>a'. bindE (f b) (\<lambda>b'. Inr (v', a', b')))))"

definition joint_ops :: "joint secret_ops" where
  "joint_ops = \<lparr>so_const = (\<lambda>w. (0, w, w)),
     so_xor = (\<lambda>(v, a, b) (w, c, d). (v XOR w, a XOR c, b XOR d)), so_and = (\<lambda>x w. map3 (\<lambda>v. v AND w) x),
     so_shl = (\<lambda>x i. lift_res (\<lambda>v. IntBase_shl v (of_nat i)) x), so_shr = (\<lambda>x i. lift_res (\<lambda>v. IntBase_shr v (of_nat i)) x),
     so_trans = (\<lambda>m n xs. zip (trans_rows m n (map fst xs))
        (zip (trans_rows m n (map (fst \<circ> snd) xs)) (trans_rows m n (map (snd \<circ> snd) xs))))\<rparr>"

definition share_of :: "nat \<Rightarrow> joint \<Rightarrow> bitvec fixedvec" where
  "share_of i = (\<lambda>(v, a, b). three [v XOR a, b] [v XOR b, a] [a, b] i)"

lemma IntBase_shift_cases:
  "(\<exists>e. \<forall>x. IntBase_shl x w = Inl e) \<or> (\<exists>f. (\<forall>x. IntBase_shl x w = Inr (f x)) \<and> (\<forall>x y. f (x XOR y) = f x XOR f y))"
  "(\<exists>e. \<forall>x. IntBase_shr x w = Inl e) \<or> (\<exists>f. (\<forall>x. IntBase_shr x w = Inr (f x)) \<and> (\<forall>x y. f (x XOR y) = f x XOR f y))"
proof -
  show "(\<exists>e. \<forall>x. IntBase_shl x w = Inl e) \<or> (\<exists>f. (\<forall>x. IntBase_shl x w = Inr (f x)) \<and> (\<forall>x y. f (x XOR y) = f x XOR f y))"
    by (cases "sint w < int N_BITS \<and> sint w < 0")
      (auto simp: IntBase_shl_def push_bit_xor intro!: exI [of _ "\<lambda>x. if sint w < int N_BITS then push_bit (unat w) x else 0"])
  show "(\<exists>e. \<forall>x. IntBase_shr x w = Inl e) \<or> (\<exists>f. (\<forall>x. IntBase_shr x w = Inr (f x)) \<and> (\<forall>x y. f (x XOR y) = f x XOR f y))"
    by (cases "sint w < int N_BITS \<and> sint w < 0")
      (auto simp: IntBase_shr_def drop_bit_xor intro!: exI [of _ "\<lambda>x. if sint w < int N_BITS then drop_bit (unat w) x else 0"])
qed

lemma share_of_cases: "share_of i x = (case x of (v, a, b) \<Rightarrow> if i = 0 then [v XOR a, b] else if i = 1 then [v XOR b, a] else [a, b])"
  by (auto simp: share_of_def three_def)

lemma lift_res_share:
  assumes "(\<exists>e. \<forall>x. g x = Inl e) \<or> (\<exists>f. (\<forall>x. g x = Inr (f x)) \<and> (\<forall>x y. f (x XOR y) = f x XOR f y))"
  shows "mapE g (share_of i x) = map_res (share_of i) (lift_res g x)" "g (fst x) = map_res fst (lift_res g x)"
  using assms by (cases x; auto simp: share_of_cases lift_res_def)+

lemma map_share_of:
  "map (\<lambda>x. share_of i x ! 0) xs = (if i = 0 then map2 (XOR) (map fst xs) (map (fst \<circ> snd) xs)
     else if i = 1 then map2 (XOR) (map fst xs) (map (snd \<circ> snd) xs) else map (fst \<circ> snd) xs)"
  "map (\<lambda>x. share_of i x ! Suc 0) xs = (if i = 1 then map (fst \<circ> snd) xs else map (snd \<circ> snd) xs)"
  by (induction xs) (auto simp: share_of_cases)

lemma share_trans_hom: "share_trans m n (map (share_of i) xs) = map (share_of i) (so_trans joint_ops m n xs)"
proof -
  let ?v = "trans_rows m n (map fst xs)" and ?a = "trans_rows m n (map (fst \<circ> snd) xs)" and ?b = "trans_rows m n (map (snd \<circ> snd) xs)"
  have l: "length ?v = 64" "length ?a = 64" "length ?b = 64" by (simp_all add: trans_rows_bits(1))
  have t: "trans_rows m n (map (\<lambda>x. x ! 0) (map (share_of i) xs)) = (if i = 0 then map2 (XOR) ?v ?a else if i = 1 then map2 (XOR) ?v ?b else ?a)"
    "trans_rows m n (map (\<lambda>x. x ! 1) (map (share_of i) xs)) = (if i = 1 then ?a else ?b)"
    unfolding map_map comp_def One_nat_def map_share_of by (simp_all add: trans_rows_xor comp_def)
  show ?thesis
    unfolding share_trans_def t Let_def
  proof (rule nth_equalityI)
    show "length (map2 (\<lambda>a b. [a, b]) (if i = 0 then map2 (XOR) ?v ?a else if i = 1 then map2 (XOR) ?v ?b else ?a) (if i = 1 then ?a else ?b))
        = length (map (share_of i) (so_trans joint_ops m n xs))"
      using l by (simp add: joint_ops_def)
    fix c assume "c < length (map2 (\<lambda>a b. [a, b]) (if i = 0 then map2 (XOR) ?v ?a else if i = 1 then map2 (XOR) ?v ?b else ?a) (if i = 1 then ?a else ?b))"
    then have "c < 64" using l by (auto split: if_splits)
    then show "map2 (\<lambda>a b. [a, b]) (if i = 0 then map2 (XOR) ?v ?a else if i = 1 then map2 (XOR) ?v ?b else ?a) (if i = 1 then ?a else ?b) ! c
        = map (share_of i) (so_trans joint_ops m n xs) ! c"
      using l by (simp add: joint_ops_def share_of_cases)
  qed
qed

subsection \<open>The homomorphisms\<close>

interpretation party: secret_hom joint_ops share_ops "share_of i" for i
proof (unfold_locales, goal_cases)
  case (1 w)
  then show ?case by (simp add: share_ops_def joint_ops_def share_of_cases fv_const_def numeral_eq_Suc)
next
  case (2 x y)
  then show ?case by (cases x; cases y) (simp add: share_ops_def joint_ops_def share_of_cases fv_xor_def IntBase_xor_def xor_ac)
next
  case (3 x w)
  then show ?case
    by (cases x) (simp add: share_ops_def joint_ops_def share_of_cases fv_and_def fv_const_def IntBase_and_def map3_def and_xor_distribs numeral_eq_Suc)
next
  case (4 x j)
  then show ?case using lift_res_share(1) [OF IntBase_shift_cases(1)] by (simp add: share_ops_def joint_ops_def fv_shl_def)
next
  case (5 x j)
  then show ?case using lift_res_share(1) [OF IntBase_shift_cases(2)] by (simp add: share_ops_def joint_ops_def fv_shr_def)
next
  case (6 m n xs)
  then show ?case using share_trans_hom by (simp add: share_ops_def)
qed

interpretation vals: secret_hom joint_ops "value_secret (\<lambda>_. 0)" fst
proof (unfold_locales, goal_cases)
  case (4 x j)
  then show ?case using lift_res_share(2) [OF IntBase_shift_cases(1)] by (simp add: value_secret_def joint_ops_def)
next
  case (5 x j)
  then show ?case using lift_res_share(2) [OF IntBase_shift_cases(2)] by (simp add: value_secret_def joint_ops_def)
next
  case (6 m n xs)
  then show ?case by (simp add: value_secret_def joint_ops_def trans_rows_bits(1))
qed (auto simp: value_secret_def joint_ops_def map3_def split: prod.splits)

end
