(* ===== verification/GCThread.thy ===== *)
theory GCThread
  imports GCShares Session
begin

text \<open>
  The instructions that the parties execute together: \<^verbatim>\<open>GC/ShareThread.hpp\<close> (AND gates),
  \<^verbatim>\<open>reveal_inst\<close> and \<^verbatim>\<open>inputb\<close> of \<^verbatim>\<open>GC/ShareSecret.hpp\<close> with \<^verbatim>\<open>GC/ArgTuples.h\<close>
  and the input checks of \<^verbatim>\<open>GC/Processor.hpp\<close>. Each operation is split, as in the code,
  into what a party does before and after its exchange; the steps of the three parties are
  put together at the exchange.
\<close>

unbundle bit_operations_syntax

subsection \<open>AND gates\<close>

text \<open>
  The argument list of \<^verbatim>\<open>ANDS\<close> is a sequence of blocks: fan-in, number of bits, result
  register and as many operand registers as the fan-in says. The loop steps by fan-in plus
  three; a fan-in of -3 or less steps nowhere or backwards.
\<close>

function and_blocks :: "int list \<Rightarrow> (int \<times> int \<times> int list) list res" where
  "and_blocks [] = Inr []"
| "and_blocks [x] = Inl (Undefined_Behaviour ''vector index'')"
| "and_blocks [x, y] = Inl (Undefined_Behaviour ''vector index'')"
| "and_blocks (fanin # n_bits # out # regs) =
     (if fanin \<le> - 3 then Inl (Undefined_Behaviour ''endless loop'')
      else if length regs < nat fanin then Inl (Undefined_Behaviour ''vector index'')
      else bindE (and_blocks (drop (nat (fanin + 3)) (fanin # n_bits # out # regs))) (\<lambda>bs.
           Inr ((n_bits, out, take (nat fanin) regs) # bs)))"
  by pat_completeness auto
termination
  by (relation "measure length") auto

text \<open>The iterations of the loop over blocks and 64-bit units: bits, result register, operand registers.\<close>

definition and_units :: "int list \<Rightarrow> (nat \<times> int \<times> int list) list res" where
  "and_units args =
     bindE (and_blocks args) (\<lambda>bs.
     Inr (concat (map (\<lambda>(n_bits, out, ins).
       map (\<lambda>j. (nat (unit_length n_bits j), out + int j, map (\<lambda>f. f + int j) ins)) [0..<n_units n_bits]) bs)))"

definition and_prepare :: "cipher \<Rightarrow> bool \<Rightarrow> int list \<Rightarrow> share processor \<Rightarrow> multi_replicated \<Rightarrow> multi_replicated res" where
  "and_prepare E repeat args p s =
     bindE (and_units args) (\<lambda>us.
     foldE (\<lambda>(n, out, ins) s.
       if repeat then Inl (Undefined_Behaviour ''uninitialised length'')
       else bindE (mapE (\<lambda>f. bindE (getS f p) (\<lambda>x. Inr (fv_mask x n))) ins) (\<lambda>operands.
            prepare_mul E operands n s)) us (init_mul s))"

definition and_finalize :: "int list \<Rightarrow> share processor \<Rightarrow> multi_replicated \<Rightarrow> (share processor \<times> multi_replicated) res" where
  "and_finalize args p s =
     bindE (and_units args) (\<lambda>us.
     foldE (\<lambda>(n, out, ins) (p, s).
       bindE (finalize_mul n s) (\<lambda>(x, s'). bindE (putS out (fv_mask x n) p) (\<lambda>p'. Inr (p', s')))) us (p, s))"

subsection \<open>Opening\<close>

definition reveal_units :: "int list \<Rightarrow> (nat \<times> int \<times> int) list res" where
  "reveal_units args =
     bindE (guardE (length args mod 3 = 0) (Assertion ''args.size() % 3 == 0'')) (\<lambda>_.
     Inr (concat (map (\<lambda>(n, r0, r1). map (\<lambda>j. (nat (unit_length n j), r0 + int j, r1 + int j)) [0..<n_units n])
       (chunks3 args))))"

definition reveal_shares :: "int list \<Rightarrow> share processor \<Rightarrow> share list res" where
  "reveal_shares args p =
     bindE (reveal_units args) (\<lambda>us. mapE (\<lambda>(n, r0, r1). bindE (getS r1 p) (\<lambda>x. Inr (fv_mask x n))) us)"

definition reveal_store :: "int list \<Rightarrow> bitvec list \<Rightarrow> 'x processor \<Rightarrow> 'x processor res" where
  "reveal_store args opened p =
     bindE (reveal_units args) (\<lambda>us.
     bindE (foldE (\<lambda>(n, r0, r1) (p, os).
       case os of [] \<Rightarrow> Inl (Undefined_Behaviour ''PointerVector::next'')
       | v # vs \<Rightarrow> bindE (putC r0 (bv_mask v n) p) (\<lambda>p'. Inr (p', vs))) us (p, opened)) (\<lambda>(p', os). Inr p'))"

subsection \<open>Private inputs\<close>

text \<open>
  The numbers of a player's input file: what the next one is, for the shift that the
  instruction asks for (\<^verbatim>\<open>FixInput_<bigint>\<close> reads a decimal fraction with GMP).
\<close>

type_synonym input_file = "(int \<Rightarrow> int) list"

definition mpz_get_si :: "int \<Rightarrow> word64" where
  "mpz_get_si z =
     (let zl = word_of_int \<bar>z\<bar> :: word64 in
      if z > 0 then zl AND mask 63 else if z < 0 then NOT ((zl - 1) AND mask 63) else 0)"

definition check_input :: "int \<Rightarrow> int \<Rightarrow> unit res" where
  "check_input inp n_bits =
     (let test = drop_bit (nat (n_bits - 1)) inp in
      if n_bits = 1 then guardE (inp = 0 \<or> inp = 1) (Runtime_Error ''input not a bit'')
      else guardE (n_bits < 1 \<or> test = 0 \<or> test = - 1) (Runtime_Error ''input too large''))"

definition get_long_input :: "int \<Rightarrow> int \<Rightarrow> input_file \<Rightarrow> (int \<times> input_file) res" where
  "get_long_input n_bits n_shift file =
     (case file of
        [] \<Rightarrow> Inl (IO_Error ''not enough inputs'')
      | f # file' \<Rightarrow> bindE (check_input (f n_shift) n_bits) (\<lambda>_. Inr (f n_shift, file')))"

definition input_args :: "int list \<Rightarrow> (int \<times> int \<times> int \<times> int) list res" where
  "input_args args = bindE (guardE (length args mod 4 = 0) (Runtime_Error ''wrong number of args'')) (\<lambda>_. Inr (chunks4 args))"

definition n_inputs_from :: "int \<Rightarrow> int list \<Rightarrow> nat res" where
  "n_inputs_from who args = bindE (input_args args) (\<lambda>xs. Inr (length (filter (\<lambda>x. fst x = who) xs)))"

definition input_chunk :: "int \<Rightarrow> nat \<Rightarrow> bitvec" where
  "input_chunk whole_input i = mpz_get_si (drop_bit (64 * i) whole_input)"

definition player_index :: "int \<Rightarrow> nat res" where
  "player_index who = bindE (guardE (0 \<le> who) (Undefined_Behaviour ''vector index'')) (\<lambda>_. Inr (nat who))"

definition inputb_prepare :: "cipher \<Rightarrow> nat \<Rightarrow> int list \<Rightarrow> input_file \<Rightarrow> bitvec input_state \<Rightarrow> (input_file \<times> bitvec input_state) res" where
  "inputb_prepare E me args file s =
     bindE (in_reset_all s) (\<lambda>s.
     bindE (input_args args) (\<lambda>xs.
     foldE (\<lambda>(who, n_bits, n_shift, dest) (file, s).
       if who = int me then
         bindE (get_long_input n_bits n_shift file) (\<lambda>(whole_input, file').
         bindE (foldE (\<lambda>i. multi_add_mine bitvec_ops E (input_chunk whole_input i) (Some (nat (unit_length n_bits i))))
           [0..<n_units n_bits] s) (\<lambda>s'. Inr (file', s')))
       else bindE (foldE (\<lambda>i s. bindE (player_index who) (\<lambda>k. in_add_other k s)) [0..<n_units n_bits] s) (\<lambda>s'. Inr (file, s')))
       xs (file, s)))"

definition inputb_finalize :: "int list \<Rightarrow> share processor \<Rightarrow> bitvec input_state \<Rightarrow> share processor res" where
  "inputb_finalize args p s =
     bindE (input_args args) (\<lambda>xs.
     bindE (foldE (\<lambda>(who, n_bits, n_shift, dest). foldE (\<lambda>i (p, s).
         let n = nat (unit_length n_bits i) in
         bindE (player_index who) (\<lambda>k. bindE (multi_finalize bitvec_ops k (Some n) s) (\<lambda>(x, s').
         bindE (putS (dest + int i) (fv_mask x n) p) (\<lambda>p'. Inr (p', s'))))) [0..<n_units n_bits]) xs (p, s))
       (\<lambda>(p', s'). Inr p'))"

text \<open>A schedule of the exchange: all sends of the players that have inputs, then all receives.\<close>

definition input_players :: "int list \<Rightarrow> nat list" where
  "input_players args = filter (\<lambda>k. \<exists>(who, n_bits, n_shift, dest) \<in> set (chunks4 args). who = int k \<and> 0 < n_units n_bits) [0, 1, 2]"

definition input_schedule :: "int list \<Rightarrow> nat list" where
  "input_schedule args =
     (let F = input_players args
      in concat (map (\<lambda>k. [k, k]) F) @ concat (map (\<lambda>k. [get_player 3 k 1, get_player 3 k (- 1)]) F))"

subsection \<open>Three parties\<close>

record tri_state =
  t_proc :: "nat \<Rightarrow> share processor"
  t_mul :: "nat \<Rightarrow> multi_replicated"
  t_mc :: "nat \<Rightarrow> mac_check"
  t_file :: "nat \<Rightarrow> input_file"
  t_time :: nat

text \<open>
  \<open>env\<close> gives the \<^verbatim>\<open>Input\<close> objects that an instruction constructs, freshly seeded, by the
  number of the instruction and the party.
\<close>

type_synonym environment = "nat \<Rightarrow> nat \<Rightarrow> bitvec input_state"

definition tri_and :: "cipher \<Rightarrow> bool \<Rightarrow> int list \<Rightarrow> tri_state \<Rightarrow> tri_state res" where
  "tri_and E repeat args st =
     bindE (parE (\<lambda>i. and_prepare E repeat args (t_proc st i) (t_mul st i))) (\<lambda>m.
     (case exchange (m 0) (m 1) (m 2) of
        None \<Rightarrow> Inl (Runtime_Error ''exchange blocked'')
      | Some (q0, q1, q2) \<Rightarrow>
          bindE (parE (\<lambda>i. and_finalize args (t_proc st i) (three q0 q1 q2 i))) (\<lambda>r.
          Inr (st\<lparr>t_proc := fst \<circ> r, t_mul := snd \<circ> r\<rparr>))))"

definition tri_reveal :: "int list \<Rightarrow> tri_state \<Rightarrow> tri_state res" where
  "tri_reveal args st =
     bindE (parE (\<lambda>i. reveal_shares args (t_proc st i))) (\<lambda>S.
     bindE (multi_popen bitvec_ops S (t_mc st)) (\<lambda>((v0, u0), (v1, u1), (v2, u2)).
     bindE (parE (\<lambda>i. reveal_store args (three v0 v1 v2 i) (t_proc st i))) (\<lambda>P.
     Inr (st\<lparr>t_proc := P, t_mc := three u0 u1 u2\<rparr>))))"

definition tri_inputb :: "cipher \<Rightarrow> environment \<Rightarrow> int list \<Rightarrow> tri_state \<Rightarrow> tri_state res" where
  "tri_inputb E env args st =
     bindE (parE (\<lambda>i. inputb_prepare E i args (t_file st i) (env (t_time st) i))) (\<lambda>r.
     (case input_exchange multi_input_script (input_schedule args) (\<lambda>i. [snd (r 0), snd (r 1), snd (r 2)] ! i) of
        None \<Rightarrow> Inl (Runtime_Error ''exchange blocked'')
      | Some s \<Rightarrow>
          bindE (parE (\<lambda>i. inputb_finalize args (t_proc st i) (s i))) (\<lambda>P.
          Inr (st\<lparr>t_proc := P, t_file := fst \<circ> r\<rparr>))))"

text \<open>Random bits come from the preprocessing and are not part of the model.\<close>

definition tri_execute :: "cipher \<Rightarrow> environment \<Rightarrow> instruction \<Rightarrow> tri_state \<Rightarrow> tri_state res" where
  "tri_execute E env ins st =
     bindE (if i_opcode ins = ANDS then tri_and E False (i_start ins) st
            else if i_opcode ins = ANDRS then tri_and E True (i_start ins) st
            else if i_opcode ins = REVEAL then tri_reveal (i_start ins) st
            else if i_opcode ins = INPUTB then tri_inputb E env (i_start ins) st
            else if i_opcode ins = BITB then Inl Not_Implemented
            else bindE (parE (\<lambda>i. execute_local share_ops ins (t_proc st i))) (\<lambda>P. Inr (st\<lparr>t_proc := P\<rparr>)))
       (\<lambda>st'. Inr (st'\<lparr>t_time := t_time st + 1\<rparr>))"

subsection \<open>The same instructions on the values\<close>

record clear_state =
  c_proc :: "bitvec processor"
  c_file :: "nat \<Rightarrow> input_file"

definition clear_and :: "(bitvec list \<Rightarrow> bitvec) \<Rightarrow> int list \<Rightarrow> bitvec processor \<Rightarrow> bitvec processor res" where
  "clear_and gate args p =
     bindE (and_units args) (\<lambda>us.
     bindE (mapE (\<lambda>(n, out, ins). mapE (\<lambda>f. bindE (getS f p) (\<lambda>x. Inr (bv_mask x n))) ins) us) (\<lambda>vss.
     foldE (\<lambda>((n, out, ins), vs). putS out (bv_mask (gate vs) n)) (zip us vss) p))"

definition clear_reveal :: "int list \<Rightarrow> bitvec processor \<Rightarrow> bitvec processor res" where
  "clear_reveal args p =
     bindE (reveal_units args) (\<lambda>us.
     bindE (mapE (\<lambda>(n, r0, r1). bindE (getS r1 p) (\<lambda>x. Inr (bv_mask x n))) us) (\<lambda>vs. reveal_store args vs p))"

definition clear_inputb :: "int list \<Rightarrow> clear_state \<Rightarrow> clear_state res" where
  "clear_inputb args c =
     bindE (input_args args) (\<lambda>xs.
     foldE (\<lambda>(who, n_bits, n_shift, dest) c.
       bindE (player_index who) (\<lambda>k.
       bindE (get_long_input n_bits n_shift (c_file c k)) (\<lambda>(whole_input, file').
       bindE (foldE (\<lambda>i. putS (dest + int i) (bv_mask (input_chunk whole_input i) (nat (unit_length n_bits i))))
         [0..<n_units n_bits] (c_proc c)) (\<lambda>p'.
       Inr (c\<lparr>c_proc := p', c_file := (c_file c)(k := file')\<rparr>))))) xs c)"

definition clear_execute :: "(word64 \<Rightarrow> word64) \<Rightarrow> (bitvec list \<Rightarrow> bitvec) \<Rightarrow> instruction \<Rightarrow> clear_state \<Rightarrow> clear_state res" where
  "clear_execute k gate ins c =
     (if i_opcode ins = ANDS then bindE (clear_and gate (i_start ins) (c_proc c)) (\<lambda>p. Inr (c\<lparr>c_proc := p\<rparr>))
      else if i_opcode ins = REVEAL then bindE (clear_reveal (i_start ins) (c_proc c)) (\<lambda>p. Inr (c\<lparr>c_proc := p\<rparr>))
      else if i_opcode ins = INPUTB then clear_inputb (i_start ins) c
      else if i_opcode ins \<in> {ANDRS, BITB} then Inl Not_Implemented
      else bindE (execute_local (value_secret k) ins (c_proc c)) (\<lambda>p. Inr (c\<lparr>c_proc := p\<rparr>)))"

end
