(* ===== verification/GCRefine.thy ===== *)
theory GCRefine
  imports GCThread
begin

text \<open>
  The three parties refine the machine on values: from joint registers, every instruction
  that succeeds on the values succeeds at the parties, and the registers stay the images of
  joint registers.
\<close>

unbundle bit_operations_syntax

subsection \<open>Joint states\<close>

definition joint_inv :: "clear_state \<Rightarrow> tri_state \<Rightarrow> joint processor \<Rightarrow> bool" where
  "joint_inv c st J \<longleftrightarrow> c_proc c = map_proc fst J \<and> (\<forall>i < 3. t_proc st i = map_proc (share_of i) J)"

definition refines :: "clear_state \<Rightarrow> tri_state \<Rightarrow> bool" where
  "refines c st \<longleftrightarrow> (\<exists>J. joint_inv c st J) \<and> (\<forall>i < 3. my_num (t_mul st i) = i) \<and>
     synced (shared_prngs (t_mul st 0)) (shared_prngs (t_mul st 1)) (shared_prngs (t_mul st 2)) \<and>
     (\<forall>i < 3. t_file st i = c_file c i) \<and> (\<forall>f \<in> set (c_file c 0). \<forall>sh. 0 \<le> f sh)"

lemma three_at: "three a b c 0 = a" "three a b c 1 = b" "three a b c (Suc 0) = b" "three a b c 2 = c"
  by (simp_all add: three_def)

lemma map_nths: "map (\<lambda>j. f (xs ! j)) [0..<length xs] = map f xs"
  by (rule nth_equalityI) simp_all

subsection \<open>Masks\<close>

definition mask3 :: "nat \<Rightarrow> joint \<Rightarrow> joint" where
  "mask3 n = map3 (\<lambda>v. bv_mask v n)"

lemma bv_mask_xor: "bv_mask (a XOR b) n = bv_mask a n XOR bv_mask b n"
  by (simp add: bv_mask_take_bit take_bit_xor)

lemma mask3_share [simp]: "fv_mask (share_of i x) n = share_of i (mask3 n x)"
  by (cases x) (simp add: mask3_def map3_def share_of_cases fv_mask_def bv_mask_xor)

lemma mask3_fst [simp]: "fst (mask3 n x) = bv_mask (fst x) n"
  by (cases x) (simp add: mask3_def map3_def)

lemma share_of_sharing:
  assumes "n \<le> 64"
  shows "sharing n (fst (mask3 n x)) (share_of 0 (mask3 n x)) (share_of 1 (mask3 n x)) (share_of 2 (mask3 n x))"
  by (cases x) (simp add: mask3_def map3_def sharing_def share_of_cases bv_add_def)

lemma sharing_share_of:
  assumes "sharing n v t0 t1 t2"
  shows "\<exists>y. fst y = v \<and> t0 = share_of 0 y \<and> t1 = share_of 1 y \<and> t2 = share_of 2 y"
proof -
  obtain a b where "t2 = [a, b]" using assms by (auto simp: sharing_def numeral_eq_Suc length_Suc_conv)
  with assms show ?thesis
    by (intro exI [of _ "(v, a, b)"]) (simp add: sharing_def share_of_cases bv_add_def)
qed

lemma sharings_share_of:
  assumes "\<forall>j < k. sharing (ns j) (vs j) (R 0 ! j) (R 1 ! j) (R 2 ! j)" "\<forall>i < 3. length (R i) = k"
  shows "\<exists>ys. length ys = k \<and> map fst ys = map vs [0..<k] \<and> (\<forall>i < 3. R i = map (share_of i) ys)"
proof -
  have "\<forall>j. \<exists>y. j < k \<longrightarrow> fst y = vs j \<and> R 0 ! j = share_of 0 y \<and> R 1 ! j = share_of 1 y \<and> R 2 ! j = share_of 2 y"
    using assms(1) sharing_share_of by blast
  from choice [OF this] obtain y where y: "\<And>j. j < k \<Longrightarrow> fst (y j) = vs j \<and> R 0 ! j = share_of 0 (y j) \<and> R 1 ! j = share_of 1 (y j) \<and> R 2 ! j = share_of 2 (y j)"
    by blast
  have "R i = map (share_of i) (map y [0..<k])" if "i < 3" for i
  proof (rule nth_equalityI)
    show "length (R i) = length (map (share_of i) (map y [0..<k]))" using assms(2) that by simp
    fix j assume "j < length (R i)"
    then have "j < k" using assms(2) that by simp
    moreover have "i = 0 \<or> i = 1 \<or> i = 2" using that by auto
    ultimately show "R i ! j = map (share_of i) (map y [0..<k]) ! j" using y [of j] by auto
  qed
  moreover have "map fst (map y [0..<k]) = map vs [0..<k]" using y by simp
  ultimately show ?thesis by (intro exI [of _ "map y [0..<k]"]) simp
qed

subsection \<open>Local instructions\<close>

lemma local_refines:
  assumes "joint_inv c st J" "execute_local (value_secret (\<lambda>_. 0)) ins (c_proc c) = Inr p"
  shows "\<exists>J' P. parE (\<lambda>i. execute_local share_ops ins (t_proc st i)) = Inr P \<and> p = map_proc fst J' \<and>
    (\<forall>i < 3. P i = map_proc (share_of i) J')"
proof -
  obtain J' where J': "execute_local joint_ops ins J = Inr J'" "p = map_proc fst J'"
    using assms vals.execute_local_hom [of ins J] by (auto simp: joint_inv_def map_res_eq_Inr)
  have "execute_local share_ops ins (t_proc st i) = Inr (map_proc (share_of i) J')" if "i < 3" for i
    using assms(1) that party.execute_local_hom [of ins i J] J'(1) by (simp add: joint_inv_def)
  from parE_Inr [OF this] J'(2) show ?thesis
    using three_fun by (intro exI [of _ J'] exI [of _ "three (map_proc (share_of 0) J') (map_proc (share_of 1) J') (map_proc (share_of 2) J')"]) auto
qed

subsection \<open>Results written back\<close>

text \<open>Results taken one by one from a state and written, masked, to a register each.\<close>

definition write_back :: "(nat \<Rightarrow> 's \<Rightarrow> (share \<times> 's) res) \<Rightarrow> (nat \<times> int) list \<Rightarrow> share processor \<Rightarrow> 's \<Rightarrow> (share processor \<times> 's) res" where
  "write_back fin us p s =
     foldE (\<lambda>(n, out) (p, s). bindE (fin n s) (\<lambda>(x, s'). bindE (putS out (fv_mask x n) p) (\<lambda>p'. Inr (p', s')))) us (p, s)"

fun take_results :: "(nat \<Rightarrow> 's \<Rightarrow> ('x \<times> 's) res) \<Rightarrow> nat list \<Rightarrow> 's \<Rightarrow> ('x list \<times> 's) res" where
  "take_results fin [] s = Inr ([], s)"
| "take_results fin (n # ns) s = bindE (fin n s) (\<lambda>(x, s1). bindE (take_results fin ns s1) (\<lambda>(xs, s2). Inr (x # xs, s2)))"

definition store_masked :: "(nat \<Rightarrow> 'x \<Rightarrow> 'x) \<Rightarrow> (nat \<times> int) list \<Rightarrow> 'x list \<Rightarrow> 'x processor \<Rightarrow> 'x processor res" where
  "store_masked msk us xs p = foldE (\<lambda>((n, out), x). putS out (msk n x)) (zip us xs) p"

lemma write_back_store:
  assumes "take_results fin (map fst us) s = Inr (xs, s')"
  shows "write_back fin us p s = map_res (\<lambda>p'. (p', s')) (store_masked (\<lambda>n x. fv_mask x n) us xs p)"
  using assms
proof (induction us arbitrary: s xs p)
  case Nil
  then show ?case by (simp add: write_back_def store_masked_def)
next
  case (Cons u us)
  obtain n out where u: "u = (n, out)" by (cases u)
  obtain x s1 xs' where x: "fin n s = Inr (x, s1)" "take_results fin (map fst us) s1 = Inr (xs', s')" "xs = x # xs'"
    using Cons.prems by (auto simp: u res_simps)
  have "write_back fin us q s1 = map_res (\<lambda>p'. (p', s')) (store_masked (\<lambda>n x. fv_mask x n) us xs' q)" for q
    using Cons.IH [OF x(2)] .
  then show ?case
    using x by (simp add: u write_back_def store_masked_def hom_simps bindE_assoc)
qed

lemma store_masked_hom:
  assumes "\<And>n x. m' n (h x) = h (m n x)"
  shows "store_masked m' us (map h xs) (map_proc h p) = map_res (map_proc h) (store_masked m us xs p)"
  unfolding store_masked_def
proof (induction us arbitrary: xs p)
  case Nil
  then show ?case by simp
next
  case (Cons u us)
  then show ?case by (cases xs) (auto simp: assms hom_simps split: prod.split)
qed

lemma take_results_length: "take_results fin ns s = Inr (xs, s') \<Longrightarrow> length xs = length ns"
  by (induction ns arbitrary: s xs) (auto simp: res_simps)

subsection \<open>Sizes of units\<close>

lemma unit_length_bounds:
  assumes "j < n_units n"
  shows "0 < unit_length n j" "unit_length n j \<le> 64"
proof -
  have "0 \<le> n + 63"
  proof (rule ccontr)
    assume "\<not> 0 \<le> n + 63"
    then have "(n + 63) sdiv 64 \<le> 0" by (simp add: signed_divide_int_def sgn_if)
    with assms show False by (simp add: n_units_def default_length_def add.commute)
  qed
  then have "int j < (n + 63) div 64"
    using assms by (simp add: n_units_def default_length_def signed_divide_int_def sgn_if split: if_splits)
  then have "int j * 64 < n" by linarith
  then show "0 < unit_length n j" "unit_length n j \<le> 64" by (simp_all add: unit_length_def default_length_def)
qed

lemma and_units_bounds: "and_units args = Inr us \<Longrightarrow> (n, out, ins) \<in> set us \<Longrightarrow> 0 < n \<and> n \<le> 64"
  using unit_length_bounds by (fastforce simp: and_units_def res_simps)

subsection \<open>AND gates\<close>

definition operand_reads :: "(nat \<Rightarrow> 'x \<Rightarrow> 'x) \<Rightarrow> (nat \<times> int \<times> int list) list \<Rightarrow> 'x processor \<Rightarrow> 'x list list res" where
  "operand_reads msk us p = mapE (\<lambda>(n, out, ins). mapE (\<lambda>f. bindE (getS f p) (\<lambda>x. Inr (msk n x))) ins) us"

lemma operand_reads_hom:
  assumes "\<And>n x. m' n (h x) = h (m n x)"
  shows "operand_reads m' us (map_proc h p) = map_res (map (map h)) (operand_reads m us p)"
  unfolding operand_reads_def
proof (rule mapE_map_res)
  fix u :: "nat \<times> int \<times> int list"
  show "(\<lambda>(n, out, ins). mapE (\<lambda>f. bindE (getS f (map_proc h p)) (\<lambda>x. Inr (m' n x))) ins) u
      = map_res (map h) ((\<lambda>(n, out, ins). mapE (\<lambda>f. bindE (getS f p) (\<lambda>x. Inr (m n x))) ins) u)"
    by (cases u) (auto intro: mapE_map_res simp: hom_simps assms)
qed

lemma operand_reads_lengths: "operand_reads m us p = Inr xss \<Longrightarrow> list_all2 (\<lambda>(n, out, ins) xs. length xs = length ins) us xss"
  by (induction us arbitrary: xss) (auto simp: operand_reads_def res_simps dest: length_mapE)

definition gates_of :: "(nat \<times> int \<times> int list) list \<Rightarrow> joint list list \<Rightarrow> gate list" where
  "gates_of us xss = map2 (\<lambda>(n, out, ins) xs. \<lparr>g_len = n, g_vals = map fst xs, g_ops = (\<lambda>i. map (share_of i) xs)\<rparr>) us xss"

lemma prepare_all_Cons: "prepare_all E (g # gs) i s = bindE (prepare_mul E (g_ops g i) (g_len g) s) (prepare_all E gs i)"
  by (simp add: prepare_all_def [abs_def])

lemma and_prepare_gates:
  assumes "and_units args = Inr us" "operand_reads (\<lambda>n x. fv_mask x n) us p = Inr (map (map (share_of i)) xss)"
  shows "and_prepare E False args p s = prepare_all E (gates_of us xss) i (init_mul s)"
proof -
  have "foldE (\<lambda>(n, out, ins) s. bindE (mapE (\<lambda>f. bindE (getS f p) (\<lambda>x. Inr (fv_mask x n))) ins) (\<lambda>operands. prepare_mul E operands n s)) us t
      = prepare_all E (gates_of us xss) i t" for t
    using assms(2)
  proof (induction us arbitrary: xss t)
    case Nil
    then show ?case by (simp add: gates_of_def operand_reads_def prepare_all_def)
  next
    case (Cons u us)
    obtain n out ins where u: "u = (n, out, ins)" by (metis prod_cases3)
    obtain xs yss where xss: "xss = xs # yss" using Cons.prems by (cases xss) (auto simp: operand_reads_def res_simps u)
    then have r: "mapE (\<lambda>f. bindE (getS f p) (\<lambda>x. Inr (fv_mask x n))) ins = Inr (map (share_of i) xs)"
      "operand_reads (\<lambda>n x. fv_mask x n) us p = Inr (map (map (share_of i)) yss)"
      using Cons.prems by (auto simp: operand_reads_def res_simps u)
    have g: "gates_of (u # us) xss = \<lparr>g_len = n, g_vals = map fst xs, g_ops = (\<lambda>i. map (share_of i) xs)\<rparr> # gates_of us yss"
      by (simp add: gates_of_def u xss)
    have "bindE m (foldE (\<lambda>(n, out, ins) s. bindE (mapE (\<lambda>f. bindE (getS f p) (\<lambda>x. Inr (fv_mask x n))) ins) (\<lambda>operands. prepare_mul E operands n s)) us)
        = bindE m (prepare_all E (gates_of us yss) i)" for m
      by (rule bindE_cong [OF refl Cons.IH [OF r(2)]])
    then show ?case unfolding g by (simp add: u r(1) prepare_all_Cons)
  qed
  then show ?thesis using assms(1) by (simp add: and_prepare_def)
qed

lemma take_results_finalize_all: "take_results finalize_mul ns s = finalize_all ns s"
  by (induction ns arbitrary: s) simp_all

lemma and_finalize_write_back:
  "and_units args = Inr us \<Longrightarrow> and_finalize args p s = write_back finalize_mul (map (\<lambda>(n, out, ins). (n, out)) us) p s"
  by (simp add: and_finalize_def write_back_def foldE_map case_prod_unfold)

lemma clear_and_store:
  assumes "and_units args = Inr us" "operand_reads (\<lambda>n x. bv_mask x n) us p = Inr vss"
  shows "clear_and gate args p = store_masked (\<lambda>n x. bv_mask x n) (map (\<lambda>(n, out, ins). (n, out)) us) (map gate vss) p"
proof -
  have z: "zip (map (\<lambda>(n, out, ins). (n, out)) us) (map gate vss) = map (\<lambda>((n, out, ins), vs). ((n, out), gate vs)) (zip us vss)"
    by (simp add: zip_map_map split_beta)
  show ?thesis
    unfolding store_masked_def z using assms by (simp add: clear_and_def operand_reads_def foldE_map case_prod_unfold)
qed

text \<open>The conditions on a gate: at least two operands and a batch that fits the length field.\<close>

definition and_ok :: "int list \<Rightarrow> bool" where
  "and_ok args = (case and_units args of Inl e \<Rightarrow> False
     | Inr us \<Rightarrow> (\<forall>(n, out, ins) \<in> set us. 2 \<le> length ins) \<and>
         sum_list (map (\<lambda>(n, out, ins). 8 * com_count (length ins)) us) < 2 ^ 32)"

lemma gates_of_ok:
  assumes "list_all2 (\<lambda>(n, out, ins) xs. length xs = length ins \<and> list_all (\<lambda>x. x = mask3 n x) xs) us xss"
    "\<forall>(n, out, ins) \<in> set us. 2 \<le> length ins \<and> 0 < n \<and> n \<le> 64"
  shows "\<forall>g \<in> set (gates_of us xss). gate_ok g"
  using assms
proof (induction rule: list_all2_induct)
  case Nil
  then show ?case by (simp add: gates_of_def)
next
  case (Cons u us xs xss)
  obtain n out ins where u: "u = (n, out, ins)" by (metis prod_cases3)
  have n: "n \<le> 64" "0 < n" "2 \<le> length xs" using Cons u by auto
  have "sharing n (fst x) (share_of 0 x) (share_of 1 x) (share_of 2 x)" if "x \<in> set xs" for x
  proof -
    have "x = mask3 n x" using Cons.hyps(1) that by (auto simp: u list_all_iff)
    with share_of_sharing [OF n(1), of x] show ?thesis by simp
  qed
  then have "gate_ok \<lparr>g_len = n, g_vals = map fst xs, g_ops = (\<lambda>i. map (share_of i) xs)\<rparr>"
    using n by (simp add: gate_ok_def)
  then show ?case using Cons by (simp add: gates_of_def u)
qed

lemma bv_mask_twice: "n \<le> 64 \<Longrightarrow> bv_mask (bv_mask v n) n = bv_mask v n"
  by (simp add: bv_mask_take_bit)

lemma mask3_twice: "n \<le> 64 \<Longrightarrow> mask3 n (mask3 n x) = mask3 n x"
  by (cases x) (simp add: mask3_def map3_def bv_mask_twice)

lemma operand_reads_masked:
  assumes "operand_reads mask3 us J = Inr xss" "\<forall>(n, out, ins) \<in> set us. n \<le> 64"
  shows "list_all2 (\<lambda>(n, out, ins) xs. length xs = length ins \<and> list_all (\<lambda>x. x = mask3 n x) xs) us xss"
  using assms
proof (induction us arbitrary: xss)
  case Nil
  then show ?case by (simp add: operand_reads_def)
next
  case (Cons u us)
  obtain n out ins where u: "u = (n, out, ins)" by (metis prod_cases3)
  let ?rd = "mapE (\<lambda>f. bindE (getS f J) (\<lambda>x. Inr (mask3 n x)))"
  have m: "?rd fs = Inr xs \<Longrightarrow> length xs = length fs \<and> list_all (\<lambda>x. x = mask3 n x) xs" for fs xs
  proof (induction fs arbitrary: xs)
    case (Cons f fs)
    obtain y where g: "getS f J = Inr y" using Cons.prems by (cases "getS f J") simp_all
    obtain ys where ys: "?rd fs = Inr ys" using Cons.prems g by (cases "?rd fs") simp_all
    moreover have "xs = mask3 n y # ys" using Cons.prems g ys by simp
    moreover have "n \<le> 64" using Cons.prems(1) u \<open>\<forall>(n, out, ins) \<in> set (u # us). n \<le> 64\<close> by simp
    ultimately show ?case using Cons.IH [OF ys] by (simp add: mask3_twice)
  qed simp
  obtain xs where xs: "?rd ins = Inr xs" using Cons.prems(1) by (cases "?rd ins") (simp_all add: operand_reads_def u)
  obtain yss where yss: "operand_reads mask3 us J = Inr yss"
    using Cons.prems(1) xs by (cases "operand_reads mask3 us J") (simp_all add: operand_reads_def u)
  have "xss = xs # yss" using Cons.prems(1) xs yss by (simp add: operand_reads_def u)
  then show ?case using Cons.IH [OF yss] Cons.prems(2) m [OF xs] by (simp add: u)
qed

lemma gates_of_lists:
  assumes "length xss = length us"
  shows "length (gates_of us xss) = length us" "map g_len (gates_of us xss) = map fst us"
    "map (\<lambda>g. gate_result (g_vals g)) (gates_of us xss) = map gate_result (map (map fst) xss)"
  using assms
  by (induction us xss rule: list_induct2') (auto simp: gates_of_def)

lemma batch_size_gates_of:
  assumes "list_all2 (\<lambda>(n, out, ins) xs. length xs = length ins \<and> P n xs) us xss"
  shows "batch_size (gates_of us xss) = sum_list (map (\<lambda>(n, out, ins). 8 * com_count (length ins)) us)"
  using assms by (induction rule: list_all2_induct) (auto simp: batch_size_def gates_of_def)

lemma and_refines:
  assumes st: "\<forall>i < 3. t_proc st i = map_proc (share_of i) J" "\<forall>i < 3. my_num (t_mul st i) = i"
      "synced (shared_prngs (t_mul st 0)) (shared_prngs (t_mul st 1)) (shared_prngs (t_mul st 2))"
    and run: "clear_and gate_result args (map_proc fst J) = Inr p" and ok: "and_ok args"
  shows "\<exists>J' Q. p = map_proc fst J' \<and> tri_and E False args st =
      Inr (st\<lparr>t_proc := three (map_proc (share_of 0) J') (map_proc (share_of 1) J') (map_proc (share_of 2) J'), t_mul := Q\<rparr>) \<and>
      (\<forall>i < 3. my_num (Q i) = i) \<and> synced (shared_prngs (Q 0)) (shared_prngs (Q 1)) (shared_prngs (Q 2))"
proof -
  obtain us where us: "and_units args = Inr us" "\<forall>(n, out, ins) \<in> set us. 2 \<le> length ins"
    "sum_list (map (\<lambda>(n, out, ins). 8 * com_count (length ins)) us) < 2 ^ 32"
    using ok by (auto simp: and_ok_def split: sum.splits)
  have b: "\<forall>(n, out, ins) \<in> set us. 2 \<le> length ins \<and> 0 < n \<and> n \<le> 64" using us(1,2) and_units_bounds by fastforce
  obtain vss where "operand_reads (\<lambda>n x. bv_mask x n) us (map_proc fst J) = Inr vss"
    using run us(1) by (auto simp: clear_and_def operand_reads_def res_simps)
  then obtain xss where xss: "operand_reads mask3 us J = Inr xss" "vss = map (map fst) xss"
    using operand_reads_hom [of "\<lambda>n x. bv_mask x n" fst mask3 us J] by (auto simp: map_res_eq_Inr)
  let ?gs = "gates_of us xss" and ?us = "map (\<lambda>(n, out, ins). (n, out)) us"
  have masked: "list_all2 (\<lambda>(n, out, ins) xs. length xs = length ins \<and> list_all (\<lambda>x. x = mask3 n x) xs) us xss"
    using operand_reads_masked [OF xss(1)] b by auto
  have len: "length xss = length us" using masked by (auto dest: list_all2_lengthD)
  have prep: "and_prepare E False args (t_proc st i) (t_mul st i) = prepare_all E ?gs i (init_mul (t_mul st i))" if "i < 3" for i
    using and_prepare_gates [OF us(1), of "map_proc (share_of i) J" i xss] operand_reads_hom [of "\<lambda>n x. fv_mask x n" "share_of i" mask3 us J]
      xss(1) st(1) that by simp
  obtain R T where RT: "run_batch E ?gs (t_mul st 0) (t_mul st 1) (t_mul st 2) = Inr ((R 0, T 0), (R 1, T 1), (R 2, T (2 :: nat)))"
    "\<forall>i < 3. my_num (T i) = i \<and> length (R i) = length ?gs"
    "synced (shared_prngs (T 0)) (shared_prngs (T 1)) (shared_prngs (T 2))"
    "\<forall>j < length ?gs. sharing (g_len (?gs ! j)) (gate_result (g_vals (?gs ! j))) (R 0 ! j) (R 1 ! j) (R 2 ! j)"
    using run_batch_shares [OF st(2,3) gates_of_ok [OF masked b], of E] us(3) batch_size_gates_of [OF masked] by auto
  obtain ys where ys: "length ys = length ?gs" "map fst ys = map (\<lambda>j. gate_result (g_vals (?gs ! j))) [0..<length ?gs]"
    "\<forall>i < 3. R i = map (share_of i) ys"
    using sharings_share_of [OF RT(4)] RT(2) by auto
  have vals: "map fst ys = map gate_result vss"
    using ys(2) gates_of_lists(3) [OF len] xss(2) map_nths [of "\<lambda>g. gate_result (g_vals g)" ?gs] by simp
  have "store_masked (\<lambda>n x. bv_mask x n) ?us (map fst ys) (map_proc fst J) = Inr p"
    using run clear_and_store [OF us(1), of "map_proc fst J" vss gate_result] vals xss operand_reads_hom [of "\<lambda>n x. bv_mask x n" fst mask3 us J] by simp
  then obtain J' where J': "store_masked mask3 ?us ys J = Inr J'" "p = map_proc fst J'"
    using store_masked_hom [of "\<lambda>n x. bv_mask x n" fst mask3 ?us ys J] by (auto simp: map_res_eq_Inr)
  obtain P0 P1 P2 Q0 Q1 Q2 where PQ: "prepare_all E ?gs 0 (init_mul (t_mul st 0)) = Inr P0" "prepare_all E ?gs 1 (init_mul (t_mul st 1)) = Inr P1"
      "prepare_all E ?gs 2 (init_mul (t_mul st 2)) = Inr P2" "exchange P0 P1 P2 = Some (Q0, Q1, Q2)"
    and F: "finalize_all (map g_len ?gs) Q0 = Inr (R 0, T 0)" "finalize_all (map g_len ?gs) Q1 = Inr (R 1, T 1)" "finalize_all (map g_len ?gs) Q2 = Inr (R 2, T 2)"
    using RT(1) by (auto simp: run_batch_def res_simps split: option.splits)
  have fin: "and_finalize args (t_proc st i) (three Q0 Q1 Q2 i) = Inr (map_proc (share_of i) J', T i)" if i: "i < 3" for i
  proof -
    have "finalize_all (map g_len ?gs) (three Q0 Q1 Q2 i) = Inr (R i, T i)"
      using F i by (auto simp: three_def less_Suc_eq numeral_3_eq_3 numeral_2_eq_2)
    then have "take_results finalize_mul (map fst ?us) (three Q0 Q1 Q2 i) = Inr (R i, T i)"
      using gates_of_lists(2) [OF len] by (simp add: take_results_finalize_all case_prod_unfold comp_def)
    from write_back_store [OF this] have "and_finalize args (t_proc st i) (three Q0 Q1 Q2 i)
        = map_res (\<lambda>p'. (p', T i)) (store_masked (\<lambda>n x. fv_mask x n) ?us (R i) (t_proc st i))"
      by (simp add: and_finalize_write_back [OF us(1)])
    with store_masked_hom [of "\<lambda>n x. fv_mask x n" "share_of i" mask3 ?us ys J] J'(1) ys(3) st(1) i show ?thesis by simp
  qed
  have prep3: "parE (\<lambda>i. and_prepare E False args (t_proc st i) (t_mul st i)) = Inr (three P0 P1 P2)"
    unfolding parE_def using prep PQ by simp
  have "tri_and E False args st = Inr (st\<lparr>t_proc := fst \<circ> three (map_proc (share_of 0) J', T 0) (map_proc (share_of 1) J', T 1) (map_proc (share_of 2) J', T 2),
      t_mul := snd \<circ> three (map_proc (share_of 0) J', T 0) (map_proc (share_of 1) J', T 1) (map_proc (share_of 2) J', T 2)\<rparr>)"
    unfolding tri_and_def prep3 using parE_Inr [OF fin] PQ(4) by (simp add: three_at)
  moreover have "\<forall>i < 3. my_num (three (T 0) (T 1) (T 2) i) = i" using RT(2) three_fun [of _ T] by simp
  ultimately show ?thesis
    using J'(2) RT(3) by (intro exI [of _ J'] exI [of _ "three (T 0) (T 1) (T 2)"]) (simp add: comp_three three_at)
qed

subsection \<open>Opening\<close>

definition reveal_ok :: "int list \<Rightarrow> bool" where
  "reveal_ok args = (case reveal_units args of Inl e \<Rightarrow> False | Inr us \<Rightarrow> length us * 8 < 2 ^ 32)"

definition reveal_reads :: "(nat \<Rightarrow> 'x \<Rightarrow> 'x) \<Rightarrow> (nat \<times> int \<times> int) list \<Rightarrow> 'x processor \<Rightarrow> 'x list res" where
  "reveal_reads msk us p = mapE (\<lambda>(n, r0, r1). bindE (getS r1 p) (\<lambda>x. Inr (msk n x))) us"

lemma reveal_reads_hom:
  assumes "\<And>n x. m' n (h x) = h (m n x)"
  shows "reveal_reads m' us (map_proc h p) = map_res (map h) (reveal_reads m us p)"
  unfolding reveal_reads_def by (rule mapE_map_res) (auto simp: hom_simps assms split: prod.split)

lemma reveal_store_hom:
  fixes h :: "'a \<Rightarrow> 'b"
  shows "reveal_store args vs (map_proc h p) = map_res (map_proc h) (reveal_store args vs p)"
proof -
  define f :: "nat \<times> int \<times> int \<Rightarrow> 'a processor \<times> bitvec list \<Rightarrow> ('a processor \<times> bitvec list) res" where
    "f = (\<lambda>(n, r0, r1) (p, os). case os of [] \<Rightarrow> Inl (Undefined_Behaviour ''PointerVector::next'')
       | v # vs \<Rightarrow> bindE (putC r0 (bv_mask v n) p) (\<lambda>p'. Inr (p', vs)))"
  define g :: "nat \<times> int \<times> int \<Rightarrow> 'b processor \<times> bitvec list \<Rightarrow> ('b processor \<times> bitvec list) res" where
    "g = (\<lambda>(n, r0, r1) (p, os). case os of [] \<Rightarrow> Inl (Undefined_Behaviour ''PointerVector::next'')
       | v # vs \<Rightarrow> bindE (putC r0 (bv_mask v n) p) (\<lambda>p'. Inr (p', vs)))"
  have "g u (map_prod (map_proc h) id s) = map_res (map_prod (map_proc h) id) (f u s)" for u s
    by (cases u; cases s) (auto simp: f_def g_def hom_simps split: list.split)
  then have "foldE g us (map_prod (map_proc h) id s) = map_res (map_prod (map_proc h) id) (foldE f us s)" for us s
    by (rule foldE_map_res)
  from this [of _ "(p, vs)"] show ?thesis
    unfolding reveal_store_def f_def [symmetric] g_def [symmetric] by (simp add: hom_simps case_prod_unfold)
qed

lemma reveal_units_bounds: "reveal_units args = Inr us \<Longrightarrow> (n, r0, r1) \<in> set us \<Longrightarrow> n \<le> 64"
  using unit_length_bounds by (fastforce simp: reveal_units_def res_simps)

lemma reveal_reads_masked:
  assumes "reveal_reads mask3 us J = Inr xs" "\<forall>(n, r0, r1) \<in> set us. n \<le> 64"
  shows "list_all2 (\<lambda>(n, r0, r1) x. x = mask3 n x \<and> n \<le> 64) us xs"
  using assms
proof (induction us arbitrary: xs)
  case Nil
  then show ?case by (simp add: reveal_reads_def)
next
  case (Cons u us)
  obtain n r0 r1 where u: "u = (n, r0, r1)" by (metis prod_cases3)
  obtain y where g: "getS r1 J = Inr y"
    using Cons.prems(1) by (cases "getS r1 J") (simp_all add: reveal_reads_def u)
  obtain ys where ys: "reveal_reads mask3 us J = Inr ys"
    using Cons.prems(1) g by (cases "reveal_reads mask3 us J") (simp_all add: reveal_reads_def u)
  then have "xs = mask3 n y # ys"
    using Cons.prems(1) g by (simp add: reveal_reads_def u)
  moreover have "n \<le> 64" using Cons.prems(2) u by simp
  ultimately show ?case using Cons.IH [OF ys] Cons.prems(2) by (simp add: u mask3_twice)
qed

lemma reveal_refines:
  assumes st: "\<forall>i < 3. t_proc st i = map_proc (share_of i) J"
    and run: "clear_reveal args (map_proc fst J) = Inr p" and ok: "reveal_ok args"
  shows "\<exists>J' M. p = map_proc fst J' \<and> tri_reveal args st =
      Inr (st\<lparr>t_proc := three (map_proc (share_of 0) J') (map_proc (share_of 1) J') (map_proc (share_of 2) J'), t_mc := M\<rparr>)"
proof -
  obtain us where us: "reveal_units args = Inr us" "length us * 8 < 2 ^ 32"
    using ok by (auto simp: reveal_ok_def split: sum.splits)
  obtain vs where vs: "reveal_reads (\<lambda>n x. bv_mask x n) us (map_proc fst J) = Inr vs" "reveal_store args vs (map_proc fst J) = Inr p"
    using run us(1) by (auto simp: clear_reveal_def reveal_reads_def res_simps)
  obtain xs where xs: "reveal_reads mask3 us J = Inr xs" "vs = map fst xs"
    using vs(1) reveal_reads_hom [of "\<lambda>n x. bv_mask x n" fst mask3 us J] by (auto simp: map_res_eq_Inr)
  have m: "list_all2 (\<lambda>(n, r0, r1) x. x = mask3 n x \<and> n \<le> 64) us xs"
    using reveal_reads_masked [OF xs(1)] reveal_units_bounds [OF us(1)] by auto
  have len: "length xs = length us" using m by (auto dest: list_all2_lengthD)
  have shares: "reveal_shares args (t_proc st i) = Inr (map (share_of i) xs)" if "i < 3" for i
    using reveal_reads_hom [of "\<lambda>n x. fv_mask x n" "share_of i" mask3 us J] xs(1) st that us(1)
    by (simp add: reveal_shares_def reveal_reads_def)
  have sh: "sharing (map fst us ! j) (vs ! j) (map (share_of 0) xs ! j) (map (share_of 1) xs ! j) (map (share_of 2) xs ! j)"
    if j: "j < length vs" for j
  proof -
    obtain n r0 r1 where u: "us ! j = (n, r0, r1)" by (metis prod_cases3)
    have "xs ! j = mask3 n (xs ! j) \<and> n \<le> 64" using m j u len xs(2) by (auto simp: list_all2_conv_all_nth)
    then show ?thesis using share_of_sharing [of n "xs ! j"] j len xs(2) u by simp
  qed
  have l: "length (three (map (share_of 0) xs) (map (share_of 1) xs) (map (share_of 2) xs) i) = length vs" for i
    using xs(2) by (simp add: three_def)
  obtain T where T: "multi_popen bitvec_ops (three (map (share_of 0) xs) (map (share_of 1) xs) (map (share_of 2) xs)) (t_mc st) = Inr ((vs, T 0), (vs, T 1), (vs, T (2 :: nat)))"
    using multi_popen_opens [of "three (map (share_of 0) xs) (map (share_of 1) xs) (map (share_of 2) xs)" vs "map fst us" "t_mc st", OF l] sh us(2) len xs(2)
    by (auto simp: three_at simp del: One_nat_def)
  obtain J' where J': "reveal_store args vs J = Inr J'" "p = map_proc fst J'"
    using vs(2) reveal_store_hom [of args vs fst J] by (auto simp: map_res_eq_Inr)
  have st': "reveal_store args (three vs vs vs i) (t_proc st i) = Inr (map_proc (share_of i) J')" if "i < 3" for i
    using reveal_store_hom [of args vs "share_of i" J] J'(1) st that by (auto simp: three_def)
  show ?thesis
    using J'(2) T by (intro exI [of _ J'] exI [of _ "three (T 0) (T 1) (T 2)"]) (simp add: tri_reveal_def parE_Inr [OF shares] parE_Inr [OF st'])
qed

end
