(* ===== verification/GCInputs.thy ===== *)
theory GCInputs
  imports GCRefine
begin

text \<open>
  Private inputs of player 0 under the machine: the values that \<^verbatim>\<open>inputb\<close> reads are cut
  into chunks of 64 bits that fit their units, and the round of the three parties leaves
  joint registers that stand for them.
\<close>

unbundle bit_operations_syntax

subsection \<open>Chunks of an input\<close>

lemma mpz_get_si_nonneg: "0 \<le> z \<Longrightarrow> mpz_get_si z = take_bit 63 (word_of_int z)"
  by (cases "z = 0") (simp_all add: mpz_get_si_def take_bit_eq_mask Let_def)

lemma mpz_get_si_fits:
  assumes "0 \<le> z" "z < 2 ^ m" "m \<le> 63"
  shows "take_bit m (mpz_get_si z) = mpz_get_si z"
proof -
  have "take_bit m (mpz_get_si z) = take_bit m (word_of_int z)"
    using assms(3) by (simp add: mpz_get_si_nonneg [OF assms(1)] min_def)
  moreover have "take_bit m (word_of_int z :: word64) = word_of_int z" "take_bit 63 (word_of_int z :: word64) = word_of_int z"
  proof -
    have "z < 2 ^ 63" using assms(2,3) power_increasing [of m 63 "2 :: int"] by linarith
    with assms show "take_bit m (word_of_int z :: word64) = word_of_int z" "take_bit 63 (word_of_int z :: word64) = word_of_int z"
      by (auto simp: take_bit_of_int take_bit_int_eq_self)
  qed
  ultimately show ?thesis using mpz_get_si_nonneg [OF assms(1)] by simp
qed

lemma unit_length_last:
  assumes "j < n_units n" "unit_length n j < 64"
  shows "unit_length n j = n - int j * 64"
  using assms(2) by (simp add: unit_length_def default_length_def)

lemma int_div_less:
  assumes "0 < b" "w < a * b"
  shows "w div b < (a :: int)"
proof (rule ccontr)
  assume "\<not> w div b < a"
  then have "a * b \<le> w div b * b" using assms(1) by (intro mult_right_mono) auto
  moreover have "w div b * b + w mod b = w" "0 \<le> w mod b" using assms(1) by simp_all
  ultimately show False using assms(2) by linarith
qed

lemma input_chunk_fits:
  assumes "check_input w n = Inr ()" "0 \<le> w" "j < n_units n"
  shows "fits (nat (unit_length n j)) (input_chunk w j)"
proof (cases "unit_length n j < 64")
  case False
  then have "unit_length n j = 64" using unit_length_bounds [OF assms(3)] by simp
  then show ?thesis by (simp add: fits_def bv_mask_take_bit take_bit_word_eq_self)
next
  case True
  let ?k = "nat (unit_length n j)"
  have k: "unit_length n j = n - int j * 64" "0 < ?k" "?k \<le> 63"
    using unit_length_last [OF assms(3) True] unit_length_bounds [OF assms(3)] True by auto
  have "drop_bit (64 * j) w < 2 ^ ?k"
  proof (cases "n = 1")
    case True
    then have "w < 2" "j = 0" using assms(1) k by (auto simp: check_input_def Let_def)
    with k True show ?thesis by simp
  next
    case False
    have pos: "0 \<le> drop_bit (nat (n - 1)) w" using assms(2) by simp
    have "drop_bit (nat (n - 1)) w = 0" "1 < n"
      using assms(1) k False pos by (auto simp: check_input_def Let_def)
    then have "w < 2 ^ nat (n - 1)"
      using assms(2) by (simp add: drop_bit_eq_div div_eq_0_iff) (use zdiv_eq_0_iff [of w "2 ^ nat (n - 1)"] in auto)
    also have "\<dots> \<le> 2 ^ (64 * j + ?k)" using k by (intro power_increasing) auto
    finally show ?thesis by (auto simp: drop_bit_eq_div power_add mult.commute intro!: int_div_less)
  qed
  then have "take_bit ?k (input_chunk w j) = input_chunk w j"
    unfolding input_chunk_def using k(3) assms(2) by (intro mpz_get_si_fits) auto
  then show ?thesis using k(3) by (simp add: fits_def bv_mask_take_bit)
qed

subsection \<open>The inputs of an instruction\<close>

fun input_items :: "(int \<times> int \<times> int \<times> int) list \<Rightarrow> input_file \<Rightarrow> ((nat \<times> int \<times> bitvec) list \<times> input_file) res" where
  "input_items [] file = Inr ([], file)"
| "input_items ((who, n_bits, n_shift, dest) # xs) file =
     bindE (get_long_input n_bits n_shift file) (\<lambda>(w, file').
     bindE (input_items xs file') (\<lambda>(us, file'').
     Inr (map (\<lambda>i. (nat (unit_length n_bits i), dest + int i, input_chunk w i)) [0..<n_units n_bits] @ us, file'')))"

lemma input_items_fits:
  assumes "input_items xs file = Inr (us, file')" "\<forall>f \<in> set file. \<forall>sh. 0 \<le> f sh"
  shows "(\<forall>(n, out, x) \<in> set us. 0 < n \<and> n \<le> 64 \<and> fits n x) \<and> set file' \<subseteq> set file"
  using assms
proof (induction xs "file" arbitrary: us file' rule: input_items.induct)
  case (1 fl)
  then show ?case by simp
next
  case (2 who n_bits n_shift dest xs fl)
  obtain w f1 where w: "get_long_input n_bits n_shift fl = Inr (w, f1)"
    using 2(2) by (cases "get_long_input n_bits n_shift fl") auto
  obtain us2 where us: "input_items xs f1 = Inr (us2, file')"
    "us = map (\<lambda>i. (nat (unit_length n_bits i), dest + int i, input_chunk w i)) [0..<n_units n_bits] @ us2"
    using 2(2) w by (cases "input_items xs f1") auto
  have f: "check_input w n_bits = Inr ()" "0 \<le> w" "set f1 \<subseteq> set fl"
    using w 2(3) by (auto simp: get_long_input_def res_simps split: list.splits)
  have "(\<forall>(n, out, x) \<in> set us2. 0 < n \<and> n \<le> 64 \<and> fits n x) \<and> set file' \<subseteq> set f1"
    using 2(1) [OF w refl us(1)] f(3) 2(3) by blast
  with f input_chunk_fits [OF f(1,2)] unit_length_bounds [of _ n_bits] show ?case
    by (fastforce simp: us(2))
qed

text \<open>The same as a relation: player 0 reads the numbers of an instruction from its file.\<close>

abbreviation item_units :: "int \<Rightarrow> int \<Rightarrow> int \<Rightarrow> (nat \<times> int \<times> bitvec) list" where
  "item_units n_bits dest w \<equiv> map (\<lambda>i. (nat (unit_length n_bits i), dest + int i, input_chunk w i)) [0..<n_units n_bits]"

inductive reads :: "(int \<times> int \<times> int \<times> int) list \<Rightarrow> input_file \<Rightarrow> (nat \<times> int \<times> bitvec) list \<Rightarrow> input_file \<Rightarrow> bool" where
  reads_Nil: "reads [] f [] f"
| reads_Cons: "get_long_input n_bits n_shift f = Inr (w, f1) \<Longrightarrow> reads xs f1 us f' \<Longrightarrow>
    reads ((0, n_bits, n_shift, dest) # xs) f (item_units n_bits dest w @ us) f'"

lemma reads_items:
  "input_items xs f = Inr (us, f') \<Longrightarrow> \<forall>(who, n_bits, n_shift, dest) \<in> set xs. who = 0 \<Longrightarrow> reads xs f us f'"
proof (induction xs arbitrary: f us)
  case Nil
  then show ?case by (simp add: reads_Nil)
next
  case (Cons x xs)
  obtain n_bits n_shift dest where x: "x = (0, n_bits, n_shift, dest)" using Cons.prems(2) by (cases x) auto
  obtain w f1 where w: "get_long_input n_bits n_shift f = Inr (w, f1)"
    using Cons.prems(1) by (cases "get_long_input n_bits n_shift f") (auto simp: x)
  obtain us2 where us: "input_items xs f1 = Inr (us2, f')" "us = item_units n_bits dest w @ us2"
    using Cons.prems(1) w by (cases "input_items xs f1") (auto simp: x)
  with Cons.IH [OF us(1)] Cons.prems(2) w show ?case by (simp add: x reads_Cons)
qed

subsection \<open>What the parties and the values do with them\<close>

lemma clear_inputb_reads:
  assumes "clear_inputb args c = Inr c'" "\<forall>(who, n_bits, n_shift, dest) \<in> set (chunks4 args). who = 0"
  shows "\<exists>us file'. reads (chunks4 args) (c_file c 0) us file' \<and> length args mod 4 = 0 \<and>
    foldE (\<lambda>(n, out, x). putS out (bv_mask x n)) us (c_proc c) = Inr (c_proc c') \<and> c_file c' = (c_file c)(0 := file')"
proof -
  let ?f = "\<lambda>(who, n_bits, n_shift, dest) c. bindE (player_index who) (\<lambda>k.
       bindE (get_long_input n_bits n_shift (c_file c k)) (\<lambda>(whole_input, file').
       bindE (foldE (\<lambda>i. putS (dest + int i) (bv_mask (input_chunk whole_input i) (nat (unit_length n_bits i))))
         [0..<n_units n_bits] (c_proc c)) (\<lambda>p'. Inr (c\<lparr>c_proc := p', c_file := (c_file c)(k := file')\<rparr>))))"
  have "\<exists>us file'. reads xs (c_file c 0) us file' \<and>
    foldE (\<lambda>(n, out, x). putS out (bv_mask x n)) us (c_proc c) = Inr (c_proc c') \<and> c_file c' = (c_file c)(0 := file')"
    if "foldE ?f xs c = Inr c'" "\<forall>(who, n_bits, n_shift, dest) \<in> set xs. who = 0" for xs
    using that
  proof (induction xs arbitrary: c)
    case Nil
    then show ?case by (auto simp: fun_eq_iff intro: reads_Nil)
  next
    case (Cons x xs)
    obtain n_bits n_shift dest where x: "x = (0, n_bits, n_shift, dest)" using Cons.prems(2) by (cases x) auto
    obtain w f1 where w: "get_long_input n_bits n_shift (c_file c 0) = Inr (w, f1)"
      using Cons.prems(1) by (cases "get_long_input n_bits n_shift (c_file c 0)") (auto simp: x player_index_def)
    let ?put = "foldE (\<lambda>i. putS (dest + int i) (bv_mask (input_chunk w i) (nat (unit_length n_bits i)))) [0..<n_units n_bits] (c_proc c)"
    obtain p1 where p1: "?put = Inr p1"
      using Cons.prems(1) w by (cases ?put) (auto simp: x player_index_def)
    let ?c1 = "c\<lparr>c_proc := p1, c_file := (c_file c)(0 := f1)\<rparr>"
    have "foldE ?f xs ?c1 = Inr c'" using Cons.prems(1) w p1 by (simp add: x player_index_def del: fun_upd_apply)
    from Cons.IH [OF this] Cons.prems(2) obtain us file' where
      r: "reads xs f1 us file'" "foldE (\<lambda>(n, out, x). putS out (bv_mask x n)) us p1 = Inr (c_proc c')"
      "c_file c' = (c_file c)(0 := file')" by (auto simp: fun_eq_iff)
    have "foldE (\<lambda>(n, out, x). putS out (bv_mask x n)) (item_units n_bits dest w @ us) (c_proc c) = Inr (c_proc c')"
      using p1 r(2) by (simp add: foldE_append foldE_map)
    with r(3) reads_Cons [OF w r(1)] show ?case unfolding x by blast
  qed
  from this [of "chunks4 args"] assms show ?thesis by (auto simp: clear_inputb_def input_args_def res_simps)
qed

lemma inputb_prepare_mine:
  assumes "reads (chunks4 args) f us f'" "length args mod 4 = 0"
  shows "inputb_prepare E 0 args f s = bindE (in_reset_all s) (\<lambda>s. map_res (Pair f') (foldE (\<lambda>(n, out, x). multi_add_mine bitvec_ops E x (Some n)) us s))"
proof -
  let ?f = "\<lambda>(who, n_bits, n_shift, dest) (file, s).
       if who = int 0 then
         bindE (get_long_input n_bits n_shift file) (\<lambda>(whole_input, file').
         bindE (foldE (\<lambda>i. multi_add_mine bitvec_ops E (input_chunk whole_input i) (Some (nat (unit_length n_bits i))))
           [0..<n_units n_bits] s) (\<lambda>s'. Inr (file', s')))
       else bindE (foldE (\<lambda>i s. bindE (player_index who) (\<lambda>k. in_add_other k s)) [0..<n_units n_bits] s) (\<lambda>s'. Inr (file, s'))"
  have "foldE ?f xs (f, s) = map_res (Pair f') (foldE (\<lambda>(n, out, x). multi_add_mine bitvec_ops E x (Some n)) us s)"
    if "reads xs f us f'" for xs s
    using that by (induction arbitrary: s rule: reads.induct) (simp_all add: foldE_append foldE_map bindE_assoc hom_simps)
  from this [OF assms(1)] assms(2) show ?thesis by (simp add: inputb_prepare_def input_args_def)
qed

lemma inputb_prepare_other:
  assumes "reads (chunks4 args) g us g'" "length args mod 4 = 0" "i \<noteq> 0"
  shows "inputb_prepare E i args f s = bindE (in_reset_all s) (\<lambda>s. map_res (Pair f) (foldE (\<lambda>u. in_add_other 0) us s))"
proof -
  let ?f = "\<lambda>(who, n_bits, n_shift, dest) (file, s).
       if who = int i then
         bindE (get_long_input n_bits n_shift file) (\<lambda>(whole_input, file').
         bindE (foldE (\<lambda>i. multi_add_mine bitvec_ops E (input_chunk whole_input i) (Some (nat (unit_length n_bits i))))
           [0..<n_units n_bits] s) (\<lambda>s'. Inr (file', s')))
       else bindE (foldE (\<lambda>i s. bindE (player_index who) (\<lambda>k. in_add_other k s)) [0..<n_units n_bits] s) (\<lambda>s'. Inr (file, s'))"
  have "foldE ?f xs (f, s) = map_res (Pair f) (foldE (\<lambda>u. in_add_other 0) us s)"
    if "reads xs g us g'" for xs s
    using that assms(3)
    by (induction arbitrary: s rule: reads.induct) (simp_all add: foldE_append foldE_map bindE_assoc hom_simps player_index_def)
  from this [OF assms(1)] assms(2) show ?thesis by (simp add: inputb_prepare_def input_args_def)
qed

lemma inputb_finalize_reads:
  assumes "reads (chunks4 args) g us g'" "length args mod 4 = 0"
  shows "inputb_finalize args p s = map_res fst (write_back (\<lambda>n. multi_finalize bitvec_ops 0 (Some n)) (map (\<lambda>(n, out, x). (n, out)) us) p s)"
proof -
  let ?f = "\<lambda>(who, n_bits, n_shift, dest). foldE (\<lambda>i (p, s).
         let n = nat (unit_length n_bits i) in
         bindE (player_index who) (\<lambda>k. bindE (multi_finalize bitvec_ops k (Some n) s) (\<lambda>(x, s').
         bindE (putS (dest + int i) (fv_mask x n) p) (\<lambda>p'. Inr (p', s'))))) [0..<n_units n_bits]"
  let ?u = "\<lambda>(n, out) (p, s). bindE (multi_finalize bitvec_ops 0 (Some n) s) (\<lambda>(x, s').
         bindE (putS out (fv_mask x n) p) (\<lambda>p'. Inr (p', s')))"
  have "foldE ?f xs q = foldE ?u (map (\<lambda>(n, out, x). (n, out)) us) q" if "reads xs g us g'" for xs q
    using that
  proof (induction arbitrary: q rule: reads.induct)
    case (reads_Nil f)
    then show ?case by simp
  next
    case (reads_Cons n_bits n_shift f w f1 xs us f' dest)
    have ih: "foldE ?f xs = foldE ?u (map (\<lambda>(n, out, x). (n, out)) us)" using reads_Cons.IH by (intro ext)
    have one: "?f (0, n_bits, n_shift, dest) = foldE ?u (map (\<lambda>(n, out, x). (n, out)) (item_units n_bits dest w))"
      by (simp add: foldE_map player_index_def Let_def case_prod_unfold)
    show ?case unfolding map_append foldE_append foldE.simps ih one ..
  qed
  from this [OF assms(1)] assms(2) show ?thesis
    by (simp add: inputb_finalize_def input_args_def write_back_def case_prod_unfold) (simp add: map_res_def bindE_def)
qed

lemma input_schedule_player_0:
  assumes "reads (chunks4 args) g us g'" "us \<noteq> []"
  shows "input_schedule args = [0, 0, get_player 3 0 1, get_player 3 0 (- 1)]"
proof -
  have "(us \<noteq> [] \<longrightarrow> (\<exists>(who, n_bits, n_shift, dest) \<in> set xs. who = 0 \<and> 0 < n_units n_bits)) \<and> (\<forall>x \<in> set xs. fst x = 0)"
    if "reads xs g us g'" for xs
    using that by (induction rule: reads.induct) auto
  note h = this [OF assms(1)]
  define Q where "Q = (\<lambda>k. \<exists>(who, n_bits, n_shift, dest) \<in> set (chunks4 args). who = int k \<and> 0 < n_units n_bits)"
  have "Q 0" using h assms(2) by (simp add: Q_def)
  moreover have "\<not> Q k" if "k \<noteq> 0" for k using h that by (auto simp: Q_def)
  moreover have "input_players args = filter Q [0, 1, 2]" by (simp only: input_players_def Q_def)
  ultimately have "input_players args = [0]" by simp
  then show ?thesis by (simp add: input_schedule_def)
qed

subsection \<open>The round\<close>

lemma take_results_finalize_inputs:
  "take_results (\<lambda>n. multi_finalize R p (Some n)) ns s = finalize_inputs (multi_finalize R p) (map Some ns) s"
  by (induction ns arbitrary: s) simp_all

text \<open>The conditions: only player 0 gives inputs, at least one, and they fit one message.\<close>

definition input_ok :: "int list \<Rightarrow> bool" where
  "input_ok args \<longleftrightarrow> (\<forall>(who, n_bits, n_shift, dest) \<in> set (chunks4 args). who = 0) \<and>
     0 < sum_list (map (\<lambda>(who, n_bits, n_shift, dest). n_units n_bits) (chunks4 args)) \<and>
     16 * sum_list (map (\<lambda>(who, n_bits, n_shift, dest). n_units n_bits) (chunks4 args)) < 2 ^ 32"

lemma reads_count: "reads xs f us f' \<Longrightarrow> length us = sum_list (map (\<lambda>(who, n_bits, n_shift, dest). n_units n_bits) xs)"
  by (induction rule: reads.induct) simp_all

lemma reads_fits:
  "reads xs f us f' \<Longrightarrow> \<forall>g \<in> set f. \<forall>sh. 0 \<le> g sh \<Longrightarrow> (\<forall>(n, out, x) \<in> set us. 0 < n \<and> n \<le> 64 \<and> fits n x) \<and> set f' \<subseteq> set f"
proof (induction rule: reads.induct)
  case (reads_Nil f)
  then show ?case by simp
next
  case (reads_Cons n_bits n_shift f w f1 xs us f' dest)
  have f: "check_input w n_bits = Inr ()" "0 \<le> w" "set f1 \<subseteq> set f"
    using reads_Cons.hyps(1) reads_Cons.prems by (auto simp: get_long_input_def res_simps split: list.splits)
  moreover have "(\<forall>(n, out, x) \<in> set us. 0 < n \<and> n \<le> 64 \<and> fits n x) \<and> set f' \<subseteq> set f1"
    using reads_Cons.IH reads_Cons.prems f(3) by blast
  ultimately show ?case using input_chunk_fits [OF f(1,2)] unit_length_bounds [of _ n_bits] by fastforce
qed

lemma inputb_refines:
  assumes st: "\<forall>i < 3. t_proc st i = map_proc (share_of i) J" "t_file st 0 = f" "\<forall>g \<in> set f. \<forall>sh. 0 \<le> g sh"
    and env: "\<forall>i < 3. in_inv i (env (t_time st) i)" and ok: "input_ok args"
    and run: "clear_inputb args \<lparr>c_proc = map_proc fst J, c_file = cf\<rparr> = Inr c'" "cf 0 = f"
  shows "\<exists>J'. c_proc c' = map_proc fst J' \<and> tri_inputb E env args st =
      Inr (st\<lparr>t_proc := three (map_proc (share_of 0) J') (map_proc (share_of 1) J') (map_proc (share_of 2) J'),
              t_file := three (c_file c' 0) (t_file st 1) (t_file st 2)\<rparr>) \<and>
      c_file c' = cf(0 := c_file c' 0) \<and> set (c_file c' 0) \<subseteq> set f"
proof -
  obtain us f' where us: "reads (chunks4 args) f us f'" "length args mod 4 = 0"
    "foldE (\<lambda>(n, out, x). putS out (bv_mask x n)) us (map_proc fst J) = Inr (c_proc c')" "c_file c' = cf(0 := f')"
    using clear_inputb_reads [OF run(1)] ok run(2) by (auto simp: input_ok_def)
  let ?S = "env (t_time st)" and ?xs = "map (\<lambda>(n, out, x). (Some n, x)) us" and ?us = "map (\<lambda>(n, out, x). (n, out)) us"
  have len: "us \<noteq> []" "16 * length us < 2 ^ 32" using ok unfolding input_ok_def reads_count [OF us(1), symmetric] by auto
  have fit: "\<forall>(n, out, x) \<in> set us. 0 < n \<and> n \<le> 64 \<and> fits n x" "set f' \<subseteq> set f" using reads_fits [OF us(1) st(3)] by auto
  have okx: "\<forall>(n, x) \<in> set ?xs. bv_okn n \<and> bv_fit n x" using fit(1) by (auto simp: bv_okn_def bv_fit_def)
  have hd: "fst (hd ?xs) \<noteq> Some 0" "?xs \<noteq> []" "16 * length ?xs < 2 ^ 32" using fit(1) len by (cases us; auto)+
  let ?ms = "input_masks bitvec_ops E (map fst ?xs) (in_prng (?S 0))"
  have inv: "in_inv i (?S i)" if "i < 3" for i using env that by simp
  obtain P Q where PQ: "multi_input_round bitvec_ops E 0 ?xs ?S = Inr (P, Q)" "list_all2 bvt.pair_fit ?xs ?ms"
    "\<forall>i < 3. \<exists>s. finalize_inputs (multi_finalize bitvec_ops 0) (map fst ?xs) (Q i) = Inr (input_shares 0 ?xs ?ms i, s)"
    using input_round [of ?S 0 ?xs E, OF inv _ okx hd(3,2,1)] by auto
  let ?T = "input_shares 0 ?xs ?ms"
  have u3: "[0..<3] = [0, 1, 2 :: nat]" by (simp add: upt_rec)
  obtain P0 P1 P2 where P: "bindE (in_reset_all (?S 0)) (foldE (\<lambda>(n, out, x). multi_add_mine bitvec_ops E x (Some n)) us) = Inr P0"
      "bindE (in_reset_all (?S 1)) (foldE (\<lambda>u. in_add_other 0) us) = Inr P1"
      "bindE (in_reset_all (?S 2)) (foldE (\<lambda>u. in_add_other 0) us) = Inr P2"
      and Q: "input_exchange multi_input_script [0, 0, get_player 3 0 1, get_player 3 0 (- 1)] (\<lambda>i. [P0, P1, P2] ! i) = Some Q"
    using PQ(1) unfolding multi_input_round_def u3 mapE.simps foldE_map
    by (auto simp: res_simps case_prod_unfold Let_def split: option.splits)
  have prep: "parE (\<lambda>i. inputb_prepare E i args (t_file st i) (?S i)) = Inr (three (f', P0) (t_file st 1, P1) (t_file st 2, P2))"
    using P st(2) inputb_prepare_mine [OF us(1,2)] inputb_prepare_other [OF us(1,2)]
    by (simp add: parE_def map_res_bindE [symmetric])
  have sh: "sharing (fst (us ! j)) (snd (snd (us ! j))) (?T 0 ! j) (?T 1 ! j) (?T 2 ! j)" if "j < length us" for j
  proof -
    obtain n out x where u: "us ! j = (n, out, x)" by (metis prod_cases3)
    with input_0_sharing [OF PQ(2), of j n] that show ?thesis by simp
  qed
  have lT: "\<forall>i < 3. length (?T i) = length us" by (simp add: input_shares_def)
  have sh': "\<forall>j < length us. sharing (fst (us ! j)) (snd (snd (us ! j))) (?T 0 ! j) (?T 1 ! j) (?T 2 ! j)" using sh by blast
  from sharings_share_of [where ns = "\<lambda>j. fst (us ! j)" and vs = "\<lambda>j. snd (snd (us ! j))", OF sh' lT] obtain ys where ys: "map fst ys = map (\<lambda>j. snd (snd (us ! j))) [0..<length us]"
    "\<forall>i < 3. ?T i = map (share_of i) ys" by blast
  have z: "zip ?us (map fst ys) = map (\<lambda>(n, out, x). ((n, out), x)) us"
    using ys(1) map_nths [of "\<lambda>u. snd (snd u)" us] by (simp add: zip_map_map case_prod_unfold zip_same_conv_map)
  have "store_masked (\<lambda>n x. bv_mask x n) ?us (map fst ys) (map_proc fst J) = Inr (c_proc c')"
    unfolding store_masked_def z using us(3) by (simp add: foldE_map case_prod_unfold)
  then obtain J' where J': "store_masked mask3 ?us ys J = Inr J'" "c_proc c' = map_proc fst J'"
    using store_masked_hom [of "\<lambda>n x. bv_mask x n" fst mask3 ?us ys J] by (auto simp: map_res_eq_Inr)
  have fin: "inputb_finalize args (t_proc st i) (Q i) = Inr (map_proc (share_of i) J')" if i: "i < 3" for i
  proof -
    obtain s' where "finalize_inputs (multi_finalize bitvec_ops 0) (map fst ?xs) (Q i) = Inr (?T i, s')" using PQ(3) i by blast
    then have "take_results (\<lambda>n. multi_finalize bitvec_ops 0 (Some n)) (map fst ?us) (Q i) = Inr (?T i, s')"
      unfolding take_results_finalize_inputs by (simp add: case_prod_unfold comp_def)
    from write_back_store [OF this] show ?thesis
      using store_masked_hom [of "\<lambda>n x. fv_mask x n" "share_of i" mask3 ?us ys J] J'(1) ys(2) st(1) i
      by (simp add: inputb_finalize_reads [OF us(1,2)])
  qed
  have "tri_inputb E env args st = Inr (st\<lparr>t_proc := three (map_proc (share_of 0) J') (map_proc (share_of 1) J') (map_proc (share_of 2) J'),
      t_file := fst \<circ> three (f', P0) (t_file st 1, P1) (t_file st 2, P2)\<rparr>)"
    unfolding tri_inputb_def prep bindE_simps three_at snd_conv input_schedule_player_0 [OF us(1) len(1)] Q option.case
    using parE_Inr [of "\<lambda>i. inputb_finalize args (t_proc st i) (Q i)", OF fin] by simp
  with J'(2) us(4) fit(2) show ?thesis by (intro exI [of _ J']) (simp add: comp_three)
qed

end
