(* ===== verification/GCRun.thy ===== *)
theory GCRun
  imports GCInputs
begin

text \<open>
  Running a program: \<^verbatim>\<open>Program::execute\<close> (\<^verbatim>\<open>GC/Program.hpp\<close>), \<^verbatim>\<open>Thread::run\<close>
  (\<^verbatim>\<open>GC/Thread.hpp\<close>) and the reset of processor and memories (\<^verbatim>\<open>GC/Processor.hpp\<close>,
  \<^verbatim>\<open>GC/Machine.hpp\<close>). A loop that does not return is \<open>None\<close>. The main result is the
  simulation: whenever the program returns on values, the three parties return, and their
  registers are shares of the values.
\<close>

unbundle bit_operations_syntax

subsection \<open>The loops\<close>

datatype BreakType = TIME_BREAK | DONE_BREAK | CAP_BREAK | CLEANING_BREAK

text \<open>
  The loop of \<^verbatim>\<open>execute\<close>, for any kind of state: \<open>fin\<close> is the test for the end of the
  program, \<open>brk\<close> the one for the complexity, \<open>one\<close> an instruction.
\<close>

partial_function (option) exec_loop :: "('s \<Rightarrow> bool) \<Rightarrow> ('s \<Rightarrow> bool) \<Rightarrow> ('s \<Rightarrow> 's res) \<Rightarrow> 's \<Rightarrow> (exn + 's \<times> BreakType) option" where
  "exec_loop fin brk one s =
     (if fin s then Some (Inr (s, DONE_BREAK))
      else case one s of Inl e \<Rightarrow> Some (Inl e)
           | Inr s' \<Rightarrow> if brk s' then Some (Inr (s', TIME_BREAK)) else exec_loop fin brk one s')"

text \<open>\<^verbatim>\<open>Thread::run\<close>: execute until done; \<open>zero\<close> resets the complexity.\<close>

partial_function (option) run_loop :: "('s \<Rightarrow> bool) \<Rightarrow> ('s \<Rightarrow> bool) \<Rightarrow> ('s \<Rightarrow> 's res) \<Rightarrow> ('s \<Rightarrow> 's) \<Rightarrow> 's \<Rightarrow> (exn + 's) option" where
  "run_loop fin brk one zero s =
     Option.bind (exec_loop fin brk one (zero s)) (\<lambda>r. case r of Inl e \<Rightarrow> Some (Inl e)
       | Inr (s', b) \<Rightarrow> if b = DONE_BREAK then Some (Inr s') else run_loop fin brk one zero s')"

subsection \<open>Simulation\<close>

locale simulation =
  fixes fin1 :: "'s \<Rightarrow> bool" and brk1 :: "'s \<Rightarrow> bool" and one1 :: "'s \<Rightarrow> 's res" and zero1 :: "'s \<Rightarrow> 's"
    and fin2 :: "'t \<Rightarrow> bool" and brk2 :: "'t \<Rightarrow> bool" and one2 :: "'t \<Rightarrow> 't res" and zero2 :: "'t \<Rightarrow> 't"
    and R :: "'s \<Rightarrow> 't \<Rightarrow> bool"
  assumes fin: "R s t \<Longrightarrow> fin2 t = fin1 s"
    and brk: "R s t \<Longrightarrow> brk2 t = brk1 s"
    and zero: "R s t \<Longrightarrow> R (zero1 s) (zero2 t)"
    and one: "R s t \<Longrightarrow> \<not> fin1 s \<Longrightarrow> one1 s = Inr s' \<Longrightarrow> \<exists>t'. one2 t = Inr t' \<and> R s' t'"
begin

lemma exec_simulation:
  assumes "exec_loop fin1 brk1 one1 s = Some (Inr (s', b))" "R s t"
  shows "\<exists>t'. exec_loop fin2 brk2 one2 t = Some (Inr (t', b)) \<and> R s' t'"
proof -
  have "fin' = fin1 \<and> brk' = brk1 \<and> one' = one1 \<longrightarrow> (\<forall>t s' b. r = Inr (s', b) \<longrightarrow> R s t \<longrightarrow>
      (\<exists>t'. exec_loop fin2 brk2 one2 t = Some (Inr (t', b)) \<and> R s' t'))"
    if "exec_loop fin' brk' one' s = Some r" for fin' brk' one' s r
  proof (rule exec_loop.raw_induct [OF _ that], intro impI allI)
    fix loop fin' brk' one' s r t s' b
    assume IH: "\<And>fin' brk' one' s r. loop fin' brk' one' s = Some r \<Longrightarrow> fin' = fin1 \<and> brk' = brk1 \<and> one' = one1 \<longrightarrow>
        (\<forall>t s' b. r = Inr (s', b) \<longrightarrow> R s t \<longrightarrow> (\<exists>t'. exec_loop fin2 brk2 one2 t = Some (Inr (t', b)) \<and> R s' t'))"
      and body: "(if fin' s then Some (Inr (s, DONE_BREAK)) else case one' s of Inl e \<Rightarrow> Some (Inl e)
           | Inr s' \<Rightarrow> if brk' s' then Some (Inr (s', TIME_BREAK)) else loop fin' brk' one' s') = Some r"
      and eqs: "fin' = fin1 \<and> brk' = brk1 \<and> one' = one1" and r: "r = Inr (s', b)" and R: "R s t"
    show "\<exists>t'. exec_loop fin2 brk2 one2 t = Some (Inr (t', b)) \<and> R s' t'"
    proof (cases "fin1 s")
      case True
      then show ?thesis using body eqs r fin [OF R] R by (subst exec_loop.simps) auto
    next
      case False
      then obtain s1 where s1: "one1 s = Inr s1" using body eqs r by (cases "one1 s") auto
      then obtain t1 where t1: "one2 t = Inr t1" "R s1 t1" using one [OF R False] by blast
      show ?thesis
      proof (cases "brk1 s1")
        case True
        then show ?thesis using body eqs r False s1 t1 fin [OF R] brk [OF t1(2)] by (subst exec_loop.simps) auto
      next
        case nb: False
        then have "loop fin1 brk1 one1 s1 = Some (Inr (s', b))" using body eqs r False s1 by simp
        from IH [OF this] t1(2) obtain t' where "exec_loop fin2 brk2 one2 t1 = Some (Inr (t', b))" "R s' t'" by blast
        then show ?thesis using False nb t1 fin [OF R] brk [OF t1(2)] by (subst exec_loop.simps) auto
      qed
    qed
  qed
  with assms show ?thesis by blast
qed

lemma run_simulation:
  assumes "run_loop fin1 brk1 one1 zero1 s = Some (Inr s')" "R s t"
  shows "\<exists>t'. run_loop fin2 brk2 one2 zero2 t = Some (Inr t') \<and> R s' t'"
proof -
  have "fin' = fin1 \<and> brk' = brk1 \<and> one' = one1 \<and> zero' = zero1 \<longrightarrow> (\<forall>t s'. r = Inr s' \<longrightarrow> R s t \<longrightarrow>
      (\<exists>t'. run_loop fin2 brk2 one2 zero2 t = Some (Inr t') \<and> R s' t'))"
    if "run_loop fin' brk' one' zero' s = Some r" for fin' brk' one' zero' s r
  proof (rule run_loop.raw_induct [OF _ that], intro impI allI)
    fix loop fin' brk' one' zero' s r t s'
    assume IH: "\<And>fin' brk' one' zero' s r. loop fin' brk' one' zero' s = Some r \<Longrightarrow> fin' = fin1 \<and> brk' = brk1 \<and> one' = one1 \<and> zero' = zero1 \<longrightarrow>
        (\<forall>t s'. r = Inr s' \<longrightarrow> R s t \<longrightarrow> (\<exists>t'. run_loop fin2 brk2 one2 zero2 t = Some (Inr t') \<and> R s' t'))"
      and body: "Option.bind (exec_loop fin' brk' one' (zero' s)) (\<lambda>r. case r of Inl e \<Rightarrow> Some (Inl e)
       | Inr (s', b) \<Rightarrow> if b = DONE_BREAK then Some (Inr s') else loop fin' brk' one' zero' s') = Some r"
      and eqs: "fin' = fin1 \<and> brk' = brk1 \<and> one' = one1 \<and> zero' = zero1" and r: "r = Inr s'" and R: "R s t"
    obtain y where y: "exec_loop fin1 brk1 one1 (zero1 s) = Some y"
      "(case y of Inl e \<Rightarrow> Some (Inl e) | Inr (s', b) \<Rightarrow> if b = DONE_BREAK then Some (Inr s') else loop fin1 brk1 one1 zero1 s') = Some r"
      using body eqs by (cases "exec_loop fin1 brk1 one1 (zero1 s)") auto
    then obtain s1 b where "y = Inr (s1, b)" using r by (cases y) auto
    with y(1) have s1: "exec_loop fin1 brk1 one1 (zero1 s) = Some (Inr (s1, b))" by simp
    obtain t1 where t1: "exec_loop fin2 brk2 one2 (zero2 t) = Some (Inr (t1, b))" "R s1 t1"
      using exec_simulation [OF s1 zero [OF R]] by blast
    show "\<exists>t'. run_loop fin2 brk2 one2 zero2 t = Some (Inr t') \<and> R s' t'"
    proof (cases "b = DONE_BREAK")
      case True
      then show ?thesis using body eqs r s1 t1 by (subst run_loop.simps) auto
    next
      case False
      then have "loop fin1 brk1 one1 zero1 s1 = Some (Inr s')" using body eqs r s1 by simp
      from IH [OF this] t1(2) obtain t' where "run_loop fin2 brk2 one2 zero2 t1 = Some (Inr t')" "R s' t'" by blast
      then show ?thesis using False t1 by (subst run_loop.simps) auto
    qed
  qed
  with assms show ?thesis by blast
qed

end

subsection \<open>The machine on values and the machine of the parties\<close>

definition clear_fin :: "instruction list \<Rightarrow> clear_state \<Rightarrow> bool" where
  "clear_fin prog c \<longleftrightarrow> length prog \<le> unat (p_PC (c_proc c))"

definition clear_brk :: "clear_state \<Rightarrow> bool" where
  "clear_brk c \<longleftrightarrow> 2 ^ 19 \<le> p_complexity (c_proc c)"

definition clear_zero :: "clear_state \<Rightarrow> clear_state" where
  "clear_zero c = c\<lparr>c_proc := (c_proc c)\<lparr>p_complexity := 0\<rparr>\<rparr>"

definition clear_step :: "(word64 \<Rightarrow> word64) \<Rightarrow> (bitvec list \<Rightarrow> bitvec) \<Rightarrow> instruction list \<Rightarrow> clear_state \<Rightarrow> clear_state res" where
  "clear_step k gate prog c =
     bindE (nthE prog (unat (p_PC (c_proc c)))) (\<lambda>ins.
     clear_execute k gate ins (c\<lparr>c_proc := (c_proc c)\<lparr>p_PC := p_PC (c_proc c) + 1\<rparr>\<rparr>))"

definition clear_run :: "(word64 \<Rightarrow> word64) \<Rightarrow> (bitvec list \<Rightarrow> bitvec) \<Rightarrow> instruction list \<Rightarrow> clear_state \<Rightarrow> (exn + clear_state) option" where
  "clear_run k gate prog = run_loop (clear_fin prog) clear_brk (clear_step k gate prog) clear_zero"

text \<open>
  The parties run their loops by themselves and meet at the exchanges; here they go step by
  step together. Parties at different instructions would block: that never happens, as
  their program counters depend on public registers only.
\<close>

definition tri_fin :: "instruction list \<Rightarrow> tri_state \<Rightarrow> bool" where
  "tri_fin prog st \<longleftrightarrow> (\<forall>i \<in> {0, 1, 2}. length prog \<le> unat (p_PC (t_proc st i)))"

definition tri_brk :: "tri_state \<Rightarrow> bool" where
  "tri_brk st \<longleftrightarrow> (\<exists>i \<in> {0, 1, 2}. 2 ^ 19 \<le> p_complexity (t_proc st i))"

definition tri_zero :: "tri_state \<Rightarrow> tri_state" where
  "tri_zero st = st\<lparr>t_proc := (\<lambda>i. (t_proc st i)\<lparr>p_complexity := 0\<rparr>)\<rparr>"

definition tri_step :: "cipher \<Rightarrow> environment \<Rightarrow> instruction list \<Rightarrow> tri_state \<Rightarrow> tri_state res" where
  "tri_step E env prog st =
     bindE (parE (\<lambda>i. nthE prog (unat (p_PC (t_proc st i))))) (\<lambda>ins.
     if ins 0 = ins 1 \<and> ins 1 = ins 2
     then tri_execute E env (ins 0) (st\<lparr>t_proc := (\<lambda>i. (t_proc st i)\<lparr>p_PC := p_PC (t_proc st i) + 1\<rparr>)\<rparr>)
     else Inl (Undefined_Behaviour ''parties at different instructions''))"

definition tri_run :: "cipher \<Rightarrow> environment \<Rightarrow> instruction list \<Rightarrow> tri_state \<Rightarrow> (exn + tri_state) option" where
  "tri_run E env prog = run_loop (tri_fin prog) tri_brk (tri_step E env prog) tri_zero"

subsection \<open>One instruction\<close>

definition instr_ok :: "instruction \<Rightarrow> bool" where
  "instr_ok ins \<longleftrightarrow> (i_opcode ins = ANDS \<longrightarrow> and_ok (i_start ins)) \<and> (i_opcode ins = REVEAL \<longrightarrow> reveal_ok (i_start ins)) \<and>
     (i_opcode ins = INPUTB \<longrightarrow> input_ok (i_start ins))"

definition environment_ok :: "environment \<Rightarrow> bool" where
  "environment_ok env \<longleftrightarrow> (\<forall>t. \<forall>i < 3. in_inv i (env t i))"

lemma joint_three: "\<forall>i < 3. three (map_proc (share_of 0) J) (map_proc (share_of 1) J) (map_proc (share_of 2) J) i = map_proc (share_of i) J"
  using three_fun [of _ "\<lambda>i. map_proc (share_of i) J"] by simp

lemma refinesI:
  assumes "c_proc c = map_proc fst J" "\<forall>i < 3. t_proc st i = map_proc (share_of i) J" "\<forall>i < 3. my_num (t_mul st i) = i"
    "synced (shared_prngs (t_mul st 0)) (shared_prngs (t_mul st 1)) (shared_prngs (t_mul st 2))"
    "\<forall>i < 3. t_file st i = c_file c i" "\<forall>f \<in> set (c_file c 0). \<forall>sh. 0 \<le> f sh"
  shows "refines c st"
  using assms unfolding refines_def joint_inv_def by blast

lemma execute_refines:
  assumes R: "refines c st" and env: "environment_ok env" and ok: "instr_ok ins"
    and run: "clear_execute (\<lambda>_. 0) gate_result ins c = Inr c'"
  shows "\<exists>st'. tri_execute E env ins st = Inr st' \<and> refines c' st'"
proof -
  obtain J where J: "c_proc c = map_proc fst J" "\<forall>i < 3. t_proc st i = map_proc (share_of i) J"
    using R by (auto simp: refines_def joint_inv_def)
  have S: "\<forall>i < 3. my_num (t_mul st i) = i" "synced (shared_prngs (t_mul st 0)) (shared_prngs (t_mul st 1)) (shared_prngs (t_mul st 2))"
    "\<forall>i < 3. t_file st i = c_file c i" "\<forall>f \<in> set (c_file c 0). \<forall>sh. 0 \<le> f sh"
    using R by (simp_all add: refines_def)
  consider "i_opcode ins = ANDS" | "i_opcode ins = REVEAL" | "i_opcode ins = INPUTB" | "i_opcode ins \<in> {ANDRS, BITB}"
    | "i_opcode ins \<notin> {ANDS, REVEAL, INPUTB, ANDRS, BITB}" by blast
  then show ?thesis
  proof cases
    case 1
    then obtain p where p: "clear_and gate_result (i_start ins) (c_proc c) = Inr p" "c' = c\<lparr>c_proc := p\<rparr>"
      using run by (auto simp: clear_execute_def res_simps)
    have "and_ok (i_start ins)" using ok 1 by (simp add: instr_ok_def)
    from and_refines [OF J(2) S(1,2) p(1) [unfolded J(1)] this, of E] obtain J' Q where Q: "p = map_proc fst J'"
      "tri_and E False (i_start ins) st = Inr (st\<lparr>t_proc := three (map_proc (share_of 0) J') (map_proc (share_of 1) J') (map_proc (share_of 2) J'), t_mul := Q\<rparr>)"
      "\<forall>i < 3. my_num (Q i) = i" "synced (shared_prngs (Q 0)) (shared_prngs (Q 1)) (shared_prngs (Q 2))" by blast
    show ?thesis
      using 1 p(2) Q S(3,4) joint_three [of J']
      by (intro exI [of _ "st\<lparr>t_proc := three (map_proc (share_of 0) J') (map_proc (share_of 1) J') (map_proc (share_of 2) J'), t_mul := Q, t_time := t_time st + 1\<rparr>"]
        conjI refinesI [where J = J']) (simp_all add: tri_execute_def)
  next
    case 2
    then obtain p where p: "clear_reveal (i_start ins) (c_proc c) = Inr p" "c' = c\<lparr>c_proc := p\<rparr>"
      using run by (auto simp: clear_execute_def res_simps)
    have "reveal_ok (i_start ins)" using ok 2 by (simp add: instr_ok_def)
    from reveal_refines [OF J(2) p(1) [unfolded J(1)] this] obtain J' M where M: "p = map_proc fst J'"
      "tri_reveal (i_start ins) st = Inr (st\<lparr>t_proc := three (map_proc (share_of 0) J') (map_proc (share_of 1) J') (map_proc (share_of 2) J'), t_mc := M\<rparr>)"
      by blast
    show ?thesis
      using 2 p(2) M S joint_three [of J']
      by (intro exI [of _ "st\<lparr>t_proc := three (map_proc (share_of 0) J') (map_proc (share_of 1) J') (map_proc (share_of 2) J'), t_mc := M, t_time := t_time st + 1\<rparr>"]
        conjI refinesI [where J = J']) (simp_all add: tri_execute_def)
  next
    case 3
    then have p: "clear_inputb (i_start ins) \<lparr>c_proc = map_proc fst J, c_file = c_file c\<rparr> = Inr c'"
      using run J(1) by (cases c) (simp add: clear_execute_def)
    have e: "\<forall>i < 3. in_inv i (env (t_time st) i)" using env by (simp add: environment_ok_def)
    have f: "t_file st 0 = c_file c 0" "input_ok (i_start ins)" using S(3) ok 3 by (simp_all add: instr_ok_def)
    from inputb_refines [where cf = "c_file c" and E = E and env = env and st = st and J = J, OF J(2) f(1) S(4) e f(2) p] obtain J' where J': "c_proc c' = map_proc fst J'"
      "tri_inputb E env (i_start ins) st = Inr (st\<lparr>t_proc := three (map_proc (share_of 0) J') (map_proc (share_of 1) J') (map_proc (share_of 2) J'),
              t_file := three (c_file c' 0) (t_file st 1) (t_file st 2)\<rparr>)"
      "c_file c' = (c_file c)(0 := c_file c' 0)" "set (c_file c' 0) \<subseteq> set (c_file c 0)" by auto
    have files: "three (c_file c' 0) (t_file st 1) (t_file st 2) i = c_file c' i" if "i < 3" for i
    proof -
      have "i = 0 \<or> i = 1 \<or> i = 2" using that by auto
      then show ?thesis using S(3) fun_cong [OF J'(3), of i] by (auto simp: three_def)
    qed
    have pos: "\<forall>f \<in> set (c_file c' 0). \<forall>sh. 0 \<le> f sh" using S(4) J'(4) by blast
    show ?thesis
      using 3 J'(1,2) files pos S(1,2) joint_three [of J']
      by (intro exI [of _ "st\<lparr>t_proc := three (map_proc (share_of 0) J') (map_proc (share_of 1) J') (map_proc (share_of 2) J'),
          t_file := three (c_file c' 0) (t_file st 1) (t_file st 2), t_time := t_time st + 1\<rparr>"]
        conjI refinesI [where J = J']) (simp_all add: tri_execute_def)
  next
    case 4
    then show ?thesis using run by (auto simp: clear_execute_def)
  next
    case 5
    then obtain p where p: "execute_local (value_secret (\<lambda>_. 0)) ins (c_proc c) = Inr p" "c' = c\<lparr>c_proc := p\<rparr>"
      using run by (auto simp: clear_execute_def res_simps)
    have "joint_inv c st J" using J by (simp add: joint_inv_def)
    from local_refines [OF this p(1)] obtain J' P where J': "parE (\<lambda>i. execute_local share_ops ins (t_proc st i)) = Inr P"
      "p = map_proc fst J'" "\<forall>i < 3. P i = map_proc (share_of i) J'" by blast
    show ?thesis
      using 5 J' p(2) S
      by (intro exI [of _ "st\<lparr>t_proc := P, t_time := t_time st + 1\<rparr>"] conjI refinesI [where J = J']) (simp_all add: tri_execute_def)
  qed
qed

lemma refinesE:
  assumes "refines c st"
  obtains J where "c_proc c = map_proc fst J" "\<forall>i < 3. t_proc st i = map_proc (share_of i) J"
  using assms by (auto simp: refines_def joint_inv_def)

lemma refines_public:
  assumes "refines c st" "i < 3"
  shows "p_PC (t_proc st i) = p_PC (c_proc c)" "p_complexity (t_proc st i) = p_complexity (c_proc c)"
  using assms by (auto elim!: refinesE)

lemma refines_update:
  assumes "refines c st" "\<And>h :: joint \<Rightarrow> bitvec. \<And>J. f (map_proc h J) = map_proc h (g J)"
    "\<And>h :: joint \<Rightarrow> share. \<And>J. f' (map_proc h J) = map_proc h (g J)"
  shows "refines (c\<lparr>c_proc := f (c_proc c)\<rparr>) (st\<lparr>t_proc := (\<lambda>i. f' (t_proc st i))\<rparr>)"
proof -
  obtain J where J: "c_proc c = map_proc fst J" "\<forall>i < 3. t_proc st i = map_proc (share_of i) J"
    using assms(1) by (rule refinesE)
  show ?thesis
    using assms(1) J by (intro refinesI [where J = "g J"]) (simp_all add: assms(2,3) refines_def)
qed

subsection \<open>Whole programs\<close>

definition program_ok :: "instruction list \<Rightarrow> bool" where
  "program_ok prog \<longleftrightarrow> (\<forall>ins \<in> set prog. instr_ok ins)"

lemma step_refines:
  assumes R: "refines c st" and ok: "environment_ok env" "program_ok prog"
    and run: "clear_step (\<lambda>_. 0) gate_result prog c = Inr c'"
  shows "\<exists>st'. tri_step E env prog st = Inr st' \<and> refines c' st'"
proof -
  obtain ins where ins: "nthE prog (unat (p_PC (c_proc c))) = Inr ins"
    "clear_execute (\<lambda>_. 0) gate_result ins (c\<lparr>c_proc := (c_proc c)\<lparr>p_PC := p_PC (c_proc c) + 1\<rparr>\<rparr>) = Inr c'"
    using run by (auto simp: clear_step_def res_simps)
  have R': "refines (c\<lparr>c_proc := (c_proc c)\<lparr>p_PC := p_PC (c_proc c) + 1\<rparr>\<rparr>)
      (st\<lparr>t_proc := (\<lambda>i. (t_proc st i)\<lparr>p_PC := p_PC (t_proc st i) + 1\<rparr>)\<rparr>)"
    by (rule refines_update [OF R, where g = "\<lambda>p. p\<lparr>p_PC := p_PC p + 1\<rparr>"]) (simp_all add: hom_simps)
  have "instr_ok ins" using ins(1) ok(2) by (auto simp: program_ok_def res_simps)
  from execute_refines [OF R' ok(1) this ins(2), of E] obtain st' where
    "tri_execute E env ins (st\<lparr>t_proc := (\<lambda>i. (t_proc st i)\<lparr>p_PC := p_PC (t_proc st i) + 1\<rparr>)\<rparr>) = Inr st'" "refines c' st'" by blast
  then show ?thesis
    using ins(1) refines_public(1) [OF R, of 0] refines_public(1) [OF R, of 1] refines_public(1) [OF R, of 2]
    by (simp add: tri_step_def parE_def three_at)
qed

interpretation parties: simulation "clear_fin prog" clear_brk "clear_step (\<lambda>_. 0) gate_result prog" clear_zero
    "tri_fin prog" tri_brk "tri_step E env prog" tri_zero
    "\<lambda>c st. refines c st \<and> environment_ok env \<and> program_ok prog" for prog E env
proof (unfold_locales, goal_cases)
  case (1 c st)
  then show ?case using refines_public(1) [of c st] by (auto simp: clear_fin_def tri_fin_def)
next
  case (2 c st)
  then show ?case using refines_public(2) [of c st] by (auto simp: clear_brk_def tri_brk_def)
next
  case (3 c st)
  then show ?case
    using refines_update [of c st "\<lambda>p. p\<lparr>p_complexity := 0\<rparr>" "\<lambda>p. p\<lparr>p_complexity := 0\<rparr>" "\<lambda>p. p\<lparr>p_complexity := 0\<rparr>"]
    by (simp add: clear_zero_def tri_zero_def hom_simps)
next
  case (4 c st c')
  then show ?case using step_refines by blast
qed

theorem run_refines:
  assumes "clear_run (\<lambda>_. 0) gate_result prog c = Some (Inr c')" "refines c st" "environment_ok env" "program_ok prog"
  shows "\<exists>st'. tri_run E env prog st = Some (Inr st') \<and> refines c' st'"
  using parties.run_simulation [of prog c c' st env E] assms by (simp add: clear_run_def tri_run_def)

end
