(* ===== verification/GCMachine.thy ===== *)
theory GCMachine
  imports GCRun
begin

text \<open>
  From a parsed program to a running one: the reset of the registers (\<^verbatim>\<open>GC/Processor.hpp\<close>)
  and of the memories (\<^verbatim>\<open>GC/Machine.hpp\<close>), the start states of the parties, and what the
  simulation gives for a whole program, first for the values that the code computes, then
  for the values that the program means.
\<close>

unbundle bit_operations_syntax

subsection \<open>Reset\<close>

definition resize :: "nat \<Rightarrow> 'a \<Rightarrow> 'a list \<Rightarrow> 'a list" where
  "resize n d xs = take n xs @ replicate (n - length xs) d"

definition resize_min :: "nat \<Rightarrow> 'a \<Rightarrow> 'a list \<Rightarrow> 'a list" where
  "resize_min n d xs = (if length xs < n then resize n d xs else xs)"

text \<open>A processor after construction, and its reset for a program; \<open>z\<close> is a fresh secret register.\<close>

definition new_processor :: "'x processor" where
  "new_processor = \<lparr>rS = [], rC = [], rI = [], mMS = [], mMC = [], mMI = [], mMD = [], p_PC = 0, p_arg = 0,
     p_stack = [], p_out = [], p_complexity = 0\<rparr>"

definition processor_reset :: "'x \<Rightarrow> program \<Rightarrow> int \<Rightarrow> 'x processor \<Rightarrow> 'x processor" where
  "processor_reset z P arg p =
     p\<lparr>rS := resize (unat (num_reg SBIT P)) z (rS p), rC := resize (unat (num_reg CBIT P)) 0 (rC p),
       rI := resize (unat (num_reg INT_REG P)) 0 (rI p), p_arg := word_of_int arg, p_PC := 0\<rparr>"

definition memories_reset :: "'x \<Rightarrow> program \<Rightarrow> 'x processor \<Rightarrow> 'x processor" where
  "memories_reset z P p =
     p\<lparr>mMS := resize_min (unat (direct_mem SBIT P)) z (mMS p), mMC := resize_min (unat (direct_mem CBIT P)) 0 (mMC p)\<rparr>"

definition machine_reset :: "'x \<Rightarrow> program \<Rightarrow> 'x processor \<Rightarrow> 'x processor" where
  "machine_reset z P p =
     (let q = memories_reset z P p in q\<lparr>mMI := resize_min (unat (direct_mem INT_REG P)) 0 (mMI q)\<rparr>)"

text \<open>\<^verbatim>\<open>load_program\<close> resets the machine, \<^verbatim>\<open>Thread::run\<close> the processor.\<close>

definition load_program :: "'x \<Rightarrow> program \<Rightarrow> int \<Rightarrow> 'x processor" where
  "load_program z P arg = processor_reset z P arg (machine_reset z P new_processor)"

lemma map_resize: "map h (resize n d xs) = resize n (h d) (map h xs)"
  by (simp add: resize_def take_map)

lemma map_resize_min: "map h (resize_min n d xs) = resize_min n (h d) (map h xs)"
  by (simp add: resize_min_def map_resize)

lemma load_program_hom: "load_program (h z) P arg = map_proc h (load_program z P arg)"
  by (simp add: load_program_def processor_reset_def machine_reset_def memories_reset_def new_processor_def map_proc_def
      map_resize map_resize_min Let_def)

subsection \<open>Start states\<close>

definition start_clear :: "program \<Rightarrow> int \<Rightarrow> (nat \<Rightarrow> input_file) \<Rightarrow> clear_state" where
  "start_clear P arg files = \<lparr>c_proc = load_program 0 P arg, c_file = files\<rparr>"

definition start_tri :: "program \<Rightarrow> int \<Rightarrow> (nat \<Rightarrow> multi_replicated) \<Rightarrow> (nat \<Rightarrow> mac_check) \<Rightarrow> (nat \<Rightarrow> input_file) \<Rightarrow> tri_state" where
  "start_tri P arg mul mc files = \<lparr>t_proc = (\<lambda>_. load_program (fv_const 2 0) P arg), t_mul = mul, t_mc = mc, t_file = files, t_time = 0\<rparr>"

lemma share_of_zero: "share_of i (0, 0, 0) = fv_const 2 0"
  by (simp add: share_of_cases fv_const_def numeral_eq_Suc)

lemma start_refines:
  assumes "\<forall>i < 3. my_num (mul i) = i" "synced (shared_prngs (mul 0)) (shared_prngs (mul 1)) (shared_prngs (mul 2))"
    "\<forall>f \<in> set (files 0). \<forall>sh. 0 \<le> f sh"
  shows "refines (start_clear P arg files) (start_tri P arg mul mc files)"
  using assms load_program_hom [of fst "(0, 0, 0)" P arg] load_program_hom [of "share_of _" "(0, 0, 0)" P arg]
  by (intro refinesI [where J = "load_program (0, 0, 0) P arg"]) (simp_all add: start_clear_def start_tri_def share_of_zero)

theorem program_simulated:
  assumes "\<forall>i < 3. my_num (mul i) = i" "synced (shared_prngs (mul 0)) (shared_prngs (mul 1)) (shared_prngs (mul 2))"
    "\<forall>f \<in> set (files 0). \<forall>sh. 0 \<le> f sh" "environment_ok env" "program_ok (instrs P)"
    and run: "clear_run (\<lambda>_. 0) gate_result (instrs P) (start_clear P arg files) = Some (Inr c)"
  shows "\<exists>st. tri_run E env (instrs P) (start_tri P arg mul mc files) = Some (Inr st) \<and>
    (\<forall>i < 3. rC (t_proc st i) = rC (c_proc c) \<and> rI (t_proc st i) = rI (c_proc c) \<and> p_out (t_proc st i) = p_out (c_proc c))"
proof -
  obtain st where st: "tri_run E env (instrs P) (start_tri P arg mul mc files) = Some (Inr st)" "refines c st"
    using run_refines [OF run start_refines [of mul files, OF assms(1-3)] assms(4,5)] by blast
  from st(2) obtain J where "c_proc c = map_proc fst J" "\<forall>i < 3. t_proc st i = map_proc (share_of i) J" by (rule refinesE)
  with st(1) show ?thesis by auto
qed

subsection \<open>The values that a program means\<close>

text \<open>
  The instructions for which the code computes on shares what the program means: no constant
  enters a secret register and no AND gate has more than four inputs.
\<close>

definition plain_and :: "int list \<Rightarrow> bool" where
  "plain_and args = (case and_units args of Inl e \<Rightarrow> True | Inr us \<Rightarrow> \<forall>(n, out, ins) \<in> set us. length ins \<le> 4)"

definition plain_instr :: "instruction \<Rightarrow> bool" where
  "plain_instr ins \<longleftrightarrow> i_opcode ins \<notin> {LDBITS, NOTS, CONVSINT, STMSDCI} \<and> (i_opcode ins = ANDS \<longrightarrow> plain_and (i_start ins))"

lemma clear_and_plain:
  assumes "plain_and args"
  shows "clear_and gate_result args p = clear_and and_all args p"
proof (cases "and_units args")
  case (Inl e)
  then show ?thesis by (simp add: clear_and_def)
next
  case (Inr us)
  have small: "\<forall>(n, out, ins) \<in> set us. length ins \<le> 4" using assms Inr by (simp add: plain_and_def)
  have eq: "map gate_result vss = map and_all vss" if "operand_reads (\<lambda>n x. bv_mask x n) us p = Inr vss" for vss
    using operand_reads_lengths [OF that] small
    by (induction rule: list_all2_induct) (auto simp: gate_result_def)
  show ?thesis
  proof (cases "operand_reads (\<lambda>n x. bv_mask x n) us p")
    case bad: (Inl e)
    then show ?thesis by (simp add: clear_and_def Inr operand_reads_def)
  next
    case ok: (Inr vss)
    show ?thesis unfolding clear_and_store [OF Inr ok] eq [OF ok] ..
  qed
qed

lemma value_secret_fields [simp]:
  "so_const (value_secret k) = k" "so_xor (value_secret k) = (XOR)" "so_and (value_secret k) = (AND)"
  "so_shl (value_secret k) = (\<lambda>x i. IntBase_shl x (of_nat i))" "so_shr (value_secret k) = (\<lambda>x i. IntBase_shr x (of_nat i))"
  "so_trans (value_secret k) = trans_rows"
  by (simp_all add: value_secret_def)

lemma local_plain:
  assumes "i_opcode ins \<notin> {LDBITS, NOTS, CONVSINT, STMSDCI}" "k 0 = 0"
  shows "execute_local (value_secret k) ins p = execute_local (value_secret id) ins p"
proof -
  have "trans_block (value_secret k) = trans_block (value_secret id)"
    by (simp add: fun_eq_iff trans_block_def)
  note tb = this
  have "trans (value_secret k) = trans (value_secret id)" unfolding trans_def [abs_def] tb ..
  moreover have "xors (value_secret k) = xors (value_secret id)" "bitdec (value_secret k) = bitdec (value_secret id)"
    "bitcom (value_secret k) = bitcom (value_secret id)"
    using assms(2) by (simp_all add: fun_eq_iff xors_def bitdec_def bitcom_def)
  moreover have "execute_gc (value_secret k) ins p = execute_gc (value_secret id) ins p"
    using assms(1) by (simp add: execute_gc_def Let_def cong: if_cong)
  ultimately show ?thesis using assms(1) by (simp add: execute_local_def Let_def cong: if_cong)
qed

lemma execute_plain:
  "plain_instr ins \<Longrightarrow> clear_execute (\<lambda>_. 0) gate_result ins c = clear_execute id and_all ins c"
  using local_plain [of ins "\<lambda>_. 0"] clear_and_plain [of "i_start ins"]
  by (simp add: clear_execute_def plain_instr_def)

interpretation meaning: simulation "clear_fin prog" clear_brk "clear_step id and_all prog" clear_zero
    "clear_fin prog" clear_brk "clear_step (\<lambda>_. 0) gate_result prog" clear_zero
    "\<lambda>c d. c = d \<and> (\<forall>ins \<in> set prog. plain_instr ins)" for prog
proof (unfold_locales, goal_cases)
  case (4 c d c')
  then show ?case
    using execute_plain by (auto simp: clear_step_def res_simps)
qed auto

theorem program_means:
  assumes "\<forall>ins \<in> set prog. plain_instr ins" "clear_run id and_all prog c = Some (Inr c')"
  shows "clear_run (\<lambda>_. 0) gate_result prog c = Some (Inr c')"
  using meaning.run_simulation [of prog c c' c] assms by (simp add: clear_run_def)

end
