(* ===== verification/GCFrame.thy ===== *)
theory GCFrame
  imports GCMachine
begin

text \<open>
  What execution leaves alone. A view of a processor is any function of its registers and
  memories; an operation that writes only where the view does not look keeps the view. The
  locale \<open>machine_view\<close> proves it for every local instruction, \<open>value_view\<close> for whole runs. The
  sizes of registers and memories (\<open>GCSizes\<close>) and the registers beyond the maxima of the
  scan (\<open>GCScan\<close>) are views.
\<close>

unbundle bit_operations_syntax

subsection \<open>Where an instruction writes\<close>

text \<open>
  The secret, clear and integer registers that an instruction can write; the targets of
  stores to direct addresses.
\<close>

definition unit_range :: "int \<Rightarrow> nat \<Rightarrow> int list" where
  "unit_range r n = map (\<lambda>j. r + int j) [0..<n]"

definition written_S :: "instruction \<Rightarrow> int list" where
  "written_S ins =
     (let opc = i_opcode ins; st = i_start ins; r0 = get_r ins 0 in
      if opc = BITDECS then st
      else if opc \<in> {BITCOMS, LDBITS, CONVSINT, MOVSB} then [r0]
      else if opc \<in> {LDMSB, LDMSBI} then unit_range r0 (nat (i_size ins))
      else if opc = NOTS then unit_range r0 (n_units (IMM_int ins))
      else if opc = XORS then concat (map (\<lambda>(n, d, l, r). unit_range d (n_units n)) (chunks4 st))
      else if opc = INPUTB then concat (map (\<lambda>(who, n, sh, d). unit_range d (n_units n)) (chunks4 st))
      else if opc \<in> {LDMSD, LDMSDI} then map (\<lambda>(d, a, l). d) (chunks3 st)
      else if opc = TRANS then concat (map (\<lambda>a. unit_range a (DIV_CEIL (length st - nat (IMM_int ins)) 64)) (take (nat (IMM_int ins)) st))
      else if opc = ANDS then (case and_units st of Inl e \<Rightarrow> [] | Inr us \<Rightarrow> map (\<lambda>(n, out, xs). out) us)
      else [])"

definition written_C :: "instruction \<Rightarrow> int list" where
  "written_C ins =
     (let opc = i_opcode ins; st = i_start ins; r0 = get_r ins 0 in
      if opc = BITDECC then st
      else if opc \<in> {XORCB, XORCBI, ADDCB, ADDCBI, MULCBI, SHRCBI, SHLCBI, CONVCINT} then [r0]
      else if opc = LDMCB then unit_range r0 (nat (i_size ins))
      else if opc = REVEAL then concat (map (\<lambda>(n, d, s). unit_range d (n_units n)) (chunks3 st))
      else [])"

definition written_I :: "instruction \<Rightarrow> int list" where
  "written_I ins =
     (let opc = i_opcode ins in
      if opc = BITDECINT then i_start ins
      else if opc \<in> {CONVCBIT, LDINT, ADDINT, SUBINT, MULINT, DIVINT, EQZC, LTZC, LTC, GTC, EQC, LDMINT, LDMINTI, POPINT, MOVINT, LDARG}
      then [get_r ins 0]
      else [])"

definition stored_direct :: "nat list \<Rightarrow> instruction \<Rightarrow> int list" where
  "stored_direct ops ins =
     (if i_opcode ins \<in> set ops then unit_range (IMM ins) (if i_opcode ins = STMINT then 1 else nat (i_size ins)) else [])"

subsection \<open>Views\<close>

definition keeps_view :: "('x processor \<Rightarrow> 'v) \<Rightarrow> ('x processor \<Rightarrow> 'x processor res) \<Rightarrow> bool" where
  "keeps_view v f \<longleftrightarrow> (\<forall>p p'. f p = Inr p' \<longrightarrow> v p' = v p)"

definition writes_ok :: "('x processor \<Rightarrow> 'v) \<Rightarrow> instruction \<Rightarrow> bool" where
  "writes_ok v ins \<longleftrightarrow>
     (\<forall>i \<in> set (written_S ins). \<forall>x. keeps_view v (putS i x)) \<and> (\<forall>i \<in> set (written_C ins). \<forall>x. keeps_view v (putC i x)) \<and>
     (\<forall>i \<in> set (written_I ins). \<forall>x. keeps_view v (putI i x)) \<and>
     (\<forall>i \<in> set (stored_direct [STMSB] ins). \<forall>x. keeps_view v (putMS i x)) \<and>
     (\<forall>i \<in> set (stored_direct [STMCB] ins). \<forall>x. keeps_view v (putMC i x)) \<and>
     (\<forall>i \<in> set (stored_direct [STMINT] ins). \<forall>x. keeps_view v (putMI i x)) \<and>
     (i_opcode ins = STMSBI \<longrightarrow> (\<forall>i x. keeps_view v (putMS i x))) \<and> (i_opcode ins = STMINTI \<longrightarrow> (\<forall>i x. keeps_view v (putMI i x))) \<and>
     (\<forall>i x. keeps_view v (putMD i x))"

named_theorems frame_intros \<open>operations that keep a view\<close>

lemma frame_error [frame_intros]: "keeps_view v (\<lambda>p. Inl e)" "keeps_view v Inr"
  by (simp_all add: keeps_view_def)

lemma frame_if: "(b \<Longrightarrow> keeps_view v f) \<Longrightarrow> (\<not> b \<Longrightarrow> keeps_view v g) \<Longrightarrow> keeps_view v (\<lambda>p. if b then f p else g p)"
  by (cases b) simp_all

lemma frame_bind: "(\<And>x. keeps_view v (g x)) \<Longrightarrow> keeps_view v (\<lambda>p. bindE (m p) (\<lambda>x. g x p))"
  by (auto simp: keeps_view_def res_simps)

lemma frame_seq: "keeps_view v f \<Longrightarrow> keeps_view v g \<Longrightarrow> keeps_view v (\<lambda>p. bindE (f p) g)"
  by (auto simp: keeps_view_def res_simps)

lemma frame_split: "(\<And>a b. x = (a, b) \<Longrightarrow> keeps_view v (f a b)) \<Longrightarrow> keeps_view v (case_prod f x)"
  by (cases x) simp

lemma frame_foldE: "(\<And>x. x \<in> set xs \<Longrightarrow> keeps_view v (f x)) \<Longrightarrow> keeps_view v (foldE f xs)"
proof (induction xs)
  case Nil
  then show ?case by (simp add: keeps_view_def)
next
  case (Cons x xs)
  then have "keeps_view v (\<lambda>p. bindE (f x p) (foldE f xs))" by (intro frame_seq) auto
  then show ?case by (simp add: keeps_view_def)
qed

lemmas frame_rules = frame_seq frame_intros frame_foldE frame_split frame_bind

text \<open>Loops of writes to a range of registers.\<close>

lemma unit_range_iff: "x \<in> set (unit_range r n) \<longleftrightarrow> (\<exists>j < n. x = r + int j)"
  by (auto simp: unit_range_def)

lemma frame_bits:
  assumes "\<forall>d \<in> set regs. \<forall>x. keeps_view v (putS d x)"
  shows "keeps_view v (bitdec A regs r)"
  unfolding bitdec_def [abs_def] using assms
  by (intro frame_rules) (auto simp: in_set_enumerate_eq)

lemma frame_bitcom:
  assumes "\<forall>x. keeps_view v (putS r x)"
  shows "keeps_view v (bitcom A regs r)"
  unfolding bitcom_def [abs_def] using assms by (intro frame_rules) simp_all

lemma frame_bitdecc:
  assumes "\<forall>d \<in> set regs. \<forall>x. keeps_view v (putC d x)"
  shows "keeps_view v (bitdecc regs r)"
  unfolding bitdecc_def [abs_def] using assms
  by (intro frame_rules) (auto simp: in_set_enumerate_eq)

lemma frame_bitdecint:
  assumes "\<forall>d \<in> set regs. \<forall>x. keeps_view v (putI d x)"
  shows "keeps_view v (bitdecint regs r)"
  unfolding bitdecint_def [abs_def] using assms
  by (intro frame_rules) (auto simp: in_set_enumerate_eq)

lemma frame_xors:
  assumes "\<forall>d \<in> set (concat (map (\<lambda>(n, d, l, r). unit_range d (n_units n)) (chunks4 args))). \<forall>x. keeps_view v (putS d x)"
  shows "keeps_view v (xors A args)"
  unfolding xors_def [abs_def] using assms
  by (intro frame_rules) (fastforce simp: unit_range_iff)

lemma frame_nots:
  assumes "\<forall>d \<in> set (unit_range (get_r ins 0) (n_units (IMM_int ins))). \<forall>x. keeps_view v (putS d x)"
  shows "keeps_view v (nots A ins)"
  unfolding nots_def [abs_def] using assms by (intro frame_rules) (fastforce simp: unit_range_iff)

lemma frame_mem_op:
  assumes "\<forall>d \<in> set (unit_range dest (nat n)). \<forall>x. keeps_view v (put d x)"
  shows "keeps_view v (mem_op n put get dest source)"
  unfolding mem_op_def [abs_def] using assms by (intro frame_rules) (fastforce simp: unit_range_iff)

lemma frame_trans:
  assumes "\<forall>d \<in> set (concat (map (\<lambda>a. unit_range a (DIV_CEIL (length args - nat n) 64)) (take (nat n) args))). \<forall>x. keeps_view v (putS d x)"
  shows "keeps_view v (trans A n args)"
proof -
  have "a \<in> set (take (nat n) args)"
    if "(a, x) \<in> set (zip (take (min (nat n) (j * 64 + 64) - j * 64) (drop (j * 64) args)) ys)" for a x j ys
  proof -
    have "a \<in> set (take (min (nat n) (j * 64 + 64) - j * 64) (drop (j * 64) args))" using that by (rule set_zip_leftD)
    also have "take (min (nat n) (j * 64 + 64) - j * 64) (drop (j * 64) args) = drop (j * 64) (take (min (nat n) (j * 64 + 64)) args)"
      by (simp add: drop_take)
    finally have "a \<in> set (take (min (nat n) (j * 64 + 64)) args)" by (rule in_set_dropD)
    then show ?thesis using set_take_subset_set_take [of "min (nat n) (j * 64 + 64)" "nat n" args] by auto
  qed
  then have "keeps_view v (putS (a + int l) x)"
    if "(a, x) \<in> set (zip (take (min (nat n) (j * 64 + 64) - j * 64) (drop (j * 64) args)) ys)" "l < DIV_CEIL (length args - nat n) 64" for a x j l ys
    using assms that by (fastforce simp: unit_range_iff)
  then show ?thesis
    unfolding trans_def [abs_def] trans_block_def [abs_def] Let_def by (intro frame_if frame_rules) auto
qed

lemma frame_store:
  assumes "\<forall>i x. keeps_view v (putMD i x)"
  shows "keeps_view v (store_clear_in_dynamic A args)"
  unfolding store_clear_in_dynamic_def [abs_def] using assms by (intro frame_rules) simp

text \<open>
  A view that looks at registers and memories only. Its laws are those of the fields that
  every instruction may change.
\<close>

locale machine_view =
  fixes v :: "'x processor \<Rightarrow> 'v"
  assumes view_fields: "v (p\<lparr>p_PC := pc\<rparr>) = v p" "v (p\<lparr>p_arg := pc\<rparr>) = v p" "v (p\<lparr>p_stack := ws\<rparr>) = v p"
    "v (p\<lparr>p_out := out\<rparr>) = v p" "v (p\<lparr>p_complexity := n\<rparr>) = v p"
begin

lemma frame_pure:
  "keeps_view v (\<lambda>p. Inr (emit x p))" "keeps_view v (\<lambda>p. Inr (emit x (emit y p)))" "keeps_view v (\<lambda>p. Inr (jump i p))" "keeps_view v (\<lambda>p. Inr (pushi w p))"
  "keeps_view v (\<lambda>p. Inr (add_store_complexity args p))" "keeps_view v (\<lambda>p. Inr (p\<lparr>p_arg := pc\<rparr>))"
  "keeps_view v (\<lambda>p. Inr (if b then jump i p else p))" "keeps_view v (\<lambda>p. Inr (if b then emit x p else p))"
  by (simp_all add: keeps_view_def emit_def jump_def pushi_def add_store_complexity_def view_fields)

lemma frame_complexity: "keeps_view v f \<Longrightarrow> keeps_view v (\<lambda>p. f (p\<lparr>p_complexity := k p\<rparr>))"
  by (simp add: keeps_view_def view_fields)

lemma frame_stores:
  assumes "\<forall>i x. keeps_view v (putMD i x)"
  shows "keeps_view v (store_direct args)" "keeps_view v (store_indirect args)"
  unfolding store_direct_def [abs_def] store_indirect_def [abs_def] using assms
  by (intro frame_pure frame_rules; simp)+

lemma frame_load_step:
  assumes "\<forall>x \<in> set acc. \<forall>y. keeps_view v (putS (fst x) y)"
  shows "keeps_view v (\<lambda>p. foldE (\<lambda>(d, a, l) p. bindE (getMD a p) (\<lambda>x. putS d x p)) acc (add_load_complexity acc p))"
  unfolding add_load_complexity_def using assms by (intro frame_complexity frame_rules) fastforce

lemma mapE_fst:
  assumes "mapE f xs = Inr ys" "\<And>x y. f x = Inr y \<Longrightarrow> fst y = fst x"
  shows "map fst ys = map fst xs"
  using assms(1)
proof (induction xs arbitrary: ys)
  case (Cons x xs)
  then obtain y zs where "f x = Inr y" "mapE f xs = Inr zs" "ys = y # zs" by (auto simp: res_simps)
  with Cons.IH assms(2) [of x y] show ?case by simp
qed (simp add: res_simps)

lemma frame_loads:
  assumes "\<forall>d \<in> set (map (\<lambda>(d, a, l). d) (chunks3 args)). \<forall>x. keeps_view v (putS d x)"
  shows "keeps_view v (load_direct args)" "keeps_view v (load_indirect args)"
proof -
  have step: "keeps_view v (\<lambda>p. foldE (\<lambda>(d, a, l) p. bindE (getMD a p) (\<lambda>x. putS d x p)) acc (add_load_complexity acc p))"
    if "map fst acc = map fst (chunks3 args)" for acc
  proof (rule frame_load_step, rule ballI)
    fix x assume "x \<in> set acc"
    then have "fst x \<in> set (map fst (chunks3 args))" using that by (metis image_eqI list.set_map)
    then show "\<forall>y. keeps_view v (putS (fst x) y)" using assms by force
  qed
  have "v p' = v p" if "load_direct args p = Inr p'" for p p'
  proof -
    from that obtain acc where a: "mapE (\<lambda>(d, a, l). bindE (getS d p) (\<lambda>_. Inr (d, a, l))) (chunks3 args) = Inr acc"
      "foldE (\<lambda>(d, a, l) p. bindE (getMD a p) (\<lambda>x. putS d x p)) acc
         (add_load_complexity acc p) = Inr p'"
      by (auto simp: load_direct_def res_simps)
    have "map fst acc = map fst (chunks3 args)" by (rule mapE_fst [OF a(1)]) (auto simp: res_simps)
    from step [OF this] a(2) show ?thesis unfolding keeps_view_def by blast
  qed
  then show "keeps_view v (load_direct args)" by (simp add: keeps_view_def)
  have "v p' = v p" if "load_indirect args p = Inr p'" for p p'
  proof -
    from that obtain acc where a: "mapE (\<lambda>(d, a, l). bindE (getS d p) (\<lambda>_. bindE (getC a p) (\<lambda>c. Inr (d, sint c, l)))) (chunks3 args) = Inr acc"
      "foldE (\<lambda>(d, a, l) p. bindE (getMD a p) (\<lambda>x. putS d x p)) acc
         (add_load_complexity acc p) = Inr p'"
      by (auto simp: load_indirect_def res_simps)
    have "map fst acc = map fst (chunks3 args)" by (rule mapE_fst [OF a(1)]) (auto simp: res_simps)
    from step [OF this] a(2) show ?thesis unfolding keeps_view_def by blast
  qed
  then show "keeps_view v (load_indirect args)" by (simp add: keeps_view_def)
qed

lemma frame_prints:
  "keeps_view v (print_reg reg n sz)" "keeps_view v (print_reg_signed n reg)" "keeps_view v (print_float args)"
  unfolding print_reg_def [abs_def] print_reg_signed_def [abs_def] print_float_def [abs_def] Let_def
  by (intro frame_if frame_pure frame_rules)+

lemma frame_ops:
  "\<forall>x. keeps_view v (putC (get_r ins 0) x) \<Longrightarrow> keeps_view v (clear_op f ins)"
  "\<forall>x. keeps_view v (putI (get_r ins 0) x) \<Longrightarrow> keeps_view v (int_op g ins)"
  "\<forall>x. keeps_view v (putI (get_r ins 0) x) \<Longrightarrow> keeps_view v (int_op1 f ins)"
  unfolding clear_op_def [abs_def] int_op_def [abs_def] int_op1_def [abs_def] by (intro frame_rules; simp)+

lemma frame_pop:
  assumes "\<forall>x. keeps_view v (putI i x)"
  shows "keeps_view v (\<lambda>p. bindE (popi p) (\<lambda>(x, p1). putI i x p1))"
  using assms view_fields(3) unfolding keeps_view_def popi_def by (fastforce simp: res_simps split: list.split_asm)

lemma frame_putI_arg: "\<forall>x. keeps_view v (putI i x) \<Longrightarrow> keeps_view v (\<lambda>p. putI i (scast (p_arg p)) p)"
  unfolding keeps_view_def by blast

lemma frame_arg: "keeps_view v (\<lambda>p. bindE (getI i p) (\<lambda>x. Inr (p\<lparr>p_arg := ucast x\<rparr>)))"
  by (auto simp: keeps_view_def res_simps view_fields)

lemma execute_gc_frame:
  assumes "writes_ok v ins"
  shows "keeps_view v (execute_gc A ins)"
  unfolding execute_gc_def [abs_def] Let_def using assms
  by (intro frame_if frame_loads frame_stores frame_store frame_bitdecint frame_ops frame_pop frame_putI_arg frame_arg frame_pure frame_seq
      frame_error frame_bind; simp add: writes_ok_def written_S_def written_C_def written_I_def stored_direct_def unit_range_def)

lemma execute_local_frame:
  assumes "writes_ok v ins"
  shows "keeps_view v (execute_local A ins)"
  unfolding execute_local_def [abs_def] Let_def using assms
  by (intro frame_if execute_gc_frame frame_xors frame_nots frame_bits frame_bitcom frame_bitdecc frame_trans frame_mem_op frame_ops frame_prints
      frame_pure frame_bind; (assumption | simp add: writes_ok_def written_S_def written_C_def written_I_def stored_direct_def unit_range_def Let_def))

end

subsection \<open>Instructions of several parties, on values\<close>

lemma and_units_written:
  assumes "and_units args = Inr us" "i_opcode ins = ANDS" "i_start ins = args"
  shows "\<forall>u \<in> set us. fst (snd u) \<in> set (written_S ins)"
  using assms by (force simp: written_S_def)

lemma reveal_units_written:
  assumes "reveal_units args = Inr us" "i_opcode ins = REVEAL" "i_start ins = args"
  shows "\<forall>u \<in> set us. fst (snd u) \<in> set (written_C ins)"
proof
  fix u assume "u \<in> set us"
  then obtain n d r j where "(n, d, r) \<in> set (chunks3 args)" "j < n_units n" "fst (snd u) = d + int j"
    using assms(1) by (auto simp: reveal_units_def res_simps)
  then show "fst (snd u) \<in> set (written_C ins)" using assms(2,3) by (force simp: written_C_def unit_range_iff)
qed

locale value_view = machine_view v for v :: "bitvec processor \<Rightarrow> 'v"
begin

lemma clear_and_view:
  assumes "writes_ok v ins" "i_opcode ins = ANDS"
  shows "keeps_view v (clear_and gate (i_start ins))"
proof (cases "and_units (i_start ins)")
  case (Inl e)
  then show ?thesis by (simp add: clear_and_def keeps_view_def)
next
  case (Inr us)
  have "\<forall>x. keeps_view v (putS (fst (snd u)) x)" if "u \<in> set us" for u
    using and_units_written [OF Inr assms(2) refl] that assms(1) by (auto simp: writes_ok_def)
  then have step: "keeps_view v (putS out x)" if "((n, out, xs), vs) \<in> set (zip us vss)" for n out xs vs vss x
    using set_zip_leftD [OF that] by fastforce
  then show ?thesis
    unfolding clear_and_def [abs_def] Inr by (simp, intro frame_bind frame_foldE frame_split) auto
qed

lemma reveal_store_view:
  assumes "writes_ok v ins" "i_opcode ins = REVEAL"
  shows "keeps_view v (reveal_store (i_start ins) vs)"
proof -
  define f :: "nat \<times> int \<times> int \<Rightarrow> bitvec processor \<times> bitvec list \<Rightarrow> (bitvec processor \<times> bitvec list) res" where
    "f = (\<lambda>(n, r0, r1) (p, os). case os of [] \<Rightarrow> Inl (Undefined_Behaviour ''PointerVector::next'')
       | v # vs \<Rightarrow> bindE (putC r0 (bv_mask v n) p) (\<lambda>p'. Inr (p', vs)))"
  have one: "v (fst s') = v (fst s)" if "f u s = Inr s'" "\<forall>x. keeps_view v (putC (fst (snd u)) x)" for u s s'
    using that unfolding keeps_view_def by (cases u; cases s) (fastforce simp: f_def res_simps split: list.split_asm)
  have many: "foldE f us s = Inr s' \<Longrightarrow> \<forall>u \<in> set us. \<forall>x. keeps_view v (putC (fst (snd u)) x) \<Longrightarrow> v (fst s') = v (fst s)" for us s s'
    by (induction us arbitrary: s) (auto simp: res_simps dest: one)
  show ?thesis
    unfolding keeps_view_def
  proof (intro allI impI)
    fix p p' :: "bitvec processor" assume "reveal_store (i_start ins) vs p = Inr p'"
    then obtain us os where us: "reveal_units (i_start ins) = Inr us" "foldE f us (p, vs) = Inr (p', os)"
      by (auto simp: reveal_store_def f_def [symmetric] res_simps)
    have "\<forall>u \<in> set us. \<forall>x. keeps_view v (putC (fst (snd u)) x)"
      using reveal_units_written [OF us(1) assms(2) refl] assms(1) by (auto simp: writes_ok_def)
    from many [OF us(2) this] show "v p' = v p" by simp
  qed
qed

lemma clear_inputb_view:
  assumes "writes_ok v ins" "i_opcode ins = INPUTB" "clear_inputb (i_start ins) c = Inr c'"
  shows "v (c_proc c') = v (c_proc c)"
proof -
  define f :: "int \<times> int \<times> int \<times> int \<Rightarrow> clear_state \<Rightarrow> clear_state res" where
    "f = (\<lambda>(who, n_bits, n_shift, dest) c.
       bindE (player_index who) (\<lambda>k.
       bindE (get_long_input n_bits n_shift (c_file c k)) (\<lambda>(whole_input, file').
       bindE (foldE (\<lambda>i. putS (dest + int i) (bv_mask (input_chunk whole_input i) (nat (unit_length n_bits i))))
         [0..<n_units n_bits] (c_proc c)) (\<lambda>p'.
       Inr (c\<lparr>c_proc := p', c_file := (c_file c)(k := file')\<rparr>)))))"
  have w: "keeps_view v (foldE (\<lambda>i. putS (dest + int i) (g i)) [0..<n_units n])" if "(who, n, sh, dest) \<in> set (chunks4 (i_start ins))" for who n sh dest g
    using that assms(1,2) by (intro frame_foldE) (fastforce simp: writes_ok_def written_S_def unit_range_iff)
  have one: "v (c_proc d') = v (c_proc d)" if u: "u \<in> set (chunks4 (i_start ins))" and d: "f u d = Inr d'" for u d d'
  proof -
    obtain who n sh dest where "u = (who, n, sh, dest)" by (cases u)
    with u d w show ?thesis unfolding f_def keeps_view_def by (fastforce simp: res_simps)
  qed
  have "foldE f us d = Inr d' \<Longrightarrow> set us \<subseteq> set (chunks4 (i_start ins)) \<Longrightarrow> v (c_proc d') = v (c_proc d)" for us d d'
    by (induction us arbitrary: d) (auto simp: res_simps dest: one)
  with assms(3) show ?thesis unfolding clear_inputb_def f_def [symmetric] by (auto simp: res_simps input_args_def)
qed

lemma clear_execute_view:
  assumes "writes_ok v ins" "clear_execute k gate ins c = Inr c'"
  shows "v (c_proc c') = v (c_proc c)"
proof -
  consider "i_opcode ins = ANDS" | "i_opcode ins = REVEAL" | "i_opcode ins = INPUTB" | "i_opcode ins \<notin> {ANDS, REVEAL, INPUTB}" by blast
  then show ?thesis
  proof cases
    case 1
    then show ?thesis using clear_and_view [OF assms(1) 1, of gate] assms(2) by (auto simp: clear_execute_def res_simps keeps_view_def)
  next
    case 2
    then show ?thesis using reveal_store_view [OF assms(1) 2] assms(2)
      by (fastforce simp: clear_execute_def clear_reveal_def res_simps keeps_view_def)
  next
    case 3
    then show ?thesis using clear_inputb_view [OF assms(1) 3] assms(2) by (simp add: clear_execute_def)
  next
    case 4
    then show ?thesis using execute_local_frame [OF assms(1), of "value_secret k"] assms(2)
      by (auto simp: clear_execute_def res_simps keeps_view_def split: if_splits)
  qed
qed

end

text \<open>A view that every instruction of a program keeps is kept by the program.\<close>

interpretation viewed: simulation "clear_fin prog" clear_brk "clear_step k gate prog" clear_zero
    "clear_fin prog" clear_brk "clear_step k gate prog" clear_zero
    "\<lambda>c d. d = c \<and> value_view v \<and> v (c_proc c) = z \<and> (\<forall>ins \<in> set prog. writes_ok v ins)" for prog k gate v z
proof (unfold_locales, goal_cases)
  case (3 c d)
  then show ?case by (simp add: clear_zero_def value_view_def machine_view.view_fields)
next
  case (4 c d c')
  then obtain ins where ins: "ins \<in> set prog" "clear_execute k gate ins (c\<lparr>c_proc := (c_proc c)\<lparr>p_PC := p_PC (c_proc c) + 1\<rparr>\<rparr>) = Inr c'"
    by (auto simp: clear_step_def res_simps intro: nth_mem)
  have "v (c_proc c') = v ((c_proc c)\<lparr>p_PC := p_PC (c_proc c) + 1\<rparr>)"
    using value_view.clear_execute_view [of v ins k gate _ c'] ins 4 by fastforce
  then show ?case using 4 by (simp add: value_view_def machine_view.view_fields)
qed simp_all

lemma clear_run_view:
  assumes "value_view v" "\<forall>ins \<in> set prog. writes_ok v ins" "clear_run k gate prog c = Some (Inr c')"
  shows "v (c_proc c') = v (c_proc c)"
  using viewed.run_simulation [of prog k gate c c' c v "v (c_proc c)"] assms by (auto simp: clear_run_def)

end
