(* ===== verification/GCSizes.thy ===== *)
theory GCSizes
  imports GCFrame
begin

text \<open>
  The registers and memories of a processor keep their sizes while a program runs: only the
  resets before it set them. One consequence is that the dynamic memory of a thread, which
  no reset that the threads run touches, stays empty.
\<close>

unbundle bit_operations_syntax

subsection \<open>Sizes\<close>

definition sizes :: "'x processor \<Rightarrow> nat list" where
  "sizes p = [length (rS p), length (rC p), length (rI p), length (mMS p), length (mMC p), length (mMI p), length (mMD p)]"

lemma memory_put_length: "memory_put M i x = Inr M' \<Longrightarrow> length M' = length M"
  by (auto simp: memory_put_def updE_Inr split: if_splits)

interpretation sized: value_view sizes
  by unfold_locales (simp_all add: sizes_def)

lemma sizes_put:
  "keeps_view sizes (putS i x)" "keeps_view sizes (putC i w)" "keeps_view sizes (putI i w)"
  "keeps_view sizes (putMS i x)" "keeps_view sizes (putMC i w)" "keeps_view sizes (putMI i w)" "keeps_view sizes (putMD i x)"
  by (auto simp: keeps_view_def sizes_def access_defs res_simps dest: memory_put_length)

lemma sizes_writes: "writes_ok sizes ins"
  by (simp add: writes_ok_def sizes_put)

lemma clear_run_sizes:
  assumes "clear_run k gate prog c = Some (Inr c')"
  shows "sizes (c_proc c') = sizes (c_proc c)"
  using clear_run_view [OF sized.value_view_axioms _ assms] sizes_writes by blast

subsection \<open>Dynamic memory\<close>

lemma start_clear_sizes:
  "sizes (c_proc (start_clear P arg files)) = [unat (num_reg SBIT P), unat (num_reg CBIT P), unat (num_reg INT_REG P),
     unat (direct_mem SBIT P), unat (direct_mem CBIT P), unat (direct_mem INT_REG P), 0]"
  by (simp add: sizes_def start_clear_def load_program_def processor_reset_def machine_reset_def memories_reset_def
      new_processor_def resize_def resize_min_def Let_def)

definition dynamic_codes :: "nat list" where
  "dynamic_codes = [LDMSD, LDMSDI, STMSD, STMSDI, STMSDCI]"

lemma getMD_empty: "mMD p = [] \<Longrightarrow> getMD i p = Inl (Undefined_Behaviour ''vector index'')"
  "mMD p = [] \<Longrightarrow> putMD i y p = Inl (Undefined_Behaviour ''vector index'')"
  by (simp_all add: getMD_def putMD_def memory_get_def memory_put_def nthE_def updE_def)

text \<open>An access to an empty dynamic memory never succeeds.\<close>

lemma dynamic_access_fails:
  assumes "mMD p = []" "i_opcode ins \<in> set dynamic_codes" "3 \<le> length (i_start ins)"
  shows "execute_local A ins p \<noteq> Inr p'"
proof -
  obtain a b c xs where s: "i_start ins = a # b # c # xs"
    using assms(3) by (auto simp: numeral_eq_Suc Suc_le_length_iff)
  have d: "mMD (p\<lparr>p_complexity := k\<rparr>) = []" for k using assms(1) by simp
  have "i_opcode ins = LDMSD \<or> i_opcode ins = LDMSDI \<or> i_opcode ins = STMSD \<or> i_opcode ins = STMSDI \<or> i_opcode ins = STMSDCI"
    using assms(2) by (simp add: dynamic_codes_def)
  then show ?thesis
    using assms(1)
    by (elim disjE) (auto simp: execute_local_def execute_gc_def s load_direct_def load_indirect_def add_load_complexity_def store_direct_def store_indirect_def
        store_clear_in_dynamic_def res_simps getMD_empty(1) [OF d] getMD_empty)
qed

lemma clear_run_no_dynamic:
  assumes "clear_run k gate prog (start_clear P arg files) = Some (Inr c)"
  shows "mMD (c_proc c) = []"
  using clear_run_sizes [OF assms] unfolding start_clear_sizes by (simp add: sizes_def)

end
