(* ===== verification/BytecodeLayout.thy ===== *)
theory BytecodeLayout
  imports Bytecode
begin

text \<open>
  The byte layout of an instruction, as a specification of the reader: the code word (the
  vector size above ten bits of code), then the fields of the operand format, big-endian.
  Reading the layout of a well-formed instruction gives the instruction back, and so does
  reading a file of them.
\<close>

unbundle bit_operations_syntax

datatype field = F_reg nat | F_n | F_count nat | F_vec | F_raw

text \<open>The fields of a format, in file order.\<close>

definition binary_fields :: "nat \<Rightarrow> field list option" where
  "binary_fields opc =
     (if opc = LDBITS then Some [F_reg 0, F_reg 1, F_n]
      else if opc \<in> {BITDECS, BITCOMS, BITDECC, CONVCINTVEC} then Some [F_count 1, F_reg 0, F_vec]
      else if opc \<in> {CONVCINT, CONVCBIT} then Some [F_reg 0, F_reg 1]
      else if opc \<in> {CONVSINT, CONVCBITVEC, CONVCBIT2S, NOTS} then Some [F_n, F_reg 0, F_reg 1]
      else if opc \<in> {LDMSDI, STMSDI, LDMSD, STMSD, STMSDCI, XORS, ANDRS, ANDS, INPUTB, REVEAL}
        then Some [F_count 0, F_vec]
      else if opc = PRINTREGSIGNED then Some [F_n, F_reg 0]
      else if opc = TRANS then Some [F_count 1, F_n, F_vec]
      else if opc = SPLIT then Some [F_count 2, F_n, F_reg 0, F_vec]
      else None)"

definition variable_fields :: "nat \<Rightarrow> field list option" where
  "variable_fields opc =
     (if opc \<in> {PRINTFLOATPLAIN, PRINTFLOATPLAINB} then Some [F_vec]
      else if opc = INCINT then Some [F_reg 0, F_reg 1, F_n, F_vec]
      else if opc \<in> set variable_codes then Some [F_count 0, F_vec]
      else if opc = MATMULS then Some [F_reg 0, F_reg 1, F_reg 2, F_vec]
      else if opc = MATMULSM then Some [F_reg 0, F_reg 1, F_reg 2, F_vec]
      else if opc = CONV2DS then Some [F_reg 0, F_reg 1, F_reg 2, F_vec]
      else if opc = READFILESHARE then Some [F_count 2, F_reg 0, F_reg 1, F_vec]
      else if opc \<in> {READSOCKETC, READSOCKETS, READSOCKETINT} then Some [F_count 1, F_reg 0, F_vec]
      else if opc \<in> {WRITESOCKETC, WRITESOCKETS, WRITESOCKETSHARE, WRITESOCKETINT}
        then Some [F_count 2, F_reg 0, F_reg 1, F_vec]
      else if opc = CONNECTIPV4 then None
      else if opc \<in> {READCLIENTPUBLICKEY, INITSECURESOCKET, RESPSECURESOCKET} then None
      else if opc \<in> {STARTINPUT, GSTARTINPUT, STOPINPUT, GSTOPINPUT} then None
      else if opc \<in> {GBITDEC, GBITCOM} then Some [F_count 2, F_reg 0, F_n, F_vec]
      else if opc \<in> {BITDECINT, EDABIT, SEDABIT} then Some [F_count 1, F_reg 0, F_vec]
      else if opc \<in> {PREP, GPREP} then Some [F_count 1, F_raw, F_vec]
      else if opc \<in> {USE_PREP, GUSE_PREP} then Some [F_raw, F_n]
      else if opc = REQBL then None
      else if opc = GREQBL then None
      else if opc \<in> {XORM, ANDM} then Some [F_n, F_reg 0, F_reg 1, F_reg 2]
      else binary_fields opc)"

definition layout :: "nat \<Rightarrow> field list option" where
  "layout opc =
     (if opc \<in> set three_register_codes then Some [F_reg 0, F_reg 1, F_reg 2]
      else if opc \<in> set two_register_codes then Some [F_reg 0, F_reg 1]
      else if opc \<in> set one_register_codes then Some [F_reg 0]
      else if opc \<in> set two_register_int_codes then Some [F_reg 0, F_reg 1, F_n]
      else if opc \<in> set one_register_int_codes then Some [F_reg 0, F_n]
      else if opc \<in> set one_int_codes then Some [F_n]
      else if opc \<in> set no_operand_codes then Some []
      else variable_fields opc)"

text \<open>Number of vector entries where the format fixes it.\<close>

definition fixed_count :: "nat \<Rightarrow> nat option" where
  "fixed_count opc =
     (if opc \<in> {PRINTFLOATPLAIN, PRINTFLOATPLAINB} then Some 5
      else if opc = INCINT then Some 2
      else if opc = MATMULS then Some 3
      else if opc = MATMULSM then Some 9
      else if opc = CONV2DS then Some 11
      else None)"

definition be_octets :: "int \<Rightarrow> octet list" where
  "be_octets x = map (\<lambda>i. ucast (drop_bit (8 * i) (word_of_int x :: 32 word))) [3, 2, 1, 0]"

fun encode_field :: "instruction \<Rightarrow> field \<Rightarrow> octet list" where
  "encode_field ins (F_reg k) = be_octets (i_r ins ! k)"
| "encode_field ins F_n = be_octets (uint (i_n ins))"
| "encode_field ins (F_count k) = be_octets (int (length (i_start ins) + k))"
| "encode_field ins F_vec = concat (map be_octets (i_start ins))"
| "encode_field ins F_raw = concat (map (\<lambda>x. rev (be_octets x)) (i_r ins))"

definition encode_fields :: "instruction \<Rightarrow> field list \<Rightarrow> octet list" where
  "encode_fields ins fs = concat (map (encode_field ins) fs)"

definition encode_instruction :: "instruction \<Rightarrow> octet list" where
  "encode_instruction ins =
     be_octets (i_size ins * 1024 + int (i_opcode ins)) @
     encode_fields ins (case layout (i_opcode ins) of Some fs \<Rightarrow> fs | None \<Rightarrow> [])"

text \<open>
  Well-formed: the integers fit 32 bits, there are fewer than \<open>2 ^ 29\<close> operands (more octets than
  \<^verbatim>\<open>get_vector\<close> can count), and what the format does not carry is zero or empty.
\<close>

definition in_int :: "int \<Rightarrow> bool" where
  "in_int x \<longleftrightarrow> - (2 ^ 31) \<le> x \<and> x < 2 ^ 31"

fun field_zero :: "instruction \<Rightarrow> field list \<Rightarrow> bool" where
  "field_zero ins fs \<longleftrightarrow>
     (F_raw \<notin> set fs \<longrightarrow> (F_reg 0 \<notin> set fs \<longrightarrow> i_r ins ! 0 = 0) \<and> (F_reg 1 \<notin> set fs \<longrightarrow> i_r ins ! 1 = 0)
        \<and> (F_reg 2 \<notin> set fs \<longrightarrow> i_r ins ! 2 = 0) \<and> i_r ins ! 3 = 0)
     \<and> (F_n \<notin> set fs \<longrightarrow> i_n ins = 0) \<and> (F_vec \<notin> set fs \<longrightarrow> i_start ins = [])"

definition wf_instruction :: "instruction \<Rightarrow> bool" where
  "wf_instruction ins \<longleftrightarrow>
     i_opcode ins < 1024 \<and> 0 < i_size ins \<and> i_size ins < 2 ^ 22 \<and> length (i_r ins) = 4
     \<and> list_all in_int (i_r ins) \<and> list_all in_int (i_start ins) \<and> length (i_start ins) < 2 ^ 29
     \<and> (case fixed_count (i_opcode ins) of None \<Rightarrow> True | Some k \<Rightarrow> length (i_start ins) = k)
     \<and> (case layout (i_opcode ins) of None \<Rightarrow> False | Some fs \<Rightarrow> field_zero ins fs)"

subsection \<open>Integers\<close>

lemma length_be_octets [simp]: "length (be_octets x) = 4"
  by (simp add: be_octets_def)

lemma be_word_be_octets: "be_word (be_octets x) = word_of_int x"
  unfolding be_octets_def
  by (rule bit_word_eqI) (auto simp: bit_simps not_less less_diff_conv)

lemma le_word_rev: "le_word (rev bs) = be_word bs"
  by (simp add: le_word_def)

lemma sint_word_of_int_in_int: "in_int x \<Longrightarrow> sint (word_of_int x :: 32 word) = x"
  by (simp add: in_int_def signed_of_int signed_take_bit_int_eq_self)

lemma in_int_sint: "in_int (sint (w :: 32 word))"
  using sint_lt [of w] sint_ge [of w] by (simp add: in_int_def)

lemma stream_int_be [simp]:
  "in_int x \<Longrightarrow> stream_int (be_octets x @ s) = Inr (x, s)"
  by (simp add: stream_int_def be_word_be_octets sint_word_of_int_in_int)

lemma stream_int_n [simp]:
  "stream_int (be_octets (uint w) @ s) = Inr (sint (w :: 32 word), s)"
  by (simp add: stream_int_def be_word_be_octets)

lemma words_of_be:
  "list_all in_int xs \<Longrightarrow> words_of be_word (length xs) (concat (map be_octets xs) @ s) = xs"
  by (induction xs) (simp_all add: be_word_be_octets sint_word_of_int_in_int)

lemma words_of_le:
  "list_all in_int xs \<Longrightarrow> words_of le_word (length xs) (concat (map (\<lambda>x. rev (be_octets x)) xs) @ s) = xs"
  by (induction xs) (simp_all add: le_word_rev be_word_be_octets sint_word_of_int_in_int)

lemma length_concat_be [simp]:
  "length (concat (map be_octets xs)) = 4 * length xs"
  "length (concat (map (\<lambda>x. rev (be_octets x)) xs)) = 4 * length xs"
  by (induction xs) simp_all

lemma stream_ints_be:
  assumes "list_all in_int xs" "n = length xs"
  shows "stream_ints n (concat (map be_octets xs) @ s) = (xs, s)"
  using words_of_be [OF assms(1), of "[]"] assms(2) by (simp add: stream_ints_def padded_def)

lemma stream_ints_1: "in_int a \<Longrightarrow> stream_ints (Suc 0) (be_octets a @ s) = ([a], s)"
  using stream_ints_be [of "[a]" 1 s] by simp

lemma stream_ints_2: "in_int a \<Longrightarrow> in_int b \<Longrightarrow> stream_ints 2 (be_octets a @ be_octets b @ s) = ([a, b], s)"
  using stream_ints_be [of "[a, b]" 2 s] by simp

lemma stream_ints_3:
  "in_int a \<Longrightarrow> in_int b \<Longrightarrow> in_int c \<Longrightarrow>
    stream_ints 3 (be_octets a @ be_octets b @ be_octets c @ s) = ([a, b, c], s)"
  using stream_ints_be [of "[a, b, c]" 3 s] by simp

lemma stream_raw_regs_le:
  assumes "in_int a" "in_int b" "in_int c" "in_int d"
  shows "stream_raw_regs (rev (be_octets a) @ rev (be_octets b) @ rev (be_octets c) @ rev (be_octets d) @ s) = ([a, b, c, d], s)"
  using words_of_le [of "[a, b, c, d]" "[]"] assms by (simp add: stream_raw_regs_def padded_def numeral_eq_Suc)

lemma stream_vector_be:
  "list_all in_int xs \<Longrightarrow> m = int (length xs) \<Longrightarrow> length xs < 2 ^ 29 \<Longrightarrow> stream_vector m (concat (map be_octets xs) @ s) = Inr (xs, s)"
  using stream_ints_be [of xs "length xs" s] by (simp add: stream_vector_def)

lemma in_int_count: "int n + k < 2 ^ 31 \<Longrightarrow> 0 \<le> k \<Longrightarrow> in_int (int n + k)"
  by (simp add: in_int_def)

subsection \<open>Operands\<close>

lemmas reader_defs = read_reg_def read_n_def read_ints_def read_vector_def read_raw_def counted_def
  steps_def set_regs_def

lemmas reads = stream_ints_1 stream_ints_2 stream_ints_3 stream_vector_be stream_raw_regs_le

definition reads_back :: "(instruction \<times> octet list \<Rightarrow> (instruction \<times> octet list) res) \<Rightarrow> field list option \<Rightarrow> nat option \<Rightarrow> bool" where
  "reads_back f fo k \<longleftrightarrow> (\<forall>fs opc sz a b c d n st s.
     let ins = \<lparr>i_opcode = opc, i_size = sz, i_r = [a, b, c, d], i_n = n, i_start = st\<rparr>
     in fo = Some fs \<longrightarrow> field_zero ins fs \<longrightarrow> list_all in_int [a, b, c, d] \<longrightarrow> list_all in_int st \<longrightarrow>
        length st < 2 ^ 29 \<longrightarrow> (case k of None \<Rightarrow> True | Some k \<Rightarrow> length st = k) \<longrightarrow>
        f (\<lparr>i_opcode = opc, i_size = sz, i_r = [0, 0, 0, 0], i_n = 0, i_start = []\<rparr>, encode_fields ins fs @ s) = Inr (ins, s))"

lemma reads_back_if:
  "(b \<Longrightarrow> reads_back f x k) \<Longrightarrow> (\<not> b \<Longrightarrow> reads_back g y k) \<Longrightarrow> reads_back (\<lambda>z. if b then f z else g z) (if b then x else y) k"
  by (cases b) simp_all

lemma in_int_counts:
  "length st < 2 ^ 29 \<Longrightarrow> in_int (int (length st)) \<and> in_int (1 + int (length st)) \<and> in_int (2 + int (length st))
     \<and> in_int (int (length st) + 1) \<and> in_int (int (length st) + 2)"
  by (auto simp: in_int_def)

lemma reads_back_None: "reads_back f None k"
  by (simp add: reads_back_def)

lemmas reads_back_simps = reads_back_def encode_fields_def reader_defs reads in_int_counts Let_def

lemma reads_back_registers:
  "reads_back (steps [read_reg 0, read_reg 1, read_reg 2]) (Some [F_reg 0, F_reg 1, F_reg 2]) k"
  "reads_back (steps [read_reg 0, read_reg 1]) (Some [F_reg 0, F_reg 1]) k"
  "reads_back (read_reg 0) (Some [F_reg 0]) k"
  "reads_back (steps [read_reg 0, read_reg 1, read_n]) (Some [F_reg 0, F_reg 1, F_n]) k"
  "reads_back (steps [read_reg 0, read_n]) (Some [F_reg 0, F_n]) k"
  "reads_back read_n (Some [F_n]) k"
  "reads_back Inr (Some []) k"
  "reads_back (steps [read_ints 2, read_n]) (Some [F_reg 0, F_reg 1, F_n]) k"
  "reads_back (read_ints 2) (Some [F_reg 0, F_reg 1]) k"
  "reads_back (steps [read_n, read_ints 2]) (Some [F_n, F_reg 0, F_reg 1]) k"
  "reads_back (steps [read_n, read_ints 1]) (Some [F_n, F_reg 0]) k"
  "reads_back (steps [read_n, read_ints 3]) (Some [F_n, F_reg 0, F_reg 1, F_reg 2]) k"
  "reads_back (steps [read_raw, read_n]) (Some [F_raw, F_n]) k"
  by (simp_all add: reads_back_simps)

lemma reads_back_vectors:
  "reads_back (counted 0 []) (Some [F_count 0, F_vec]) k"
  "reads_back (counted 1 [read_ints 1]) (Some [F_count 1, F_reg 0, F_vec]) k"
  "reads_back (counted 1 [read_reg 0]) (Some [F_count 1, F_reg 0, F_vec]) k"
  "reads_back (counted 1 [read_n]) (Some [F_count 1, F_n, F_vec]) k"
  "reads_back (counted 1 [read_raw]) (Some [F_count 1, F_raw, F_vec]) k"
  "reads_back (counted 2 [read_n, read_ints 1]) (Some [F_count 2, F_n, F_reg 0, F_vec]) k"
  "reads_back (counted 2 [read_reg 0, read_reg 1]) (Some [F_count 2, F_reg 0, F_reg 1, F_vec]) k"
  "reads_back (counted 2 [read_reg 0, read_n]) (Some [F_count 2, F_reg 0, F_n, F_vec]) k"
  by (simp_all add: reads_back_simps)

lemma reads_back_fixed:
  "reads_back (read_vector (int m)) (Some [F_vec]) (Some m)"
  "reads_back (steps [read_reg 0, read_reg 1, read_n, read_vector (int m)]) (Some [F_reg 0, F_reg 1, F_n, F_vec]) (Some m)"
  "reads_back (steps [read_ints 3, read_vector (int m)]) (Some [F_reg 0, F_reg 1, F_reg 2, F_vec]) (Some m)"
  by (simp_all add: reads_back_simps)


lemma reads_back_binary: "reads_back (parse_binary_operands opc) (binary_fields opc) k"
  unfolding parse_binary_operands_def binary_fields_def
  by (intro reads_back_if reads_back_registers reads_back_vectors) (simp add: reads_back_None)

lemma reads_back_fixed':
  assumes "k = Some m"
  shows "int m = i \<Longrightarrow> reads_back (read_vector i) (Some [F_vec]) k"
    "int m = i \<Longrightarrow> reads_back (steps [read_reg 0, read_reg 1, read_n, read_vector i]) (Some [F_reg 0, F_reg 1, F_n, F_vec]) k"
    "int m = i \<Longrightarrow> reads_back (steps [read_ints 3, read_vector i]) (Some [F_reg 0, F_reg 1, F_reg 2, F_vec]) k"
  using reads_back_fixed [of m] assms by auto

lemma reads_back_variable: "reads_back (parse_variable_operands d opc) (variable_fields opc) (fixed_count opc)"
  unfolding parse_variable_operands_def variable_fields_def
  apply (intro reads_back_if reads_back_registers reads_back_vectors reads_back_None reads_back_binary)
  apply (rule reads_back_fixed' [where m = 5]; auto simp: fixed_count_def)
  apply (rule reads_back_fixed' [where m = 2]; simp add: fixed_count_def)
  apply (rule reads_back_fixed' [where m = 3]; simp add: fixed_count_def)
  apply (rule reads_back_fixed' [where m = 9]; simp add: fixed_count_def)
  apply (rule reads_back_fixed' [where m = 11]; simp add: fixed_count_def)
  done

lemma parse_operands_fields: "reads_back (parse_operands d opc) (layout opc) (fixed_count opc)"
  unfolding parse_operands_def layout_def
  by (intro reads_back_if reads_back_registers reads_back_variable)


subsection \<open>Instructions and files\<close>

lemma encode_code:
  assumes "opc < 1024" "0 < sz" "sz < 2 ^ 22"
  defines "w \<equiv> word_of_int (sint (word_of_int (sz * 1024 + int opc) :: 32 word)) :: 32 word"
  shows "uint (drop_bit 10 w) = sz" "unat (w AND 0x3FF) = opc"
proof -
  have w: "w = word_of_int (sz * 1024 + int opc)" by (simp add: w_def)
  have u: "uint w = sz * 1024 + int opc"
    using assms(1-3) unfolding w by (subst uint_word_of_int, intro mod_pos_pos_trivial) auto
  have "uint (drop_bit 10 w) = uint w div 2 ^ 10"
    by (simp add: drop_bit_eq_div uint_div_distrib)
  then show "uint (drop_bit 10 w) = sz"
    using assms(1) unfolding u by simp
  have "w AND 0x3FF = take_bit 10 w"
    by (simp add: take_bit_eq_mask mask_eq_exp_minus_1)
  moreover have "unat (take_bit 10 w) = unat w mod 2 ^ 10"
    by (simp add: take_bit_eq_mod unat_mod_distrib)
  moreover have "unat w = nat (sz * 1024 + int opc)"
    using u by (metis unat_eq_nat_uint)
  ultimately show "unat (w AND 0x3FF) = opc"
    using assms(1,2) by (simp add: nat_add_distrib nat_mult_distrib)
qed

lemma base_parse_encode:
  assumes "wf_instruction ins"
  shows "base_parse d (encode_instruction ins @ s) = Inr (ins, s)"
proof -
  obtain opc sz r n st where ins: "ins = \<lparr>i_opcode = opc, i_size = sz, i_r = r, i_n = n, i_start = st\<rparr>"
    by (cases ins)
  have wf: "opc < 1024" "0 < sz" "sz < 2 ^ 22" "length r = 4" "list_all in_int r" "list_all in_int st"
    "length st < 2 ^ 29" "case fixed_count opc of None \<Rightarrow> True | Some k \<Rightarrow> length st = k"
    using assms by (simp_all add: wf_instruction_def ins split: option.splits)
  obtain fs where fs: "layout opc = Some fs" "field_zero ins fs"
    using assms by (auto simp: wf_instruction_def ins split: option.splits)
  obtain a b c e where r: "r = [a, b, c, e]"
    using wf(4) by (auto simp: numeral_eq_Suc length_Suc_conv)
  have "parse_operands d opc (\<lparr>i_opcode = opc, i_size = sz, i_r = [0, 0, 0, 0], i_n = 0, i_start = []\<rparr>,
      encode_fields ins fs @ s) = Inr (ins, s)"
    using parse_operands_fields [of d opc, unfolded reads_back_def Let_def, rule_format, of fs opc sz a b c e n st s] fs wf
    by (simp add: ins r)
  moreover have "in_int (sint (word_of_int (sz * 1024 + int opc) :: 32 word))"
    by (rule in_int_sint)
  ultimately show ?thesis
    using wf encode_code [OF wf(1-3)] fs(1)
    by (simp add: base_parse_def encode_instruction_def ins Let_def stream_int_def be_word_be_octets)
qed


lemma gc_parse_encode:
  assumes "wf_instruction ins" "i_opcode ins \<in> set bit_instructions \<union> set gc_instructions"
  shows "gc_parse d (encode_instruction ins @ s) = Inr (ins, s)"
  using base_parse_encode [OF assms(1)] assms(2) by (simp add: gc_parse_def)

lemma parse_instructions_encode:
  assumes "list_all wf_instruction p" "\<forall>ins \<in> set p. i_opcode ins \<in> set bit_instructions \<union> set gc_instructions"
  shows "parse_instructions d (concat (map encode_instruction p)) = Inr p"
  using assms
proof (induction p)
  case Nil
  then show ?case by simp
next
  case (Cons ins p)
  then have "gc_parse d (encode_instruction ins @ concat (map encode_instruction p)) = Inr (ins, concat (map encode_instruction p))"
    by (intro gc_parse_encode) auto
  from parse_instructions_step [OF this] Cons show ?case by simp
qed

end
