(* ===== verification/BytecodeTypes.thy ===== *)
theory BytecodeTypes
  imports BytecodeLayout
begin

text \<open>
  What the parser guarantees of every instruction that it returns, whatever the octets of
  the file are: the types of the fields of \<^verbatim>\<open>BaseInstruction\<close>, and an opcode that the
  machine executes.
\<close>

unbundle bit_operations_syntax

subsection \<open>Typed instructions\<close>

definition typed :: "nat \<Rightarrow> int \<Rightarrow> instruction \<Rightarrow> bool" where
  "typed opc sz ins \<longleftrightarrow> i_opcode ins = opc \<and> i_size ins = sz \<and> length (i_r ins) = 4 \<and>
     (\<forall>x \<in> set (i_r ins) \<union> set (i_start ins). in_int x)"

definition instruction_typed :: "instruction \<Rightarrow> bool" where
  "instruction_typed ins \<longleftrightarrow> i_opcode ins < 1024 \<and> 0 < i_size ins \<and> i_size ins < 2 ^ 22 \<and> length (i_r ins) = 4 \<and>
     (\<forall>x \<in> set (i_r ins) \<union> set (i_start ins). in_int x)"

definition keeps :: "(instruction \<times> octet list \<Rightarrow> (instruction \<times> octet list) res) \<Rightarrow> bool" where
  "keeps f \<longleftrightarrow> (\<forall>x y opc sz. f x = Inr y \<longrightarrow> typed opc sz (fst x) \<longrightarrow> typed opc sz (fst y))"

named_theorems keep_intros \<open>operand readers that keep the types\<close>

lemma words_of_in_int: "x \<in> set (words_of f k s) \<Longrightarrow> in_int x"
  by (induction k arbitrary: s) (auto intro: in_int_sint)

lemma length_words_of [simp]: "length (words_of f k s) = k"
  by (induction k arbitrary: s) simp_all

lemma stream_int_in_int: "stream_int s = Inr (x, s') \<Longrightarrow> in_int x"
  by (auto simp: stream_int_def in_int_sint split: if_splits)

lemma keeps_readers [keep_intros]:
  "keeps (read_reg k)" "keeps read_n" "n \<le> 4 \<Longrightarrow> keeps (read_ints n)" "keeps (read_vector m)" "keeps read_raw"
proof -
  show "keeps (read_reg k)"
    by (auto simp: keeps_def read_reg_def res_simps typed_def dest: stream_int_in_int dest!: set_update_subset_insert [THEN subsetD])
  show "keeps read_n" by (auto simp: keeps_def read_n_def res_simps typed_def)
  show "n \<le> 4 \<Longrightarrow> keeps (read_ints n)"
    by (auto simp: keeps_def read_ints_def set_regs_def stream_ints_def typed_def Let_def dest: words_of_in_int in_set_dropD)
  show "keeps (read_vector m)"
    by (auto simp: keeps_def read_vector_def res_simps stream_vector_def stream_ints_def typed_def dest: words_of_in_int split: if_splits)
  show "keeps read_raw"
    by (auto simp: keeps_def read_raw_def set_regs_def stream_raw_regs_def typed_def Let_def dest: words_of_in_int in_set_dropD)
qed

lemma keeps_steps [keep_intros]: "list_all keeps fs \<Longrightarrow> keeps (steps fs)"
  unfolding keeps_def steps_def
proof (induction fs)
  case Nil
  then show ?case by simp
next
  case (Cons f fs)
  then show ?case by (fastforce simp: res_simps)
qed

lemma keeps_counted [keep_intros]:
  assumes "list_all keeps fs"
  shows "keeps (counted k fs)"
proof -
  have F: "keeps (steps fs)" using assms by (rule keeps_steps)
  have V: "keeps (read_vector m)" for m by (rule keeps_readers)
  show ?thesis
    unfolding keeps_def counted_def
  proof (clarsimp simp: res_simps)
    fix ins s opc sz c s' a b ins' s''
    assume "steps fs (ins, s') = Inr (a, b)" "read_vector (c - k) (a, b) = Inr (ins', s'')" "typed opc sz ins"
    then show "typed opc sz ins'" using F V [of "c - k"] unfolding keeps_def by fastforce
  qed
qed

lemma keeps_if: "(b \<Longrightarrow> keeps f) \<Longrightarrow> (\<not> b \<Longrightarrow> keeps g) \<Longrightarrow> keeps (\<lambda>x. if b then f x else g x)"
  by (cases b) simp_all

lemma keeps_error: "keeps (\<lambda>x. Inl e)" "keeps (\<lambda>x. bindE (f x) (\<lambda>_. Inl e))" "keeps Inr"
  by (auto simp: keeps_def res_simps)

lemma keeps_check: "keeps f \<Longrightarrow> keeps (\<lambda>x. bindE (f x) (\<lambda>(ins, s). if b ins then Inl e else Inr (ins, s)))"
  by (fastforce simp: keeps_def res_simps split: if_splits)

lemma keeps_parse_binary: "keeps (parse_binary_operands opc)"
  unfolding parse_binary_operands_def
  by (intro keeps_if keeps_error keep_intros; simp add: keep_intros)

lemma keeps_parse_variable: "keeps (parse_variable_operands d opc)"
  unfolding parse_variable_operands_def
  by (intro keeps_if keeps_error keeps_check keep_intros keeps_parse_binary; simp add: keep_intros)

lemma keeps_parse_operands: "keeps (parse_operands d opc)"
  unfolding parse_operands_def
  by (intro keeps_if keeps_error keep_intros keeps_parse_variable; simp add: keep_intros)

lemma base_parse_typed:
  assumes "base_parse d s = Inr (ins, s')"
  shows "instruction_typed ins"
proof -
  obtain code t where code: "stream_int s = Inr (code, t)" using assms by (auto simp: base_parse_def res_simps)
  let ?w = "word_of_int code :: 32 word"
  let ?sz = "uint (drop_bit 10 ?w)" and ?opc = "unat (?w AND 0x3FF)"
  have p: "parse_operands d ?opc (\<lparr>i_opcode = ?opc, i_size = (if ?sz = 0 then 1 else ?sz), i_r = [0, 0, 0, 0], i_n = 0, i_start = []\<rparr>, t) = Inr (ins, s')"
    using assms code by (simp add: base_parse_def Let_def)
  have "in_int 0" by (simp add: in_int_def)
  then have "typed ?opc (if ?sz = 0 then 1 else ?sz) \<lparr>i_opcode = ?opc, i_size = (if ?sz = 0 then 1 else ?sz), i_r = [0, 0, 0, 0], i_n = 0, i_start = []\<rparr>"
    by (simp add: typed_def)
  then have "typed ?opc (if ?sz = 0 then 1 else ?sz) ins"
    using keeps_parse_operands p unfolding keeps_def by fastforce
  moreover have "?opc < 1024"
    using word_and_le1 [of ?w "0x3FF"] by (simp add: word_le_nat_alt)
  moreover have "?sz < 2 ^ 22"
    using uint_lt2p [of ?w] by (simp add: drop_bit_eq_div uint_div_distrib)
  moreover have "?sz \<noteq> 0 \<Longrightarrow> 0 < ?sz" by (simp add: less_le)
  ultimately show ?thesis by (auto simp: typed_def instruction_typed_def)
qed

lemma parse_instructions_typed:
  "parse_instructions d s = Inr p \<Longrightarrow> list_all (\<lambda>ins. instruction_typed ins \<and> i_opcode ins \<in> set bit_instructions \<union> set gc_instructions) p"
proof (induction d s arbitrary: p rule: parse_instructions.induct)
  case (1 d s)
  show ?case
  proof (cases "s = []")
    case True
    then show ?thesis using 1 by simp
  next
    case False
    with 1(2) obtain ins s' q where g: "gc_parse d s = Inr (ins, s')" "parse_instructions d s' = Inr q" "p = ins # q"
      by (subst (asm) parse_instructions.simps) (auto simp: res_simps)
    have "base_parse d s = Inr (ins, s')" "i_opcode ins \<in> set bit_instructions \<union> set gc_instructions"
      using g(1) by (auto simp: gc_parse_def res_simps split: if_splits)
    with base_parse_typed 1(1) [OF False g(1) refl g(2)] g(3) show ?thesis by simp
  qed
qed

subsection \<open>Length of a program\<close>

text \<open>Every instruction takes at least its four octets of code.\<close>

lemma gc_parse_consumes: "gc_parse d s = Inr (ins, s') \<Longrightarrow> length s' + 4 \<le> length s"
  using shrinks_parse_operands unfolding gc_parse_def base_parse_def shrinks_def Let_def
  by (fastforce simp: res_simps dest: stream_int_length split: if_splits)

lemma parse_instructions_count: "parse_instructions d s = Inr p \<Longrightarrow> 4 * length p \<le> length s"
proof (induction d s arbitrary: p rule: parse_instructions.induct)
  case (1 d s)
  show ?case
  proof (cases "s = []")
    case True
    then show ?thesis using 1 by simp
  next
    case False
    with 1(2) obtain ins s' q where g: "gc_parse d s = Inr (ins, s')" "parse_instructions d s' = Inr q" "p = ins # q"
      by (subst (asm) parse_instructions.simps) (auto simp: res_simps)
    with 1(1) [OF False g(1) refl g(2)] gc_parse_consumes [OF g(1)] show ?thesis by simp
  qed
qed

end
