(* ===== verification/GCFaults.thy ===== *)
theory GCFaults
  imports GCSizes BytecodeTypes GCProgram
begin

text \<open>
  Small programs on which the code does not do what it means to: constants in secret
  registers, negation, and AND gates whose result register the scan of the program misses.
\<close>

unbundle bit_operations_syntax

subsection \<open>Straight-line runs\<close>

lemma exec_step:
  "\<not> fin s \<Longrightarrow> one s = Inr s' \<Longrightarrow> \<not> brk s' \<Longrightarrow> exec_loop fin brk one s = exec_loop fin brk one s'"
  by (subst exec_loop.simps) simp

lemma exec_error: "\<not> fin s \<Longrightarrow> one s = Inl e \<Longrightarrow> exec_loop fin brk one s = Some (Inl e)"
  by (subst exec_loop.simps) simp

lemma exec_done: "fin s \<Longrightarrow> exec_loop fin brk one s = Some (Inr (s, DONE_BREAK))"
  by (subst exec_loop.simps) simp

lemma run_done: "exec_loop fin brk one (zero s) = Some (Inr (s', DONE_BREAK)) \<Longrightarrow> run_loop fin brk one zero s = Some (Inr s')"
  by (subst run_loop.simps) simp

lemma run_error: "exec_loop fin brk one (zero s) = Some (Inl e) \<Longrightarrow> run_loop fin brk one zero s = Some (Inl e)"
  by (subst run_loop.simps) simp

lemma clear_run_two:
  assumes "prog = [i1, i2]" "p_PC (c_proc c) = 0"
    and 1: "clear_execute k gate i1 (c\<lparr>c_proc := (c_proc c)\<lparr>p_complexity := 0, p_PC := 1\<rparr>\<rparr>) = Inr c1" "p_PC (c_proc c1) = 1" "p_complexity (c_proc c1) = 0"
    and 2: "clear_execute k gate i2 (c1\<lparr>c_proc := (c_proc c1)\<lparr>p_PC := 2\<rparr>\<rparr>) = Inr c2" "p_PC (c_proc c2) = 2" "p_complexity (c_proc c2) = 0"
  shows "clear_run k gate prog c = Some (Inr c2)"
proof -
  have "exec_loop (clear_fin prog) clear_brk (clear_step k gate prog) (clear_zero c)
      = exec_loop (clear_fin prog) clear_brk (clear_step k gate prog) c1"
    using assms(1,2) 1 by (intro exec_step) (auto simp: clear_fin_def clear_zero_def clear_step_def clear_brk_def)
  also have "\<dots> = exec_loop (clear_fin prog) clear_brk (clear_step k gate prog) c2"
    using assms(1) 1(2) 2 by (intro exec_step) (auto simp: clear_fin_def clear_step_def clear_brk_def)
  also have "\<dots> = Some (Inr (c2, DONE_BREAK))"
    using assms(1) 2(2) by (intro exec_done) (simp add: clear_fin_def)
  finally show ?thesis unfolding clear_run_def by (rule run_done)
qed

subsection \<open>Constants\<close>

text \<open>Load the constant \<open>v\<close> of \<open>n\<close> bits into secret register 0 and open it into clear register 0.\<close>

definition constant_program :: "int \<Rightarrow> 32 word \<Rightarrow> instruction list" where
  "constant_program n v =
     [\<lparr>i_opcode = LDBITS, i_size = 1, i_r = [0, n, 0, 0], i_n = v, i_start = []\<rparr>,
      \<lparr>i_opcode = REVEAL, i_size = 1, i_r = [0, 0, 0, 0], i_n = 0, i_start = [n, 0, 0]\<rparr>]"

lemma one_unit: "1 \<le> n \<Longrightarrow> n \<le> 64 \<Longrightarrow> n_units n = 1 \<and> unit_length n 0 = n"
  by (simp add: n_units_def unit_length_def default_length_def signed_divide_int_def sgn_if)

lemma constant_program_run:
  assumes n: "1 \<le> n" "n \<le> 64" "uint v < 2 ^ nat n" and c: "rS (c_proc c) = x # xs" "rC (c_proc c) = y # ys" "p_PC (c_proc c) = 0"
  shows "\<exists>c'. clear_run k gate (constant_program n v) c = Some (Inr c') \<and> rC (c_proc c') ! 0 = bv_mask (k (word_of_int (uint v))) (nat n)"
proof -
  let ?w = "word_of_int (uint v) :: word64"
  let ?p1 = "(c_proc c)\<lparr>p_complexity := 0, p_PC := 1, rS := k ?w # xs\<rparr>"
  let ?p2 = "?p1\<lparr>p_PC := 2, rC := bv_mask (bv_mask (k ?w) (nat n)) (nat n) # ys\<rparr>"
  have len: "check_length n ?w = Inr ()"
  proof -
    have "uint v < 4294967296" using uint_lt2p [of v] by simp
    then have hi: "uint v < 2 ^ 63" by simp
    have "- (2 ^ 63) \<le> (0 :: int)" by simp
    also have "0 \<le> uint v" by simp
    finally have "signed_take_bit 63 (uint v) = uint v" using hi by (intro signed_take_bit_int_eq_self)
    then have "sint ?w = uint v" by (simp only: signed_of_int) simp
    then show ?thesis using n(3) by (simp add: check_length_def)
  qed
  have 1: "clear_execute k gate (constant_program n v ! 0) (c\<lparr>c_proc := (c_proc c)\<lparr>p_complexity := 0, p_PC := 1\<rparr>\<rparr>) = Inr (c\<lparr>c_proc := ?p1\<rparr>)"
    using c len by (simp add: constant_program_def clear_execute_def execute_local_def load_clear_def IMM_def get_r_def putS_def memory_put_def updE_def)
  have 2: "clear_execute k gate (constant_program n v ! 1) (c\<lparr>c_proc := ?p1\<lparr>p_PC := 2\<rparr>\<rparr>) = Inr (c\<lparr>c_proc := ?p2\<rparr>)"
    using c one_unit [OF n(1,2)]
    by (simp add: constant_program_def clear_execute_def clear_reveal_def reveal_units_def reveal_store_def getS_def putC_def
        memory_get_def memory_put_def nthE_def updE_def)
  have "clear_run k gate (constant_program n v) c = Some (Inr (c\<lparr>c_proc := ?p2\<rparr>))"
    by (rule clear_run_two [where ?i1.0 = "constant_program n v ! 0" and ?i2.0 = "constant_program n v ! 1" and ?c1.0 = "c\<lparr>c_proc := ?p1\<rparr>"])
      (use c 1 2 in \<open>simp_all add: constant_program_def\<close>)
  then show ?thesis using n by (simp add: bv_mask_twice)
qed

lemma constant_program_ok: "1 \<le> n \<Longrightarrow> n \<le> 64 \<Longrightarrow> program_ok (constant_program n v)"
  using one_unit [of n] by (simp add: program_ok_def instr_ok_def constant_program_def reveal_ok_def reveal_units_def)

lemma length_resize: "length (resize n d xs) = n"
  by (simp add: resize_def)

lemma resize_Cons: "0 < n \<Longrightarrow> \<exists>y ys. resize n d xs = y # ys"
  by (cases "resize n d xs") (auto simp: resize_def)

lemma start_clear_registers:
  assumes "0 < num_reg SBIT P" "0 < num_reg CBIT P"
  shows "\<exists>x xs. rS (c_proc (start_clear P arg files)) = x # xs" "\<exists>y ys. rC (c_proc (start_clear P arg files)) = y # ys"
    "p_PC (c_proc (start_clear P arg files)) = 0"
  using assms resize_Cons by (simp_all add: start_clear_def load_program_def processor_reset_def word_less_nat_alt)

subsection \<open>Negation\<close>

lemma nots_value:
  assumes "1 \<le> sint (i_n ins)" "sint (i_n ins) \<le> 64" "0 \<le> get_r ins 1" "get_r ins 1 < int (length (rS p))"
    "0 \<le> get_r ins 0" "get_r ins 0 < int (length (rS p))"
  shows "nots (value_secret (\<lambda>_. 0)) ins p
      = Inr (p\<lparr>rS := (rS p)[nat (get_r ins 0) := rS p ! nat (get_r ins 1) AND get_mask (sint (i_n ins))]\<rparr>)"
proof -
  have "nat (get_r ins 1) < length (rS p)" "nat (get_r ins 0) < length (rS p)" using assms by auto
  then show ?thesis
    using assms one_unit [OF assms(1,2)]
    by (simp add: nots_def IMM_int_def invert_def load_clear_def check_length_def getS_def putS_def memory_get_def memory_put_def nthE_def updE_def)
qed

subsection \<open>AND gates and the size of the register file\<close>

text \<open>One AND gate with two inputs, in the format that \<^verbatim>\<open>ShareThread::and_\<close> reads.\<close>

definition and_instruction :: "int \<Rightarrow> int \<Rightarrow> int \<Rightarrow> int \<Rightarrow> instruction" where
  "and_instruction n out a b = \<lparr>i_opcode = ANDS, i_size = 1, i_r = [0, 0, 0, 0], i_n = 0, i_start = [2, n, out, a, b]\<rparr>"

lemma and_instruction_max_reg: "get_max_reg SBIT (and_instruction n out a b) = Inr (word_of_int n + 1)"
proof -
  have "arg_positions 4 (Suc 0) (Suc (Suc (Suc (Suc (Suc 0))))) = [Suc 0]" by (simp add: arg_positions_def)
  then show ?thesis
    by (simp add: get_max_reg_def and_instruction_def get_reg_type_def arg_shape_def args_max_def Let_def div_ceil_def is_gf2n_instruction_def
      signed_divide_int_def sgn_if)
qed

text \<open>
  The scan takes the number of bits for a register and the number of inputs for its length:
  the result register is not looked at. A program that consists of such a gate writes
  outside its register file.
\<close>

lemma and_instruction_program:
  assumes "compute_constants \<lparr>instrs = [and_instruction n out a b], max_reg = mr, max_mem = mm\<rparr> = Inr P" "0 \<le> n" "n < 2 ^ 31"
  shows "instrs P = [and_instruction n out a b]" "uint (num_reg SBIT P) = n + 1"
proof -
  have o: "i_opcode (and_instruction n out a b) = ANDS" by (simp add: and_instruction_def)
  have t: "get_max_reg t (and_instruction n out a b) = Inr (if t = SBIT then word_of_int n + 1 else 0)" for t
    using and_instruction_max_reg [of n out a b] o by (cases "t = SBIT") (simp_all add: get_max_reg_def get_reg_type_def is_gf2n_instruction_def)
  have "instrs P = [and_instruction n out a b] \<and> max_reg P SBIT = word_of_int n + 1"
    using assms(1) by (auto simp: compute_constants_def reg_types_def scan_type_Inr res_simps t)
  moreover have "uint (word_of_int n + 1 :: 32 word) = n + 1"
  proof -
    have "word_of_int n + 1 = (word_of_int (n + 1) :: 32 word)" by simp
    then show ?thesis using assms(2,3) by (simp only: unsigned_of_int) (simp add: take_bit_int_eq_self)
  qed
  ultimately show "instrs P = [and_instruction n out a b]" "uint (num_reg SBIT P) = n + 1" by (simp_all add: num_reg_def)
qed

lemma and_units_one: "1 \<le> n \<Longrightarrow> n \<le> 64 \<Longrightarrow> and_units [2, n, out, a, b] = Inr [(nat n, out, [a, b])]"
  using one_unit [of n] by (simp add: and_units_def)

lemma and_instruction_overflows:
  assumes P: "compute_constants \<lparr>instrs = [and_instruction n out a b], max_reg = mr, max_mem = mm\<rparr> = Inr P"
    and n: "1 \<le> n" "n \<le> 64" and regs: "0 \<le> a" "a \<le> n" "0 \<le> b" "b \<le> n" "n < out"
  shows "clear_run k gate (instrs P) (start_clear P arg files) = Some (Inl (Undefined_Behaviour ''vector index''))"
proof -
  let ?c = "start_clear P arg files" and ?ins = "and_instruction n out a b"
  have i: "instrs P = [?ins]" "uint (num_reg SBIT P) = n + 1" using and_instruction_program [OF P] n by auto
  have l: "int (length (rS (c_proc ?c))) = n + 1"
    using start_clear_sizes [of P arg files] i(2) by (simp add: sizes_def)
  let ?p = "(c_proc ?c)\<lparr>p_complexity := 0, p_PC := 1\<rparr>"
  have "clear_and gate [2, n, out, a, b] ?p = Inl (Undefined_Behaviour ''vector index'')"
    using l regs and_units_one [OF n, of out a b]
    by (simp add: clear_and_def getS_def putS_def memory_get_def memory_put_def nthE_def updE_def nat_less_iff)
  then have "clear_step k gate (instrs P) (clear_zero ?c) = Inl (Undefined_Behaviour ''vector index'')"
    unfolding i(1) by (simp add: clear_step_def clear_zero_def clear_execute_def and_instruction_def start_clear_registers(3) start_clear_def load_program_def processor_reset_def)
  moreover have "\<not> clear_fin (instrs P) (clear_zero ?c)"
    unfolding i(1) by (simp add: clear_fin_def clear_zero_def start_clear_def load_program_def processor_reset_def)
  ultimately show ?thesis unfolding clear_run_def by (intro run_error exec_error)
qed

lemma and_finalize_outside:
  assumes "1 \<le> n" "n \<le> 64" "int (length (rS p)) \<le> out"
  shows "and_finalize [2, n, out, a, b] p s \<noteq> Inr q"
proof -
  have "putS out x p \<noteq> Inr p'" for x p'
    using assms(3) by (auto simp: putS_def memory_put_def updE_def res_simps)
  then show ?thesis
    using and_units_one [OF assms(1,2), of out a b] by (auto simp: and_finalize_def res_simps)
qed

lemma parE_Inr_0: "parE f = Inr g \<Longrightarrow> f 0 = Inr (g 0)"
  by (auto simp: parE_def res_simps three_def)

lemma and_instruction_parties:
  assumes P: "compute_constants \<lparr>instrs = [and_instruction n out a b], max_reg = mr, max_mem = mm\<rparr> = Inr P"
    and n: "1 \<le> n" "n \<le> 64" "n < out"
  shows "tri_execute E env (and_instruction n out a b) (start_tri P arg mul mc files) \<noteq> Inr st"
proof -
  have "int (length (rS (t_proc (start_tri P arg mul mc files) 0))) = uint (num_reg SBIT P)"
    by (simp add: start_tri_def load_program_def processor_reset_def length_resize)
  also have "\<dots> \<le> out" using and_instruction_program(2) [OF P] n by simp
  finally have out: "int (length (rS (t_proc (start_tri P arg mul mc files) 0))) \<le> out" .
  have "\<exists>e. and_finalize [2, n, out, a, b] (t_proc (start_tri P arg mul mc files) 0) s = Inl e" for s
    using and_finalize_outside [OF n(1,2) out] by (cases "and_finalize [2, n, out, a, b] (t_proc (start_tri P arg mul mc files) 0) s") blast+
  then show ?thesis
    by (auto simp: tri_execute_def and_instruction_def tri_and_def res_simps dest!: parE_Inr_0 split: option.splits) (metis sum.distinct(1))
qed

subsection \<open>The scan is a maximum\<close>

definition grows :: "RegType \<Rightarrow> program \<Rightarrow> program \<Rightarrow> bool" where
  "grows t P Q \<longleftrightarrow> max_reg P t \<le> max_reg Q t \<and> max_mem P t \<le> max_mem Q t \<and> instrs Q = instrs P"

definition covers :: "RegType \<Rightarrow> instruction \<Rightarrow> program \<Rightarrow> bool" where
  "covers t ins P \<longleftrightarrow> (\<exists>m. get_max_reg t ins = Inr m \<and> m \<le> max_reg P t \<and> gc_get_mem t ins \<le> max_mem P t)"

lemma grows_trans: "grows t P Q \<Longrightarrow> grows t Q R \<Longrightarrow> grows t P R"
  by (auto simp: grows_def intro: order_trans)

lemma covers_grows: "covers t ins P \<Longrightarrow> grows t P Q \<Longrightarrow> covers t ins Q"
  by (auto simp: grows_def covers_def intro: order_trans)

lemma scan_type_grows: "scan_type ins u P = Inr Q \<Longrightarrow> grows t P Q \<and> covers u ins Q"
  by (auto simp: scan_type_Inr grows_def covers_def)

lemma scan_types_grow:
  "foldE (scan_type ins) ts P = Inr Q \<Longrightarrow> grows t P Q \<and> (t \<in> set ts \<longrightarrow> covers t ins Q)"
proof (induction ts arbitrary: P)
  case Nil
  then show ?case by (simp add: grows_def)
next
  case (Cons u ts)
  then obtain P1 where P1: "scan_type ins u P = Inr P1" "foldE (scan_type ins) ts P1 = Inr Q" by (auto simp: res_simps)
  from scan_type_grows [OF P1(1)] Cons.IH [OF P1(2)] show ?case
    using grows_trans [of t P P1 Q] covers_grows [of t ins P1 Q] by auto
qed

lemma scan_all_covers:
  assumes "foldE (\<lambda>ins. foldE (scan_type ins) reg_types) p P = Inr Q" "t \<in> set reg_types"
  shows "grows t P Q \<and> (\<forall>ins \<in> set p. covers t ins Q)"
  using assms(1)
proof (induction p arbitrary: P)
  case Nil
  then show ?case by (simp add: grows_def)
next
  case (Cons ins p)
  then obtain P1 where P1: "foldE (scan_type ins) reg_types P = Inr P1" "foldE (\<lambda>ins. foldE (scan_type ins) reg_types) p P1 = Inr Q"
    by (auto simp: res_simps)
  from scan_types_grow [OF P1(1), of t] Cons.IH [OF P1(2)] assms(2) show ?case
    using grows_trans [of t P P1 Q] covers_grows [of t ins P1 Q] by auto
qed

lemma parse_program_covers:
  assumes "parse_program d s = Inr P" "ins \<in> set (instrs P)" "t \<in> set reg_types"
  shows "\<exists>m. get_max_reg t ins = Inr m \<and> m \<le> num_reg t P \<and> gc_get_mem t ins \<le> direct_mem t P"
proof -
  obtain p where "compute_constants \<lparr>instrs = p, max_reg = \<lambda>_. 0, max_mem = \<lambda>_. 0\<rparr> = Inr P"
    using assms(1) by (auto simp: parse_program_def res_simps)
  then show ?thesis
    using scan_all_covers [of p _ P t] assms(2,3) by (fastforce simp: compute_constants_def covers_def grows_def num_reg_def direct_mem_def)
qed

text \<open>The scan fails on dot products and matrices only, which the machine does not have.\<close>

lemma scan_total:
  assumes "\<forall>ins \<in> set p. i_opcode ins \<in> set bit_instructions \<union> set gc_instructions"
  shows "\<exists>Q. foldE (\<lambda>ins. foldE (scan_type ins) ts) p P = Inr Q"
proof -
  have one: "\<exists>m. get_max_reg t ins = Inr m" if "ins \<in> set p" for t ins
  proof -
    have "i_opcode ins \<notin> {DOTPRODS, MATMULS, MATMULSM, CONV2DS}"
      using assms that by (auto simp: bit_instructions_def gc_instructions_def)
    then show ?thesis by (simp add: get_max_reg_def Let_def split: prod.split)
  qed
  have "\<exists>Q. scan_type ins t P = Inr Q" if "ins \<in> set p" for ins t P
    using one [OF that, of t] by (auto simp: scan_type_def)
  then have types: "\<exists>Q. foldE (scan_type ins) ts P = Inr Q \<and> True" if "ins \<in> set p" for ins P
    using that by (intro foldE_Inr_invariant) auto
  have "\<exists>Q. foldE (\<lambda>ins. foldE (scan_type ins) ts) p P = Inr Q \<and> True"
    by (rule foldE_Inr_invariant) (use types in auto)
  then show ?thesis by simp
qed

lemma parse_program_total:
  assumes "parse_instructions d s = Inr p"
  shows "\<exists>P. parse_program d s = Inr P \<and> instrs P = p"
proof -
  have "\<forall>ins \<in> set p. i_opcode ins \<in> set bit_instructions \<union> set gc_instructions"
    using parse_instructions_typed [OF assms] by (simp add: list_all_iff)
  from scan_total [OF this] obtain P where P: "compute_constants \<lparr>instrs = p, max_reg = \<lambda>_. 0, max_mem = \<lambda>_. 0\<rparr> = Inr P"
    by (auto simp: compute_constants_def)
  then have "instrs P = p"
    using scan_all_covers [of p _ P MODP] by (fastforce simp: compute_constants_def grows_def reg_types_def)
  with P assms show ?thesis by (simp add: parse_program_def)
qed

end
