(* ===== verification/GCSample.thy ===== *)
theory GCSample
  imports GCFaults BytecodeTypes
begin

text \<open>
  A program to run the theorems on: player 0 inputs two bytes, their AND is XORed to the
  first, and the result is opened.
\<close>

unbundle bit_operations_syntax

definition sample_program :: "instruction list" where
  "sample_program =
     [\<lparr>i_opcode = INPUTB, i_size = 1, i_r = [0, 0, 0, 0], i_n = 0, i_start = [0, 8, 0, 0, 0, 8, 0, 1]\<rparr>,
      \<lparr>i_opcode = ANDS, i_size = 1, i_r = [0, 0, 0, 0], i_n = 0, i_start = [2, 8, 2, 0, 1]\<rparr>,
      \<lparr>i_opcode = XORS, i_size = 1, i_r = [0, 0, 0, 0], i_n = 0, i_start = [8, 3, 2, 0]\<rparr>,
      \<lparr>i_opcode = REVEAL, i_size = 1, i_r = [0, 0, 0, 0], i_n = 0, i_start = [8, 0, 3]\<rparr>]"

definition sample_files :: "nat \<Rightarrow> input_file" where
  "sample_files i = [\<lambda>_. 13, \<lambda>_. 7]"

definition sample_env :: environment where
  "sample_env t i = start_input i"

definition sized_program :: "nat \<Rightarrow> instruction list \<Rightarrow> program" where
  "sized_program k prog = \<lparr>instrs = prog, max_reg = (\<lambda>t. if t = SBIT then of_nat k else 1), max_mem = (\<lambda>_. 0)\<rparr>"

lemma sample_env_ok: "environment_ok sample_env"
  by (simp add: environment_ok_def sample_env_def start_input_inv)

lemma sample_files_nonneg: "\<forall>f \<in> set (sample_files 0). \<forall>sh. 0 \<le> f sh"
  by (simp add: sample_files_def)

subsection \<open>The run on the values\<close>

abbreviation sample_state :: "word64 list \<Rightarrow> word64 list \<Rightarrow> 32 word \<Rightarrow> (nat \<Rightarrow> input_file) \<Rightarrow> clear_state" where
  "sample_state s c pc files \<equiv> \<lparr>c_proc = \<lparr>rS = s, rC = c, rI = [0], mMS = [], mMC = [], mMI = [], mMD = [], p_PC = pc, p_arg = 0,
      p_stack = [], p_out = [], p_complexity = 0\<rparr>, c_file = files\<rparr>"

lemmas step_defs = clear_step_def clear_execute_def execute_local_def clear_and_def and_units_def xors_def check_args_def n_units_def
  unit_length_def default_length_def getS_def putS_def putC_def memory_get_def memory_put_def nthE_def updE_def clear_reveal_def
  reveal_units_def reveal_store_def clear_inputb_def input_args_def player_index_def get_long_input_def check_input_def
  input_chunk_def mpz_get_si_nonneg sample_program_def and_all_def bv_mask_take_bit

lemma sample_steps:
  "clear_step id and_all sample_program (sample_state [0, 0, 0, 0] [0] 0 sample_files)
     = Inr (sample_state [13, 7, 0, 0] [0] 1 (sample_files(0 := [])))"
  "clear_step id and_all sample_program (sample_state [13, 7, 0, 0] [0] 1 f) = Inr (sample_state [13, 7, 5, 0] [0] 2 f)"
  "clear_step id and_all sample_program (sample_state [13, 7, 5, 0] [0] 2 f) = Inr (sample_state [13, 7, 5, 8] [0] 3 f)"
  "clear_step id and_all sample_program (sample_state [13, 7, 5, 8] [0] 3 f) = Inr (sample_state [13, 7, 5, 8] [8] 4 f)"
  by (simp_all add: step_defs sample_files_def)

lemma sample_start: "clear_zero (start_clear (sized_program 4 sample_program) 0 sample_files) = sample_state [0, 0, 0, 0] [0] 0 sample_files"
proof -
  have "replicate 4 x = [x, x, x, x]" for x :: word64 by (simp add: numeral_eq_Suc)
  then show ?thesis
    by (simp add: clear_zero_def start_clear_def load_program_def processor_reset_def machine_reset_def memories_reset_def new_processor_def
      sized_program_def resize_def resize_min_def num_reg_def direct_mem_def)
qed

lemma sample_run:
  "clear_run id and_all sample_program (start_clear (sized_program 4 sample_program) 0 sample_files)
     = Some (Inr (sample_state [13, 7, 5, 8] [8] 4 (sample_files(0 := []))))"
proof -
  let ?f = "sample_files(0 := [])"
  let ?L = "exec_loop (clear_fin sample_program) clear_brk (clear_step id and_all sample_program)"
  have "\<not> clear_fin sample_program (sample_state s c pc f)" if "pc \<in> {0, 1, 2, 3}" for s c pc f
    using that by (auto simp: clear_fin_def sample_program_def)
  moreover have "\<not> clear_brk (sample_state s c pc f)" for s c pc f by (simp add: clear_brk_def)
  ultimately have "?L (sample_state [0, 0, 0, 0] [0] 0 sample_files) = ?L (sample_state [13, 7, 0, 0] [0] 1 ?f)"
    "?L (sample_state [13, 7, 0, 0] [0] 1 ?f) = ?L (sample_state [13, 7, 5, 0] [0] 2 ?f)"
    "?L (sample_state [13, 7, 5, 0] [0] 2 ?f) = ?L (sample_state [13, 7, 5, 8] [0] 3 ?f)"
    "?L (sample_state [13, 7, 5, 8] [0] 3 ?f) = ?L (sample_state [13, 7, 5, 8] [8] 4 ?f)"
    using sample_steps by (auto intro!: exec_step)
  moreover have "?L (sample_state [13, 7, 5, 8] [8] 4 ?f) = Some (Inr (sample_state [13, 7, 5, 8] [8] 4 ?f, DONE_BREAK))"
    by (rule exec_done) (simp add: clear_fin_def sample_program_def)
  ultimately show ?thesis unfolding clear_run_def by (intro run_done) (simp only: sample_start)
qed

lemma sample_program_ok: "program_ok sample_program"
  by (simp add: program_ok_def instr_ok_def sample_program_def and_ok_def and_units_def reveal_ok_def reveal_units_def input_ok_def
      n_units_def unit_length_def default_length_def com_count_def)

lemma sample_program_plain: "\<forall>ins \<in> set sample_program. plain_instr ins"
  by (simp add: sample_program_def plain_instr_def plain_and_def and_units_def n_units_def unit_length_def default_length_def)

subsection \<open>Its bytecode\<close>

lemma sample_program_wf: "list_all wf_instruction sample_program"
  by (simp add: sample_program_def wf_instruction_def layout_def fixed_count_def in_int_def variable_fields_def binary_fields_def)
    (simp add: three_register_codes_def two_register_codes_def one_register_codes_def two_register_int_codes_def one_register_int_codes_def
      one_int_codes_def no_operand_codes_def variable_codes_def)

lemma sample_program_codes: "\<forall>ins \<in> set sample_program. i_opcode ins \<in> set bit_instructions \<union> set gc_instructions"
  by (simp add: sample_program_def bit_instructions_def gc_instructions_def)

lemma sample_program_parsed: "parse_instructions d (concat (map encode_instruction sample_program)) = Inr sample_program"
  using parse_instructions_encode [OF sample_program_wf sample_program_codes] .

end
