(* ===== verification/GCScan.thy ===== *)
theory GCScan
  imports GCFaults
begin

text \<open>
  The scan of a program against its execution: whatever an instruction writes lies below the
  maxima that the scan computes, so that a run changes no register and no directly addressed
  memory cell beyond them. \<open>scanned\<close> names the instructions for which this is so: the
  scan misreads AND gates, counts one register of each result of a transposition however many
  it has, and is led astray by negative register numbers.
\<close>

unbundle bit_operations_syntax

subsection \<open>Instructions that the scan reads correctly\<close>

definition scanned :: "instruction \<Rightarrow> bool" where
  "scanned ins \<longleftrightarrow>
     i_opcode ins \<noteq> ANDS \<and> (\<forall>x \<in> set (i_r ins). 0 \<le> x) \<and>
     (if i_opcode ins = INPUTB then \<forall>(who, n, sh, d) \<in> set (chunks4 (i_start ins)). 0 \<le> d
      else \<forall>x \<in> set (i_start ins). 0 \<le> x) \<and>
     (i_opcode ins = TRANS \<longrightarrow> int (length (i_start ins)) - IMM_int ins \<le> 64 * i_size ins)"

definition scanned_stores :: "instruction \<Rightarrow> bool" where
  "scanned_stores ins \<longleftrightarrow> i_opcode ins \<notin> {STMSBI, STMINTI} \<and> IMM ins + i_size ins < 2 ^ 32"

subsection \<open>Maxima over words\<close>

lemma uint_nonneg32: "0 \<le> x \<Longrightarrow> x < 2 ^ 32 \<Longrightarrow> uint (word_of_int x :: 32 word) = x"
  by (simp add: unsigned_of_int take_bit_int_eq_self)

lemma fold_max_upper:
  fixes f :: "'a \<Rightarrow> 32 word"
  shows "a \<le> fold (\<lambda>x m. max m (f x)) xs a \<and> (\<forall>x \<in> set xs. f x \<le> fold (\<lambda>x m. max m (f x)) xs a)"
proof (induction xs arbitrary: a)
  case (Cons x xs)
  from Cons [of "max a (f x)"] show ?case by auto
qed simp

lemma fold_max_least:
  fixes f :: "'a \<Rightarrow> 32 word"
  assumes "\<forall>x \<in> set xs. f x \<le> b" "a \<le> b"
  shows "fold (\<lambda>x m. max m (f x)) xs a \<le> b"
  using assms by (induction xs arbitrary: a) auto

lemma regs_max_bound:
  assumes "\<forall>x \<in> set (i_start ins @ i_r ins). 0 \<le> x \<and> x < 2 ^ 31" "0 \<le> sz" "sz < 2 ^ 31" "x \<in> set (i_start ins @ i_r ins)"
  shows "x + sz \<le> uint (regs_max ins sz)"
proof -
  let ?m = "fold (\<lambda>x m. max m (word_of_int x)) (i_start ins @ i_r ins) (0 :: 32 word)"
  have "word_of_int y \<le> (word_of_int (2 ^ 31 - 1) :: 32 word)" if "y \<in> set (i_start ins @ i_r ins)" for y
  proof -
    have y: "0 \<le> y" "y < 2 ^ 31" using assms(1) that by blast+
    then have "uint (word_of_int y :: 32 word) = y" by (intro uint_nonneg32) auto
    then show ?thesis using y(2) uint_nonneg32 [of "2 ^ 31 - 1"] by (simp add: word_le_def)
  qed
  then have "?m \<le> word_of_int (2 ^ 31 - 1)" by (intro fold_max_least) auto
  then have hi: "uint ?m \<le> 2 ^ 31 - 1" using uint_nonneg32 [of "2 ^ 31 - 1"] by (simp add: word_le_def)
  have "(word_of_int x :: 32 word) \<le> ?m" using fold_max_upper [where f = word_of_int] assms(4) by blast
  then have le: "uint (word_of_int x :: 32 word) \<le> uint ?m" by (simp only: word_le_def)
  have "0 \<le> x" "x < 2 ^ 31" using assms(1,4) by blast+
  then have "uint (word_of_int x :: 32 word) = x" by (intro uint_nonneg32) auto
  with le have lo: "x \<le> uint ?m" by (simp only:)
  have s: "uint (word_of_int sz :: 32 word) = sz" using assms(2,3) by (intro uint_nonneg32) auto
  have "uint ?m + uint (word_of_int sz :: 32 word) < 2 ^ LENGTH(32)" using hi assms(3) unfolding s by simp
  then have "uint (?m + word_of_int sz) = uint ?m + uint (word_of_int sz :: 32 word)" by (rule uint_add_lem [THEN iffD1])
  then show ?thesis using lo by (simp only: regs_max_def s)
qed

lemma args_max_bound:
  assumes "i \<in> set (arg_positions skip offset (length st))" "0 \<le> st ! i" "st ! i < 2 ^ 31"
    "sz' = (if size_offset \<noteq> 0 then div_ceil (st ! nat (int i + size_offset)) 64 else sz)" "0 \<le> sz'" "sz' < 2 ^ 31"
  shows "st ! i + sz' \<le> uint (args_max st (skip, offset, size_offset, sz))"
proof -
  let ?f = "\<lambda>i. word_of_int (st ! i) + (word_of_int (if size_offset \<noteq> 0 then div_ceil (st ! nat (int i + size_offset)) 64 else sz) :: 32 word)"
  have "word_of_int (st ! i) + (word_of_int sz' :: 32 word) \<le> args_max st (skip, offset, size_offset, sz)"
    using conjunct2 [OF fold_max_upper [where f = ?f and a = 0], THEN bspec, OF assms(1)] unfolding args_max_def assms(4) split_conv .
  moreover have "word_of_int (st ! i) + (word_of_int sz' :: 32 word) = word_of_int (st ! i + sz')" by (rule wi_hom_add)
  moreover have "uint (word_of_int (st ! i + sz') :: 32 word) = st ! i + sz'" using assms(2,3,5,6) by (intro uint_nonneg32) auto
  ultimately show ?thesis by (simp only: word_le_def)
qed

subsection \<open>Positions of arguments\<close>

lemma chunks4_nth: "(a, b, c, d) \<in> set (chunks4 xs) \<Longrightarrow>
    \<exists>k. 4 * k + 3 < length xs \<and> a = xs ! (4 * k) \<and> b = xs ! (4 * k + 1) \<and> c = xs ! (4 * k + 2) \<and> d = xs ! (4 * k + 3)"
proof (induction xs rule: chunks4.induct)
  case (1 x y z w xs)
  show ?case
  proof (cases "(a, b, c, d) = (x, y, z, w)")
    case True
    then show ?thesis by (intro exI [of _ 0]) simp
  next
    case False
    then obtain k where "4 * k + 3 < length xs" "a = xs ! (4 * k)" "b = xs ! (4 * k + 1)" "c = xs ! (4 * k + 2)" "d = xs ! (4 * k + 3)"
      using 1 by auto
    then show ?thesis by (intro exI [of _ "Suc k"]) (simp add: add.commute)
  qed
qed simp_all

lemma chunks3_nth: "(a, b, c) \<in> set (chunks3 xs) \<Longrightarrow>
    \<exists>k. 3 * k + 2 < length xs \<and> a = xs ! (3 * k) \<and> b = xs ! (3 * k + 1) \<and> c = xs ! (3 * k + 2)"
proof (induction xs rule: chunks3.induct)
  case (1 x y z xs)
  show ?case
  proof (cases "(a, b, c) = (x, y, z)")
    case True
    then show ?thesis by (intro exI [of _ 0]) simp
  next
    case False
    then obtain k where "3 * k + 2 < length xs" "a = xs ! (3 * k)" "b = xs ! (3 * k + 1)" "c = xs ! (3 * k + 2)"
      using 1 by auto
    then show ?thesis by (intro exI [of _ "Suc k"]) (simp add: add.commute)
  qed
qed simp_all

lemma n_units_div_ceil: "n_units n = nat (div_ceil n 64)"
  by (simp add: n_units_def div_ceil_def default_length_def)

lemma div_ceil_nonneg: "0 \<le> n \<Longrightarrow> div_ceil n 64 = (n + 63) div 64"
  by (simp add: div_ceil_def signed_divide_int_def sgn_if)

lemma div_ceil_bounds: "0 \<le> n \<Longrightarrow> n < 2 ^ 32 \<Longrightarrow> 0 \<le> div_ceil n 64 \<and> div_ceil n 64 < 2 ^ 27"
  by (simp add: div_ceil_nonneg) linarith

lemma n_units_pos: "j < n_units n \<Longrightarrow> 0 < n"
  by (rule ccontr) (auto simp: n_units_def default_length_def signed_divide_int_def sgn_if split: if_splits)

lemma arg_positions_iff: "i \<in> set (arg_positions skip offset n) \<longleftrightarrow> i < n \<and> offset \<le> i \<and> (i - offset) mod skip = 0"
  by (auto simp: arg_positions_def)

subsection \<open>What the scan takes from each kind of instruction\<close>

text \<open>The register type of every instruction that writes a register or stores to a direct address.\<close>

lemma reg_type_of:
  "get_reg_type BITDECS = SBIT" "get_reg_type BITCOMS = SBIT" "get_reg_type LDBITS = SBIT" "get_reg_type CONVSINT = SBIT"
  "get_reg_type MOVSB = SBIT" "get_reg_type LDMSB = SBIT" "get_reg_type LDMSBI = SBIT" "get_reg_type TRANS = SBIT"
  "get_reg_type NOTS = SBIT" "get_reg_type XORS = SBIT" "get_reg_type INPUTB = SBIT" "get_reg_type LDMSD = SBIT"
  "get_reg_type LDMSDI = SBIT" "get_reg_type STMSB = SBIT"
  "get_reg_type BITDECC = CBIT" "get_reg_type XORCB = CBIT" "get_reg_type XORCBI = CBIT" "get_reg_type ADDCB = CBIT"
  "get_reg_type ADDCBI = CBIT" "get_reg_type MULCBI = CBIT" "get_reg_type SHRCBI = CBIT" "get_reg_type SHLCBI = CBIT"
  "get_reg_type CONVCINT = CBIT" "get_reg_type LDMCB = CBIT" "get_reg_type REVEAL = CBIT" "get_reg_type STMCB = CBIT"
  "get_reg_type BITDECINT = INT_REG" "get_reg_type CONVCBIT = INT_REG" "get_reg_type LDINT = INT_REG"
  "get_reg_type ADDINT = INT_REG" "get_reg_type SUBINT = INT_REG" "get_reg_type MULINT = INT_REG"
  "get_reg_type DIVINT = INT_REG" "get_reg_type EQZC = INT_REG" "get_reg_type LTZC = INT_REG" "get_reg_type LTC = INT_REG"
  "get_reg_type GTC = INT_REG" "get_reg_type EQC = INT_REG" "get_reg_type LDMINT = INT_REG" "get_reg_type LDMINTI = INT_REG"
  "get_reg_type POPINT = INT_REG" "get_reg_type MOVINT = INT_REG" "get_reg_type LDARG = INT_REG"
  "get_reg_type STMINT = INT_REG"
  by (simp_all add: get_reg_type_def is_gf2n_instruction_def)

lemma max_reg_S:
  "i_opcode ins \<in> {BITDECS, BITCOMS, LDBITS, CONVSINT, MOVSB, LDMSB, LDMSBI, TRANS} \<Longrightarrow> get_max_reg SBIT ins = Inr (regs_max ins (i_size ins))"
  "i_opcode ins = NOTS \<Longrightarrow> get_max_reg SBIT ins = Inr (regs_max ins (div_ceil (uint (i_n ins)) 64))"
  "i_opcode ins = XORS \<Longrightarrow> get_max_reg SBIT ins = Inr (args_max (i_start ins) (4, 1, - 1, i_size ins))"
  "i_opcode ins = INPUTB \<Longrightarrow> get_max_reg SBIT ins = Inr (args_max (i_start ins) (4, 3, - 2, i_size ins))"
  "i_opcode ins \<in> {LDMSD, LDMSDI} \<Longrightarrow> get_max_reg SBIT ins = Inr (args_max (i_start ins) (3, 0, 0, i_size ins))"
  by ((elim insertE emptyE)?; simp add: get_max_reg_def reg_type_of arg_shape_def)+

lemma max_reg_C:
  "i_opcode ins \<in> {BITDECC, XORCB, XORCBI, ADDCB, ADDCBI, MULCBI, SHRCBI, SHLCBI, CONVCINT, LDMCB} \<Longrightarrow>
     get_max_reg CBIT ins = Inr (regs_max ins (i_size ins))"
  "i_opcode ins = REVEAL \<Longrightarrow> get_max_reg CBIT ins = Inr (args_max (i_start ins) (3, 1, - 1, div_ceil (uint (i_n ins)) 64))"
  by ((elim insertE emptyE)?; simp add: get_max_reg_def reg_type_of arg_shape_def)+

lemma max_reg_I:
  "i_opcode ins \<in> {BITDECINT, CONVCBIT, LDINT, ADDINT, SUBINT, MULINT, DIVINT, EQZC, LTZC, LTC, GTC, EQC, LDMINT, LDMINTI, POPINT, MOVINT, LDARG} \<Longrightarrow>
     get_max_reg INT_REG ins = Inr (regs_max ins (i_size ins))"
  by (elim insertE emptyE; simp add: get_max_reg_def reg_type_of arg_shape_def)

lemma typed_int: "instruction_typed ins \<Longrightarrow> x \<in> set (i_start ins) \<union> set (i_r ins) \<Longrightarrow> x < 2 ^ 31"
  "instruction_typed ins \<Longrightarrow> k < 4 \<Longrightarrow> get_r ins k \<in> set (i_r ins)" "instruction_typed ins \<Longrightarrow> 0 < i_size ins \<and> i_size ins < 2 ^ 22"
  by (auto simp: instruction_typed_def in_int_def get_r_def)

lemma regs_bound:
  assumes "instruction_typed ins" "scanned ins" "i_opcode ins \<noteq> INPUTB" "x \<in> set (i_start ins) \<union> set (i_r ins)" "0 \<le> sz" "sz < 2 ^ 31" "i < x + sz"
  shows "i < uint (regs_max ins sz)"
proof -
  have "\<forall>x \<in> set (i_start ins @ i_r ins). 0 \<le> x \<and> x < 2 ^ 31"
    using assms(2,3) typed_int(1) [OF assms(1)] unfolding scanned_def by auto
  from regs_max_bound [OF this assms(5,6), of x] assms(4,7) show ?thesis by simp
qed

lemma r0_bound:
  assumes "instruction_typed ins" "scanned ins" "i_opcode ins \<noteq> INPUTB" "i \<in> set (i_start ins) \<union> {get_r ins 0}"
  shows "i < uint (regs_max ins (i_size ins))"
  using regs_bound [OF assms(1-3), of i "i_size ins" i] assms(4) typed_int(2) [OF assms(1), of 0] typed_int(3) [OF assms(1)] by auto

lemma range_bound:
  assumes "instruction_typed ins" "scanned ins" "i_opcode ins \<noteq> INPUTB" "i \<in> set (unit_range (get_r ins 0) (nat sz))" "sz < 2 ^ 31"
  shows "i < uint (regs_max ins sz)"
proof -
  obtain j where "j < nat sz" and i: "i = get_r ins 0 + int j" using assms(4) by (auto simp: unit_range_iff)
  then have j: "int j < sz" by linarith
  then show ?thesis using regs_bound [OF assms(1-3), of "get_r ins 0" sz i] typed_int(2) [OF assms(1), of 0] i assms(5) by auto
qed

lemma arg_bound:
  assumes "a \<in> set (arg_positions skip offset (length st))" "0 \<le> st ! a" "st ! a < 2 ^ 31"
    "0 \<le> n" "n < 2 ^ 31" "size_offset \<noteq> 0" "n = st ! nat (int a + size_offset)" "i \<in> set (unit_range (st ! a) (n_units n))"
  shows "i < uint (args_max st (skip, offset, size_offset, sz))"
proof -
  obtain j where j: "j < n_units n" "i = st ! a + int j" using assms(8) by (auto simp: unit_range_iff)
  have b: "0 \<le> div_ceil n 64" "div_ceil n 64 < 2 ^ 27" using div_ceil_bounds [of n] assms(4,5) by auto
  have "st ! a + div_ceil n 64 \<le> uint (args_max st (skip, offset, size_offset, sz))"
    using b assms(6,7) by (intro args_max_bound [OF assms(1-3)]) auto
  moreover have "int j < div_ceil n 64" using j(1) b(1) by (simp add: n_units_div_ceil)
  ultimately show ?thesis using j(2) by simp
qed

subsection \<open>Every write is below the maximum\<close>

lemma written_S_cases:
  assumes "i \<in> set (written_S ins)" "i_opcode ins \<noteq> ANDS"
  obtains "i_opcode ins \<in> {BITDECS, BITCOMS, LDBITS, CONVSINT, MOVSB}" "i \<in> set (i_start ins) \<union> {get_r ins 0}"
  | "i_opcode ins \<in> {LDMSB, LDMSBI}" "i \<in> set (unit_range (get_r ins 0) (nat (i_size ins)))"
  | "i_opcode ins = NOTS" "i \<in> set (unit_range (get_r ins 0) (n_units (IMM_int ins)))"
  | n d l r where "i_opcode ins = XORS" "(n, d, l, r) \<in> set (chunks4 (i_start ins))" "i \<in> set (unit_range d (n_units n))"
  | w n sh d where "i_opcode ins = INPUTB" "(w, n, sh, d) \<in> set (chunks4 (i_start ins))" "i \<in> set (unit_range d (n_units n))"
  | a l where "i_opcode ins \<in> {LDMSD, LDMSDI}" "(i, a, l) \<in> set (chunks3 (i_start ins))"
  | a where "i_opcode ins = TRANS" "a \<in> set (i_start ins)"
      "i \<in> set (unit_range a (DIV_CEIL (length (i_start ins) - nat (IMM_int ins)) 64))"
  using assms by (auto simp: written_S_def Let_def split: if_splits dest: in_set_takeD)

lemma start_nth:
  assumes "instruction_typed ins" "k < length (i_start ins)"
  shows "i_start ins ! k < 2 ^ 31" "i_opcode ins \<noteq> INPUTB \<Longrightarrow> scanned ins \<Longrightarrow> 0 \<le> i_start ins ! k"
  using typed_int(1) [OF assms(1), of "i_start ins ! k"] assms(2) by (auto simp: scanned_def split: if_splits)

lemma four_args:
  assumes "instruction_typed ins" "k + 3 < length (i_start ins)" "k mod 4 = 0" "0 \<le> i_start ins ! (k + 1)"
    "i \<in> set (unit_range (i_start ins ! (k + 1)) (n_units (i_start ins ! k)))"
  shows "i < uint (args_max (i_start ins) (4, 1, - 1, sz))"
proof -
  have "0 \<le> i_start ins ! k" using assms(5) n_units_pos [of 0 "i_start ins ! k"] by (auto simp: unit_range_iff dest!: n_units_pos)
  then show ?thesis
    using assms start_nth(1) [OF assms(1)]
    by (intro arg_bound [where a = "k + 1" and n = "i_start ins ! k"]) (simp_all add: arg_positions_iff)
qed

lemma written_S_bound:
  assumes t: "instruction_typed ins" and sc: "scanned ins" and m: "get_max_reg SBIT ins = Inr m" and i: "i \<in> set (written_S ins)"
  shows "i < uint m"
proof -
  have "i_opcode ins \<noteq> ANDS" using sc by (simp add: scanned_def)
  from i this show ?thesis
  proof (cases rule: written_S_cases)
    case 1
    then show ?thesis using r0_bound [OF t sc _ 1(2)] max_reg_S(1) [of ins] m by auto
  next
    case 2
    then show ?thesis using range_bound [OF t sc _ 2(2)] typed_int(3) [OF t] max_reg_S(1) [of ins] m by auto
  next
    case 3
    then have p: "0 < sint (i_n ins)" using n_units_pos by (auto simp: unit_range_iff IMM_int_def)
    then have u: "uint (i_n ins) = sint (i_n ins)" using uint_of_sint_nonneg [of "i_n ins"] by simp
    have "div_ceil (sint (i_n ins)) 64 < 2 ^ 27" using div_ceil_bounds [of "sint (i_n ins)"] p sint_lt [of "i_n ins"] by simp
    then show ?thesis
      using range_bound [OF t sc _ , of i "div_ceil (sint (i_n ins)) 64"] 3 max_reg_S(2) [of ins] m
      by (simp add: u n_units_div_ceil IMM_int_def)
  next
    case (4 n d l r)
    then obtain k where "4 * k + 3 < length (i_start ins)" "n = i_start ins ! (4 * k)" "d = i_start ins ! (4 * k + 1)"
      using chunks4_nth by blast
    then show ?thesis
      using four_args [OF t, of "4 * k" i] start_nth(2) [OF t, of "4 * k + 1"] 4 sc max_reg_S(3) [of ins] m by simp
  next
    case (5 w n sh d)
    then obtain k where k: "4 * k + 3 < length (i_start ins)" "n = i_start ins ! (4 * k + 1)" "d = i_start ins ! (4 * k + 3)"
      using chunks4_nth by blast
    have "0 \<le> d" using 5 sc by (auto simp: scanned_def)
    moreover have "0 \<le> n" using 5(3) by (auto simp: unit_range_iff dest!: n_units_pos)
    ultimately have "i < uint (args_max (i_start ins) (4, 3, - 2, i_size ins))"
      using k 5 start_nth(1) [OF t] by (intro arg_bound [where a = "4 * k + 3" and n = n]) (simp_all add: arg_positions_iff nat_add_distrib nat_mult_distrib)
    then show ?thesis using max_reg_S(4) [of ins] 5(1) m by simp
  next
    case (6 a l)
    then obtain k where k: "3 * k + 2 < length (i_start ins)" "i = i_start ins ! (3 * k)" using chunks3_nth by blast
    have "0 \<le> i" using start_nth(2) [OF t, of "3 * k"] k 6 sc by auto
    then have "i + i_size ins \<le> uint (args_max (i_start ins) (3, 0, 0, i_size ins))"
      using k start_nth(1) [OF t, of "3 * k"] typed_int(3) [OF t] unfolding k(2)
      by (intro args_max_bound) (simp_all add: arg_positions_iff)
    then show ?thesis using max_reg_S(5) [of ins] 6(1) m typed_int(3) [OF t] by auto
  next
    case (7 a)
    then obtain j where j: "j < DIV_CEIL (length (i_start ins) - nat (IMM_int ins)) 64" "i = a + int j" by (auto simp: unit_range_iff)
    have "int (length (i_start ins)) - IMM_int ins \<le> 64 * i_size ins" using sc 7(1) by (simp add: scanned_def)
    then have "length (i_start ins) - nat (IMM_int ins) \<le> nat (64 * i_size ins)" by linarith
    then have "int j < i_size ins" using j(1) typed_int(3) [OF t] by (simp add: DIV_CEIL_def)
    then show ?thesis
      using regs_bound [OF t sc _, of a "i_size ins" i] 7(1,2) j(2) typed_int(3) [OF t] max_reg_S(1) [of ins] m by simp
  qed
qed

lemma written_C_bound:
  assumes t: "instruction_typed ins" and sc: "scanned ins" and m: "get_max_reg CBIT ins = Inr m" and i: "i \<in> set (written_C ins)"
  shows "i < uint m"
proof -
  consider "i_opcode ins \<in> {BITDECC, XORCB, XORCBI, ADDCB, ADDCBI, MULCBI, SHRCBI, SHLCBI, CONVCINT}" "i \<in> set (i_start ins) \<union> {get_r ins 0}"
    | "i_opcode ins = LDMCB" "i \<in> set (unit_range (get_r ins 0) (nat (i_size ins)))"
    | n d s where "i_opcode ins = REVEAL" "(n, d, s) \<in> set (chunks3 (i_start ins))" "i \<in> set (unit_range d (n_units n))"
    using i by (auto simp: written_C_def Let_def split: if_splits)
  then show ?thesis
  proof cases
    case 1
    then show ?thesis using r0_bound [OF t sc _ 1(2)] max_reg_C(1) [of ins] m by auto
  next
    case 2
    then show ?thesis using range_bound [OF t sc _ 2(2)] typed_int(3) [OF t] max_reg_C(1) [of ins] m by auto
  next
    case (3 n d s)
    then obtain k where k: "3 * k + 2 < length (i_start ins)" "n = i_start ins ! (3 * k)" "d = i_start ins ! (3 * k + 1)"
      using chunks3_nth by blast
    have "0 \<le> n" using 3(3) by (auto simp: unit_range_iff dest!: n_units_pos)
    then have "i < uint (args_max (i_start ins) (3, 1, - 1, div_ceil (uint (i_n ins)) 64))"
      using k 3 start_nth [OF t] sc by (intro arg_bound [where a = "3 * k + 1" and n = n]) (simp_all add: arg_positions_iff nat_mult_distrib)
    then show ?thesis using max_reg_C(2) [of ins] 3(1) m by simp
  qed
qed

lemma written_I_bound:
  assumes t: "instruction_typed ins" and sc: "scanned ins" and m: "get_max_reg INT_REG ins = Inr m" and i: "i \<in> set (written_I ins)"
  shows "i < uint m"
proof -
  have "i_opcode ins \<in> {BITDECINT, CONVCBIT, LDINT, ADDINT, SUBINT, MULINT, DIVINT, EQZC, LTZC, LTC, GTC, EQC, LDMINT, LDMINTI, POPINT, MOVINT, LDARG}"
    "i \<in> set (i_start ins) \<union> {get_r ins 0}"
    using i by (auto simp: written_I_def Let_def split: if_splits)
  then show ?thesis using r0_bound [OF t sc] max_reg_I [of ins] m by auto
qed

lemma stored_bound:
  assumes "instruction_typed ins" "scanned_stores ins" "i \<in> set (stored_direct ops ins)" "i_opcode ins \<in> {STMSB, STMCB, STMINT}"
    "get_reg_type (i_opcode ins) = t"
  shows "i < uint (gc_get_mem t ins)"
proof -
  have s: "0 < i_size ins" using typed_int(3) [OF assms(1)] by simp
  have b: "uint (i_n ins) + i_size ins < 2 ^ 32" using assms(2) by (simp add: scanned_stores_def IMM_def)
  have "uint (word_of_int (i_size ins) :: 32 word) = i_size ins"
    using s b uint_ge_0 [of "i_n ins"] by (intro uint_nonneg32) linarith+
  then have "uint (i_n ins + word_of_int (i_size ins)) = uint (i_n ins) + i_size ins"
    using b by (simp add: uint_add_lem [THEN iffD1])
  moreover have "gc_get_mem t ins = i_n ins + word_of_int (i_size ins)"
    using assms(4,5) by (auto simp: gc_get_mem_def base_get_mem_def is_direct_memory_access_def)
  moreover have "i < IMM ins + i_size ins"
    using assms(3) s by (auto simp: stored_direct_def unit_range_iff split: if_splits)
  ultimately show ?thesis by (simp add: IMM_def)
qed

subsection \<open>Registers and memory beyond the maxima\<close>

definition regs_beyond :: "program \<Rightarrow> 'x processor \<Rightarrow> 'x list \<times> word64 list \<times> word64 list" where
  "regs_beyond P p = (drop (unat (num_reg SBIT P)) (rS p), drop (unat (num_reg CBIT P)) (rC p), drop (unat (num_reg INT_REG P)) (rI p))"

definition mem_beyond :: "program \<Rightarrow> 'x processor \<Rightarrow> 'x list \<times> word64 list \<times> word64 list" where
  "mem_beyond P p = (drop (unat (direct_mem SBIT P)) (mMS p), drop (unat (direct_mem CBIT P)) (mMC p), drop (unat (direct_mem INT_REG P)) (mMI p))"

interpretation registers: value_view "regs_beyond P" for P
  by unfold_locales (simp_all add: regs_beyond_def)

interpretation memory: value_view "mem_beyond P" for P
  by unfold_locales (simp_all add: mem_beyond_def)

lemma drop_put: "memory_put M i x = Inr M' \<Longrightarrow> i < int k \<Longrightarrow> drop k M' = drop k M"
  by (auto simp: memory_put_def updE_Inr split: if_splits)

lemma below_unat: "i < uint m \<Longrightarrow> m \<le> w \<Longrightarrow> i < int (unat w)"
  by (simp add: word_le_def)

lemma regs_beyond_put:
  "i < int (unat (num_reg SBIT P)) \<Longrightarrow> keeps_view (regs_beyond P) (putS i x)"
  "i < int (unat (num_reg CBIT P)) \<Longrightarrow> keeps_view (regs_beyond P) (putC i w)"
  "i < int (unat (num_reg INT_REG P)) \<Longrightarrow> keeps_view (regs_beyond P) (putI i w)"
  "keeps_view (regs_beyond P) (putMS i x)" "keeps_view (regs_beyond P) (putMC i w)" "keeps_view (regs_beyond P) (putMI i w)"
  "keeps_view (regs_beyond P) (putMD i x)"
  using drop_put by (fastforce simp: keeps_view_def regs_beyond_def access_defs res_simps)+

lemma mem_beyond_put:
  "i < int (unat (direct_mem SBIT P)) \<Longrightarrow> keeps_view (mem_beyond P) (putMS i x)"
  "i < int (unat (direct_mem CBIT P)) \<Longrightarrow> keeps_view (mem_beyond P) (putMC i w)"
  "i < int (unat (direct_mem INT_REG P)) \<Longrightarrow> keeps_view (mem_beyond P) (putMI i w)"
  "keeps_view (mem_beyond P) (putS i x)" "keeps_view (mem_beyond P) (putC i w)" "keeps_view (mem_beyond P) (putI i w)"
  "keeps_view (mem_beyond P) (putMD i x)"
  using drop_put by (fastforce simp: keeps_view_def mem_beyond_def access_defs res_simps)+

definition scan_covers :: "program \<Rightarrow> instruction \<Rightarrow> bool" where
  "scan_covers P ins \<longleftrightarrow> (\<forall>t \<in> set reg_types. \<exists>m. get_max_reg t ins = Inr m \<and> m \<le> num_reg t P \<and> gc_get_mem t ins \<le> direct_mem t P)"

lemma regs_beyond_writes:
  assumes "instruction_typed ins" "scanned ins" "scan_covers P ins"
  shows "writes_ok (regs_beyond P) ins"
proof -
  have e: "\<exists>m. get_max_reg t ins = Inr m \<and> m \<le> num_reg t P" if "t \<in> set reg_types" for t
    using assms(3) that unfolding scan_covers_def by blast
  obtain s c i where m: "get_max_reg SBIT ins = Inr s" "s \<le> num_reg SBIT P" "get_max_reg CBIT ins = Inr c" "c \<le> num_reg CBIT P"
    "get_max_reg INT_REG ins = Inr i" "i \<le> num_reg INT_REG P"
    using e [of SBIT] e [of CBIT] e [of INT_REG] by (auto simp: reg_types_def)
  show ?thesis
    using written_S_bound [OF assms(1,2) m(1), THEN below_unat, OF _ m(2)] written_C_bound [OF assms(1,2) m(3), THEN below_unat, OF _ m(4)]
      written_I_bound [OF assms(1,2) m(5), THEN below_unat, OF _ m(6)]
    by (simp add: writes_ok_def regs_beyond_put)
qed

lemma mem_beyond_writes:
  assumes "instruction_typed ins" "scanned_stores ins" "scan_covers P ins"
  shows "writes_ok (mem_beyond P) ins"
proof -
  have le: "gc_get_mem t ins \<le> direct_mem t P" if "t \<in> {SBIT, CBIT, INT_REG}" for t
    using assms(3) that by (auto simp: scan_covers_def reg_types_def)
  have "i < int (unat (direct_mem t P))"
    if "i \<in> set (stored_direct [opc] ins)" "opc \<in> {STMSB, STMCB, STMINT}" "get_reg_type opc = t" "t \<in> {SBIT, CBIT, INT_REG}" for i opc t
  proof -
    have "i_opcode ins = opc" using that(1) by (auto simp: stored_direct_def split: if_splits)
    then show ?thesis using stored_bound [OF assms(1,2) that(1), of t] that le [of t] by (intro below_unat [of i "gc_get_mem t ins"]) auto
  qed
  then show ?thesis using assms(2) by (simp add: writes_ok_def mem_beyond_put reg_type_of scanned_stores_def)
qed

lemma parse_program_scan:
  assumes "parse_program d s = Inr P" "ins \<in> set (instrs P)"
  shows "scan_covers P ins"
  using parse_program_covers [OF assms] by (simp add: scan_covers_def)

lemma run_beyond:
  assumes P: "parse_program d s = Inr P" "parse_instructions d s = Inr (instrs P)"
    and run: "clear_run k gate (instrs P) c = Some (Inr c')"
  shows "\<forall>ins \<in> set (instrs P). scanned ins \<Longrightarrow> regs_beyond P (c_proc c') = regs_beyond P (c_proc c)"
    "\<forall>ins \<in> set (instrs P). scanned_stores ins \<Longrightarrow> mem_beyond P (c_proc c') = mem_beyond P (c_proc c)"
proof -
  have t: "instruction_typed ins \<and> scan_covers P ins" if "ins \<in> set (instrs P)" for ins
    using parse_instructions_typed [OF P(2)] parse_program_scan [OF P(1) that] that by (simp add: list_all_iff)
  show "\<forall>ins \<in> set (instrs P). scanned ins \<Longrightarrow> regs_beyond P (c_proc c') = regs_beyond P (c_proc c)"
    using clear_run_view [OF registers.value_view_axioms _ run] regs_beyond_writes t by blast
  show "\<forall>ins \<in> set (instrs P). scanned_stores ins \<Longrightarrow> mem_beyond P (c_proc c') = mem_beyond P (c_proc c)"
    using clear_run_view [OF memory.value_view_axioms _ run] mem_beyond_writes t by blast
qed

subsection \<open>A sample\<close>

abbreviation sample_constant :: "instruction list" where
  "sample_constant \<equiv> constant_program 1 1"

lemma sample_constant_parsed: "parse_instructions d (concat (map encode_instruction sample_constant)) = Inr sample_constant"
proof (rule parse_instructions_encode)
  show "list_all wf_instruction sample_constant"
    by (simp add: constant_program_def wf_instruction_def layout_def fixed_count_def in_int_def variable_fields_def binary_fields_def)
      (simp add: three_register_codes_def two_register_codes_def one_register_codes_def two_register_int_codes_def one_register_int_codes_def
        one_int_codes_def no_operand_codes_def variable_codes_def)
  show "\<forall>ins \<in> set sample_constant. i_opcode ins \<in> set bit_instructions \<union> set gc_instructions"
    by (simp add: constant_program_def bit_instructions_def gc_instructions_def)
qed

lemma sample_constant_scanned: "\<forall>ins \<in> set sample_constant. scanned ins" "\<forall>ins \<in> set sample_constant. scanned_stores ins"
  by (simp_all add: constant_program_def scanned_def scanned_stores_def IMM_def)

lemma sample_constant_sizes:
  assumes "parse_program d (concat (map encode_instruction sample_constant)) = Inr P"
  shows "num_reg SBIT P = 2 \<and> num_reg CBIT P = 1"
proof -
  have a: "arg_positions 3 (Suc 0) (Suc (Suc (Suc 0))) = [Suc 0]" by (simp add: arg_positions_def)
  have t: "get_max_reg t (constant_program 1 1 ! 0) = Inr (if t = SBIT then 2 else 0)"
    "get_max_reg t (constant_program 1 1 ! Suc 0) = Inr (if t = CBIT then 1 else 0)" for t
    by (simp_all add: constant_program_def get_max_reg_def reg_type_of arg_shape_def regs_max_def args_max_def a div_ceil_nonneg)
  have "compute_constants \<lparr>instrs = [constant_program 1 1 ! 0, constant_program 1 1 ! Suc 0], max_reg = \<lambda>_. 0, max_mem = \<lambda>_. 0\<rparr> = Inr P"
    using assms sample_constant_parsed [of d] by (simp add: parse_program_def constant_program_def)
  then show ?thesis by (auto simp: compute_constants_def reg_types_def scan_type_Inr res_simps t num_reg_def)
qed

end
