(* ===== verification/Setup.thy ===== *)
theory Setup
  imports Session
begin

text \<open>
  Setting up: the constructors of \<^verbatim>\<open>Tools/random.h\<close>, \<^verbatim>\<open>Protocols/Replicated.hpp\<close>,
  \<^verbatim>\<open>Protocols/MultiReplicated.hpp\<close> and \<^verbatim>\<open>Protocols/ReplicatedInput.h\<close>. The parties draw seeds
  from the operating system and send them to each other, so that the generators they share
  agree: this is where \<open>synced\<close> and \<open>rep_synced\<close>, the hypotheses of the protocol theorems,
  come from. The memory of a new object is an argument (\<open>mem\<close>): the constructor of
  \<^verbatim>\<open>PRNG\<close> leaves seed, counters and random octets uninitialised.
\<close>

unbundle bit_operations_syntax

subsection \<open>Generators\<close>

definition PRNG_new :: "prng \<Rightarrow> prng" where
  "PRNG_new mem = mem\<lparr>cnt := 0, n_cached_bits := 0, cached_bits := 0\<rparr>"

text \<open>\<^verbatim>\<open>SetSeed\<close> reads \<open>SEED_SIZE\<close> octets from the pointer it is given.\<close>

definition seed_from_stream :: "cipher \<Rightarrow> octetStream \<Rightarrow> prng \<Rightarrow> prng res" where
  "seed_from_stream E s G =
     bindE (guardE (SEED_SIZE \<le> length (os_buf s)) (Undefined_Behaviour ''read outside the buffer'')) (\<lambda>_.
     Inr (SetSeed E (os_buf s) G))"

text \<open>\<^verbatim>\<open>SeededPRNG\<close>, and \<^verbatim>\<open>PRNG(octetStream& seed)\<close>.\<close>

definition SeededPRNG :: "cipher \<Rightarrow> octet list \<Rightarrow> prng \<Rightarrow> prng" where
  "SeededPRNG E os_random mem = ReSeed E os_random (PRNG_new mem)"

definition PRNG_of_stream :: "cipher \<Rightarrow> octetStream \<Rightarrow> prng \<Rightarrow> (prng \<times> octetStream) res" where
  "PRNG_of_stream E s mem = bindE (consume SEED_SIZE s) (\<lambda>(bs, s'). Inr (SetSeed E bs (PRNG_new mem), s'))"

text \<open>Seeding overwrites the whole state: two new generators with one seed are equal.\<close>

lemma SetSeed_new: "take SEED_SIZE a = take SEED_SIZE b \<Longrightarrow> SetSeed E a (PRNG_new m) = SetSeed E b (PRNG_new m')"
  by (simp add: SetSeed_def InitSeed_def next_block_def hash_def PRNG_new_def)

lemma ReSeed_SetSeed: "ReSeed E a G = SetSeed E a G"
  by (simp add: ReSeed_def SetSeed_def)

lemma seed_SetSeed [simp]: "seed (SetSeed E a G) = take SEED_SIZE a"
  by (simp add: SetSeed_def InitSeed_def next_block_def hash_def)

text \<open>What the set-ups send: the seed of one of the own generators.\<close>

definition seed_stream :: "prng \<Rightarrow> octetStream res" where
  "seed_stream G = append (take SEED_SIZE (seed G)) empty_stream"

definition is_secure :: "nat \<Rightarrow> bool \<Rightarrow> unit res" where
  "is_secure nplayers encrypted =
     bindE (guardE (nplayers = 3) (Assertion ''P.num_players() == 3'')) (\<lambda>_.
     guardE encrypted (Runtime_Error ''You are trying to use insecure benchmarking functionality for unencrypted communication''))"

subsection \<open>\<^verbatim>\<open>ReplicatedBase\<close>\<close>

definition rep_base_seed :: "cipher \<Rightarrow> nat \<Rightarrow> bool \<Rightarrow> octet list \<Rightarrow> (nat \<Rightarrow> prng) \<Rightarrow> (prng list \<times> octetStream list) res" where
  "rep_base_seed E nplayers encrypted os_random mem =
     bindE (is_secure nplayers encrypted) (\<lambda>_.
     let G0 = ReSeed E os_random (PRNG_new (mem 0))
     in bindE (seed_stream G0) (\<lambda>os. Inr ([G0, PRNG_new (mem 1)], [os])))"

definition rep_base_finish :: "cipher \<Rightarrow> prng list \<Rightarrow> octetStream list \<Rightarrow> prng list res" where
  "rep_base_finish E Gs oss = bindE (seed_from_stream E (oss ! 0) (Gs ! 1)) (\<lambda>G1. Inr (Gs[1 := G1]))"

definition rep_base_setup :: "cipher \<Rightarrow> (nat \<Rightarrow> bool) \<Rightarrow> (nat \<Rightarrow> octet list) \<Rightarrow> (nat \<Rightarrow> nat \<Rightarrow> prng) \<Rightarrow> (nat \<Rightarrow> prng list) res" where
  "rep_base_setup E encrypted os_random mem =
     bindE (parE (\<lambda>i. rep_base_seed E 3 (encrypted i) (os_random i) (mem i))) (\<lambda>p.
     (case run_schedule ring_schedule (ring_net 1 0 0 (\<lambda>i. snd (p i))) of
        None \<Rightarrow> Inl (Runtime_Error ''exchange blocked'')
      | Some c \<Rightarrow> parE (\<lambda>i. rep_base_finish E (fst (p i)) (streams c i))))"

text \<open>\<^verbatim>\<open>ReplicatedBase(P, prngs)\<close>, called by \<^verbatim>\<open>branch\<close>: also the given generators move on.\<close>

definition rep_branch :: "cipher \<Rightarrow> (nat \<Rightarrow> prng) \<Rightarrow> prng list \<Rightarrow> prng list \<times> prng list" where
  "rep_branch E mem Gs =
     (let (H0, G0) = SetSeed_from E (Gs ! 0) (PRNG_new (mem 0)); (H1, G1) = SetSeed_from E (Gs ! 1) (PRNG_new (mem 1))
      in ([H0, H1], Gs[0 := G0, 1 := G1]))"

subsection \<open>\<^verbatim>\<open>MultiReplicatedBase\<close>\<close>

definition multi_base_seed :: "cipher \<Rightarrow> nat \<Rightarrow> bool \<Rightarrow> octet list \<times> octet list \<Rightarrow> (nat \<Rightarrow> prng) \<Rightarrow> (prng list \<times> octetStream list) res" where
  "multi_base_seed E nplayers encrypted os_random mem =
     bindE (is_secure nplayers encrypted) (\<lambda>_.
     let G0 = ReSeed E (fst os_random) (PRNG_new (mem 0)); G1 = ReSeed E (snd os_random) (PRNG_new (mem 1))
     in bindE (seed_stream G0) (\<lambda>os1. bindE (seed_stream G1) (\<lambda>os2.
        Inr ([G0, G1, PRNG_new (mem 2), PRNG_new (mem 3)], [os1, os2]))))"

definition multi_base_script :: "nat \<Rightarrow> comm list" where
  "multi_base_script me =
     [send_relative 3 me (- 1) 0, send_relative 3 me 1 1, receive_relative 3 me 1 0, receive_relative 3 me (- 1) 1]"

definition multi_base_net :: "(nat \<Rightarrow> octetStream list) \<Rightarrow> net" where
  "multi_base_net st = \<lparr>todo = (\<lambda>i. if i < 3 then multi_base_script i else []), streams = st, chan = (\<lambda>_ _. [])\<rparr>"

definition multi_base_schedule :: "nat list" where
  "multi_base_schedule = [0, 0, 1, 1, 2, 2, 0, 0, 1, 1, 2, 2]"

definition multi_base_finish :: "cipher \<Rightarrow> prng list \<Rightarrow> octetStream list \<Rightarrow> prng list res" where
  "multi_base_finish E Gs oss =
     bindE (seed_from_stream E (oss ! 0) (Gs ! 2)) (\<lambda>G2.
     bindE (seed_from_stream E (oss ! 1) (Gs ! 3)) (\<lambda>G3. Inr (Gs[2 := G2, 3 := G3])))"

definition multi_base_setup :: "cipher \<Rightarrow> (nat \<Rightarrow> bool) \<Rightarrow> (nat \<Rightarrow> octet list \<times> octet list) \<Rightarrow> (nat \<Rightarrow> nat \<Rightarrow> prng) \<Rightarrow> (nat \<Rightarrow> prng list) res" where
  "multi_base_setup E encrypted os_random mem =
     bindE (parE (\<lambda>i. multi_base_seed E 3 (encrypted i) (os_random i) (mem i))) (\<lambda>p.
     (case run_schedule multi_base_schedule (multi_base_net (\<lambda>i. snd (p i))) of
        None \<Rightarrow> Inl (Runtime_Error ''exchange blocked'')
      | Some c \<Rightarrow> parE (\<lambda>i. multi_base_finish E (fst (p i)) (streams c i))))"

text \<open>\<^verbatim>\<open>MultiReplicatedBase(P, prngs)\<close>, called by \<^verbatim>\<open>branch\<close>: the loop stops after two generators.\<close>

definition multi_branch :: "cipher \<Rightarrow> (nat \<Rightarrow> prng) \<Rightarrow> prng list \<Rightarrow> prng list \<times> prng list" where
  "multi_branch E mem Gs =
     (let (H0, G0) = SetSeed_from E (Gs ! 0) (PRNG_new (mem 0)); (H1, G1) = SetSeed_from E (Gs ! 1) (PRNG_new (mem 1))
      in ([H0, H1, PRNG_new (mem 2), PRNG_new (mem 3)], Gs[0 := G0, 1 := G1]))"

subsection \<open>Protocol and input objects\<close>

text \<open>\<^verbatim>\<open>MultiReplicated(P)\<close> and \<^verbatim>\<open>MultiReplicated(other)\<close>: the vectors are empty.\<close>

definition new_multi_replicated :: "nat \<Rightarrow> prng list \<Rightarrow> multi_replicated" where
  "new_multi_replicated me Gs = \<lparr>my_num = me, shared_prngs = Gs, ostreams = [], and_operands = pv_of [],
     add_shares = pv_of [], add_shares_2 = pv_of []\<rparr>"

definition new_replicated :: "'a value_ops \<Rightarrow> nat \<Rightarrow> prng list \<Rightarrow> 'a replicated" where
  "new_replicated R me Gs = \<lparr>rep_num = me, rep_prngs = Gs, rep_os = [], rep_adds = pv_of [], rep_dotprod = v_zero R\<rparr>"

text \<open>\<^verbatim>\<open>MultiReplicatedInput(P)\<close>: \<^verbatim>\<open>secure_prng\<close> is seeded before the base object is set up.\<close>

definition new_input :: "nat \<Rightarrow> prng \<Rightarrow> prng list \<Rightarrow> 'a input_state" where
  "new_input me secure_prng Gs =
     \<lparr>in_num = me, in_shares = [], in_i_share = 0, in_os = [], in_prng = secure_prng, in_shared = Gs,
      in_expect = replicate 3 False, in_recv = [], in_count = 0\<rparr>"

definition construct_protocols :: "cipher \<Rightarrow> (nat \<Rightarrow> bool) \<Rightarrow> (nat \<Rightarrow> octet list \<times> octet list) \<Rightarrow> (nat \<Rightarrow> nat \<Rightarrow> prng)
    \<Rightarrow> (nat \<Rightarrow> multi_replicated) res" where
  "construct_protocols E encrypted os_random mem =
     bindE (multi_base_setup E encrypted os_random mem) (\<lambda>Gs. Inr (\<lambda>i. new_multi_replicated i (Gs i)))"

definition construct_replicated :: "'a value_ops \<Rightarrow> cipher \<Rightarrow> (nat \<Rightarrow> bool) \<Rightarrow> (nat \<Rightarrow> octet list) \<Rightarrow> (nat \<Rightarrow> nat \<Rightarrow> prng)
    \<Rightarrow> (nat \<Rightarrow> 'a replicated) res" where
  "construct_replicated R E encrypted os_random mem =
     bindE (rep_base_setup E encrypted os_random mem) (\<lambda>Gs. Inr (\<lambda>i. new_replicated R i (Gs i)))"

definition construct_inputs :: "cipher \<Rightarrow> (nat \<Rightarrow> bool) \<Rightarrow> (nat \<Rightarrow> octet list \<times> octet list \<times> octet list) \<Rightarrow> (nat \<Rightarrow> nat \<Rightarrow> prng)
    \<Rightarrow> (nat \<Rightarrow> 'a input_state) res" where
  "construct_inputs E encrypted os_random mem =
     (let secure = (\<lambda>i. SeededPRNG E (fst (os_random i)) (mem i 4))
      in bindE (multi_base_setup E encrypted (\<lambda>i. snd (os_random i)) mem) (\<lambda>Gs.
         Inr (\<lambda>i. new_input i (secure i) (Gs i))))"

subsection \<open>The set-ups succeed and synchronise\<close>

lemma seed_stream_new:
  assumes "SEED_SIZE \<le> length r"
  shows "\<exists>s. seed_stream (SetSeed E r G) = Inr s \<and> small s \<and> contents s = take SEED_SIZE r"
proof -
  obtain s where "append (take SEED_SIZE r) empty_stream = Inr s" "extends (take SEED_SIZE r) empty_stream s"
    using append_extends [of empty_stream "take SEED_SIZE r"] by auto
  then have s: "append (take SEED_SIZE r) empty_stream = Inr s" "os_inv s" "contents s = take SEED_SIZE r"
    by (auto simp: extends_def)
  have "os_len s = 16" using length_contents [OF s(2)] s(3) assms by (simp add: rand_sizes)
  with s show ?thesis by (intro exI [of _ s]) (simp add: seed_stream_def small_def)
qed

lemma seed_received:
  assumes "os_inv t" "contents t = take SEED_SIZE r" "SEED_SIZE \<le> length r"
  shows "seed_from_stream E t (PRNG_new m) = Inr (SetSeed E r (PRNG_new m'))"
proof -
  have "SEED_SIZE \<le> length (os_buf t)" "take SEED_SIZE (os_buf t) = take SEED_SIZE r"
    using assms length_contents [OF assms(1)]
    by (auto simp: os_defs rand_sizes dest!: arg_cong [where f = "take 16"])
  then show ?thesis using SetSeed_new [of "os_buf t" r E m m'] by (simp add: seed_from_stream_def)
qed


lemma lt_3_cases: "i < 3 \<Longrightarrow> (i = 0 \<Longrightarrow> P) \<Longrightarrow> (i = 1 \<Longrightarrow> P) \<Longrightarrow> (i = 2 \<Longrightarrow> P) \<Longrightarrow> (P :: bool)" for i :: nat
  by linarith

lemma multi_base_run:
  assumes "\<And>i. i < 3 \<Longrightarrow> st i = [a i, b i]" "\<And>i. i < 3 \<Longrightarrow> small (a i) \<and> small (b i)"
  shows "\<exists>r s c. run_schedule multi_base_schedule (multi_base_net st) = Some c \<and> finished c \<and>
    (\<forall>i < 3. streams c i = [r i, s i] \<and> os_inv (r i) \<and> contents (r i) = contents (a (get_player 3 i 1)) \<and>
       os_inv (s i) \<and> contents (s i) = contents (b (get_player 3 i (- 1))))"
proof -
  have gp: "get_player 3 i k < 3" for i k by (simp add: get_player_def positive_modulo_mod)
  have "\<exists>t'. Receive (frame u) (reset_write_head t) = Inr (t', []) \<and> os_inv t' \<and> contents t' = contents u" if "small u" for t u
    using Receive_small [OF that, of t] by (auto simp: holds_def)
  then obtain rcv where rcv: "\<And>t u. small u \<Longrightarrow> Receive (frame u) (reset_write_head t) = Inr (rcv u t, []) \<and>
      os_inv (rcv u t) \<and> contents (rcv u t) = contents u" by metis
  define r where "r = (\<lambda>i. rcv (a (get_player 3 i 1)) (a i))"
  define s where "s = (\<lambda>i. rcv (b (get_player 3 i (- 1))) (b i))"
  have r: "Receive (frame (a (get_player 3 i 1))) (reset_write_head (a i)) = Inr (r i, []) \<and> os_inv (r i) \<and>
      contents (r i) = contents (a (get_player 3 i 1))"
    "Receive (frame (b (get_player 3 i (- 1)))) (reset_write_head (b i)) = Inr (s i, []) \<and> os_inv (s i) \<and>
      contents (s i) = contents (b (get_player 3 i (- 1)))" for i
    using rcv assms(2) [OF gp] by (auto simp: r_def s_def)
  have snd: "Send (a i) q = Inr (q @ frame (a i))" "Send (b i) q = Inr (q @ frame (b i))" if "i < 3" for i q
    using assms(2) [OF that] by (auto simp: Send_small)
  note net = multi_base_schedule_def multi_base_net_def multi_base_script_def send_relative_def receive_relative_def comm_do_def
    get_player_3 [unfolded One_nat_def]
  show ?thesis
    using r [of 0] r [of 1] r [of 2] snd [of 0] snd [of 1] snd [of 2] assms(1) [of 0] assms(1) [of 1] assms(1) [of 2]
    by (intro exI [of _ r] exI [of _ s]) (simp add: net finished_def all_lt_3)
qed

text \<open>Whatever memory the objects are built in, the generators only depend on the seeds.\<close>

definition seeded :: "cipher \<Rightarrow> octet list \<Rightarrow> prng" where
  "seeded E r = SetSeed E r (PRNG_new PRNG_init)"

lemma ReSeed_new: "ReSeed E r (PRNG_new m) = seeded E r"
  unfolding ReSeed_SetSeed seeded_def by (rule SetSeed_new) simp

lemma seed_seeded [simp]: "seed (seeded E r) = take SEED_SIZE r"
  by (simp add: seeded_def)

lemma multi_base_setup_prngs:
  assumes "\<And>i. i < 3 \<Longrightarrow> encrypted i" "\<And>i. i < 3 \<Longrightarrow> SEED_SIZE \<le> length (fst (r i)) \<and> SEED_SIZE \<le> length (snd (r i))"
  shows "\<exists>Gs. multi_base_setup E encrypted r mem = Inr Gs \<and>
    (\<forall>i < 3. Gs i = [seeded E (fst (r i)), seeded E (snd (r i)), seeded E (fst (r (get_player 3 i 1))),
       seeded E (snd (r (get_player 3 i (- 1))))])"
proof -
  have gp: "get_player 3 i k < 3" for i k by (simp add: get_player_def positive_modulo_mod)
  have "\<exists>a b. seed_stream (seeded E (fst (r i))) = Inr a \<and> seed_stream (seeded E (snd (r i))) = Inr b \<and> small a \<and> small b \<and>
      contents a = take SEED_SIZE (fst (r i)) \<and> contents b = take SEED_SIZE (snd (r i))" if "i < 3" for i
    using seed_stream_new [of "fst (r i)"] seed_stream_new [of "snd (r i)"] assms(2) [OF that] unfolding seeded_def by blast
  then obtain a b where ab: "\<And>i. i < 3 \<Longrightarrow> seed_stream (seeded E (fst (r i))) = Inr (a i) \<and> seed_stream (seeded E (snd (r i))) = Inr (b i) \<and>
      small (a i) \<and> small (b i) \<and> contents (a i) = take SEED_SIZE (fst (r i)) \<and> contents (b i) = take SEED_SIZE (snd (r i))" by metis
  define p where "p = (\<lambda>i. ([seeded E (fst (r i)), seeded E (snd (r i)), PRNG_new (mem i 2), PRNG_new (mem i 3)], [a i, b i]))"
  have p: "multi_base_seed E 3 (encrypted i) (r i) (mem i) = Inr (p i)" if "i < 3" for i
    using ab [OF that] assms(1) [OF that] by (simp add: multi_base_seed_def is_secure_def ReSeed_new p_def Let_def)
  let ?p = "three (p 0) (p 1) (p 2)"
  have st: "snd (?p i) = [a i, b i]" if "i < 3" for i unfolding three_fun [OF that, of p] by (simp add: p_def)
  obtain c s t where c: "run_schedule multi_base_schedule (multi_base_net (\<lambda>i. snd (?p i))) = Some c"
    "\<forall>i < 3. streams c i = [s i, t i] \<and> os_inv (s i) \<and> contents (s i) = contents (a (get_player 3 i 1)) \<and>
       os_inv (t i) \<and> contents (t i) = contents (b (get_player 3 i (- 1)))"
    using multi_base_run [of "\<lambda>i. snd (?p i)" a b, OF st] ab by blast
  define G where "G = (\<lambda>i. [seeded E (fst (r i)), seeded E (snd (r i)), seeded E (fst (r (get_player 3 i 1))),
      seeded E (snd (r (get_player 3 i (- 1))))])"
  have fin: "multi_base_finish E (fst (?p i)) (streams c i) = Inr (G i)" if i: "i < 3" for i
    unfolding three_fun [OF i, of p]
    using c(2) i ab [OF gp] assms(2) [OF gp] seed_received [where m' = PRNG_init]
    by (simp add: p_def multi_base_finish_def seeded_def G_def)
  have "parE (\<lambda>i. multi_base_seed E 3 (encrypted i) (r i) (mem i)) = Inr ?p"
    by (rule parE_Inr) (rule p)
  then have "multi_base_setup E encrypted r mem = Inr (three (G 0) (G 1) (G 2))"
    unfolding multi_base_setup_def by (simp only: bindE_simps c(1) option.case) (rule parE_Inr [OF fin])
  then show ?thesis using three_fun [of _ G] by (intro exI [of _ "three (G 0) (G 1) (G 2)"]) (simp add: G_def)
qed

lemma multi_base_setup_synced:
  assumes "\<And>i. i < 3 \<Longrightarrow> encrypted i" "\<And>i. i < 3 \<Longrightarrow> SEED_SIZE \<le> length (fst (r i)) \<and> SEED_SIZE \<le> length (snd (r i))"
  shows "\<exists>Gs. multi_base_setup E encrypted r mem = Inr Gs \<and> synced (Gs 0) (Gs 1) (Gs (2 :: nat))"
proof -
  obtain Gs where Gs: "multi_base_setup E encrypted r mem = Inr Gs"
    "\<And>i. i < 3 \<Longrightarrow> Gs i = [seeded E (fst (r i)), seeded E (snd (r i)), seeded E (fst (r (get_player 3 i 1))),
       seeded E (snd (r (get_player 3 i (- 1))))]"
    using multi_base_setup_prngs [of encrypted r E mem, OF assms] by blast
  have "synced (Gs 0) (Gs 1) (Gs 2)"
    using Gs(2) [of 0] Gs(2) [of 1] Gs(2) [of 2] by (simp add: synced_def get_player_3 [unfolded One_nat_def])
  with Gs(1) show ?thesis by blast
qed

lemma construct_protocols_ready:
  assumes "\<And>i. i < 3 \<Longrightarrow> encrypted i" "\<And>i. i < 3 \<Longrightarrow> SEED_SIZE \<le> length (fst (r i)) \<and> SEED_SIZE \<le> length (snd (r i))"
  shows "\<exists>S. construct_protocols E encrypted r mem = Inr S \<and> (\<forall>i < 3. my_num (S i) = i) \<and>
    synced (shared_prngs (S 0)) (shared_prngs (S 1)) (shared_prngs (S 2))"
  using multi_base_setup_synced [of encrypted r E mem, OF assms] by (auto simp: construct_protocols_def new_multi_replicated_def)

lemma construct_inputs_ready:
  assumes "\<And>i. i < 3 \<Longrightarrow> encrypted i"
    "\<And>i. i < 3 \<Longrightarrow> SEED_SIZE \<le> length (fst (snd (r i))) \<and> SEED_SIZE \<le> length (snd (snd (r i)))"
  shows "\<exists>S :: nat \<Rightarrow> 'a input_state. construct_inputs E encrypted r mem = Inr S \<and> (\<forall>i < 3. in_inv i (S i))"
  using multi_base_setup_synced [of encrypted "\<lambda>i. snd (r i)" E mem, OF assms]
  by (auto simp: construct_inputs_def new_input_def in_inv_def)

subsection \<open>Replicated\<close>

lemma rep_base_setup_prngs:
  assumes "\<And>i. i < 3 \<Longrightarrow> encrypted i" "\<And>i. i < 3 \<Longrightarrow> SEED_SIZE \<le> length (r i)"
  shows "\<exists>Gs. rep_base_setup E encrypted r mem = Inr Gs \<and> (\<forall>i < 3. Gs i = [seeded E (r i), seeded E (r (prv i))])"
proof -
  have gp: "prv i < 3" for i by (simp add: prv_def)
  have "\<exists>a. seed_stream (seeded E (r i)) = Inr a \<and> small a \<and> contents a = take SEED_SIZE (r i)" if "i < 3" for i
    using seed_stream_new [of "r i"] assms(2) [OF that] unfolding seeded_def by blast
  then obtain a where a: "\<And>i. i < 3 \<Longrightarrow> seed_stream (seeded E (r i)) = Inr (a i) \<and> small (a i) \<and> contents (a i) = take SEED_SIZE (r i)"
    by metis
  define p where "p = (\<lambda>i. ([seeded E (r i), PRNG_new (mem i 1)], [a i]))"
  have p: "rep_base_seed E 3 (encrypted i) (r i) (mem i) = Inr (p i)" if "i < 3" for i
    using a [OF that] assms(1) [OF that] by (simp add: rep_base_seed_def is_secure_def ReSeed_new p_def Let_def)
  let ?p = "three (p 0) (p 1) (p 2)"
  have st: "snd (?p i) = [a i]" if "i < 3" for i unfolding three_fun [OF that, of p] by (simp add: p_def)
  have sm: "0 < length (snd (?p i)) \<and> 0 < length (snd (?p i)) \<and> small (snd (?p i) ! 0)" if "i < 3" for i
    using a [OF that] by (simp only: st [OF that]) simp
  obtain s c where c: "run_schedule ring_schedule (ring_net 1 0 0 (\<lambda>i. snd (?p i))) = Some c"
    "\<forall>i < 3. streams c i = (snd (?p i))[0 := s i] \<and> holds (s i) (contents (snd (?p (get_player 3 i (- 1))) ! 0)) \<and>
       contents (s i) = contents (snd (?p (get_player 3 i (- 1))) ! 0)"
    using ring_run_contents [of 1 0 "\<lambda>i. snd (?p i)" 0, OF _ sm] by auto
  have c': "streams c i = [s i] \<and> os_inv (s i) \<and> contents (s i) = take SEED_SIZE (r (prv i))" if "i < 3" for i
  proof -
    have "streams c i = (snd (?p i))[0 := s i] \<and> holds (s i) (contents (snd (?p (get_player 3 i (- 1))) ! 0)) \<and>
       contents (s i) = contents (snd (?p (get_player 3 i (- 1))) ! 0)" using c(2) that by blast
    then show ?thesis unfolding get_player_prv [OF that] st [OF gp] st [OF that] using a [OF gp] by (simp add: holds_def)
  qed
  define G where "G = (\<lambda>i. [seeded E (r i), seeded E (r (prv i))])"
  have fin: "rep_base_finish E (fst (?p i)) (streams c i) = Inr (G i)" if i: "i < 3" for i
    unfolding three_fun [OF i, of p]
    using c' [OF i] assms(2) [OF gp] seed_received [where m' = PRNG_init]
    by (simp add: p_def rep_base_finish_def seeded_def G_def)
  have "parE (\<lambda>i. rep_base_seed E 3 (encrypted i) (r i) (mem i)) = Inr ?p"
    by (rule parE_Inr) (rule p)
  then have "rep_base_setup E encrypted r mem = Inr (three (G 0) (G 1) (G 2))"
    unfolding rep_base_setup_def by (simp only: bindE_simps c(1) option.case) (rule parE_Inr [OF fin])
  then show ?thesis using three_fun [of _ G] by (intro exI [of _ "three (G 0) (G 1) (G 2)"]) (simp add: G_def)
qed

lemma construct_replicated_ready:
  assumes "\<And>i. i < 3 \<Longrightarrow> encrypted i" "\<And>i. i < 3 \<Longrightarrow> SEED_SIZE \<le> length (r i)"
  shows "\<exists>S. construct_replicated R E encrypted r mem = Inr S \<and> rep_synced S"
  using rep_base_setup_prngs [of encrypted r E mem, OF assms]
  by (auto simp: construct_replicated_def new_replicated_def rep_synced_def prv_def)

text \<open>Branching keeps replicated generators in step, for the new object and for the old one.\<close>

lemma SetSeed_from_new: "fst (SetSeed_from E G (PRNG_new m)) = fst (SetSeed_from E G (PRNG_new m'))"
  "snd (SetSeed_from E G (PRNG_new m)) = snd (SetSeed_from E G (PRNG_new m'))"
  using SetSeed_new [of "fst (get_octets E SEED_SIZE G)" "fst (get_octets E SEED_SIZE G)" E m m']
  by (auto simp: SetSeed_from_def split: prod.split)

lemma rep_branch_synced:
  assumes "rep_synced S"
  shows "rep_synced (\<lambda>i. (S i)\<lparr>rep_prngs := fst (rep_branch E (mem i) (rep_prngs (S i)))\<rparr>)"
    "rep_synced (\<lambda>i. (S i)\<lparr>rep_prngs := snd (rep_branch E (mem i) (rep_prngs (S i)))\<rparr>)"
proof -
  have s: "length (rep_prngs (S i)) = 2" "rep_prngs (S i) ! 1 = rep_prngs (S (prv i)) ! 0" "prv i < 3" if "i < 3" for i
    using assms that by (auto simp: rep_synced_def prv_def)
  have b: "rep_branch E m Gs = ([fst (SetSeed_from E (Gs ! 0) (PRNG_new (m 0))), fst (SetSeed_from E (Gs ! 1) (PRNG_new (m 1)))],
      Gs[0 := snd (SetSeed_from E (Gs ! 0) (PRNG_new (m 0))), 1 := snd (SetSeed_from E (Gs ! 1) (PRNG_new (m 1)))])" for m Gs
    by (simp add: rep_branch_def split: prod.split)
  show "rep_synced (\<lambda>i. (S i)\<lparr>rep_prngs := fst (rep_branch E (mem i) (rep_prngs (S i)))\<rparr>)"
    using s by (auto simp: rep_synced_def b intro: SetSeed_from_new)
  show "rep_synced (\<lambda>i. (S i)\<lparr>rep_prngs := snd (rep_branch E (mem i) (rep_prngs (S i)))\<rparr>)"
    using s s(1) [OF s(3)] by (auto simp: rep_synced_def b intro: SetSeed_from_new)
qed

end
