(* ===== verification/RandomBits.thy ===== *)
theory RandomBits
  imports Setup
begin

text \<open>
  \<^verbatim>\<open>GC/RepPrep.hpp\<close> and the part of \<^verbatim>\<open>Protocols/ReplicatedPrep.hpp\<close> it uses: the
  preprocessing that serves \<^verbatim>\<open>ShareSecret::random_bit\<close> (the instruction \<open>BITB\<close>). The
  object owns two generators, set up like those of \<^verbatim>\<open>ReplicatedBase\<close>, and buffers a batch of
  bits when it has none.
\<close>

unbundle bit_operations_syntax

record rep_prep =
  bp_prngs :: "prng list"
  bp_bits :: "share list"

definition new_rep_prep :: "prng list \<Rightarrow> rep_prep" where
  "new_rep_prep Gs = \<lparr>bp_prngs = Gs, bp_bits = []\<rparr>"

definition of_bit :: "bool \<Rightarrow> bitvec" where
  "of_bit b = (if b then 1 else 0)"

definition buffer_bit :: "cipher \<Rightarrow> rep_prep \<Rightarrow> rep_prep res" where
  "buffer_bit E s =
     bindE (nthE (bp_prngs s) 0) (\<lambda>G0. let (b0, G0') = get_bit E G0 in
     bindE (nthE (bp_prngs s) 1) (\<lambda>G1. let (b1, G1') = get_bit E G1 in
     Inr (s\<lparr>bp_prngs := (bp_prngs s)[0 := G0', 1 := G1'], bp_bits := bp_bits s @ [[of_bit b0, of_bit b1]]\<rparr>)))"

definition buffer_bits :: "cipher \<Rightarrow> nat \<Rightarrow> rep_prep \<Rightarrow> rep_prep res" where
  "buffer_bits E batch s = foldE (\<lambda>_. buffer_bit E) [0..<batch] s"

text \<open>The loop of \<^verbatim>\<open>get_one_no_count\<close>: with an empty batch it does not end.\<close>

partial_function (option) fill_bits :: "cipher \<Rightarrow> nat \<Rightarrow> rep_prep \<Rightarrow> (exn + rep_prep) option" where
  "fill_bits E batch s =
     (if bp_bits s = []
      then (case buffer_bits E batch s of Inl e \<Rightarrow> Some (Inl e) | Inr s' \<Rightarrow> fill_bits E batch s')
      else Some (Inr s))"

definition random_bit :: "cipher \<Rightarrow> nat \<Rightarrow> rep_prep \<Rightarrow> (exn + share \<times> rep_prep) option" where
  "random_bit E batch s =
     map_option (\<lambda>r. bindE r (\<lambda>s'. Inr (last (bp_bits s'), s'\<lparr>bp_bits := butlast (bp_bits s')\<rparr>))) (fill_bits E batch s)"

subsection \<open>What the parties hold\<close>

text \<open>Neighbours share a generator and the bits drawn from it.\<close>

definition bits_synced :: "(nat \<Rightarrow> rep_prep) \<Rightarrow> bool" where
  "bits_synced S \<longleftrightarrow>
     (\<forall>i < 3. length (bp_prngs (S i)) = 2 \<and> bp_prngs (S i) ! 1 = bp_prngs (S (prv i)) ! 0 \<and>
        length (bp_bits (S i)) = length (bp_bits (S 0)) \<and>
        (\<forall>j < length (bp_bits (S 0)). \<exists>a b. bp_bits (S i) ! j = [of_bit a, of_bit b] \<and> of_bit b = bp_bits (S (prv i)) ! j ! 0))"

lemma bits_syncedD:
  assumes "bits_synced S" "i < 3"
  shows "length (bp_prngs (S i)) = 2" "bp_prngs (S i) ! 1 = bp_prngs (S (prv i)) ! 0"
    "length (bp_bits (S i)) = length (bp_bits (S 0))"
    "\<forall>j < length (bp_bits (S 0)). \<exists>a b. bp_bits (S i) ! j = [of_bit a, of_bit b] \<and> of_bit b = bp_bits (S (prv i)) ! j ! 0"
  using assms unfolding bits_synced_def by blast+

lemma bits_synced_new: "(\<And>i. i < 3 \<Longrightarrow> length (Gs i) = 2 \<and> Gs i ! 1 = Gs (prv i) ! 0) \<Longrightarrow> bits_synced (\<lambda>i. new_rep_prep (Gs i))"
  by (simp add: bits_synced_def new_rep_prep_def)

lemma prv_lt [simp]: "prv i < 3"
  by (simp add: prv_def)

lemma buffer_bit_synced:
  assumes "bits_synced S"
  shows "\<exists>S'. (\<forall>i < 3. buffer_bit E (S i) = Inr (S' i)) \<and> bits_synced S' \<and> length (bp_bits (S' 0)) = Suc (length (bp_bits (S 0)))"
proof -
  define g where "g = (\<lambda>i k. get_bit E (bp_prngs (S i) ! k))"
  define S' where "S' = (\<lambda>i. S i\<lparr>bp_prngs := (bp_prngs (S i))[0 := snd (g i 0), 1 := snd (g i 1)],
      bp_bits := bp_bits (S i) @ [[of_bit (fst (g i 0)), of_bit (fst (g i 1))]]\<rparr>)"
  have s: "length (bp_prngs (S i)) = 2" "g i 1 = g (prv i) 0" "length (bp_bits (S i)) = length (bp_bits (S 0))"
    "\<forall>j < length (bp_bits (S 0)). \<exists>a b. bp_bits (S i) ! j = [of_bit a, of_bit b] \<and> of_bit b = bp_bits (S (prv i)) ! j ! 0" if "i < 3" for i
    using bits_syncedD [OF assms that] unfolding g_def by simp_all
  have "buffer_bit E (S i) = Inr (S' i)" if "i < 3" for i
    using s(1) [OF that] by (simp add: buffer_bit_def S'_def g_def case_prod_unfold Let_def)
  moreover have "bits_synced S'"
    unfolding bits_synced_def
  proof (intro allI impI)
    fix i :: nat assume i: "i < 3"
    have l: "length (bp_bits (S (prv i))) = length (bp_bits (S 0))" using s(3) [OF prv_lt] .
    have "\<exists>a b. bp_bits (S' i) ! j = [of_bit a, of_bit b] \<and> of_bit b = bp_bits (S' (prv i)) ! j ! 0"
      if j: "j < length (bp_bits (S' 0))" for j
    proof (cases "j < length (bp_bits (S 0))")
      case True
      then show ?thesis using s(3,4) [OF i] l by (simp add: S'_def nth_append)
    next
      case False
      then have "j = length (bp_bits (S 0))" using j by (simp add: S'_def)
      then show ?thesis using s(2,3) [OF i] l by (auto simp: S'_def nth_append)
    qed
    then show "length (bp_prngs (S' i)) = 2 \<and> bp_prngs (S' i) ! 1 = bp_prngs (S' (prv i)) ! 0 \<and>
        length (bp_bits (S' i)) = length (bp_bits (S' 0)) \<and>
        (\<forall>j < length (bp_bits (S' 0)). \<exists>a b. bp_bits (S' i) ! j = [of_bit a, of_bit b] \<and> of_bit b = bp_bits (S' (prv i)) ! j ! 0)"
      using s(1-3) [OF i] s(1) [OF prv_lt] by (simp add: S'_def)
  qed
  ultimately show ?thesis by (intro exI [of _ S']) (auto simp: S'_def)
qed

lemma buffer_bits_synced:
  assumes "bits_synced S"
  shows "\<exists>S'. (\<forall>i < 3. buffer_bits E batch (S i) = Inr (S' i)) \<and> bits_synced S' \<and> length (bp_bits (S' 0)) = batch + length (bp_bits (S 0))"
proof (induction batch)
  case 0
  then show ?case using assms by (auto simp: buffer_bits_def)
next
  case (Suc n)
  then obtain S1 where S1: "\<forall>i < 3. buffer_bits E n (S i) = Inr (S1 i)" "bits_synced S1" "length (bp_bits (S1 0)) = n + length (bp_bits (S 0))"
    by blast
  from buffer_bit_synced [OF S1(2), of E] obtain S2 where
    "\<forall>i < 3. buffer_bit E (S1 i) = Inr (S2 i)" "bits_synced S2" "length (bp_bits (S2 0)) = Suc (length (bp_bits (S1 0)))" by blast
  with S1 show ?case by (intro exI [of _ S2]) (simp add: buffer_bits_def foldE_append)
qed

lemma fill_bits_synced:
  assumes "bits_synced S" "0 < batch"
  shows "\<exists>S'. (\<forall>i < 3. fill_bits E batch (S i) = Some (Inr (S' i))) \<and> bits_synced S' \<and> bp_bits (S' 0) \<noteq> []"
proof (cases "bp_bits (S 0) = []")
  case True
  obtain S' where S': "\<forall>i < 3. buffer_bits E batch (S i) = Inr (S' i)" "bits_synced S'" "length (bp_bits (S' 0)) = batch + length (bp_bits (S 0))"
    using buffer_bits_synced [OF assms(1)] by blast
  have e: "bp_bits (S i) = []" if "i < 3" for i
    using assms(1) that True unfolding bits_synced_def by (metis length_0_conv)
  have ne: "bp_bits (S' i) \<noteq> []" if "i < 3" for i
    using S'(2,3) that assms(2) unfolding bits_synced_def by (metis add_is_0 length_0_conv less_numeral_extra(3))
  have "fill_bits E batch (S i) = Some (Inr (S' i))" if "i < 3" for i
    using e [OF that] ne [OF that] S'(1) that by (simp add: fill_bits.simps [of E batch "S i"] fill_bits.simps [of E batch "S' i"])
  with S'(2) ne [of 0] show ?thesis by auto
next
  case False
  have "bp_bits (S i) \<noteq> []" if "i < 3" for i
    using assms(1) that False unfolding bits_synced_def by (metis length_0_conv)
  then show ?thesis using assms(1) False by (intro exI [of _ S]) (simp add: fill_bits.simps)
qed

lemma random_bit_shares:
  assumes "bits_synced S" "0 < batch"
  shows "\<exists>a S'. (\<forall>i < 3. random_bit E batch (S i) = Some (Inr ([of_bit (a i), of_bit (a (prv i))], S' i))) \<and> bits_synced S'"
proof -
  obtain S1 where S1: "\<forall>i < 3. fill_bits E batch (S i) = Some (Inr (S1 i))" "bits_synced S1" "bp_bits (S1 0) \<noteq> []"
    using fill_bits_synced [OF assms] by blast
  let ?n = "length (bp_bits (S1 0)) - 1"
  have n: "?n < length (bp_bits (S1 0))" using S1(3) by (cases "bp_bits (S1 0)") auto
  have l: "length (bp_bits (S1 i)) = length (bp_bits (S1 0))" if "i < 3" for i
    using S1(2) that unfolding bits_synced_def by blast
  have ls: "last (bp_bits (S1 i)) = bp_bits (S1 i) ! ?n" if "i < 3" for i
    using l [OF that] S1(3) by (metis last_conv_nth length_0_conv)
  have "\<exists>x b. last (bp_bits (S1 i)) = [of_bit x, of_bit b] \<and> of_bit b = last (bp_bits (S1 (prv i))) ! 0" if "i < 3" for i
    using S1(2) that n ls [OF that] ls [OF prv_lt] unfolding bits_synced_def by metis
  then obtain x b where xb: "\<And>i. i < 3 \<Longrightarrow> last (bp_bits (S1 i)) = [of_bit (x i), of_bit (b i)] \<and> of_bit (b i) = last (bp_bits (S1 (prv i))) ! 0"
    by metis
  have eq: "last (bp_bits (S1 i)) = [of_bit (x i), of_bit (x (prv i))]" if "i < 3" for i
    using xb [OF that] xb [OF prv_lt, THEN conjunct1] by (metis nth_Cons_0)
  define S' where "S' = (\<lambda>i. S1 i\<lparr>bp_bits := butlast (bp_bits (S1 i))\<rparr>)"
  have "bits_synced S'"
    unfolding bits_synced_def
  proof (intro allI impI)
    fix i :: nat assume i: "i < 3"
    have s: "length (bp_prngs (S1 i)) = 2" "bp_prngs (S1 i) ! 1 = bp_prngs (S1 (prv i)) ! 0"
      "\<forall>j < length (bp_bits (S1 0)). \<exists>a b. bp_bits (S1 i) ! j = [of_bit a, of_bit b] \<and> of_bit b = bp_bits (S1 (prv i)) ! j ! 0"
      using bits_syncedD [OF S1(2) i] by simp_all
    then show "length (bp_prngs (S' i)) = 2 \<and> bp_prngs (S' i) ! 1 = bp_prngs (S' (prv i)) ! 0 \<and>
        length (bp_bits (S' i)) = length (bp_bits (S' 0)) \<and>
        (\<forall>j < length (bp_bits (S' 0)). \<exists>a b. bp_bits (S' i) ! j = [of_bit a, of_bit b] \<and> of_bit b = bp_bits (S' (prv i)) ! j ! 0)"
      using l [OF i] l [OF prv_lt] by (auto simp: S'_def nth_butlast)
  qed
  moreover have "random_bit E batch (S i) = Some (Inr ([of_bit (x i), of_bit (x (prv i))], S' i))" if "i < 3" for i
    using S1(1) that eq [OF that] by (simp add: random_bit_def S'_def)
  ultimately show ?thesis by blast
qed

text \<open>With an empty batch the loop does not return.\<close>

lemma fill_bits_stuck:
  assumes "bp_bits s = []"
  shows "fill_bits E 0 s = None"
proof -
  have r: "(0 :: nat) = 0 \<longrightarrow> bp_bits s \<noteq> []" if "fill_bits E 0 s = Some r" for r
    by (rule fill_bits.raw_induct [where P = "\<lambda>E b s r. b = 0 \<longrightarrow> bp_bits s \<noteq> []", OF _ that])
       (intro impI notI, simp add: buffer_bits_def)
  show ?thesis using r assms by (cases "fill_bits E 0 s") auto
qed

subsection \<open>Opening them\<close>

text \<open>
  The shares are an XOR sharing between neighbours, the format of \<^verbatim>\<open>Replicated\<close>; opening them
  with \<^verbatim>\<open>MultiReplicatedMC\<close> does not give the parties a common bit.
\<close>

lemma bit_shares_open:
  "\<exists>U. multi_popen bitvec_ops (\<lambda>i. [[of_bit (a i), of_bit (a (prv i))]]) M =
     Inr (([of_bit (a 0) XOR of_bit (a 2)], U 0), ([0], U 1), ([0], U (2 :: nat)))"
  using bvt.popen_values [where offset = 1 and S = "\<lambda>i. [[of_bit (a i), of_bit (a (prv i))]]" and f = "multi_open_share bitvec_ops" and M = M and m = 1]
  by (simp add: multi_popen_def multi_open_share_def bitvec_ops_def bv_defs get_player_3 [unfolded One_nat_def])

end
