(* ===== verification/Limbs.thy ===== *)
theory Limbs
  imports Prelude
begin

text \<open>
  \<^verbatim>\<open>Math/mpn_fixed.h\<close> and the routines of \<^verbatim>\<open>mpir/mpn/generic\<close> behind it: arithmetic on
  numbers of a fixed count of 64-bit limbs, least significant first. Addition and subtraction
  carry from limb to limb, products are accumulated into windows of an array. The assembler
  blocks for two, three and four limbs are chains of \<^verbatim>\<open>add\<close>/\<^verbatim>\<open>adc\<close> (\<^verbatim>\<open>sub\<close>/\<^verbatim>\<open>sbb\<close>) and
  are the loop for that count.
\<close>

unbundle bit_operations_syntax

type_synonym limb = word64

abbreviation (input) B64 :: nat where "B64 \<equiv> 2 ^ 64"

fun mpv :: "limb list \<Rightarrow> nat" where
  "mpv [] = 0"
| "mpv (x # xs) = unat x + B64 * mpv xs"

subsection \<open>Operations\<close>

text \<open>\<^verbatim>\<open>mpn_add_n_with_carry\<close>, \<^verbatim>\<open>mpn_sub_n_borrow\<close>: one \<^verbatim>\<open>_addcarryx_u64\<close> or \<^verbatim>\<open>_subborrow_u64\<close> per limb.\<close>

fun add_carry :: "bool \<Rightarrow> limb list \<Rightarrow> limb list \<Rightarrow> limb list \<times> bool" where
  "add_carry c (x # xs) (y # ys) =
     (let (rs, co) = add_carry (B64 \<le> unat x + unat y + of_bool c) xs ys in ((x + y + of_bool c) # rs, co))"
| "add_carry c _ _ = ([], c)"

fun sub_borrow :: "bool \<Rightarrow> limb list \<Rightarrow> limb list \<Rightarrow> limb list \<times> bool" where
  "sub_borrow b (x # xs) (y # ys) =
     (let (rs, bo) = sub_borrow (unat x < unat y + of_bool b) xs ys in ((x - y - of_bool b) # rs, bo))"
| "sub_borrow b _ _ = ([], b)"

definition mpn_add_n_with_carry :: "limb list \<Rightarrow> limb list \<Rightarrow> limb list \<times> bool" where
  "mpn_add_n_with_carry = add_carry False"

definition mpn_sub_n_borrow :: "limb list \<Rightarrow> limb list \<Rightarrow> limb list \<times> bool" where
  "mpn_sub_n_borrow = sub_borrow False"

definition mpn_add_fixed_n :: "limb list \<Rightarrow> limb list \<Rightarrow> limb list" where
  "mpn_add_fixed_n x y = fst (mpn_add_n_with_carry x y)"

definition mpn_sub_fixed_n :: "limb list \<Rightarrow> limb list \<Rightarrow> limb list" where
  "mpn_sub_fixed_n x y = fst (mpn_sub_n_borrow x y)"

text \<open>\<^verbatim>\<open>mpn_cmp\<close> compares from the most significant limb.\<close>

fun cmp_down :: "limb list \<Rightarrow> limb list \<Rightarrow> int" where
  "cmp_down (x # xs) (y # ys) = (if x \<noteq> y then (if x > y then 1 else - 1) else cmp_down xs ys)"
| "cmp_down _ _ = 0"

definition mpn_cmp :: "limb list \<Rightarrow> limb list \<Rightarrow> int" where
  "mpn_cmp x y = cmp_down (rev x) (rev y)"

text \<open>\<^verbatim>\<open>umul_ppmm\<close>: the two halves of a product; the carries are found by comparison.\<close>

definition umul_hi :: "limb \<Rightarrow> limb \<Rightarrow> limb" where
  "umul_hi u v = of_nat (unat u * unat v div B64)"

fun mul_1_loop :: "limb \<Rightarrow> limb list \<Rightarrow> limb \<Rightarrow> limb list \<times> limb" where
  "mul_1_loop cl [] vl = ([], cl)"
| "mul_1_loop cl (ul # us) vl =
     (let hpl = umul_hi ul vl; lpl = ul * vl + cl;
          (rs, co) = mul_1_loop (of_bool (lpl < cl) + hpl) us vl
      in (lpl # rs, co))"

fun addmul_1_loop :: "limb \<Rightarrow> limb list \<Rightarrow> limb list \<Rightarrow> limb \<Rightarrow> limb list \<times> limb" where
  "addmul_1_loop cl (rl # rp) (ul # us) vl =
     (let hpl = umul_hi ul vl; lpl = ul * vl + cl; cl1 = of_bool (lpl < cl) + hpl;
          lpl2 = rl + lpl; (rs, co) = addmul_1_loop (cl1 + of_bool (lpl2 < rl)) rp us vl
      in (lpl2 # rs, co))"
| "addmul_1_loop cl _ _ vl = ([], cl)"

definition mpn_mul_1 :: "limb list \<Rightarrow> limb \<Rightarrow> limb list \<times> limb" where
  "mpn_mul_1 up vl = mul_1_loop 0 up vl"

definition mpn_addmul_1 :: "limb list \<Rightarrow> limb list \<Rightarrow> limb \<Rightarrow> limb list \<times> limb" where
  "mpn_addmul_1 rp up vl = addmul_1_loop 0 rp up vl"

text \<open>
  \<^verbatim>\<open>mpn_addmul_1_fixed__<L, M, ADD>\<close>: the low halves and the high halves of the products are
  added in two passes; the carry out of the window is dropped. Only \<open>L \<le> M + 1\<close> occurs, where
  the array of low halves is initialised.
\<close>

definition addmul_1_fixed :: "nat \<Rightarrow> nat \<Rightarrow> bool \<Rightarrow> limb list \<Rightarrow> limb list \<Rightarrow> limb \<Rightarrow> limb list" where
  "addmul_1_fixed L M add res y x =
     (let lower = take L (map (\<lambda>j. x * y ! j) [0..<M] @ [0]);
          higher = take L (map (\<lambda>j. umul_hi x (y ! j)) [0..<M] @ [0]);
          res1 = (if add then mpn_add_fixed_n lower res else lower)
      in take 1 res1 @ mpn_add_fixed_n (take (L - 1) higher) (drop 1 res1))"

text \<open>Windows of an array: \<open>n\<close> limbs from position \<open>i\<close>.\<close>

definition win :: "nat \<Rightarrow> nat \<Rightarrow> 'a list \<Rightarrow> 'a list" where
  "win i n a = take n (drop i a)"

definition put :: "nat \<Rightarrow> 'a list \<Rightarrow> 'a list \<Rightarrow> 'a list" where
  "put i xs a = take i a @ xs @ drop (i + length xs) a"

text \<open>\<^verbatim>\<open>mpn_mul_fixed_<L, N, M>\<close>, the general version and the four special ones.\<close>

definition addmul_at :: "nat \<Rightarrow> nat \<Rightarrow> nat \<Rightarrow> limb list \<Rightarrow> limb \<Rightarrow> limb list \<Rightarrow> limb list" where
  "addmul_at i L M y x tmp = put i (addmul_1_fixed L M True (win i L tmp) y x) tmp"

definition mul_fixed_gen :: "nat \<Rightarrow> nat \<Rightarrow> nat \<Rightarrow> limb list \<Rightarrow> limb list \<Rightarrow> limb list" where
  "mul_fixed_gen L N M x y =
     take L (foldl (\<lambda>tmp i. addmul_at i (M + 1) M y (x ! i) tmp) (replicate (N + M + 2) 0) [0..<N])"

definition mul_fixed_222 :: "limb list \<Rightarrow> limb list \<Rightarrow> limb list" where
  "mul_fixed_222 x y = addmul_at 1 1 1 y (x ! 1) (addmul_1_fixed 2 2 False [] y (x ! 0))"

definition mul_fixed_333 :: "limb list \<Rightarrow> limb list \<Rightarrow> limb list" where
  "mul_fixed_333 x y = addmul_at 2 1 1 y (x ! 2) (addmul_at 1 2 2 y (x ! 1) (addmul_at 0 3 3 y (x ! 0) (replicate 3 0)))"

definition mul_fixed_442 :: "limb list \<Rightarrow> limb list \<Rightarrow> limb list" where
  "mul_fixed_442 x y = addmul_at 3 1 1 y (x ! 3) (addmul_at 2 2 2 y (x ! 2)
     (addmul_at 1 3 2 y (x ! 1) (addmul_at 0 3 2 y (x ! 0) (replicate 4 0))))"

definition mpn_mul_fixed :: "nat \<Rightarrow> nat \<Rightarrow> nat \<Rightarrow> limb list \<Rightarrow> limb list \<Rightarrow> limb list res" where
  "mpn_mul_fixed L N M x y =
     (if (L, N, M) = (1, 1, 1) then Inr [x ! 0 * y ! 0]
      else if (L, N, M) = (2, 2, 2) then Inr (mul_fixed_222 x y)
      else if (L, N, M) = (3, 3, 3) then Inr (mul_fixed_333 x y)
      else if (L, N, M) = (4, 4, 2) then Inr (mul_fixed_442 x y)
      else bindE (guardE (L \<le> N + M + 2) (Assertion ''L <= N + M + 2'')) (\<lambda>_. Inr (mul_fixed_gen L N M x y)))"

subsection \<open>Values\<close>

lemma mpv_less: "mpv xs < 2 ^ (64 * length xs)"
proof (induction xs)
  case Nil
  then show ?case by simp
next
  case (Cons x xs)
  have "unat x < B64" using unsigned_less [of x] by simp
  moreover have "B64 * (mpv xs + 1) \<le> B64 * 2 ^ (64 * length xs)" using Cons.IH by simp
  ultimately have "unat x + B64 * mpv xs < B64 * 2 ^ (64 * length xs)" by simp
  then show ?case by (simp add: power_add)
qed

lemma mpv_append: "mpv (xs @ ys) = mpv xs + 2 ^ (64 * length xs) * mpv ys"
  by (induction xs) (simp_all add: power_add algebra_simps)

lemma mpv_replicate_0 [simp]: "mpv (replicate n 0) = 0"
  by (induction n) simp_all

lemma mpv_take_drop: "n \<le> length xs \<Longrightarrow> mpv xs = mpv (take n xs) + 2 ^ (64 * n) * mpv (drop n xs)"
  using mpv_append [of "take n xs" "drop n xs"] by simp

lemma mpv_take: "n \<le> length xs \<Longrightarrow> mpv (take n xs) = mpv xs mod 2 ^ (64 * n)"
  using mpv_take_drop [of n xs] mpv_less [of "take n xs"] by simp

lemma mpv_drop: "n \<le> length xs \<Longrightarrow> mpv (drop n xs) = mpv xs div 2 ^ (64 * n)"
  using mpv_take_drop [of n xs] mpv_less [of "take n xs"] by simp

lemma unat_limb: "unat (x :: limb) < B64"
  using unsigned_less [of x] by simp

lemma div_mod_limb: "(unat x + B64 * n) mod B64 = unat x" "(unat x + B64 * n) div B64 = n" for x :: limb
  using unat_limb [of x] by simp_all

lemma mpv_inject: "length xs = length ys \<Longrightarrow> mpv xs = mpv ys \<Longrightarrow> xs = ys"
proof (induction xs ys rule: list_induct2)
  case Nil
  then show ?case by simp
next
  case (Cons x xs y ys)
  have "unat x = unat y" "mpv xs = mpv ys"
    using Cons.prems div_mod_limb [of x "mpv xs"] div_mod_limb [of y "mpv ys"] by (metis mpv.simps(2))+
  then show ?case using Cons.IH by (simp add: word_unat_eq_iff)
qed

subsection \<open>Carries\<close>

lemma mod_two: "a < 2 * n \<Longrightarrow> a mod n = (if a < n then a else a - n)" for a n :: nat
  by (cases "a < n") (simp_all add: le_mod_geq)

lemma unat_plus: "unat (x + y) = (unat x + unat y) mod B64" for x y :: limb
  by (simp add: unat_word_ariths)

lemma unat_add_carry: "unat (x + y) + B64 * of_bool (B64 \<le> unat x + unat y) = unat x + unat (y :: limb)"
proof -
  have "unat x + unat y < 2 * B64" using unat_limb [of x] unat_limb [of y] by linarith
  from mod_two [OF this] show ?thesis unfolding unat_plus by simp
qed

lemma carry_less: "(x + y < y) = (B64 \<le> unat x + unat (y :: limb))"
proof -
  have "unat x + unat y < 2 * B64" using unat_limb [of x] unat_limb [of y] by linarith
  note m = mod_two [OF this]
  show ?thesis unfolding word_less_nat_alt unat_plus m using unat_limb [of x] unat_limb [of y] by auto
qed

lemma unat_add_carry_in:
  "unat (x + y + of_bool c) + B64 * of_bool (B64 \<le> unat x + unat y + of_bool c) = unat x + unat y + of_bool c" for x y :: limb
proof -
  have b: "unat (of_bool c :: limb) = of_bool c" by (cases c) simp_all
  have u: "unat (x + y + of_bool c) = (unat x + unat y + of_bool c) mod B64"
    unfolding unat_plus b by (simp add: mod_simps)
  have "unat x + unat y + of_bool c < 2 * B64" using unat_limb [of x] unat_limb [of y] by (cases c) simp_all
  from mod_two [OF this] show ?thesis unfolding u by simp
qed

lemma add_carry_value:
  "length x = length y \<Longrightarrow> add_carry c x y = (r, co) \<Longrightarrow>
     length r = length x \<and> mpv r + 2 ^ (64 * length x) * of_bool co = mpv x + mpv y + of_bool c"
proof (induction x y arbitrary: c r co rule: list_induct2)
  case Nil
  then show ?case by simp
next
  case (Cons x xs y ys)
  let ?c = "B64 \<le> unat x + unat y + of_bool c"
  obtain rs where rs: "add_carry ?c xs ys = (rs, co)" "r = (x + y + of_bool c) # rs"
    using Cons.prems by (auto simp: Let_def split: prod.splits)
  have l: "length rs = length xs" and v: "mpv rs + 2 ^ (64 * length xs) * of_bool co = mpv xs + mpv ys + of_bool ?c"
    using Cons.IH [OF rs(1)] by auto
  have "mpv r + 2 ^ (64 * length (x # xs)) * of_bool co
      = unat (x + y + of_bool c) + B64 * (mpv rs + 2 ^ (64 * length xs) * of_bool co)"
    by (simp add: rs(2) power_add algebra_simps)
  also have "\<dots> = unat (x + y + of_bool c) + B64 * of_bool ?c + B64 * (mpv xs + mpv ys)"
    unfolding v by (simp add: algebra_simps)
  also have "\<dots> = mpv (x # xs) + mpv (y # ys) + of_bool c"
    unfolding unat_add_carry_in by (simp add: algebra_simps)
  finally show ?case using l rs(2) by simp
qed

lemma unat_sub_borrow:
  "unat (x - y - of_bool b) + unat y + of_bool b = unat x + B64 * of_bool (unat x < unat y + of_bool b)" for x y :: limb
proof -
  let ?z = "x - y - of_bool b"
  have "x = ?z + y + of_bool b" by simp
  then have e: "unat x + B64 * of_bool (B64 \<le> unat ?z + unat y + of_bool b) = unat ?z + unat y + of_bool b"
    using unat_add_carry_in [of ?z y b] by simp
  have "(B64 \<le> unat ?z + unat y + of_bool b) = (unat x < unat y + of_bool b)"
    using e unat_limb [of ?z] unat_limb [of x] by (cases "B64 \<le> unat ?z + unat y + of_bool b") auto
  with e show ?thesis by simp
qed

lemma sub_borrow_value:
  "length x = length y \<Longrightarrow> sub_borrow b x y = (r, bo) \<Longrightarrow>
     length r = length x \<and> mpv r + mpv y + of_bool b = mpv x + 2 ^ (64 * length x) * of_bool bo"
proof (induction x y arbitrary: b r bo rule: list_induct2)
  case Nil
  then show ?case by simp
next
  case (Cons x xs y ys)
  let ?b = "unat x < unat y + of_bool b"
  obtain rs where rs: "sub_borrow ?b xs ys = (rs, bo)" "r = (x - y - of_bool b) # rs"
    using Cons.prems by (auto simp: Let_def split: prod.splits)
  have l: "length rs = length xs" and v: "mpv rs + mpv ys + of_bool ?b = mpv xs + 2 ^ (64 * length xs) * of_bool bo"
    using Cons.IH [OF rs(1)] by auto
  have "mpv r + mpv (y # ys) + of_bool b + B64 * of_bool ?b
      = (unat (x - y - of_bool b) + unat y + of_bool b) + B64 * (mpv rs + mpv ys + of_bool ?b)"
    by (simp add: rs(2) algebra_simps)
  also have "\<dots> = unat x + B64 * of_bool ?b + B64 * (mpv xs + 2 ^ (64 * length xs) * of_bool bo)"
    unfolding v unat_sub_borrow ..
  also have "\<dots> = mpv (x # xs) + 2 ^ (64 * length (x # xs)) * of_bool bo + B64 * of_bool ?b"
    by (simp add: power_add algebra_simps)
  finally show ?case using l rs(2) by simp
qed

subsection \<open>Comparison\<close>

lemma cmp_down_value:
  "length xs = length ys \<Longrightarrow> cmp_down xs ys = sgn (int (mpv (rev xs)) - int (mpv (rev ys)))"
proof (induction xs ys rule: list_induct2)
  case Nil
  then show ?case by simp
next
  case (Cons x xs y ys)
  let ?n = "64 * length xs"
  have a: "mpv (rev xs) < 2 ^ ?n" "mpv (rev ys) < 2 ^ ?n" using mpv_less [of "rev xs"] mpv_less [of "rev ys"] Cons.hyps by simp_all
  have v: "mpv (rev (x # xs)) = mpv (rev xs) + 2 ^ ?n * unat x" "mpv (rev (y # ys)) = mpv (rev ys) + 2 ^ ?n * unat y"
    using Cons.hyps by (simp_all add: mpv_append)
  have less: "mpv (rev us) + 2 ^ ?n * unat p < mpv (rev vs) + 2 ^ ?n * unat q"
    if "unat p < unat q" "mpv (rev us) < 2 ^ ?n" for us vs and p q :: limb
  proof -
    have "2 ^ ?n * (unat p + 1) \<le> (2 :: nat) ^ ?n * unat q" using that(1) by (intro mult_le_mono) auto
    with that(2) show ?thesis by (simp add: algebra_simps)
  qed
  consider "unat x = unat y" | "unat x < unat y" | "unat y < unat x" by linarith
  then show ?case
  proof cases
    case 1
    then have "x = y" by (simp add: word_unat_eq_iff)
    then show ?thesis unfolding v using Cons.IH by simp
  next
    case 2
    have "mpv (rev (x # xs)) < mpv (rev (y # ys))" unfolding v by (rule less [OF 2 a(1)])
    then show ?thesis using 2 by (auto simp: word_less_nat_alt sgn_if)
  next
    case 3
    have "mpv (rev (y # ys)) < mpv (rev (x # xs))" unfolding v by (rule less [OF 3 a(2)])
    then show ?thesis using 3 by (auto simp: word_less_nat_alt sgn_if)
  qed
qed

lemma mpn_cmp_value: "length xs = length ys \<Longrightarrow> mpn_cmp xs ys = sgn (int (mpv xs) - int (mpv ys))"
  using cmp_down_value [of "rev xs" "rev ys"] by (simp add: mpn_cmp_def)

lemma mpn_cmp_ge: "length xs = length ys \<Longrightarrow> (0 \<le> mpn_cmp xs ys) = (mpv ys \<le> mpv xs)"
  by (simp add: mpn_cmp_value sgn_if)

lemma mpn_cmp_eq: "length xs = length ys \<Longrightarrow> (mpn_cmp xs ys = 0) = (xs = ys)"
  using mpv_inject by (auto simp: mpn_cmp_value sgn_if split: if_splits)

subsection \<open>Products\<close>

lemma umul: "unat (u * v) + B64 * unat (umul_hi u v) = unat u * unat v" for u v :: limb
proof -
  have "unat u * unat v div B64 < B64"
    using mult_strict_mono' [OF unat_limb [of u] unat_limb [of v]] by (simp add: div_less_iff_less_mult)
  then have "unat (umul_hi u v) = unat u * unat v div B64" by (simp add: umul_hi_def unat_of_nat)
  moreover have "unat (u * v) = unat u * unat v mod B64" by (simp add: unat_word_ariths)
  ultimately show ?thesis by simp
qed

lemma mul_carry:
  assumes "unat u * unat v + n < B64 * B64" "n < B64 + B64" "unat w + B64 * c = unat (u * v) + n"
  shows "unat (umul_hi u v) + c < B64"
proof -
  have "B64 * (unat (umul_hi u v) + c) \<le> unat u * unat v + n"
    using umul [of u v] assms(3) by (simp add: algebra_simps)
  also have "\<dots> < B64 * B64" by (rule assms(1))
  finally show ?thesis by simp
qed

lemma max_product: "unat (u :: limb) * unat (v :: limb) \<le> (B64 - 1) * (B64 - 1)"
  using unat_limb [of u] unat_limb [of v] by (intro mult_le_mono) auto

lemma mul_1_step:
  fixes ul vl cl :: limb
  defines "l \<equiv> ul * vl + cl"
  shows "unat l + B64 * unat (of_bool (l < cl) + umul_hi ul vl) = unat ul * unat vl + unat cl"
proof -
  let ?c = "of_bool (B64 \<le> unat (ul * vl) + unat cl) :: nat"
  have 1: "unat l + B64 * ?c = unat (ul * vl) + unat cl" unfolding l_def by (rule unat_add_carry)
  have "unat (umul_hi ul vl) + ?c < B64"
    by (rule mul_carry [of ul vl "unat cl" l]) (use 1 max_product [of ul vl] unat_limb [of cl] in auto)
  then have "unat (of_bool (l < cl) + umul_hi ul vl) = ?c + unat (umul_hi ul vl)"
    unfolding l_def carry_less unat_plus by (auto simp: add.commute)
  then show ?thesis using 1 umul [of ul vl] by (simp add: algebra_simps)
qed

lemma mul_1_loop_value:
  "mul_1_loop cl us vl = (r, co) \<Longrightarrow> length r = length us \<and>
     mpv r + 2 ^ (64 * length us) * unat co = mpv us * unat vl + unat cl"
proof (induction us arbitrary: cl r co)
  case Nil
  then show ?case by simp
next
  case (Cons ul us)
  let ?l = "ul * vl + cl" let ?c = "of_bool (?l < cl) + umul_hi ul vl"
  obtain rs where rs: "mul_1_loop ?c us vl = (rs, co)" "r = ?l # rs"
    using Cons.prems by (auto simp: Let_def split: prod.splits)
  have l: "length rs = length us" and v: "mpv rs + 2 ^ (64 * length us) * unat co = mpv us * unat vl + unat ?c"
    using Cons.IH [OF rs(1)] by auto
  have "mpv r + 2 ^ (64 * length (ul # us)) * unat co = unat ?l + B64 * (mpv rs + 2 ^ (64 * length us) * unat co)"
    by (simp add: rs(2) power_add algebra_simps)
  also have "\<dots> = (unat ?l + B64 * unat ?c) + B64 * (mpv us * unat vl)" unfolding v by (simp add: algebra_simps)
  also have "\<dots> = mpv (ul # us) * unat vl + unat cl" unfolding mul_1_step by (simp add: algebra_simps)
  finally show ?case using l rs(2) by simp
qed

lemma addmul_1_step:
  fixes rl ul vl cl :: limb
  defines "l \<equiv> ul * vl + cl"
  shows "unat (rl + l) + B64 * unat (of_bool (l < cl) + umul_hi ul vl + of_bool (rl + l < rl)) = unat rl + unat ul * unat vl + unat cl"
proof -
  let ?c = "of_bool (l < cl) + umul_hi ul vl"
  let ?d = "of_bool (B64 \<le> unat rl + unat l) :: nat"
  have 1: "unat (rl + l) + B64 * ?d = unat rl + unat l" by (rule unat_add_carry)
  have 2: "unat l + B64 * unat ?c = unat ul * unat vl + unat cl" unfolding l_def by (rule mul_1_step)
  have d: "(rl + l < rl) = (B64 \<le> unat rl + unat l)" using carry_less [of l rl] by (simp add: add.commute)
  have "B64 * (unat ?c + ?d) \<le> unat rl + unat ul * unat vl + unat cl" using 1 2 by (simp add: algebra_simps)
  also have "\<dots> < B64 * B64" using max_product [of ul vl] unat_limb [of rl] unat_limb [of cl] by simp
  finally have "unat ?c + ?d < B64" by simp
  then have "unat (?c + of_bool (rl + l < rl)) = unat ?c + ?d"
    unfolding d unat_plus [of ?c] by auto
  then show ?thesis using 1 2 by (simp add: algebra_simps)
qed

lemma addmul_1_loop_value:
  "length rp = length us \<Longrightarrow> addmul_1_loop cl rp us vl = (r, co) \<Longrightarrow> length r = length us \<and>
     mpv r + 2 ^ (64 * length us) * unat co = mpv rp + mpv us * unat vl + unat cl"
proof (induction rp us arbitrary: cl r co rule: list_induct2)
  case Nil
  then show ?case by simp
next
  case (Cons rl rp ul us)
  let ?l = "ul * vl + cl" let ?c = "of_bool (?l < cl) + umul_hi ul vl + of_bool (rl + ?l < rl)"
  obtain rs where rs: "addmul_1_loop ?c rp us vl = (rs, co)" "r = (rl + ?l) # rs"
    using Cons.prems by (auto simp: Let_def split: prod.splits)
  have l: "length rs = length us" and v: "mpv rs + 2 ^ (64 * length us) * unat co = mpv rp + mpv us * unat vl + unat ?c"
    using Cons.IH [OF rs(1)] by auto
  have "mpv r + 2 ^ (64 * length (ul # us)) * unat co = unat (rl + ?l) + B64 * (mpv rs + 2 ^ (64 * length us) * unat co)"
    by (simp add: rs(2) power_add algebra_simps)
  also have "\<dots> = (unat (rl + ?l) + B64 * unat ?c) + B64 * (mpv rp + mpv us * unat vl)" unfolding v by (simp add: algebra_simps)
  also have "\<dots> = mpv (rl # rp) + mpv (ul # us) * unat vl + unat cl" unfolding addmul_1_step by (simp add: algebra_simps)
  finally show ?case using l rs(2) by simp
qed

lemma mpn_mul_1_value: "mpn_mul_1 us v = (r, co) \<Longrightarrow> length r = length us \<and> mpv r + 2 ^ (64 * length us) * unat co = mpv us * unat v"
  using mul_1_loop_value [of 0 us v r co] by (simp add: mpn_mul_1_def)

lemma mpn_addmul_1_value: "length rp = length us \<Longrightarrow> mpn_addmul_1 rp us v = (r, co) \<Longrightarrow>
    length r = length us \<and> mpv r + 2 ^ (64 * length us) * unat co = mpv rp + mpv us * unat v"
  using addmul_1_loop_value [of rp us 0 v r co] by (simp add: mpn_addmul_1_def)

lemma mpn_add_value: "length x = length y \<Longrightarrow> mpn_add_n_with_carry x y = (r, c) \<Longrightarrow>
    length r = length x \<and> mpv r + 2 ^ (64 * length x) * of_bool c = mpv x + mpv y"
  using add_carry_value [of x y False r c] by (simp add: mpn_add_n_with_carry_def)

lemma mpn_sub_value: "length x = length y \<Longrightarrow> mpn_sub_n_borrow x y = (r, b) \<Longrightarrow>
    length r = length x \<and> mpv r + mpv y = mpv x + 2 ^ (64 * length x) * of_bool b"
  using sub_borrow_value [of x y False r b] by (simp add: mpn_sub_n_borrow_def)

lemma mpn_add_fixed_n_value:
  assumes "length x = length y"
  shows "length (mpn_add_fixed_n x y) = length x" "mpv (mpn_add_fixed_n x y) = (mpv x + mpv y) mod 2 ^ (64 * length x)"
proof -
  obtain r c where r: "mpn_add_n_with_carry x y = (r, c)" by force
  note v = mpn_add_value [OF assms r]
  then show "length (mpn_add_fixed_n x y) = length x" by (simp add: mpn_add_fixed_n_def r)
  have "(mpv x + mpv y) mod 2 ^ (64 * length x) = mpv r mod 2 ^ (64 * length x)"
    using v by (metis mod_mult_self2)
  then show "mpv (mpn_add_fixed_n x y) = (mpv x + mpv y) mod 2 ^ (64 * length x)"
    using mpv_less [of r] v by (simp add: mpn_add_fixed_n_def r)
qed

lemma mpn_sub_fixed_n_value:
  assumes "length x = length y"
  shows "length (mpn_sub_fixed_n x y) = length x"
    "int (mpv (mpn_sub_fixed_n x y)) = (int (mpv x) - int (mpv y)) mod 2 ^ (64 * length x)"
proof -
  obtain r b where r: "mpn_sub_n_borrow x y = (r, b)" by force
  note v = mpn_sub_value [OF assms r]
  then show "length (mpn_sub_fixed_n x y) = length x" by (simp add: mpn_sub_fixed_n_def r)
  have "int (mpv r) + int (mpv y) = int (mpv x) + 2 ^ (64 * length x) * of_bool b"
    using v by (metis (mono_tags) of_nat_add of_nat_mult of_nat_numeral of_nat_of_bool of_nat_power)
  then have "int (mpv x) - int (mpv y) = int (mpv r) - 2 ^ (64 * length x) * of_bool b" by simp
  then have "(int (mpv x) - int (mpv y)) mod 2 ^ (64 * length x) = int (mpv r) mod 2 ^ (64 * length x)"
    by (metis mod_mult_self2 diff_conv_add_uminus mult_minus_right)
  moreover have "int (mpv r) < 2 ^ (64 * length x)"
    using mpv_less [of r] v by (metis of_nat_less_iff of_nat_numeral of_nat_power)
  ultimately show "int (mpv (mpn_sub_fixed_n x y)) = (int (mpv x) - int (mpv y)) mod 2 ^ (64 * length x)"
    by (simp add: mpn_sub_fixed_n_def r)
qed

lemma products_value:
  "mpv (map (\<lambda>v. x * v) ys) + B64 * mpv (map (umul_hi x) ys) = mpv ys * unat x"
proof (induction ys)
  case Nil
  then show ?case by simp
next
  case (Cons y ys)
  have "mpv (map (\<lambda>v. x * v) (y # ys)) + B64 * mpv (map (umul_hi x) (y # ys)) =
      (unat (x * y) + B64 * unat (umul_hi x y)) + B64 * (mpv (map (\<lambda>v. x * v) ys) + B64 * mpv (map (umul_hi x) ys))"
    by (simp add: algebra_simps)
  then show ?case unfolding Cons.IH umul by (simp add: algebra_simps)
qed

text \<open>What one accumulation leaves in the window, modulo its size.\<close>

lemma mod_append_pass:
  fixes a b n :: nat
  assumes "0 < k"
  shows "(a mod B64 + B64 * ((a div B64 + b) mod 2 ^ (64 * (k - 1)))) mod 2 ^ (64 * k) = (a + B64 * b) mod 2 ^ (64 * k)"
proof -
  obtain j where k: "k = Suc j" using assms by (cases k) auto
  have p: "(2 :: nat) ^ (64 * k) = B64 * 2 ^ (64 * j)" by (simp add: k power_add)
  have "(a + B64 * b) = a mod B64 + B64 * (a div B64 + b)" by (simp add: algebra_simps)
  then have "(a + B64 * b) mod 2 ^ (64 * k) = (a mod B64 + (B64 * (a div B64 + b)) mod (B64 * 2 ^ (64 * j))) mod 2 ^ (64 * k)"
    by (simp add: p mod_simps)
  then show ?thesis by (simp add: k mult_mod_right)
qed

lemma addmul_1_fixed_value:
  assumes "0 < L" "L \<le> M + 1" "M \<le> length y" "add \<Longrightarrow> length res = L"
  shows "length (addmul_1_fixed L M add res y x) = L"
    "mpv (addmul_1_fixed L M add res y x) = ((if add then mpv res else 0) + mpv (take M y) * unat x) mod 2 ^ (64 * L)"
proof -
  let ?y = "take M y"
  have ix: "map (\<lambda>j. f (y ! j)) [0..<M] = map f ?y" for f :: "limb \<Rightarrow> limb"
    using assms(3) by (intro nth_equalityI) auto
  define lower where "lower = take L (map (\<lambda>v. x * v) ?y @ [0])"
  define higher where "higher = take L (map (umul_hi x) ?y @ [0])"
  define res1 where "res1 = (if add then mpn_add_fixed_n lower res else lower)"
  have l: "length lower = L" "length higher = L" using assms(2,3) by (simp_all add: lower_def higher_def)
  have r1: "length res1 = L" "mpv res1 = (mpv lower + (if add then mpv res else 0)) mod 2 ^ (64 * L)"
    using mpn_add_fixed_n_value [of lower res] mpv_less [of lower] l assms(4) by (auto simp: res1_def)
  define r2 where "r2 = mpn_add_fixed_n (take (L - 1) higher) (drop 1 res1)"
  have r2: "length r2 = L - 1" "mpv r2 = (mpv (take (L - 1) higher) + mpv (drop 1 res1)) mod 2 ^ (64 * (L - 1))"
    using mpn_add_fixed_n_value [of "take (L - 1) higher" "drop 1 res1"] l r1 by (simp_all add: r2_def)
  have e: "addmul_1_fixed L M add res y x = take 1 res1 @ r2"
    unfolding addmul_1_fixed_def Let_def ix r2_def res1_def lower_def higher_def by (rule refl)
  show "length (addmul_1_fixed L M add res y x) = L" unfolding e using r1 r2 assms(1) by simp
  have t: "mpv (take 1 res1) = mpv res1 mod B64" "mpv (drop 1 res1) = mpv res1 div B64"
    using mpv_take [of 1 res1] mpv_drop [of 1 res1] r1 assms(1) by simp_all
  have full: "mpv (map (\<lambda>v. x * v) ?y @ [0]) + B64 * mpv (map (umul_hi x) ?y @ [0]) = mpv ?y * unat x"
    using products_value [of x ?y] by (simp add: mpv_append)
  have lo: "mpv lower = mpv (map (\<lambda>v. x * v) ?y @ [0]) mod 2 ^ (64 * L)"
    unfolding lower_def using assms(2,3) by (intro mpv_take) simp
  have hi: "mpv (take (L - 1) higher) = mpv (map (umul_hi x) ?y @ [0]) mod 2 ^ (64 * (L - 1))"
    unfolding higher_def take_take using assms(1,2,3) by (simp add: mpv_take mpv_append)
  have "mpv (take 1 res1 @ r2) = mpv res1 mod B64 + B64 * ((mpv res1 div B64 + mpv (take (L - 1) higher)) mod 2 ^ (64 * (L - 1)))"
    unfolding mpv_append t(1) r2(2) t(2) using r1 assms(1) by (simp add: add.commute)
  moreover have "\<dots> < 2 ^ (64 * L)"
    using mpv_less [of "take 1 res1 @ r2"] r1 r2 assms(1) unfolding calculation by simp
  ultimately have "mpv (take 1 res1 @ r2) = (mpv res1 + B64 * mpv (take (L - 1) higher)) mod 2 ^ (64 * L)"
    using mod_append_pass [OF assms(1), of "mpv res1" "mpv (take (L - 1) higher)"] by simp
  also have "\<dots> = (mpv res1 + B64 * mpv (map (umul_hi x) ?y @ [0])) mod 2 ^ (64 * L)"
  proof -
    have p: "(2 :: nat) ^ (64 * L) = B64 * 2 ^ (64 * (L - 1))" using assms(1) by (cases L) (simp_all add: power_add)
    have "B64 * mpv (take (L - 1) higher) = (B64 * mpv (map (umul_hi x) ?y @ [0])) mod 2 ^ (64 * L)"
      unfolding hi p mult_mod_right ..
    then show ?thesis by (simp add: mod_simps)
  qed
  also have "\<dots> = ((if add then mpv res else 0) + (mpv (map (\<lambda>v. x * v) ?y @ [0]) + B64 * mpv (map (umul_hi x) ?y @ [0]))) mod 2 ^ (64 * L)"
    unfolding r1(2) lo by (simp add: mod_simps add_ac)
  finally show "mpv (addmul_1_fixed L M add res y x) = ((if add then mpv res else 0) + mpv ?y * unat x) mod 2 ^ (64 * L)"
    unfolding e full .
qed

subsection \<open>Windows\<close>

lemma length_win: "i + n \<le> length a \<Longrightarrow> length (win i n a) = n"
  by (simp add: win_def)

lemma length_put: "i + length xs \<le> length a \<Longrightarrow> length (put i xs a) = length a"
  by (simp add: put_def)

lemma mpv_win: "i + n \<le> length a \<Longrightarrow> mpv (win i n a) = mpv a div 2 ^ (64 * i) mod 2 ^ (64 * n)"
  by (simp add: win_def mpv_take mpv_drop)

lemma split_win:
  assumes "i + n \<le> length a"
  shows "a = take i a @ win i n a @ drop (i + n) a"
  by (metis append_take_drop_id drop_drop add.commute win_def)

lemma mpv_put:
  assumes "i + length xs \<le> length a"
  shows "mpv (put i xs a) + 2 ^ (64 * i) * mpv (win i (length xs) a) = mpv a + 2 ^ (64 * i) * mpv xs"
proof -
  have "mpv a = mpv (take i a) + 2 ^ (64 * i) * (mpv (win i (length xs) a) + 2 ^ (64 * length xs) * mpv (drop (i + length xs) a))"
    using arg_cong [where f = mpv, OF split_win [OF assms]] assms by (simp add: mpv_append length_win)
  then show ?thesis using assms by (simp add: put_def mpv_append algebra_simps)
qed

lemma addmul_at_length:
  "0 < L \<Longrightarrow> L \<le> M + 1 \<Longrightarrow> M \<le> length y \<Longrightarrow> i + L \<le> length tmp \<Longrightarrow> length (addmul_at i L M y x tmp) = length tmp"
  unfolding addmul_at_def using addmul_1_fixed_value(1) [of L M y True "win i L tmp" x]
  by (subst length_put) (simp_all add: length_win)

text \<open>Nothing is lost while the window can hold the sum.\<close>

lemma addmul_at_exact:
  assumes "0 < L" "L \<le> M + 1" "M \<le> length y" "i + L \<le> length tmp"
    and "mpv (win i L tmp) + mpv (take M y) * unat x < 2 ^ (64 * L)"
  shows "mpv (addmul_at i L M y x tmp) = mpv tmp + 2 ^ (64 * i) * (mpv (take M y) * unat x)"
proof -
  let ?r = "addmul_1_fixed L M True (win i L tmp) y x"
  have r: "length ?r = L" "mpv ?r = mpv (win i L tmp) + mpv (take M y) * unat x"
    using addmul_1_fixed_value [of L M y True "win i L tmp" x] assms by (simp_all add: length_win)
  from mpv_put [of i ?r tmp] show ?thesis
    unfolding addmul_at_def r(1) r(2) using assms(4) by (simp add: distrib_left)
qed

text \<open>At the end of the array what is lost lies beyond it.\<close>

lemma mod_shift: "((a :: int) + c mod m - d) mod m = (a + c - d) mod m"
  by (metis mod_add_right_eq mod_diff_left_eq)

lemma addmul_at_end:
  assumes "0 < L" "L \<le> M + 1" "M \<le> length y" "i + L = length tmp"
  shows "mpv (addmul_at i L M y x tmp) = (mpv tmp + 2 ^ (64 * i) * (mpv (take M y) * unat x)) mod 2 ^ (64 * length tmp)"
proof -
  let ?r = "addmul_1_fixed L M True (win i L tmp) y x" and ?s = "mpv (win i L tmp) + mpv (take M y) * unat x"
  have r: "length ?r = L" "mpv ?r = ?s mod 2 ^ (64 * L)"
    using addmul_1_fixed_value [of L M y True "win i L tmp" x] assms by (simp_all add: length_win)
  have p: "(2 :: nat) ^ (64 * length tmp) = 2 ^ (64 * i) * 2 ^ (64 * L)"
    by (simp add: assms(4) [symmetric] distrib_left power_add)
  have e: "mpv (put i ?r tmp) + 2 ^ (64 * i) * mpv (win i L tmp) = mpv tmp + (2 ^ (64 * i) * ?s) mod 2 ^ (64 * length tmp)"
    using mpv_put [of i ?r tmp] assms(4) unfolding r p mult_mod_right by simp
  have "int (mpv (put i ?r tmp)) mod 2 ^ (64 * length tmp) =
      (int (mpv tmp + (2 ^ (64 * i) * ?s) mod 2 ^ (64 * length tmp)) - int (2 ^ (64 * i) * mpv (win i L tmp))) mod 2 ^ (64 * length tmp)"
    unfolding e [symmetric] by simp
  also have "\<dots> = (int (mpv tmp) + int (2 ^ (64 * i) * ?s) - int (2 ^ (64 * i) * mpv (win i L tmp))) mod 2 ^ (64 * length tmp)"
    unfolding of_nat_add [of "mpv tmp"] zmod_int of_nat_power of_nat_numeral by (rule mod_shift)
  also have "\<dots> = int (mpv tmp + 2 ^ (64 * i) * (mpv (take M y) * unat x)) mod 2 ^ (64 * length tmp)"
    by (simp add: distrib_left)
  finally have "int (mpv (put i ?r tmp) mod 2 ^ (64 * length tmp)) = int ((mpv tmp + 2 ^ (64 * i) * (mpv (take M y) * unat x)) mod 2 ^ (64 * length tmp))"
    by (simp add: zmod_int)
  moreover have "mpv (put i ?r tmp) < 2 ^ (64 * length tmp)"
    using mpv_less [of "put i ?r tmp"] assms(4) r(1) by (simp add: length_put)
  ultimately show ?thesis unfolding addmul_at_def by simp
qed

lemma take_nth_value: "n < length x \<Longrightarrow> mpv (take (Suc n) x) = mpv (take n x) + 2 ^ (64 * n) * unat (x ! n)"
  by (simp add: take_Suc_conv_app_nth mpv_append)

lemma mul_fixed_loop:
  assumes "length x = N" "length y = M" "n \<le> N"
  defines "f \<equiv> \<lambda>n. foldl (\<lambda>tmp i. addmul_at i (M + 1) M y (x ! i) tmp) (replicate (N + M + 2) 0) [0..<n]"
  shows "length (f n) = N + M + 2 \<and> mpv (f n) = mpv (take n x) * mpv y"
  using assms(3)
proof (induction n)
  case 0
  then show ?case by (simp add: f_def)
next
  case (Suc n)
  then have ih: "length (f n) = N + M + 2" "mpv (f n) = mpv (take n x) * mpv y" and n: "n < N" by auto
  have fs: "f (Suc n) = addmul_at n (M + 1) M y (x ! n) (f n)" by (simp add: f_def)
  have "mpv (take n x) * mpv y < 2 ^ (64 * n) * 2 ^ (64 * M)"
    using mpv_less [of "take n x"] mpv_less [of y] assms(1,2) n by (intro mult_strict_mono') auto
  then have d: "mpv (f n) div 2 ^ (64 * n) < 2 ^ (64 * M)" unfolding ih(2) by (simp add: div_less_iff_less_mult mult.commute)
  have yx: "mpv y * unat (x ! n) \<le> (2 ^ (64 * M) - 1) * (B64 - 1)"
    using mpv_less [of y] unat_limb [of "x ! n"] assms(2) by (intro mult_le_mono) auto
  have "mpv (win n (M + 1) (f n)) \<le> mpv (f n) div 2 ^ (64 * n)"
    using mpv_win [of n "M + 1" "f n"] ih(1) n by simp
  moreover have "2 ^ (64 * M) + (2 ^ (64 * M) - 1) * (B64 - 1) \<le> (2 :: nat) ^ (64 * (M + 1))"
  proof -
    have "(2 ^ (64 * M) - 1) * (B64 - 1) \<le> 2 ^ (64 * M) * (B64 - 1)" by (intro mult_le_mono) auto
    moreover have "2 ^ (64 * M) + 2 ^ (64 * M) * (B64 - 1) = (2 :: nat) ^ (64 * (M + 1))" by (simp add: power_add algebra_simps)
    ultimately show ?thesis by linarith
  qed
  ultimately have fit: "mpv (win n (M + 1) (f n)) + mpv (take M y) * unat (x ! n) < 2 ^ (64 * (M + 1))"
    using d yx assms(2) by simp
  have "mpv (f (Suc n)) = mpv (f n) + 2 ^ (64 * n) * (mpv y * unat (x ! n))"
    unfolding fs using addmul_at_exact [of "M + 1" M y n "f n" "x ! n"] fit ih(1) n assms(2) by simp
  also have "\<dots> = mpv (take (Suc n) x) * mpv y"
    using n assms(1) by (simp add: ih(2) take_nth_value algebra_simps)
  finally show ?case using addmul_at_length [of "M + 1" M y n "f n" "x ! n"] ih(1) n assms(2) by (simp add: fs)
qed

lemma list_1: "length x = Suc 0 \<Longrightarrow> \<exists>a. x = [a]"
  by (simp add: length_Suc_conv)

lemma list_2: "length x = 2 \<Longrightarrow> \<exists>a b. x = [a, b]"
  by (cases x) (auto dest: list_1)

lemma list_3: "length x = 3 \<Longrightarrow> \<exists>a b c. x = [a, b, c]"
  by (cases x) (auto dest: list_2)

lemma list_4: "length x = 4 \<Longrightarrow> \<exists>a b c d. x = [a, b, c, d]"
  by (cases x) (auto dest: list_3)

lemma mpv_list: "length x = 1 \<Longrightarrow> mpv x = unat (x ! 0)"
  "length x = 2 \<Longrightarrow> mpv x = unat (x ! 0) + B64 * unat (x ! 1)"
  "length x = 3 \<Longrightarrow> mpv x = unat (x ! 0) + B64 * unat (x ! 1) + 2 ^ 128 * unat (x ! 2)"
  "length x = 4 \<Longrightarrow> mpv x = unat (x ! 0) + B64 * unat (x ! 1) + 2 ^ 128 * unat (x ! 2) + 2 ^ 192 * unat (x ! 3)"
  by (auto dest!: list_1 list_2 list_3 list_4 simp: algebra_simps)

text \<open>The schoolbook sum of the special versions.\<close>

lemma schoolbook: fixes y a b c d p q r :: nat
  shows "y * a + p * (y * b) = (a + p * b) * y" "y * a + p * (y * b) + q * (y * c) = (a + p * b + q * c) * y"
    "y * a + p * (y * b) + q * (y * c) + r * (y * d) = (a + p * b + q * c + r * d) * y"
  by (simp_all add: algebra_simps)

lemma mpv_list_powers:
  "length x = 2 \<Longrightarrow> unat (x ! 0) + 2 ^ (64 * 1) * unat (x ! 1) = mpv x"
  "length x = 3 \<Longrightarrow> unat (x ! 0) + 2 ^ (64 * 1) * unat (x ! 1) + 2 ^ (64 * 2) * unat (x ! 2) = mpv x"
  "length x = 4 \<Longrightarrow> unat (x ! 0) + 2 ^ (64 * 1) * unat (x ! 1) + 2 ^ (64 * 2) * unat (x ! 2) + 2 ^ (64 * 3) * unat (x ! 3) = mpv x"
  using mpv_list [of x] by simp_all

text \<open>Truncating an operand does not change the low limbs of the product.\<close>

lemma mod_add_zero: "(z :: nat) mod m = 0 \<Longrightarrow> (a + b) mod m = (a + (b + z)) mod m"
  by (metis add.assoc add_0_right mod_add_right_eq)

lemma mod_mul_take: "k + M \<ge> L \<Longrightarrow> M \<le> length y \<Longrightarrow>
    (a + 2 ^ (64 * k) * (mpv (take M y) * c)) mod 2 ^ (64 * L) = (a + 2 ^ (64 * k) * (mpv y * c)) mod 2 ^ (64 * L)"
proof -
  assume h: "k + M \<ge> L" "M \<le> length y"
  have "mpv y * c = mpv (take M y) * c + 2 ^ (64 * M) * (mpv (drop M y) * c)"
    unfolding mpv_take_drop [OF h(2)] by (simp only: distrib_right mult.assoc)
  then have e: "2 ^ (64 * k) * (mpv y * c) = 2 ^ (64 * k) * (mpv (take M y) * c) + 2 ^ (64 * (k + M)) * (mpv (drop M y) * c)"
    by (simp only: distrib_left power_add mult.assoc)
  have "(2 :: nat) ^ (64 * L) dvd 2 ^ (64 * (k + M))" using h(1) by (intro le_imp_power_dvd mult_le_mono) auto
  then have "(2 ^ (64 * (k + M)) * (mpv (drop M y) * c)) mod 2 ^ (64 * L) = 0" by (intro dvd_imp_mod_0 dvd_mult2)
  then show ?thesis unfolding e by (rule mod_add_zero)
qed

lemma mul_fixed_222_value:
  assumes "length x = 2" "length y = 2"
  shows "length (mul_fixed_222 x y) = 2 \<and> mpv (mul_fixed_222 x y) = mpv x * mpv y mod 2 ^ 128"
proof -
  let ?a = "addmul_1_fixed 2 2 False [] y (x ! 0)"
  have a: "length ?a = 2" "mpv ?a = mpv y * unat (x ! 0) mod 2 ^ (64 * 2)"
    using addmul_1_fixed_value [of 2 2 y False "[]" "x ! 0"] assms by simp_all
  have "mpv (mul_fixed_222 x y) = (mpv ?a + 2 ^ (64 * 1) * (mpv (take 1 y) * unat (x ! 1))) mod 2 ^ (64 * 2)"
    unfolding mul_fixed_222_def using addmul_at_end [of 1 1 y 1 ?a "x ! 1"] a assms by simp
  also have "\<dots> = (mpv ?a + 2 ^ (64 * 1) * (mpv y * unat (x ! 1))) mod 2 ^ (64 * 2)"
    using assms by (intro mod_mul_take) simp_all
  also have "\<dots> = (mpv y * unat (x ! 0) + 2 ^ (64 * 1) * (mpv y * unat (x ! 1))) mod 2 ^ (64 * 2)"
    unfolding a(2) by (rule mod_add_left_eq)
  also have "mpv y * unat (x ! 0) + 2 ^ (64 * 1) * (mpv y * unat (x ! 1)) = mpv x * mpv y"
    unfolding schoolbook(1) mpv_list_powers(1) [OF assms(1)] ..
  finally show ?thesis using addmul_at_length [of 1 1 y 1 ?a "x ! 1"] a assms by (simp add: mul_fixed_222_def)
qed

lemma mul_fixed_333_value:
  assumes "length x = 3" "length y = 3"
  shows "length (mul_fixed_333 x y) = 3 \<and> mpv (mul_fixed_333 x y) = mpv x * mpv y mod 2 ^ 192"
proof -
  let ?a = "addmul_at 0 3 3 y (x ! 0) (replicate 3 0)" let ?b = "addmul_at 1 2 2 y (x ! 1) ?a"
  have la: "length ?a = 3" "length ?b = 3" "length (mul_fixed_333 x y) = 3"
    using addmul_at_length [of 3 3 y 0 "replicate 3 0" "x ! 0"] addmul_at_length [of 2 2 y 1 ?a "x ! 1"]
      addmul_at_length [of 1 1 y 2 ?b "x ! 2"] assms by (simp_all add: mul_fixed_333_def)
  have a: "mpv ?a = (0 + 2 ^ (64 * 0) * (mpv y * unat (x ! 0))) mod 2 ^ (64 * 3)"
    using addmul_at_end [of 3 3 y 0 "replicate 3 0" "x ! 0"] assms by simp
  have b: "mpv ?b = (mpv ?a + 2 ^ (64 * 1) * (mpv y * unat (x ! 1))) mod 2 ^ (64 * 3)"
    using addmul_at_end [of 2 2 y 1 ?a "x ! 1"] mod_mul_take [of 3 1 2 y "mpv ?a" "unat (x ! 1)"] la assms by simp
  have c: "mpv (mul_fixed_333 x y) = (mpv ?b + 2 ^ (64 * 2) * (mpv y * unat (x ! 2))) mod 2 ^ (64 * 3)"
    unfolding mul_fixed_333_def
    using addmul_at_end [of 1 1 y 2 ?b "x ! 2"] mod_mul_take [of 3 2 1 y "mpv ?b" "unat (x ! 2)"] la assms by simp
  have "mpv (mul_fixed_333 x y) = (mpv y * unat (x ! 0) + 2 ^ (64 * 1) * (mpv y * unat (x ! 1)) + 2 ^ (64 * 2) * (mpv y * unat (x ! 2))) mod 2 ^ (64 * 3)"
    unfolding c b a mod_add_left_eq by simp
  also have "mpv y * unat (x ! 0) + 2 ^ (64 * 1) * (mpv y * unat (x ! 1)) + 2 ^ (64 * 2) * (mpv y * unat (x ! 2)) = mpv x * mpv y"
    unfolding schoolbook(2) mpv_list_powers(2) [OF assms(1)] ..
  finally show ?thesis using la by simp
qed

lemma mul_fixed_442_value:
  assumes "length x = 4" "length y = 2"
  shows "length (mul_fixed_442 x y) = 4 \<and> mpv (mul_fixed_442 x y) = mpv x * mpv y mod 2 ^ 256"
proof -
  let ?a = "addmul_at 0 3 2 y (x ! 0) (replicate 4 0)" let ?b = "addmul_at 1 3 2 y (x ! 1) ?a" let ?c = "addmul_at 2 2 2 y (x ! 2) ?b"
  have la: "length ?a = 4" "length ?b = 4" "length ?c = 4" "length (mul_fixed_442 x y) = 4"
    using addmul_at_length [of 3 2 y 0 "replicate 4 0" "x ! 0"] addmul_at_length [of 3 2 y 1 ?a "x ! 1"]
      addmul_at_length [of 2 2 y 2 ?b "x ! 2"] addmul_at_length [of 1 1 y 3 ?c "x ! 3"] assms by (simp_all add: mul_fixed_442_def)
  have "mpv y * unat (x ! 0) < 2 ^ 192"
  proof -
    have "mpv y * unat (x ! 0) < 2 ^ (64 * 2) * B64"
      using mpv_less [of y] unat_limb [of "x ! 0"] assms by (intro mult_strict_mono') auto
    then show ?thesis by simp
  qed
  then have a: "mpv ?a = mpv y * unat (x ! 0)"
    using addmul_at_exact [of 3 2 y 0 "replicate 4 0" "x ! 0"] assms by (simp add: win_def)
  have b: "mpv ?b = (mpv ?a + 2 ^ (64 * 1) * (mpv y * unat (x ! 1))) mod 2 ^ (64 * 4)"
    using addmul_at_end [of 3 2 y 1 ?a "x ! 1"] la assms by simp
  have c: "mpv ?c = (mpv ?b + 2 ^ (64 * 2) * (mpv y * unat (x ! 2))) mod 2 ^ (64 * 4)"
    using addmul_at_end [of 2 2 y 2 ?b "x ! 2"] la assms by simp
  have d: "mpv (mul_fixed_442 x y) = (mpv ?c + 2 ^ (64 * 3) * (mpv y * unat (x ! 3))) mod 2 ^ (64 * 4)"
    unfolding mul_fixed_442_def
    using addmul_at_end [of 1 1 y 3 ?c "x ! 3"] mod_mul_take [of 4 3 1 y "mpv ?c" "unat (x ! 3)"] la assms by simp
  have "mpv (mul_fixed_442 x y) = (mpv y * unat (x ! 0) + 2 ^ (64 * 1) * (mpv y * unat (x ! 1)) + 2 ^ (64 * 2) * (mpv y * unat (x ! 2))
      + 2 ^ (64 * 3) * (mpv y * unat (x ! 3))) mod 2 ^ (64 * 4)"
    unfolding d c b a mod_add_left_eq by (simp add: add.assoc)
  also have "mpv y * unat (x ! 0) + 2 ^ (64 * 1) * (mpv y * unat (x ! 1)) + 2 ^ (64 * 2) * (mpv y * unat (x ! 2))
      + 2 ^ (64 * 3) * (mpv y * unat (x ! 3)) = mpv x * mpv y"
    unfolding schoolbook(3) mpv_list_powers(3) [OF assms(1)] ..
  finally show ?thesis using la by simp
qed

theorem mpn_mul_fixed_value:
  assumes "length x = N" "length y = M" "mpn_mul_fixed L N M x y = Inr r"
  shows "length r = L \<and> mpv r = mpv x * mpv y mod 2 ^ (64 * L)"
proof -
  consider "(L, N, M) = (1, 1, 1)" | "(L, N, M) = (2, 2, 2)" | "(L, N, M) = (3, 3, 3)" | "(L, N, M) = (4, 4, 2)"
    | "r = mul_fixed_gen L N M x y" "L \<le> N + M + 2"
    using assms(3) by (auto simp: mpn_mul_fixed_def res_simps split: if_splits)
  then show ?thesis
  proof cases
    case 1
    then show ?thesis using assms by (auto simp: mpn_mul_fixed_def mpv_list(1) [unfolded One_nat_def] unat_word_ariths)
  next
    case 2
    then show ?thesis using assms mul_fixed_222_value [of x y] by (simp add: mpn_mul_fixed_def)
  next
    case 3
    then show ?thesis using assms mul_fixed_333_value [of x y] by (simp add: mpn_mul_fixed_def)
  next
    case 4
    then show ?thesis using assms mul_fixed_442_value [of x y] by (simp add: mpn_mul_fixed_def)
  next
    case 5
    then show ?thesis using mul_fixed_loop [OF assms(1,2), of N] assms(1) by (simp add: mul_fixed_gen_def mpv_take)
  qed
qed

end
