(* ===== verification/Montgomery.thy ===== *)
theory Montgomery
  imports Limbs
begin

text \<open>
  \<^verbatim>\<open>Math/Zp_Data.h\<close> and \<^verbatim>\<open>Math/Zp_Data.cpp\<close>: arithmetic modulo a prime of up to
  \<open>MAX_MOD_SZ\<close> limbs in Montgomery representation. The array \<open>ans\<close> of the product is kept as
  in the source, with the windows the loop works on; its initial contents are an argument where
  the source leaves them uninitialised. Only the first \<open>t\<close> limbs of a number are read or
  written.
\<close>

unbundle bit_operations_syntax

subsection \<open>State\<close>

definition MAX_MOD_SZ :: nat where "MAX_MOD_SZ = 10"

record zp_data =
  zp_montgomery :: bool
  zp_R :: "limb list"
  zp_R2 :: "limb list"
  zp_R3 :: "limb list"
  zp_pi :: limb
  zp_prA :: "limb list"
  zp_t :: nat
  zp_overhang :: limb
  zp_pr :: nat
  zp_pr_half :: nat
  zp_mask :: limb
  zp_byte_length :: nat
  zp_bit_length :: nat

fun limbs_of :: "nat \<Rightarrow> nat \<Rightarrow> limb list" where
  "limbs_of 0 v = []"
| "limbs_of (Suc n) v = of_nat v # limbs_of n (v div B64)"

text \<open>\<^verbatim>\<open>mpz_sizeinbase(v, 2)\<close> and \<^verbatim>\<open>mpz_size\<close>.\<close>

fun num_bits :: "nat \<Rightarrow> nat" where
  "num_bits v = (if v \<le> 1 then 1 else Suc (num_bits (v div 2)))"

declare num_bits.simps [simp del]

definition num_limbs :: "nat \<Rightarrow> nat" where
  "num_limbs v = (if v = 0 then 0 else (num_bits v + 63) div 64)"

text \<open>
  \<^verbatim>\<open>Zp_Data::init\<close>. Without Montgomery form the code leaves \<open>R\<close>, \<open>R2\<close>, \<open>R3\<close> and \<open>pi\<close> as
  they were; nothing reads them then, and the model has zeros. \<open>prob_prime\<close> and \<open>invert\<close> are \<^verbatim>\<open>mpz_probab_prime_p\<close> and \<^verbatim>\<open>mpz_invert\<close>.
\<close>

definition zp_init :: "(nat \<Rightarrow> bool) \<Rightarrow> (nat \<Rightarrow> nat \<Rightarrow> nat) \<Rightarrow> nat \<Rightarrow> bool \<Rightarrow> zp_data res" where
  "zp_init prob_prime invert p mont =
     bindE (guardE (prob_prime p) (Runtime_Error ''is not a prime'')) (\<lambda>_.
     let k = num_bits p; t = num_limbs p
     in bindE (guardE (t \<le> MAX_MOD_SZ) (Runtime_Error ''max_mod_sz_too_small'')) (\<lambda>_.
     let r = 2 ^ (64 * t); pp = r - invert p r; r1 = r mod p; r2 = r1 * r1 mod p; r3 = r2 * r1 mod p
     in Inr \<lparr>zp_montgomery = mont,
          zp_R = (if mont then limbs_of MAX_MOD_SZ r1 else replicate MAX_MOD_SZ 0),
          zp_R2 = (if mont then limbs_of MAX_MOD_SZ r2 else replicate MAX_MOD_SZ 0),
          zp_R3 = (if mont then limbs_of MAX_MOD_SZ r3 else replicate MAX_MOD_SZ 0),
          zp_pi = (if mont then of_nat pp else 0), zp_prA = limbs_of (MAX_MOD_SZ + 1) p, zp_t = t,
          zp_overhang = drop_bit (63 - (k - 1) mod 64) (- 1), zp_pr = p, zp_pr_half = p div 2,
          zp_mask = push_bit ((k - 1) mod 64) 1 - 1, zp_byte_length = (k + 7) div 8, zp_bit_length = k\<rparr>))"

subsection \<open>Addition and subtraction\<close>

definition zp_add :: "zp_data \<Rightarrow> limb list \<Rightarrow> limb list \<Rightarrow> limb list" where
  "zp_add Z x y =
     (let (ans, carry) = mpn_add_n_with_carry x y; p = take (zp_t Z) (zp_prA Z)
      in if carry \<or> 0 \<le> mpn_cmp ans p then fst (mpn_sub_n_borrow ans p) else ans)"

definition zp_sub :: "zp_data \<Rightarrow> limb list \<Rightarrow> limb list \<Rightarrow> limb list" where
  "zp_sub Z x y =
     (let (ans, borrow) = mpn_sub_n_borrow x y
      in if borrow then fst (mpn_add_n_with_carry ans (take (zp_t Z) (zp_prA Z))) else ans)"

subsection \<open>Montgomery multiplication\<close>

text \<open>The reduction at the end, from the upper half of the array.\<close>

definition mont_finish :: "zp_data \<Rightarrow> limb list \<Rightarrow> limb list" where
  "mont_finish Z ans =
     (let t = zp_t Z
      in if 0 \<le> mpn_cmp (win t (t + 1) ans) (take (t + 1) (zp_prA Z))
         then mpn_sub_fixed_n (win t t ans) (take t (zp_prA Z)) else win t t ans)"

text \<open>\<^verbatim>\<open>Zp_Data::Mont_Mult\<close> in \<^verbatim>\<open>Zp_Data.cpp\<close>, for any number of limbs.\<close>

definition mont_first :: "zp_data \<Rightarrow> limb list \<Rightarrow> limb list \<Rightarrow> limb list \<Rightarrow> limb list" where
  "mont_first Z x y mem =
     (let t = zp_t Z; u = x ! 0 * y ! 0 * zp_pi Z;
          (lo, c) = mpn_mul_1 (take t y) (x ! 0);
          ans1 = (put 0 lo mem)[t := c];
          (lo2, c2) = mpn_addmul_1 (win 0 (t + 1) ans1) (take (t + 1) (zp_prA Z)) u
      in (put 0 lo2 ans1)[t + 1 := c2])"

definition mont_step :: "zp_data \<Rightarrow> limb list \<Rightarrow> limb list \<Rightarrow> limb list \<Rightarrow> nat \<Rightarrow> limb list" where
  "mont_step Z x y ans i =
     (let t = zp_t Z; u = (ans ! i + x ! i * y ! 0) * zp_pi Z;
          (lo, c) = mpn_addmul_1 (win i t ans) (take t y) (x ! i);
          ans1 = (put i lo ans)[i + t := ans ! (i + t) + c];
          (lo2, c2) = mpn_addmul_1 (win i (t + 1) ans1) (take (t + 1) (zp_prA Z)) u
      in (put i lo2 ans1)[i + (t + 1) := c2])"

definition Mont_Mult_variable :: "zp_data \<Rightarrow> limb list \<Rightarrow> limb list \<Rightarrow> limb list \<Rightarrow> limb list" where
  "Mont_Mult_variable Z mem x y = mont_finish Z (foldl (mont_step Z x y) (mont_first Z x y mem) [1..<zp_t Z])"

text \<open>\<^verbatim>\<open>Zp_Data::Mont_Mult_<T>\<close> for processors with BMI2, with the accumulation of \<^verbatim>\<open>mpn_fixed.h\<close>.\<close>

definition mont_first_fixed :: "zp_data \<Rightarrow> limb list \<Rightarrow> limb list \<Rightarrow> limb list \<Rightarrow> limb list" where
  "mont_first_fixed Z x y mem =
     (let T = zp_t Z; u = x ! 0 * y ! 0 * zp_pi Z;
          ans = put (T + 1) (replicate T 0) mem;
          ans1 = put 0 (addmul_1_fixed (T + 1) T False [] y (x ! 0)) ans
      in addmul_at 0 (T + 2) (T + 1) (zp_prA Z) u ans1)"

definition mont_step_fixed :: "zp_data \<Rightarrow> limb list \<Rightarrow> limb list \<Rightarrow> limb list \<Rightarrow> nat \<Rightarrow> limb list" where
  "mont_step_fixed Z x y ans i =
     (let T = zp_t Z; u = (ans ! i + x ! i * y ! 0) * zp_pi Z
      in addmul_at i (T + 2) (T + 1) (zp_prA Z) u (addmul_at i (T + 1) T y (x ! i) ans))"

definition Mont_Mult_fixed :: "zp_data \<Rightarrow> limb list \<Rightarrow> limb list \<Rightarrow> limb list \<Rightarrow> limb list" where
  "Mont_Mult_fixed Z mem x y = mont_finish Z (foldl (mont_step_fixed Z x y) (mont_first_fixed Z x y mem) [1..<zp_t Z])"

definition Mont_Mult :: "bool \<Rightarrow> zp_data \<Rightarrow> limb list \<Rightarrow> limb list \<Rightarrow> limb list \<Rightarrow> limb list" where
  "Mont_Mult bmi2 Z mem x y =
     (if \<not> bmi2 then Mont_Mult_variable Z mem x y
      else if zp_t Z \<in> {1..5} then Mont_Mult_fixed Z mem x y else Mont_Mult_variable Z mem x y)"

subsection \<open>The invariant of the data\<close>

definition zp_inv :: "zp_data \<Rightarrow> bool" where
  "zp_inv Z \<longleftrightarrow> 0 < zp_t Z \<and> zp_t Z \<le> MAX_MOD_SZ \<and> length (zp_prA Z) = MAX_MOD_SZ + 1 \<and>
     mpv (zp_prA Z) = zp_pr Z \<and> 2 ^ (64 * (zp_t Z - 1)) \<le> zp_pr Z \<and> zp_pr Z < 2 ^ (64 * zp_t Z) \<and> 1 < zp_pr Z"

definition zp_reduced :: "zp_data \<Rightarrow> limb list \<Rightarrow> bool" where
  "zp_reduced Z x \<longleftrightarrow> length x = zp_t Z \<and> mpv x < zp_pr Z"

definition zp_mont :: "zp_data \<Rightarrow> bool" where
  "zp_mont Z \<longleftrightarrow> zp_inv Z \<and> zp_montgomery Z \<and> odd (zp_pr Z) \<and> (unat (zp_pi Z) * zp_pr Z + 1) mod B64 = 0 \<and>
     length (zp_R Z) = MAX_MOD_SZ \<and> mpv (zp_R Z) = 2 ^ (64 * zp_t Z) mod zp_pr Z \<and>
     length (zp_R2 Z) = MAX_MOD_SZ \<and> mpv (zp_R2 Z) = 2 ^ (2 * (64 * zp_t Z)) mod zp_pr Z \<and>
     length (zp_R3 Z) = MAX_MOD_SZ \<and> mpv (zp_R3 Z) = 2 ^ (3 * (64 * zp_t Z)) mod zp_pr Z"

lemma length_limbs_of [simp]: "length (limbs_of n v) = n"
  by (induction n arbitrary: v) simp_all

lemma mpv_limbs_of: "v < 2 ^ (64 * n) \<Longrightarrow> mpv (limbs_of n v) = v"
proof (induction n arbitrary: v)
  case 0
  then show ?case by simp
next
  case (Suc n)
  have "v div B64 < 2 ^ (64 * n)" using Suc.prems by (simp add: div_less_iff_less_mult power_add mult.commute)
  then show ?case using Suc.IH [of "v div B64"] by (simp add: unat_of_nat)
qed

lemma prA_take:
  assumes "zp_inv Z" "zp_t Z \<le> n" "n \<le> MAX_MOD_SZ + 1"
  shows "mpv (take n (zp_prA Z)) = zp_pr Z" "length (take n (zp_prA Z)) = n"
proof -
  have "zp_pr Z < 2 ^ (64 * zp_t Z)" using assms(1) by (simp add: zp_inv_def)
  also have "(2 :: nat) ^ (64 * zp_t Z) \<le> 2 ^ (64 * n)" using assms(2) by (intro power_increasing) auto
  finally show "mpv (take n (zp_prA Z)) = zp_pr Z" using assms mpv_take [of n "zp_prA Z"] by (simp add: zp_inv_def)
  show "length (take n (zp_prA Z)) = n" using assms by (simp add: zp_inv_def)
qed

lemma zp_add_value:
  assumes "zp_inv Z" "zp_reduced Z x" "zp_reduced Z y"
  shows "zp_reduced Z (zp_add Z x y)" "mpv (zp_add Z x y) = (mpv x + mpv y) mod zp_pr Z"
proof -
  let ?t = "zp_t Z" and ?p = "zp_pr Z"
  have pt: "mpv (take ?t (zp_prA Z)) = ?p" "length (take ?t (zp_prA Z)) = ?t"
    using prA_take [OF assms(1), of ?t] assms(1) by (simp_all add: zp_inv_def)
  have xy: "length x = ?t" "length y = ?t" "mpv x < ?p" "mpv y < ?p" using assms(2,3) by (auto simp: zp_reduced_def)
  obtain a c where a: "mpn_add_n_with_carry x y = (a, c)" by force
  have av: "length a = ?t" "mpv a + 2 ^ (64 * ?t) * of_bool c = mpv x + mpv y" using mpn_add_value [OF _ a] xy by simp_all
  obtain s b where s: "mpn_sub_n_borrow a (take ?t (zp_prA Z)) = (s, b)" by force
  have sv: "length s = ?t" "mpv s + ?p = mpv a + 2 ^ (64 * ?t) * of_bool b"
    using mpn_sub_value [OF _ s] av(1) pt by simp_all
  have cmp: "(0 \<le> mpn_cmp a (take ?t (zp_prA Z))) = (?p \<le> mpv a)"
    using mpn_cmp_ge [of a "take ?t (zp_prA Z)"] av(1) pt by simp
  have r: "zp_add Z x y = (if c \<or> ?p \<le> mpv a then s else a)" by (simp add: zp_add_def a s cmp)
  have lt: "?p < 2 ^ (64 * ?t)" "mpv s < 2 ^ (64 * ?t)" "mpv a < 2 ^ (64 * ?t)"
    using assms(1) mpv_less [of s] mpv_less [of a] sv(1) av(1) by (simp_all add: zp_inv_def)
  have m: "(mpv x + mpv y) mod ?p = (if mpv x + mpv y < ?p then mpv x + mpv y else mpv x + mpv y - ?p)"
    using xy by (intro mod_two) simp
  have "mpv (zp_add Z x y) = (mpv x + mpv y) mod ?p \<and> length (zp_add Z x y) = ?t"
    unfolding r m using av sv lt xy by (cases c; cases b) auto
  then show "mpv (zp_add Z x y) = (mpv x + mpv y) mod ?p" "zp_reduced Z (zp_add Z x y)"
    using xy by (auto simp: zp_reduced_def)
qed

lemma zp_sub_value:
  assumes "zp_inv Z" "zp_reduced Z x" "zp_reduced Z y"
  shows "zp_reduced Z (zp_sub Z x y)" "mpv (zp_sub Z x y) = (mpv x + (zp_pr Z - mpv y)) mod zp_pr Z"
proof -
  let ?t = "zp_t Z" and ?p = "zp_pr Z"
  have pt: "mpv (take ?t (zp_prA Z)) = ?p" "length (take ?t (zp_prA Z)) = ?t"
    using prA_take [OF assms(1), of ?t] assms(1) by (simp_all add: zp_inv_def)
  have xy: "length x = ?t" "length y = ?t" "mpv x < ?p" "mpv y < ?p" using assms(2,3) by (auto simp: zp_reduced_def)
  obtain a b where a: "mpn_sub_n_borrow x y = (a, b)" by force
  have av: "length a = ?t" "mpv a + mpv y = mpv x + 2 ^ (64 * ?t) * of_bool b" using mpn_sub_value [OF _ a] xy by simp_all
  obtain s c where s: "mpn_add_n_with_carry a (take ?t (zp_prA Z)) = (s, c)" by force
  have sv: "length s = ?t" "mpv s + 2 ^ (64 * ?t) * of_bool c = mpv a + ?p"
    using mpn_add_value [OF _ s] av(1) pt by simp_all
  have r: "zp_sub Z x y = (if b then s else a)" by (simp add: zp_sub_def a s)
  have lt: "?p < 2 ^ (64 * ?t)" "mpv s < 2 ^ (64 * ?t)" "mpv a < 2 ^ (64 * ?t)"
    using assms(1) mpv_less [of s] mpv_less [of a] sv(1) av(1) by (simp_all add: zp_inv_def)
  have m: "(mpv x + (?p - mpv y)) mod ?p = (if mpv x + (?p - mpv y) < ?p then mpv x + (?p - mpv y) else mpv x + (?p - mpv y) - ?p)"
    using xy by (intro mod_two) simp
  have "mpv (zp_sub Z x y) = (mpv x + (?p - mpv y)) mod ?p \<and> length (zp_sub Z x y) = ?t"
    unfolding r m using av sv lt xy by (cases c; cases b) auto
  then show "mpv (zp_sub Z x y) = (mpv x + (?p - mpv y)) mod ?p" "zp_reduced Z (zp_sub Z x y)"
    using xy by (auto simp: zp_reduced_def)
qed

end
