(* ===== verification/MontgomeryMul.thy ===== *)
theory MontgomeryMul
  imports Montgomery
begin

text \<open>
  Both versions of the Montgomery product of \<^verbatim>\<open>Zp_Data\<close> compute
  \<open>x * y / 2 ^ (64 * t)\<close> modulo the prime, as long as the prime leaves room for one carry: the
  largest sum of a step is \<open>2 ^ 64 * (p - 1) + p\<close>, and its top carry is dropped.
\<close>

unbundle bit_operations_syntax

subsection \<open>Numbers\<close>

lemma mont_bound:
  assumes "S < y + p" "a < B64" "u < B64"
  shows "S + a * y + u * p < B64 * (y + p)"
proof -
  have "a * y \<le> (B64 - 1) * y" "u * p \<le> (B64 - 1) * p" using assms(2,3) by (intro mult_le_mono; simp)+
  moreover have "B64 * (y + p) = (y + p) + ((B64 - 1) * y + (B64 - 1) * p)" by (simp add: algebra_simps)
  ultimately show ?thesis using assms(1) by linarith
qed

lemma mont_room:
  assumes "S < y + p" "a < B64" "y < p" "B64 * (p - 1) + p \<le> N"
  shows "S + a * y < N"
proof -
  have "a * y \<le> (B64 - 1) * y" using assms(2) by (intro mult_le_mono; simp)
  moreover have "B64 * y = y + (B64 - 1) * y" by (simp add: algebra_simps)
  ultimately have "S + a * y < B64 * y + p" using assms(1) by linarith
  also have "\<dots> \<le> B64 * (p - 1) + p" using assms(3) by (intro add_le_mono mult_le_mono) auto
  finally show ?thesis using assms(4) by linarith
qed

lemma mont_divides:
  fixes q :: limb
  assumes "(unat q * p + 1) mod B64 = 0" "v mod B64 = unat w"
  shows "(v + unat (w * q) * p) mod B64 = 0"
proof -
  have u: "unat (w * q) = unat w * unat q mod B64" by (simp add: unat_word_ariths)
  have "(v + unat (w * q) * p) mod B64 = (v mod B64 + unat w * unat q * p) mod B64"
    unfolding u by (rule mod_add_cong) (simp_all only: mod_mod_trivial mod_mult_left_eq)
  also have "\<dots> = (unat w + unat w * unat q * p) mod B64" unfolding assms(2) ..
  also have "unat w + unat w * unat q * p = unat w * (unat q * p + 1)" by (simp add: algebra_simps)
  also have "\<dots> mod B64 = 0" using assms(1) by (metis mod_mult_right_eq mult_0_right mod_0)
  finally show ?thesis .
qed

subsection \<open>One step on its window\<close>

lemma win_append: "length xs = n \<Longrightarrow> i + n < length a \<Longrightarrow> win i (Suc n) ((put i xs a)[i + n := v]) = xs @ [v]"
  by (cases "drop (i + n) a") (auto simp: win_def put_def list_update_append)

lemma length_put_upd: "length xs = n \<Longrightarrow> i + n \<le> length a \<Longrightarrow> length ((put i xs a)[k := v]) = length a"
  by (simp add: put_def)

lemma win_Suc: "win (Suc i) n a = tl (win i (Suc n) a)"
  by (simp add: win_def tl_take drop_Suc tl_drop)

lemma mpv_tl: "xs \<noteq> [] \<Longrightarrow> mpv (tl xs) = mpv xs div B64"
  by (cases xs) (blast, simp only: list.sel mpv.simps div_mod_limb)

lemma mpv_hd: "xs \<noteq> [] \<Longrightarrow> unat (xs ! 0) = mpv xs mod B64"
  by (cases xs) (blast, simp only: nth_Cons_0 mpv.simps div_mod_limb)

lemma mpv_snoc: "mpv (xs @ [v]) = mpv xs + 2 ^ (64 * length xs) * unat v"
  by (simp add: mpv_append)

lemma win_nth: "i + n \<le> length a \<Longrightarrow> k < n \<Longrightarrow> win i n a ! k = a ! (i + k)"
  by (simp add: win_def)

text \<open>
  Adding \<open>c * y\<close> to a window of \<open>t + 1\<close> limbs, the carry going into the top limb; then
  \<open>u * p\<close>, the carry becoming a new limb.
\<close>

lemma step_add:
  assumes "i + t < length ans" "length y = t" "mpv (win i (t + 1) ans) + mpv y * unat c < 2 ^ (64 * (t + 1))"
    and r: "mpn_addmul_1 (win i t ans) y c = (lo, co)"
  defines "ans1 \<equiv> (put i lo ans)[i + t := ans ! (i + t) + co]"
  shows "length ans1 = length ans" "length (win i (t + 1) ans1) = t + 1"
    "mpv (win i (t + 1) ans1) = mpv (win i (t + 1) ans) + mpv y * unat c"
proof -
  have w: "win i (t + 1) ans = win i t ans @ [ans ! (i + t)]"
    using assms(1) by (simp add: win_def take_Suc_conv_app_nth)
  have lw: "length (win i t ans) = t" using assms(1) by (simp add: length_win)
  have lo: "length lo = t" "mpv lo + 2 ^ (64 * t) * unat co = mpv (win i t ans) + mpv y * unat c"
    using mpn_addmul_1_value [OF _ r] lw assms(2) by simp_all
  let ?v = "ans ! (i + t)"
  have tot: "mpv lo + 2 ^ (64 * t) * (unat ?v + unat co) = mpv (win i (t + 1) ans) + mpv y * unat c"
    using lo(2) lw unfolding w mpv_snoc by (simp add: algebra_simps)
  have "(2 :: nat) ^ (64 * (t + 1)) = 2 ^ (64 * t) * B64" by (simp add: power_add)
  with tot have "2 ^ (64 * t) * (unat ?v + unat co) < 2 ^ (64 * t) * B64" using assms(3) by linarith
  then have "unat ?v + unat co < B64" by (simp only: mult_less_cancel1)
  then have v: "unat (?v + co) = unat ?v + unat co" unfolding unat_plus by simp
  have w1: "win i (t + 1) ans1 = lo @ [?v + co]" unfolding ans1_def using win_append [OF lo(1) assms(1)] by simp
  show "length ans1 = length ans" unfolding ans1_def using lo(1) assms(1) by (simp add: length_put)
  show "length (win i (t + 1) ans1) = t + 1" using w1 lo(1) by simp
  show "mpv (win i (t + 1) ans1) = mpv (win i (t + 1) ans) + mpv y * unat c"
    unfolding w1 mpv_snoc v lo(1) using tot by simp
qed

lemma step_reduce:
  assumes "i + (t + 1) < length ans" "length q = t + 1"
    "(mpv (win i (t + 1) ans) + mpv q * unat u) mod B64 = 0"
    and r: "mpn_addmul_1 (win i (t + 1) ans) q u = (lo, co)"
  defines "ans1 \<equiv> (put i lo ans)[i + (t + 1) := co]"
  shows "length ans1 = length ans" "length (win (Suc i) (t + 1) ans1) = t + 1"
    "B64 * mpv (win (Suc i) (t + 1) ans1) = mpv (win i (t + 1) ans) + mpv q * unat u"
proof -
  let ?tot = "mpv (win i (t + 1) ans) + mpv q * unat u"
  have lw: "length (win i (t + 1) ans) = t + 1" using assms(1) by (simp add: length_win)
  have lo: "length lo = t + 1" "mpv lo + 2 ^ (64 * (t + 1)) * unat co = ?tot"
    using mpn_addmul_1_value [OF _ r] lw assms(2) by simp_all
  have w1: "win i (Suc (t + 1)) ans1 = lo @ [co]" unfolding ans1_def by (rule win_append [OF lo(1) assms(1)])
  have w2: "win (Suc i) (t + 1) ans1 = tl (lo @ [co])" unfolding win_Suc w1 ..
  have "mpv (lo @ [co]) = ?tot" unfolding mpv_snoc lo(1) by (rule lo(2))
  then have "mpv (win (Suc i) (t + 1) ans1) = ?tot div B64" unfolding w2 using mpv_tl [of "lo @ [co]"] by simp
  then show "B64 * mpv (win (Suc i) (t + 1) ans1) = ?tot" using assms(3) by (metis mult_div_mod_eq add_0_right)
  show "length ans1 = length ans" unfolding ans1_def using lo(1) assms(1) by (simp add: length_put)
  show "length (win (Suc i) (t + 1) ans1) = t + 1" unfolding w2 using lo(1) by simp
qed

subsection \<open>The loop\<close>

text \<open>What the array means before step \<open>i\<close>: the window holds the running sum.\<close>

definition mont_state :: "zp_data \<Rightarrow> nat \<Rightarrow> nat \<Rightarrow> limb list \<Rightarrow> bool" where
  "mont_state Z y i ans \<longleftrightarrow> length ans = 2 * MAX_MOD_SZ + 1 \<and> mpv (win i (zp_t Z + 1) ans) < y + zp_pr Z"

text \<open>The primes for which no carry is lost.\<close>

definition mont_fits :: "zp_data \<Rightarrow> bool" where
  "mont_fits Z \<longleftrightarrow> B64 * (zp_pr Z - 1) + zp_pr Z \<le> 2 ^ (64 * (zp_t Z + 1))"

lemma mont_step_value:
  assumes Z: "zp_mont Z" "mont_fits Z" and xy: "zp_reduced Z x" "zp_reduced Z y" and i: "i < zp_t Z"
    and st: "mont_state Z (mpv y) i ans"
  shows "mont_state Z (mpv y) (Suc i) (mont_step Z x y ans i)"
    "\<exists>k. B64 * mpv (win (Suc i) (zp_t Z + 1) (mont_step Z x y ans i)) = mpv (win i (zp_t Z + 1) ans) + unat (x ! i) * mpv y + k * zp_pr Z"
proof -
  let ?t = "zp_t Z" and ?p = "zp_pr Z" and ?W = "win i (zp_t Z + 1) ans"
  have inv: "zp_inv Z" "(unat (zp_pi Z) * ?p + 1) mod B64 = 0" using Z(1) by (auto simp: zp_mont_def)
  have t: "0 < ?t" "?t \<le> MAX_MOD_SZ" using inv(1) by (auto simp: zp_inv_def)
  have ly: "length y = ?t" "mpv y < ?p" "length x = ?t" using xy by (auto simp: zp_reduced_def)
  have la: "length ans = 2 * MAX_MOD_SZ + 1" "mpv ?W < mpv y + ?p" using st by (auto simp: mont_state_def)
  have l: "i + (?t + 1) < length ans" "i + ?t < length ans" using la(1) i t by simp_all
  have q: "mpv (take (?t + 1) (zp_prA Z)) = ?p" "length (take (?t + 1) (zp_prA Z)) = ?t + 1"
    using prA_take [OF inv(1), of "?t + 1"] t by simp_all
  define u where "u = (ans ! i + x ! i * y ! 0) * zp_pi Z"
  obtain lo c where lo: "mpn_addmul_1 (win i ?t ans) y (x ! i) = (lo, c)" by force
  define ans1 where "ans1 = (put i lo ans)[i + ?t := ans ! (i + ?t) + c]"
  have room: "mpv ?W + mpv y * unat (x ! i) < 2 ^ (64 * (?t + 1))"
    using mont_room [OF la(2) unat_limb ly(2)] Z(2) by (simp add: mont_fits_def mult.commute)
  note a1 = step_add [OF l(2) ly(1) room lo, folded ans1_def]
  obtain lo2 c2 where lo2: "mpn_addmul_1 (win i (?t + 1) ans1) (take (?t + 1) (zp_prA Z)) u = (lo2, c2)" by force
  define ans2 where "ans2 = (put i lo2 ans1)[i + (?t + 1) := c2]"
  have e: "mont_step Z x y ans i = ans2"
    using lo lo2 ly(1) by (simp add: mont_step_def Let_def u_def ans1_def ans2_def)
  have "unat (ans ! i) = mpv ?W mod B64" using mpv_hd [of ?W] l win_nth [of i "?t + 1" ans 0] length_win [of i "?t + 1" ans] by fastforce
  moreover have "unat (y ! 0) = mpv y mod B64" using mpv_hd [of y] ly(1) t by fastforce
  ultimately have w: "(mpv ?W + mpv y * unat (x ! i)) mod B64 = unat (ans ! i + x ! i * y ! 0)"
    unfolding unat_plus by (simp add: unat_word_ariths mod_simps mult.commute)
  have dv: "(mpv (win i (?t + 1) ans1) + mpv (take (?t + 1) (zp_prA Z)) * unat u) mod B64 = 0"
    using mont_divides [OF inv(2) w] unfolding a1(3) q(1) u_def by (simp add: mult.commute)
  note a2 = step_reduce [OF l(1) [folded a1(1)] q(2) dv lo2, folded ans2_def]
  have v: "B64 * mpv (win (Suc i) (?t + 1) ans2) = mpv ?W + unat (x ! i) * mpv y + unat u * ?p"
    using a2(3) unfolding a1(3) q(1) by (simp add: mult.commute)
  also have "\<dots> < B64 * (mpv y + ?p)" by (rule mont_bound [OF la(2) unat_limb unat_limb])
  finally have "mpv (win (Suc i) (?t + 1) ans2) < mpv y + ?p" by simp
  then show "mont_state Z (mpv y) (Suc i) (mont_step Z x y ans i)"
    using a1(1) a2(1) la(1) by (simp add: mont_state_def e)
  show "\<exists>k. B64 * mpv (win (Suc i) (?t + 1) (mont_step Z x y ans i)) = mpv ?W + unat (x ! i) * mpv y + k * ?p"
    unfolding e using v by blast
qed

lemma mont_first_value:
  assumes Z: "zp_mont Z" and xy: "zp_reduced Z x" "zp_reduced Z y" and mem: "length mem = 2 * MAX_MOD_SZ + 1"
  shows "mont_state Z (mpv y) 1 (mont_first Z x y mem)"
    "\<exists>k. B64 * mpv (win 1 (zp_t Z + 1) (mont_first Z x y mem)) = unat (x ! 0) * mpv y + k * zp_pr Z"
proof -
  let ?t = "zp_t Z" and ?p = "zp_pr Z"
  have inv: "zp_inv Z" "(unat (zp_pi Z) * ?p + 1) mod B64 = 0" using Z by (auto simp: zp_mont_def)
  have t: "0 < ?t" "?t \<le> MAX_MOD_SZ" using inv(1) by (auto simp: zp_inv_def)
  have ly: "length y = ?t" "mpv y < ?p" "length x = ?t" using xy by (auto simp: zp_reduced_def)
  have q: "mpv (take (?t + 1) (zp_prA Z)) = ?p" "length (take (?t + 1) (zp_prA Z)) = ?t + 1"
    using prA_take [OF inv(1), of "?t + 1"] t by simp_all
  define u where "u = x ! 0 * y ! 0 * zp_pi Z"
  obtain lo c where lo: "mpn_mul_1 y (x ! 0) = (lo, c)" by force
  have lov: "length lo = ?t" "mpv lo + 2 ^ (64 * ?t) * unat c = mpv y * unat (x ! 0)"
    using mpn_mul_1_value [OF lo] ly(1) by simp_all
  define ans1 where "ans1 = (put 0 lo mem)[?t := c]"
  have l1: "length ans1 = 2 * MAX_MOD_SZ + 1" using mem lov(1) t by (simp add: ans1_def length_put)
  have w1: "win 0 (?t + 1) ans1 = lo @ [c]" using win_append [OF lov(1), of 0 mem c] mem t by (simp add: ans1_def)
  have v1: "mpv (win 0 (?t + 1) ans1) = mpv y * unat (x ! 0)" unfolding w1 mpv_snoc lov(1) by (rule lov(2))
  obtain lo2 c2 where lo2: "mpn_addmul_1 (win 0 (?t + 1) ans1) (take (?t + 1) (zp_prA Z)) u = (lo2, c2)" by force
  define ans2 where "ans2 = (put 0 lo2 ans1)[0 + (?t + 1) := c2]"
  have e: "mont_first Z x y mem = ans2" using lo lo2 ly(1) by (simp add: mont_first_def Let_def u_def ans1_def ans2_def)
  have "unat (y ! 0) = mpv y mod B64" using mpv_hd [of y] ly(1) t by fastforce
  then have w: "(mpv y * unat (x ! 0)) mod B64 = unat (x ! 0 * y ! 0)" by (simp add: unat_word_ariths mod_simps mult.commute)
  have dv: "(mpv (win 0 (?t + 1) ans1) + mpv (take (?t + 1) (zp_prA Z)) * unat u) mod B64 = 0"
    using mont_divides [OF inv(2) w] unfolding v1 q(1) u_def by (simp add: mult.commute)
  have l: "0 + (?t + 1) < length ans1" using l1 t by simp
  note a2 = step_reduce [OF l q(2) dv lo2, folded ans2_def]
  have v: "B64 * mpv (win 1 (?t + 1) ans2) = 0 + unat (x ! 0) * mpv y + unat u * ?p"
    using a2(3) unfolding v1 q(1) by (simp add: mult.commute)
  also have "\<dots> < B64 * (mpv y + ?p)"
    by (rule mont_bound [OF _ unat_limb unat_limb]) (use inv(1) in \<open>simp add: zp_inv_def\<close>)
  finally have "mpv (win 1 (?t + 1) ans2) < mpv y + ?p" by simp
  then show "mont_state Z (mpv y) 1 (mont_first Z x y mem)" using a2(1) l1 by (simp add: mont_state_def e)
  show "\<exists>k. B64 * mpv (win 1 (?t + 1) (mont_first Z x y mem)) = unat (x ! 0) * mpv y + k * ?p"
    unfolding e using v by auto
qed

text \<open>The running sum, times a power of \<open>2 ^ 64\<close>, is the product so far plus a multiple of the prime.\<close>

definition mont_sum :: "zp_data \<Rightarrow> limb list \<Rightarrow> nat \<Rightarrow> nat \<Rightarrow> nat \<Rightarrow> bool" where
  "mont_sum Z x y i S \<longleftrightarrow> (\<exists>k. 2 ^ (64 * i) * S = mpv (take i x) * y + k * zp_pr Z)"

lemma mont_sum_1: "0 < length x \<Longrightarrow> B64 * S = unat (x ! 0) * y + k * zp_pr Z \<Longrightarrow> mont_sum Z x y 1 S"
  using take_nth_value [of 0 x] by (auto simp: mont_sum_def)

lemma mont_sum_Suc:
  assumes "mont_sum Z x y i S" "i < length x" "B64 * S' = S + unat (x ! i) * y + k * zp_pr Z"
  shows "mont_sum Z x y (Suc i) S'"
proof -
  obtain k0 where k0: "2 ^ (64 * i) * S = mpv (take i x) * y + k0 * zp_pr Z" using assms(1) by (auto simp: mont_sum_def)
  have "2 ^ (64 * Suc i) * S' = 2 ^ (64 * i) * (B64 * S')" by (simp add: power_add)
  also have "\<dots> = 2 ^ (64 * i) * S + 2 ^ (64 * i) * (unat (x ! i) * y) + 2 ^ (64 * i) * (k * zp_pr Z)"
    unfolding assms(3) by (simp only: distrib_left)
  also have "\<dots> = mpv (take (Suc i) x) * y + (k0 + 2 ^ (64 * i) * k) * zp_pr Z"
    unfolding k0 take_nth_value [OF assms(2)] by (simp only: distrib_right mult.assoc add_ac)
  finally show ?thesis unfolding mont_sum_def by blast
qed

text \<open>The final reduction.\<close>

lemma mont_finish_value:
  assumes Z: "zp_inv Z" and st: "mont_state Z y (zp_t Z) ans" "y < zp_pr Z"
    and sum: "mont_sum Z x y (zp_t Z) (mpv (win (zp_t Z) (zp_t Z + 1) ans))" "length x = zp_t Z"
  shows "zp_reduced Z (mont_finish Z ans)" "(2 ^ (64 * zp_t Z) * mpv (mont_finish Z ans)) mod zp_pr Z = (mpv x * y) mod zp_pr Z"
proof -
  let ?t = "zp_t Z" and ?p = "zp_pr Z" let ?W = "win ?t (?t + 1) ans" and ?V = "win ?t ?t ans"
  have t: "0 < ?t" "?t \<le> MAX_MOD_SZ" "?p < 2 ^ (64 * ?t)" using Z by (auto simp: zp_inv_def)
  have la: "length ans = 2 * MAX_MOD_SZ + 1" "mpv ?W < y + ?p" using st by (auto simp: mont_state_def)
  have lw: "length ?W = ?t + 1" "length ?V = ?t" using la(1) t by (simp_all add: length_win)
  have q: "mpv (take (?t + 1) (zp_prA Z)) = ?p" "length (take (?t + 1) (zp_prA Z)) = ?t + 1"
    "mpv (take ?t (zp_prA Z)) = ?p" "length (take ?t (zp_prA Z)) = ?t"
    using prA_take [OF Z, of "?t + 1"] prA_take [OF Z, of ?t] t by simp_all
  have cmp: "(0 \<le> mpn_cmp ?W (take (?t + 1) (zp_prA Z))) = (?p \<le> mpv ?W)" using mpn_cmp_ge [of ?W "take (?t + 1) (zp_prA Z)"] lw q by simp
  have V: "mpv ?V = mpv ?W mod 2 ^ (64 * ?t)"
    using mpv_take [of ?t ?W] lw by (simp add: win_def take_take min_def)
  let ?z = "mont_finish Z ans"
  have z: "length ?z = ?t \<and> mpv ?z = (if ?p \<le> mpv ?W then mpv ?W - ?p else mpv ?W)"
  proof (cases "?p \<le> mpv ?W")
    case True
    have s: "length (mpn_sub_fixed_n ?V (take ?t (zp_prA Z))) = ?t"
      "int (mpv (mpn_sub_fixed_n ?V (take ?t (zp_prA Z)))) = (int (mpv ?V) - int ?p) mod 2 ^ (64 * ?t)"
      using mpn_sub_fixed_n_value [of ?V "take ?t (zp_prA Z)"] lw q by simp_all
    have "(int (mpv ?V) - int ?p) mod 2 ^ (64 * ?t) = (int (mpv ?W) - int ?p) mod 2 ^ (64 * ?t)"
      unfolding V zmod_int of_nat_power of_nat_numeral by (rule mod_diff_left_eq)
    also have "int (mpv ?W) - int ?p = int (mpv ?W - ?p)" using True by simp
    also have "int (mpv ?W - ?p) mod 2 ^ (64 * ?t) = int ((mpv ?W - ?p) mod 2 ^ (64 * ?t))" by (simp add: zmod_int)
    also have "(mpv ?W - ?p) mod 2 ^ (64 * ?t) = mpv ?W - ?p" using la(2) st(2) t(3) by simp
    finally show ?thesis using True s cmp by (simp add: mont_finish_def Let_def)
  next
    case False
    then show ?thesis using V t(3) lw cmp by (simp add: mont_finish_def Let_def)
  qed
  then show "zp_reduced Z ?z" using la(2) st(2) by (auto simp: zp_reduced_def)
  obtain k where k: "2 ^ (64 * ?t) * mpv ?W = mpv x * y + k * ?p" using sum by (auto simp: mont_sum_def)
  have c: "mpv ?z mod ?p = mpv ?W mod ?p" using z by (auto simp: le_mod_geq)
  have "(2 ^ (64 * ?t) * mpv ?z) mod ?p = (2 ^ (64 * ?t) * mpv ?W) mod ?p" by (rule mod_mult_cong [OF refl c])
  also have "\<dots> = (mpv x * y) mod ?p" unfolding k by simp
  finally show "(2 ^ (64 * ?t) * mpv ?z) mod ?p = (mpv x * y) mod ?p" .
qed

text \<open>Any step function with the right effect on the window gives the product.\<close>

lemma mont_loop:
  assumes P1: "P 1 a1" and sum1: "mont_sum Z x y 1 (mpv (win 1 (zp_t Z + 1) a1))"
    and step: "\<And>i ans. i < zp_t Z \<Longrightarrow> P i ans \<Longrightarrow> P (Suc i) (f ans i) \<and>
      (\<exists>k. B64 * mpv (win (Suc i) (zp_t Z + 1) (f ans i)) = mpv (win i (zp_t Z + 1) ans) + unat (x ! i) * y + k * zp_pr Z)"
    and x: "length x = zp_t Z" and n: "1 \<le> n" "n \<le> zp_t Z"
  shows "P n (foldl f a1 [1..<n]) \<and> mont_sum Z x y n (mpv (win n (zp_t Z + 1) (foldl f a1 [1..<n])))"
  using n
proof (induction n rule: dec_induct)
  case base
  then show ?case using P1 sum1 by simp
next
  case (step n)
  then have ih: "P n (foldl f a1 [1..<n])" "mont_sum Z x y n (mpv (win n (zp_t Z + 1) (foldl f a1 [1..<n])))" "n < zp_t Z" by auto
  from assms(3) [OF ih(3,1)] mont_sum_Suc [OF ih(2)] ih(3) x step.hyps(1) show ?case by auto
qed

theorem Mont_Mult_variable_value:
  assumes "zp_mont Z" "mont_fits Z" "zp_reduced Z x" "zp_reduced Z y" "length mem = 2 * MAX_MOD_SZ + 1"
  shows "zp_reduced Z (Mont_Mult_variable Z mem x y)"
    "(2 ^ (64 * zp_t Z) * mpv (Mont_Mult_variable Z mem x y)) mod zp_pr Z = (mpv x * mpv y) mod zp_pr Z"
proof -
  have inv: "zp_inv Z" "0 < zp_t Z" using assms(1) by (auto simp: zp_mont_def zp_inv_def)
  have l: "length x = zp_t Z" "mpv y < zp_pr Z" using assms(3,4) by (auto simp: zp_reduced_def)
  obtain k where k: "B64 * mpv (win 1 (zp_t Z + 1) (mont_first Z x y mem)) = unat (x ! 0) * mpv y + k * zp_pr Z"
    using mont_first_value(2) [OF assms(1,3,4,5)] by blast
  have "mont_state Z (mpv y) (zp_t Z) (foldl (mont_step Z x y) (mont_first Z x y mem) [1..<zp_t Z]) \<and>
      mont_sum Z x (mpv y) (zp_t Z) (mpv (win (zp_t Z) (zp_t Z + 1) (foldl (mont_step Z x y) (mont_first Z x y mem) [1..<zp_t Z])))"
    by (rule mont_loop [where P = "mont_state Z (mpv y)", OF mont_first_value(1) [OF assms(1,3,4,5)] mont_sum_1 [OF _ k]])
       (use mont_step_value [OF assms(1-4)] inv l in auto)
  from mont_finish_value [OF inv(1) conjunct1 [OF this] l(2) conjunct2 [OF this] l(1)]
  show "zp_reduced Z (Mont_Mult_variable Z mem x y)"
    "(2 ^ (64 * zp_t Z) * mpv (Mont_Mult_variable Z mem x y)) mod zp_pr Z = (mpv x * mpv y) mod zp_pr Z"
    unfolding Mont_Mult_variable_def .
qed

subsection \<open>The version with fixed sizes\<close>

text \<open>The limbs above the window are still zero.\<close>

definition fixed_state :: "zp_data \<Rightarrow> nat \<Rightarrow> nat \<Rightarrow> limb list \<Rightarrow> bool" where
  "fixed_state Z y i ans \<longleftrightarrow> mont_state Z y i ans \<and> (\<forall>k. i + zp_t Z < k \<longrightarrow> k \<le> 2 * zp_t Z \<longrightarrow> ans ! k = 0)"

lemma win_put: "i + length xs \<le> length a \<Longrightarrow> win i (length xs) (put i xs a) = xs"
  by (simp add: win_def put_def)

lemma nth_put:
  assumes "i + length xs \<le> length a" "i + length xs \<le> k"
  shows "put i xs a ! k = a ! k"
proof -
  have "\<not> k < i" "\<not> k - i < length xs" "i + length xs + (k - i - length xs) = k" using assms(2) by linarith+
  moreover have "min (length a) i = i" "min i (length a) = i" using assms(1) by simp_all
  ultimately show ?thesis using assms(1) by (simp add: put_def nth_append)
qed

lemma fixed_step:
  assumes "zp_inv Z" "length ans = 2 * MAX_MOD_SZ + 1" "i < zp_t Z" "length y = zp_t Z"
    and w: "mpv (win i (zp_t Z + 1) ans) + mpv y * unat c < 2 ^ (64 * (zp_t Z + 1))"
    and zero: "ans ! (i + (zp_t Z + 1)) = 0"
    and dv: "(mpv (win i (zp_t Z + 1) ans) + mpv y * unat c + zp_pr Z * unat u) mod B64 = 0"
    and lt: "mpv (win i (zp_t Z + 1) ans) + mpv y * unat c + zp_pr Z * unat u < 2 ^ (64 * (zp_t Z + 2))"
  defines "ans2 \<equiv> addmul_at i (zp_t Z + 2) (zp_t Z + 1) (zp_prA Z) u (addmul_at i (zp_t Z + 1) (zp_t Z) y c ans)"
  shows "length ans2 = length ans" "\<And>k. i + (zp_t Z + 2) \<le> k \<Longrightarrow> ans2 ! k = ans ! k"
    "B64 * mpv (win (Suc i) (zp_t Z + 1) ans2) = mpv (win i (zp_t Z + 1) ans) + mpv y * unat c + zp_pr Z * unat u"
proof -
  let ?t = "zp_t Z"
  have t: "0 < ?t" "?t \<le> MAX_MOD_SZ" using assms(1) by (auto simp: zp_inv_def)
  have l: "i + (?t + 2) \<le> length ans" using assms(2,3) t by simp
  define r1 where "r1 = addmul_1_fixed (?t + 1) ?t True (win i (?t + 1) ans) y c"
  have lw: "length (win i (?t + 1) ans) = ?t + 1" using l by (simp add: length_win)
  have r1: "length r1 = ?t + 1" "mpv r1 = mpv (win i (?t + 1) ans) + mpv y * unat c"
    using addmul_1_fixed_value [of "?t + 1" ?t y True "win i (?t + 1) ans" c] lw assms(4) w by (simp_all add: r1_def)
  define ans1 where "ans1 = put i r1 ans"
  have a1: "length ans1 = length ans" "\<And>k. i + (?t + 1) \<le> k \<Longrightarrow> ans1 ! k = ans ! k"
    using l r1(1) nth_put [of i r1 ans] by (simp_all add: ans1_def length_put)
  have "win i (?t + 2) ans1 = win i (?t + 1) ans1 @ [ans1 ! (i + (?t + 1))]"
    using l a1(1) take_Suc_conv_app_nth [of "?t + 1" "drop i ans1"] by (simp add: win_def)
  moreover have "win i (?t + 1) ans1 = r1" unfolding ans1_def using win_put [of i r1 ans] r1(1) l by simp
  ultimately have w1: "mpv (win i (?t + 2) ans1) = mpv r1" using a1(2) zero by (simp add: mpv_snoc)
  define r2 where "r2 = addmul_1_fixed (?t + 2) (?t + 1) True (win i (?t + 2) ans1) (zp_prA Z) u"
  have lw1: "length (win i (?t + 2) ans1) = ?t + 2" using l a1(1) by (simp add: length_win)
  have lp: "?t + 1 \<le> length (zp_prA Z)" using assms(1) t by (simp add: zp_inv_def)
  have r2: "length r2 = ?t + 2" "mpv r2 = mpv (win i (?t + 1) ans) + mpv y * unat c + zp_pr Z * unat u"
    using addmul_1_fixed_value [of "?t + 2" "?t + 1" "zp_prA Z" True "win i (?t + 2) ans1" u] lw1 lp w1 r1(2) lt
      prA_take(1) [OF assms(1), of "?t + 1"] t by (simp_all add: r2_def)
  have e: "ans2 = put i r2 ans1" unfolding ans2_def addmul_at_def r2_def ans1_def r1_def ..
  show "length ans2 = length ans" unfolding e using l r2(1) a1(1) by (simp add: length_put)
  show "ans2 ! k = ans ! k" if "i + (?t + 2) \<le> k" for k
    unfolding e using nth_put [of i r2 ans1 k] l r2(1) a1 that by simp
  have "win i (Suc (?t + 1)) ans2 = r2" unfolding e using win_put [of i r2 ans1] r2(1) l a1(1) by simp
  then have "mpv (win (Suc i) (?t + 1) ans2) = mpv r2 div B64" unfolding win_Suc using mpv_tl [of r2] r2(1) by fastforce
  then show "B64 * mpv (win (Suc i) (?t + 1) ans2) = mpv (win i (?t + 1) ans) + mpv y * unat c + zp_pr Z * unat u"
    using dv r2(2) by (metis mult_div_mod_eq add_0_right)
qed

lemma mont_top:
  assumes "zp_inv Z" "y < zp_pr Z"
  shows "B64 * (y + zp_pr Z) \<le> 2 ^ (64 * (zp_t Z + 2))"
proof -
  have "y + zp_pr Z \<le> 2 * 2 ^ (64 * zp_t Z)" using assms by (simp add: zp_inv_def)
  also have "\<dots> \<le> B64 * 2 ^ (64 * zp_t Z)" by simp
  finally show ?thesis by (simp add: power_add)
qed

lemma mont_step_fixed_value:
  assumes Z: "zp_mont Z" "mont_fits Z" and xy: "zp_reduced Z x" "zp_reduced Z y" and i: "i < zp_t Z"
    and st: "fixed_state Z (mpv y) i ans"
  shows "fixed_state Z (mpv y) (Suc i) (mont_step_fixed Z x y ans i)"
    "\<exists>k. B64 * mpv (win (Suc i) (zp_t Z + 1) (mont_step_fixed Z x y ans i)) = mpv (win i (zp_t Z + 1) ans) + unat (x ! i) * mpv y + k * zp_pr Z"
proof -
  let ?t = "zp_t Z" and ?p = "zp_pr Z" and ?W = "win i (zp_t Z + 1) ans"
  have inv: "zp_inv Z" "(unat (zp_pi Z) * ?p + 1) mod B64 = 0" using Z(1) by (auto simp: zp_mont_def)
  have t: "0 < ?t" "?t \<le> MAX_MOD_SZ" using inv(1) by (auto simp: zp_inv_def)
  have ly: "length y = ?t" "mpv y < ?p" "length x = ?t" using xy by (auto simp: zp_reduced_def)
  have la: "length ans = 2 * MAX_MOD_SZ + 1" "mpv ?W < mpv y + ?p" "\<And>k. i + ?t < k \<Longrightarrow> k \<le> 2 * ?t \<Longrightarrow> ans ! k = 0"
    using st by (auto simp: mont_state_def fixed_state_def)
  have l: "i + (?t + 1) \<le> length ans" using la(1) i t by simp
  define u where "u = (ans ! i + x ! i * y ! 0) * zp_pi Z"
  have room: "mpv ?W + mpv y * unat (x ! i) < 2 ^ (64 * (?t + 1))"
    using mont_room [OF la(2) unat_limb ly(2)] Z(2) by (simp add: mont_fits_def mult.commute)
  have "unat (ans ! i) = mpv ?W mod B64" using mpv_hd [of ?W] l win_nth [of i "?t + 1" ans 0] length_win [of i "?t + 1" ans] by fastforce
  moreover have "unat (y ! 0) = mpv y mod B64" using mpv_hd [of y] ly(1) t by fastforce
  ultimately have w: "(mpv ?W + mpv y * unat (x ! i)) mod B64 = unat (ans ! i + x ! i * y ! 0)"
    unfolding unat_plus by (simp add: unat_word_ariths mod_simps mult.commute)
  have dv: "(mpv ?W + mpv y * unat (x ! i) + ?p * unat u) mod B64 = 0"
    using mont_divides [OF inv(2) w] unfolding u_def by (simp add: mult.commute)
  have bnd: "mpv ?W + mpv y * unat (x ! i) + ?p * unat u < B64 * (mpv y + ?p)"
    using mont_bound [OF la(2) unat_limb unat_limb, of "x ! i" u] by (simp add: mult.commute)
  have z: "ans ! (i + (?t + 1)) = 0" using la(3) i by simp
  note s = fixed_step [OF inv(1) la(1) i ly(1) room z dv less_le_trans [OF bnd mont_top [OF inv(1) ly(2)]]]
  have e: "mont_step_fixed Z x y ans i = addmul_at i (?t + 2) (?t + 1) (zp_prA Z) u (addmul_at i (?t + 1) ?t y (x ! i) ans)"
    by (simp add: mont_step_fixed_def Let_def u_def)
  have "B64 * mpv (win (Suc i) (?t + 1) (mont_step_fixed Z x y ans i)) < B64 * (mpv y + ?p)" using s(3) bnd unfolding e by (simp only:)
  then have "mpv (win (Suc i) (?t + 1) (mont_step_fixed Z x y ans i)) < mpv y + ?p" by (simp only: mult_less_cancel1)
  then show "fixed_state Z (mpv y) (Suc i) (mont_step_fixed Z x y ans i)"
    using s(1,2) la(1,3) by (auto simp: fixed_state_def mont_state_def e)
  show "\<exists>k. B64 * mpv (win (Suc i) (?t + 1) (mont_step_fixed Z x y ans i)) = mpv ?W + unat (x ! i) * mpv y + k * ?p"
    using s(3) unfolding e by (metis mult.commute)
qed

text \<open>The first step is a step from an array of zeros.\<close>

lemma mont_first_fixed_value:
  assumes Z: "zp_mont Z" "mont_fits Z" and xy: "zp_reduced Z x" "zp_reduced Z y" and mem: "length mem = 2 * MAX_MOD_SZ + 1"
  shows "fixed_state Z (mpv y) 1 (mont_first_fixed Z x y mem)"
    "\<exists>k. B64 * mpv (win 1 (zp_t Z + 1) (mont_first_fixed Z x y mem)) = unat (x ! 0) * mpv y + k * zp_pr Z"
proof -
  let ?t = "zp_t Z" and ?p = "zp_pr Z"
  have inv: "zp_inv Z" using Z(1) by (simp add: zp_mont_def)
  have t: "0 < ?t" "?t \<le> MAX_MOD_SZ" "1 < ?p" using inv(1) by (auto simp: zp_inv_def)
  have ly: "length y = ?t" using xy by (auto simp: zp_reduced_def)
  define ans where "ans = put (?t + 1) (replicate ?t 0) mem"
  have la: "length ans = 2 * MAX_MOD_SZ + 1" using mem t by (simp add: ans_def length_put)
  define ans0 where "ans0 = put 0 (replicate (?t + 1) 0) ans"
  have l0: "length ans0 = 2 * MAX_MOD_SZ + 1" using la t by (simp add: ans0_def length_put)
  have w0: "win 0 (?t + 1) ans0 = replicate (?t + 1) 0" using win_put [of 0 "replicate (?t + 1) 0" ans] la t by (simp add: ans0_def)
  have z0: "ans ! k = 0" if "?t < k" "k \<le> 2 * ?t" for k
  proof -
    have "k - (?t + 1) < ?t" using that t(1) by linarith
    then show ?thesis using that mem t by (simp add: ans_def put_def nth_append)
  qed
  have z: "ans0 ! k = 0" if "?t < k" "k \<le> 2 * ?t" for k
    using nth_put [of 0 "replicate (?t + 1) 0" ans k] z0 [OF that] that la t by (simp add: ans0_def)
  have st: "fixed_state Z (mpv y) 0 ans0"
    using z l0 w0 t by (simp add: fixed_state_def mont_state_def del: replicate_Suc) 
  have "put 0 (addmul_1_fixed (?t + 1) ?t False [] y (x ! 0)) ans = addmul_at 0 (?t + 1) ?t y (x ! 0) ans0"
  proof -
    have "addmul_1_fixed (?t + 1) ?t True (win 0 (?t + 1) ans0) y (x ! 0) = addmul_1_fixed (?t + 1) ?t False [] y (x ! 0)"
      by (rule mpv_inject) (use addmul_1_fixed_value [of "?t + 1" ?t y True "win 0 (?t + 1) ans0" "x ! 0"]
        addmul_1_fixed_value [of "?t + 1" ?t y False "[]" "x ! 0"] ly w0 in \<open>simp_all del: replicate_Suc\<close>)
    then show ?thesis using la t addmul_1_fixed_value(1) [of "?t + 1" ?t y False "[]" "x ! 0"] ly
      by (simp add: addmul_at_def ans0_def put_def)
  qed
  moreover have "ans0 ! 0 = 0" using win_nth [of 0 "?t + 1" ans0 0] w0 l0 t by simp
  ultimately have e: "mont_first_fixed Z x y mem = mont_step_fixed Z x y ans0 0"
    by (simp add: mont_first_fixed_def mont_step_fixed_def Let_def ans_def)
  have W: "mpv (win 0 (?t + 1) ans0) = 0" unfolding w0 by (rule mpv_replicate_0)
  from mont_step_fixed_value [OF Z xy t(1) st]
  show "fixed_state Z (mpv y) 1 (mont_first_fixed Z x y mem)"
    "\<exists>k. B64 * mpv (win 1 (?t + 1) (mont_first_fixed Z x y mem)) = unat (x ! 0) * mpv y + k * ?p"
    unfolding e W by simp_all
qed

theorem Mont_Mult_fixed_value:
  assumes "zp_mont Z" "mont_fits Z" "zp_reduced Z x" "zp_reduced Z y" "length mem = 2 * MAX_MOD_SZ + 1"
  shows "zp_reduced Z (Mont_Mult_fixed Z mem x y)"
    "(2 ^ (64 * zp_t Z) * mpv (Mont_Mult_fixed Z mem x y)) mod zp_pr Z = (mpv x * mpv y) mod zp_pr Z"
proof -
  have inv: "zp_inv Z" "0 < zp_t Z" using assms(1) by (auto simp: zp_mont_def zp_inv_def)
  have l: "length x = zp_t Z" "mpv y < zp_pr Z" using assms(3,4) by (auto simp: zp_reduced_def)
  obtain k where k: "B64 * mpv (win 1 (zp_t Z + 1) (mont_first_fixed Z x y mem)) = unat (x ! 0) * mpv y + k * zp_pr Z"
    using mont_first_fixed_value(2) [OF assms] by blast
  have "fixed_state Z (mpv y) (zp_t Z) (foldl (mont_step_fixed Z x y) (mont_first_fixed Z x y mem) [1..<zp_t Z]) \<and>
      mont_sum Z x (mpv y) (zp_t Z) (mpv (win (zp_t Z) (zp_t Z + 1) (foldl (mont_step_fixed Z x y) (mont_first_fixed Z x y mem) [1..<zp_t Z])))"
    by (rule mont_loop [where P = "fixed_state Z (mpv y)", OF mont_first_fixed_value(1) [OF assms] mont_sum_1 [OF _ k]])
       (use mont_step_fixed_value [OF assms(1-4)] inv l in auto)
  then have st: "mont_state Z (mpv y) (zp_t Z) (foldl (mont_step_fixed Z x y) (mont_first_fixed Z x y mem) [1..<zp_t Z])"
    and sum: "mont_sum Z x (mpv y) (zp_t Z) (mpv (win (zp_t Z) (zp_t Z + 1) (foldl (mont_step_fixed Z x y) (mont_first_fixed Z x y mem) [1..<zp_t Z])))"
    by (auto simp: fixed_state_def)
  from mont_finish_value [OF inv(1) st l(2) sum l(1)]
  show "zp_reduced Z (Mont_Mult_fixed Z mem x y)"
    "(2 ^ (64 * zp_t Z) * mpv (Mont_Mult_fixed Z mem x y)) mod zp_pr Z = (mpv x * mpv y) mod zp_pr Z"
    unfolding Mont_Mult_fixed_def .
qed

theorem Mont_Mult_value:
  assumes "zp_mont Z" "mont_fits Z" "zp_reduced Z x" "zp_reduced Z y" "length mem = 2 * MAX_MOD_SZ + 1"
  shows "zp_reduced Z (Mont_Mult bmi2 Z mem x y)"
    "(2 ^ (64 * zp_t Z) * mpv (Mont_Mult bmi2 Z mem x y)) mod zp_pr Z = (mpv x * mpv y) mod zp_pr Z"
  using Mont_Mult_fixed_value [OF assms] Mont_Mult_variable_value [OF assms] by (simp_all add: Mont_Mult_def)

end
