(* ===== verification/Modp.thy ===== *)
theory Modp
  imports MontgomeryMul
begin

text \<open>
  \<^verbatim>\<open>Math/modp.h\<close> and \<^verbatim>\<open>Math/modp.hpp\<close>: numbers modulo a prime, in Montgomery form or plain.
  A number is the list of its first \<open>t\<close> limbs. \<open>L\<close> collects the functions of the
  GMP library that the code calls; \<open>mem\<close> is the initial content of the array in
  \<^verbatim>\<open>Mont_Mult\<close>, and \<open>bmi2\<close> tells whether the processor has BMI2.
\<close>

unbundle bit_operations_syntax

type_synonym modp = "limb list"

record mpn_lib =
  mpn_mul_n :: "limb list \<Rightarrow> limb list \<Rightarrow> limb list"
  mpn_tdiv_r :: "limb list \<Rightarrow> limb list \<Rightarrow> limb list"
  mpn_gcdext :: "limb list \<Rightarrow> limb list \<Rightarrow> bool \<times> limb list"

record machine_env =
  env_lib :: mpn_lib
  env_bmi2 :: bool
  env_mem :: "limb list"

subsection \<open>Operations that do not depend on the representation\<close>

definition modp_isZero :: "zp_data \<Rightarrow> modp \<Rightarrow> bool" where
  "modp_isZero Z x = (\<forall>i \<in> set [0..<zp_t Z]. x ! i = 0)"

definition modp_areEqual :: "zp_data \<Rightarrow> modp \<Rightarrow> modp \<Rightarrow> bool" where
  "modp_areEqual Z x y = (mpn_cmp x y = 0)"

definition modp_assignZero :: "zp_data \<Rightarrow> modp" where
  "modp_assignZero Z = replicate (zp_t Z) 0"

definition modp_Add :: "zp_data \<Rightarrow> modp \<Rightarrow> modp \<Rightarrow> modp" where
  "modp_Add Z x y = zp_add Z x y"

definition modp_Sub :: "zp_data \<Rightarrow> modp \<Rightarrow> modp \<Rightarrow> modp" where
  "modp_Sub Z x y = zp_sub Z x y"

definition modp_Negate :: "zp_data \<Rightarrow> modp \<Rightarrow> modp" where
  "modp_Negate Z x =
     (if modp_isZero Z x then x else fst (mpn_sub_n_borrow (take (zp_t Z) (zp_prA Z)) x))"

subsection \<open>Operations with a Montgomery variant\<close>

definition modp_assignOne :: "zp_data \<Rightarrow> modp" where
  "modp_assignOne Z =
     (if zp_montgomery Z then take (zp_t Z) (zp_R Z) else (modp_assignZero Z)[0 := 1])"

definition modp_isOne :: "zp_data \<Rightarrow> modp \<Rightarrow> bool" where
  "modp_isOne Z x =
     (if zp_montgomery Z then mpn_cmp x (take (zp_t Z) (zp_R Z)) = 0
      else x ! 0 = 1 \<and> (\<forall>i \<in> set [1..<zp_t Z]. x ! i = 0))"

definition modp_Mul :: "machine_env \<Rightarrow> zp_data \<Rightarrow> modp \<Rightarrow> modp \<Rightarrow> modp" where
  "modp_Mul M Z x y =
     (if zp_montgomery Z then Mont_Mult (env_bmi2 M) Z (env_mem M) x y
      else mpn_tdiv_r (env_lib M) (mpn_mul_n (env_lib M) x y) (take (zp_t Z) (zp_prA Z)))"

definition modp_Sqr :: "machine_env \<Rightarrow> zp_data \<Rightarrow> modp \<Rightarrow> modp" where
  "modp_Sqr M Z x = modp_Mul M Z x x"

text \<open>The limbs of the GMP integer; \<open>reduce\<close> removes the leading zeros.\<close>

definition modp_to_bigint :: "machine_env \<Rightarrow> zp_data \<Rightarrow> modp \<Rightarrow> bool \<Rightarrow> limb list" where
  "modp_to_bigint M Z x reduce =
     (let a = (if zp_montgomery Z
               then Mont_Mult (env_bmi2 M) Z (env_mem M) x ((replicate (zp_t Z) 0)[0 := 1]) else x)
      in if reduce then rev (dropWhile (\<lambda>l. l = 0) (rev a)) else a)"

definition modp_to_mont :: "machine_env \<Rightarrow> zp_data \<Rightarrow> modp \<Rightarrow> modp" where
  "modp_to_mont M Z x =
     (if zp_montgomery Z then Mont_Mult (env_bmi2 M) Z (env_mem M) x (take (zp_t Z) (zp_R2 Z)) else x)"

definition modp_convert :: "machine_env \<Rightarrow> zp_data \<Rightarrow> limb list \<Rightarrow> bool \<Rightarrow> modp res" where
  "modp_convert M Z source negative =
     bindE (guardE (length source \<le> zp_t Z) (Assertion ''size <= t'')) (\<lambda>_.
     let full = source @ replicate (zp_t Z - length source) 0
     in Inr (modp_to_mont M Z
          (if negative then fst (mpn_sub_n_borrow (take (zp_t Z) (zp_prA Z)) full) else full)))"

text \<open>\<^verbatim>\<open>xx %= pr\<close> keeps the sign of the dividend.\<close>

definition modp_convert_destroy :: "machine_env \<Rightarrow> zp_data \<Rightarrow> int \<Rightarrow> modp res" where
  "modp_convert_destroy M Z xx =
     (let v = nat \<bar>xx\<bar> mod zp_pr Z in modp_convert M Z (limbs_of (num_limbs v) v) (xx < 0 \<and> v \<noteq> 0))"

definition to_modp :: "machine_env \<Rightarrow> zp_data \<Rightarrow> int \<Rightarrow> modp res" where
  "to_modp M Z x =
     (if x = 0 then Inr (modp_assignZero Z) else if x = 1 then Inr (modp_assignOne Z)
      else modp_convert_destroy M Z x)"

definition to_modp_int :: "machine_env \<Rightarrow> zp_data \<Rightarrow> 32 word \<Rightarrow> modp res" where
  "to_modp_int M Z x =
     (let zero = replicate (zp_t Z) 0; p0 = zp_prA Z ! 0; v = signed x :: limb
      in if 0 \<le> sint x then Inr (modp_to_mont M Z (zero[0 := (if zp_t Z = 1 then v mod p0 else v)]))
      else if zp_t Z = 1 then Inr (modp_to_mont M Z (zero[0 := (p0 + v) mod p0]))
      else to_modp M Z (int (zp_pr Z) + sint x))"

text \<open>Square and multiply.\<close>

function power_loop :: "machine_env \<Rightarrow> zp_data \<Rightarrow> modp \<Rightarrow> modp \<Rightarrow> nat \<Rightarrow> modp" where
  "power_loop M Z ans t e =
     (if e = 0 then ans
      else power_loop M Z (if e mod 2 = 1 then modp_Mul M Z ans t else ans) (modp_Sqr M Z t) (e div 2))"
  by auto

termination by (relation "measure (\<lambda>(M, Z, ans, t, e). e)") auto

declare power_loop.simps [simp del]

definition modp_Power :: "machine_env \<Rightarrow> zp_data \<Rightarrow> modp \<Rightarrow> int \<Rightarrow> modp res" where
  "modp_Power M Z x e =
     (if e = 1 then Inr x else if e = 0 then Inr (modp_assignOne Z) else if e < 0 then Inl Not_Implemented
      else Inr (power_loop M Z (modp_assignOne Z) x (nat e)))"

definition modp_Inv :: "machine_env \<Rightarrow> zp_data \<Rightarrow> modp \<Rightarrow> modp" where
  "modp_Inv M Z x =
     (let (negative, s) = mpn_gcdext (env_lib M) x (take (zp_t Z) (zp_prA Z));
          full = s @ replicate (zp_t Z - length s) 0;
          ans = (if negative then fst (mpn_sub_n_borrow (take (zp_t Z) (zp_prA Z)) full) else full)
      in if zp_montgomery Z then Mont_Mult (env_bmi2 M) Z (env_mem M) ans (take (zp_t Z) (zp_R3 Z)) else ans)"

subsection \<open>What a number means\<close>

text \<open>
  What the code relies on in the GMP library, as it is documented: products of two numbers of
  the same positive length, remainders by divisors with a top limb that is not zero and no longer
  than the dividend.
\<close>

definition mpn_lib_ok :: "mpn_lib \<Rightarrow> bool" where
  "mpn_lib_ok L \<longleftrightarrow>
     (\<forall>x y. length x = length y \<and> x \<noteq> [] \<longrightarrow> length (mpn_mul_n L x y) = 2 * length x \<and> mpv (mpn_mul_n L x y) = mpv x * mpv y) \<and>
     (\<forall>a d. d \<noteq> [] \<and> last d \<noteq> 0 \<and> length d \<le> length a \<longrightarrow> length (mpn_tdiv_r L a d) = length d \<and> mpv (mpn_tdiv_r L a d) = mpv a mod mpv d)"

definition env_ok :: "machine_env \<Rightarrow> bool" where
  "env_ok M \<longleftrightarrow> mpn_lib_ok (env_lib M) \<and> length (env_mem M) = 2 * MAX_MOD_SZ + 1"

definition zp_ok :: "zp_data \<Rightarrow> bool" where
  "zp_ok Z \<longleftrightarrow> zp_inv Z \<and> (zp_montgomery Z \<longrightarrow> zp_mont Z \<and> mont_fits Z)"

definition modp_of :: "zp_data \<Rightarrow> modp \<Rightarrow> nat \<Rightarrow> bool" where
  "modp_of Z x n \<longleftrightarrow> zp_reduced Z x \<and> n < zp_pr Z \<and>
     mpv x = (if zp_montgomery Z then 2 ^ (64 * zp_t Z) * n mod zp_pr Z else n)"

lemma R_coprime: "zp_mont Z \<Longrightarrow> coprime ((2 :: nat) ^ (64 * zp_t Z)) (zp_pr Z)"
  by (simp add: zp_mont_def coprime_power_left_iff)

lemma cancel_mod:
  assumes "coprime r p" "(r * a) mod p = (r * b) mod p" "a < p" "b < (p :: nat)"
  shows "a = b"
proof -
  have main: "x = y" if "x \<le> y" "(r * x) mod p = (r * y) mod p" "y < p" for x y
  proof -
    have "p dvd r * y - r * x" using that(1,2) by (metis mod_eq_dvd_iff_nat mult_le_mono2)
    then have "p dvd r * (y - x)" by (simp add: diff_mult_distrib2)
    then have "p dvd y - x" using assms(1) by (simp add: coprime_dvd_mult_right_iff coprime_commute)
    then show ?thesis using that(1,3) by (meson dvd_imp_le le_less_trans diff_le_self not_le zero_less_diff le_neq_implies_less leD)
  qed
  show ?thesis using main [of a b] main [of b a] assms by (cases "a \<le> b") auto
qed

lemma modp_of_inject:
  assumes "zp_ok Z" "modp_of Z x a" "modp_of Z y b"
  shows "(x = y) = (a = b)"
proof
  assume "x = y"
  then have e: "mpv x = mpv y" "a < zp_pr Z" "b < zp_pr Z" using assms by (simp_all add: modp_of_def)
  show "a = b"
  proof (cases "zp_montgomery Z")
    case True
    then have "zp_mont Z" using assms(1) by (simp add: zp_ok_def)
    moreover have "2 ^ (64 * zp_t Z) * a mod zp_pr Z = 2 ^ (64 * zp_t Z) * b mod zp_pr Z"
      using e(1) assms(2,3) True by (simp add: modp_of_def)
    ultimately show ?thesis using cancel_mod [OF R_coprime] e(2,3) by blast
  next
    case False
    then show ?thesis using e(1) assms(2,3) by (simp add: modp_of_def)
  qed
next
  assume "a = b"
  then show "x = y" using assms mpv_inject [of x y] by (simp add: modp_of_def zp_reduced_def)
qed

lemma modp_ofI:
  "zp_reduced Z x \<Longrightarrow> n < zp_pr Z \<Longrightarrow> (zp_montgomery Z \<Longrightarrow> mpv x = 2 ^ (64 * zp_t Z) * n mod zp_pr Z) \<Longrightarrow>
    (\<not> zp_montgomery Z \<Longrightarrow> mpv x = n) \<Longrightarrow> modp_of Z x n"
  by (simp add: modp_of_def)

text \<open>The Montgomery product on representations.\<close>

lemma Mont_Mult_of:
  assumes "zp_ok Z" "zp_montgomery Z" "zp_reduced Z x" "zp_reduced Z y" "length mem = 2 * MAX_MOD_SZ + 1"
    and "(mpv x * mpv y) mod zp_pr Z = (2 ^ (64 * zp_t Z) * n) mod zp_pr Z"
  shows "zp_reduced Z (Mont_Mult bmi2 Z mem x y)" "mpv (Mont_Mult bmi2 Z mem x y) = n mod zp_pr Z"
proof -
  have Z: "zp_mont Z" "mont_fits Z" "zp_inv Z" using assms(1,2) by (auto simp: zp_ok_def)
  note v = Mont_Mult_value [OF Z(1,2) assms(3-5), of bmi2]
  show "zp_reduced Z (Mont_Mult bmi2 Z mem x y)" by (rule v(1))
  have "(2 ^ (64 * zp_t Z) * mpv (Mont_Mult bmi2 Z mem x y)) mod zp_pr Z = (2 ^ (64 * zp_t Z) * (n mod zp_pr Z)) mod zp_pr Z"
    unfolding v(2) assms(6) by (simp only: mod_mult_right_eq)
  then show "mpv (Mont_Mult bmi2 Z mem x y) = n mod zp_pr Z"
    by (rule cancel_mod [OF R_coprime [OF Z(1)]]) (use v(1) Z(3) in \<open>auto simp: zp_reduced_def zp_inv_def\<close>)
qed

subsection \<open>The operations on what numbers mean\<close>

lemma zp_facts: "zp_ok Z \<Longrightarrow> zp_inv Z" "zp_ok Z \<Longrightarrow> 1 < zp_pr Z" "zp_ok Z \<Longrightarrow> 0 < zp_t Z" "zp_ok Z \<Longrightarrow> zp_t Z \<le> MAX_MOD_SZ"
  by (auto simp: zp_ok_def zp_inv_def)

lemma prime_limbs: "zp_ok Z \<Longrightarrow> length (take (zp_t Z) (zp_prA Z)) = zp_t Z" "zp_ok Z \<Longrightarrow> mpv (take (zp_t Z) (zp_prA Z)) = zp_pr Z"
  using prA_take [of Z "zp_t Z"] by (auto simp: zp_ok_def zp_inv_def)

lemma prime_top_limb:
  assumes "zp_ok Z"
  shows "take (zp_t Z) (zp_prA Z) \<noteq> []" "last (take (zp_t Z) (zp_prA Z)) \<noteq> 0"
proof -
  let ?d = "take (zp_t Z) (zp_prA Z)"
  note p = prime_limbs [OF assms] and Z = zp_facts [OF assms]
  show ne: "?d \<noteq> []" using p(1) Z(3) by (metis length_greater_0_conv)
  have "mpv (butlast ?d) < 2 ^ (64 * (zp_t Z - 1))" using mpv_less [of "butlast ?d"] p(1) by (simp only: length_butlast)
  also have "\<dots> \<le> mpv ?d" using Z(1) by (simp only: p(2)) (simp add: zp_inv_def)
  finally have "mpv (butlast ?d) < mpv (butlast ?d @ [last ?d])" unfolding append_butlast_last_id [OF ne] .
  then show "last ?d \<noteq> 0" by (auto simp: mpv_append)
qed

lemma modp_Add_of:
  assumes "zp_ok Z" "modp_of Z x a" "modp_of Z y b"
  shows "modp_of Z (modp_Add Z x y) ((a + b) mod zp_pr Z)"
proof -
  note v = zp_add_value [OF zp_facts(1) [OF assms(1)], of x y]
  have r: "zp_reduced Z x" "zp_reduced Z y" using assms(2,3) by (simp_all add: modp_of_def)
  show ?thesis unfolding modp_Add_def
  proof (rule modp_ofI)
    show "zp_reduced Z (zp_add Z x y)" by (rule v(1) [OF r])
    show "(a + b) mod zp_pr Z < zp_pr Z" using zp_facts(2) [OF assms(1)] by simp
    show "mpv (zp_add Z x y) = 2 ^ (64 * zp_t Z) * ((a + b) mod zp_pr Z) mod zp_pr Z" if "zp_montgomery Z"
      unfolding v(2) [OF r] using assms(2,3) that by (simp add: modp_of_def mod_simps distrib_left)
    show "mpv (zp_add Z x y) = (a + b) mod zp_pr Z" if "\<not> zp_montgomery Z"
      unfolding v(2) [OF r] using assms(2,3) that by (simp add: modp_of_def)
  qed
qed

lemma minus_mod: "b < p \<Longrightarrow> (r * a mod p + (p - r * b mod p)) mod p = r * ((a + (p - b)) mod p) mod p" for p :: nat
proof -
  assume b: "b < p"
  have le: "r * b mod p \<le> p" using b by simp
  have "int ((r * a mod p + (p - r * b mod p)) mod p) = (int (r * a) mod int p + (int p - int (r * b) mod int p)) mod int p"
    unfolding zmod_int of_nat_add of_nat_diff [OF le] ..
  also have "int (r * a) mod int p + (int p - int (r * b) mod int p) = (int (r * a) mod int p - int (r * b) mod int p) + int p" by simp
  also have "\<dots> mod int p = (int (r * a) - int (r * b)) mod int p" unfolding mod_add_self2 by (rule mod_diff_eq)
  also have "\<dots> = (int r * int a - int r * int b) mod int p" by simp
  also have "\<dots> = (int r * int a - int r * int b + int r * int p) mod int p" by simp
  also have "int r * int a - int r * int b + int r * int p = int r * (int a + (int p - int b))" by (simp add: algebra_simps)
  also have "\<dots> mod int p = int (r * ((a + (p - b)) mod p) mod p)"
    unfolding zmod_int of_nat_mult of_nat_add of_nat_diff [OF less_imp_le [OF b]] mod_mult_right_eq ..
  finally show ?thesis by linarith
qed

lemma modp_Sub_of:
  assumes "zp_ok Z" "modp_of Z x a" "modp_of Z y b"
  shows "modp_of Z (modp_Sub Z x y) ((a + (zp_pr Z - b)) mod zp_pr Z)"
proof -
  note v = zp_sub_value [OF zp_facts(1) [OF assms(1)], of x y]
  have r: "zp_reduced Z x" "zp_reduced Z y" "b < zp_pr Z" using assms(2,3) by (simp_all add: modp_of_def)
  show ?thesis unfolding modp_Sub_def
  proof (rule modp_ofI)
    show "zp_reduced Z (zp_sub Z x y)" by (rule v(1) [OF r(1,2)])
    show "(a + (zp_pr Z - b)) mod zp_pr Z < zp_pr Z" using zp_facts(2) [OF assms(1)] by simp
    show "mpv (zp_sub Z x y) = 2 ^ (64 * zp_t Z) * ((a + (zp_pr Z - b)) mod zp_pr Z) mod zp_pr Z" if "zp_montgomery Z"
      unfolding v(2) [OF r(1,2)] minus_mod [OF r(3), symmetric] using assms(2,3) that by (simp add: modp_of_def)
    show "mpv (zp_sub Z x y) = (a + (zp_pr Z - b)) mod zp_pr Z" if "\<not> zp_montgomery Z"
      unfolding v(2) [OF r(1,2)] using assms(2,3) that by (simp add: modp_of_def)
  qed
qed

lemma mpv_eq_0: "(mpv x = 0) = (\<forall>i < length x. x ! i = 0)"
  by (induction x) (auto simp: less_Suc_eq_0_disj unat_eq_0)

lemma modp_zero_of: "zp_ok Z \<Longrightarrow> modp_of Z (modp_assignZero Z) 0"
  using zp_facts(2) [of Z] by (auto simp: modp_of_def zp_reduced_def modp_assignZero_def)

lemma modp_isZero_of:
  assumes "zp_ok Z" "modp_of Z x a"
  shows "modp_isZero Z x = (a = 0)"
proof -
  have "modp_isZero Z x = (x = modp_assignZero Z)"
    using assms(2) by (auto simp: modp_isZero_def modp_assignZero_def modp_of_def zp_reduced_def list_eq_iff_nth_eq)
  then show ?thesis using modp_of_inject [OF assms modp_zero_of [OF assms(1)]] by simp
qed

lemma modp_areEqual_of:
  assumes "zp_ok Z" "modp_of Z x a" "modp_of Z y b"
  shows "modp_areEqual Z x y = (a = b)"
  using modp_of_inject [OF assms] mpn_cmp_eq [of x y] assms(2,3) by (auto simp: modp_areEqual_def modp_of_def zp_reduced_def)

lemma minus_limbs:
  assumes "zp_ok Z" "length x = zp_t Z" "mpv x \<le> zp_pr Z"
  shows "length (fst (mpn_sub_n_borrow (take (zp_t Z) (zp_prA Z)) x)) = zp_t Z"
    "mpv (fst (mpn_sub_n_borrow (take (zp_t Z) (zp_prA Z)) x)) = zp_pr Z - mpv x"
proof -
  obtain r b where r: "mpn_sub_n_borrow (take (zp_t Z) (zp_prA Z)) x = (r, b)" by force
  note p = prime_limbs [OF assms(1)]
  have v: "length r = zp_t Z" "mpv r + mpv x = zp_pr Z + 2 ^ (64 * zp_t Z) * of_bool b"
    using mpn_sub_value [OF _ r] p assms(2) by simp_all
  have "mpv r < 2 ^ (64 * zp_t Z)" using mpv_less [of r] v(1) by simp
  then have "mpv r = zp_pr Z - mpv x" using v(2) assms(3) by (cases b) simp_all
  then show "length (fst (mpn_sub_n_borrow (take (zp_t Z) (zp_prA Z)) x)) = zp_t Z"
    "mpv (fst (mpn_sub_n_borrow (take (zp_t Z) (zp_prA Z)) x)) = zp_pr Z - mpv x"
    using r v(1) by simp_all
qed

lemma modp_Negate_of:
  assumes "zp_ok Z" "modp_of Z x a"
  shows "modp_of Z (modp_Negate Z x) ((zp_pr Z - a) mod zp_pr Z)"
proof (cases "a = 0")
  case True
  then show ?thesis using assms modp_isZero_of [OF assms] by (simp add: modp_Negate_def)
next
  case False
  have x: "length x = zp_t Z" "mpv x < zp_pr Z" "a < zp_pr Z" using assms(2) by (simp_all add: modp_of_def zp_reduced_def)
  have "mpv x \<noteq> 0"
  proof
    assume "mpv x = 0"
    then have "modp_of Z x 0" using x assms(2) by (simp add: modp_of_def)
    then show False using modp_of_inject [OF assms(1) assms(2) \<open>modp_of Z x 0\<close>] False by simp
  qed
  note m = minus_limbs [OF assms(1) x(1) less_imp_le [OF x(2)]]
  let ?n = "fst (mpn_sub_n_borrow (take (zp_t Z) (zp_prA Z)) x)"
  have "modp_of Z ?n ((zp_pr Z - a) mod zp_pr Z)"
  proof (rule modp_ofI)
    show "zp_reduced Z ?n" using m \<open>mpv x \<noteq> 0\<close> x(2) by (simp add: zp_reduced_def)
    show "(zp_pr Z - a) mod zp_pr Z < zp_pr Z" using x(3) by simp
    show "mpv ?n = 2 ^ (64 * zp_t Z) * ((zp_pr Z - a) mod zp_pr Z) mod zp_pr Z" if "zp_montgomery Z"
      using minus_mod [OF x(3), of "2 ^ (64 * zp_t Z)" 0] m(2) assms(2) that \<open>mpv x \<noteq> 0\<close> x(2) by (simp add: modp_of_def)
    show "mpv ?n = (zp_pr Z - a) mod zp_pr Z" if "\<not> zp_montgomery Z"
      using m(2) assms(2) that False by (simp add: modp_of_def)
  qed
  then show ?thesis using modp_isZero_of [OF assms] False by (simp add: modp_Negate_def)
qed

lemma modp_one_of:
  assumes "zp_ok Z"
  shows "modp_of Z (modp_assignOne Z) 1"
proof (cases "zp_montgomery Z")
  case True
  then have m: "zp_mont Z" using assms by (simp add: zp_ok_def)
  have lt: "mpv (zp_R Z) < 2 ^ (64 * zp_t Z)"
    using m less_trans [OF mod_less_divisor [of "zp_pr Z" "2 ^ (64 * zp_t Z)"], of "2 ^ (64 * zp_t Z)"] by (simp add: zp_mont_def zp_inv_def)
  have "mpv (take (zp_t Z) (zp_R Z)) = mpv (zp_R Z)" "length (take (zp_t Z) (zp_R Z)) = zp_t Z"
    using mpv_take [of "zp_t Z" "zp_R Z"] m lt by (simp_all add: zp_mont_def zp_inv_def)
  then show ?thesis using True m zp_facts(2) [OF assms] by (simp add: modp_of_def modp_assignOne_def zp_reduced_def zp_mont_def)
next
  case False
  obtain n where n: "zp_t Z = Suc n" using zp_facts(3) [OF assms] gr0_implies_Suc by blast
  then show ?thesis using False zp_facts(2) [OF assms]
    by (simp add: modp_of_def modp_assignOne_def zp_reduced_def modp_assignZero_def)
qed

lemma modp_isOne_of:
  assumes "zp_ok Z" "modp_of Z x a"
  shows "modp_isOne Z x = (a = 1)"
proof -
  have l: "length x = zp_t Z" "length (modp_assignOne Z) = zp_t Z"
    using assms(2) modp_one_of [OF assms(1)] by (simp_all add: modp_of_def zp_reduced_def)
  have "modp_isOne Z x = (x = modp_assignOne Z)"
  proof (cases "zp_montgomery Z")
    case True
    then show ?thesis using mpn_cmp_eq [of x "modp_assignOne Z"] l by (simp add: modp_isOne_def modp_assignOne_def)
  next
    case False
    obtain n where n: "zp_t Z = Suc n" using zp_facts(3) [OF assms(1)] gr0_implies_Suc by blast
    obtain v vs where x: "x = v # vs" "length vs = n" using l(1) n by (cases x) auto
    have "(\<forall>i \<in> set [1..<Suc n]. (v # vs) ! i = 0) = (vs = replicate n 0)"
    proof
      assume a: "\<forall>i \<in> set [1..<Suc n]. (v # vs) ! i = 0"
      show "vs = replicate n 0"
      proof (rule nth_equalityI)
        fix i assume "i < length vs"
        then have "Suc i \<in> set [1..<Suc n]" using x(2) by auto
        from bspec [OF a this] show "vs ! i = replicate n 0 ! i" using \<open>i < length vs\<close> x(2) by simp
      qed (use x(2) in simp)
    next
      assume "vs = replicate n 0"
      then have "(v # vs) ! i = 0" if "1 \<le> i" "i < Suc n" for i using that by (cases i) simp_all
      then show "\<forall>i \<in> set [1..<Suc n]. (v # vs) ! i = 0" by (metis atLeastLessThan_iff set_upt)
    qed
    then show ?thesis using False n x by (simp add: modp_isOne_def modp_assignOne_def modp_assignZero_def del: set_upt)
  qed
  then show ?thesis using modp_of_inject [OF assms modp_one_of [OF assms(1)]] by simp
qed

lemma modp_Mul_of:
  assumes "zp_ok Z" "env_ok M" "modp_of Z x a" "modp_of Z y b"
  shows "modp_of Z (modp_Mul M Z x y) (a * b mod zp_pr Z)"
proof (cases "zp_montgomery Z")
  case True
  have r: "zp_reduced Z x" "zp_reduced Z y" "length (env_mem M) = 2 * MAX_MOD_SZ + 1"
    using assms(2-4) by (simp_all add: modp_of_def env_ok_def)
  let ?R = "2 ^ (64 * zp_t Z) :: nat"
  have "(mpv x * mpv y) mod zp_pr Z = (?R * a * (?R * b)) mod zp_pr Z"
    using assms(3,4) True by (simp add: modp_of_def mod_simps)
  then have "(mpv x * mpv y) mod zp_pr Z = (?R * (?R * (a * b))) mod zp_pr Z" by (simp add: mult.assoc mult.left_commute)
  note v = Mont_Mult_of [OF assms(1) True r this, of "env_bmi2 M"]
  show ?thesis using True v zp_facts(2) [OF assms(1)] by (simp add: modp_of_def modp_Mul_def mod_simps)
next
  case False
  note p = prime_limbs [OF assms(1)]
  have l: "length x = length y" "mpv x = a" "mpv y = b" using assms(3,4) False by (simp_all add: modp_of_def zp_reduced_def)
  note top = prime_top_limb [OF assms(1)]
  have x: "x \<noteq> []" "length x = zp_t Z" using assms(3) zp_facts(3) [OF assms(1)] by (auto simp: modp_of_def zp_reduced_def)
  have L: "mpn_lib_ok (env_lib M)" using assms(2) by (simp add: env_ok_def)
  have "mpv (modp_Mul M Z x y) = a * b mod zp_pr Z" "length (modp_Mul M Z x y) = zp_t Z"
    using False L l p top x by (simp_all add: modp_Mul_def mpn_lib_ok_def)
  then show ?thesis using False zp_facts(2) [OF assms(1)] by (simp add: modp_of_def zp_reduced_def)
qed

lemma power_loop_of:
  assumes "zp_ok Z" "env_ok M"
  shows "modp_of Z ans a \<Longrightarrow> modp_of Z t b \<Longrightarrow> modp_of Z (power_loop M Z ans t e) (a * b ^ e mod zp_pr Z)"
proof (induction e arbitrary: ans t a b rule: less_induct)
  case (less e)
  show ?case
  proof (cases "e = 0")
    case True
    then show ?thesis using less.prems by (simp add: power_loop.simps [of _ _ _ _ 0] modp_of_def)
  next
    case False
    define a' where "a' = (if e mod 2 = 1 then a * b mod zp_pr Z else a)"
    have t: "modp_of Z (modp_Sqr M Z t) (b * b mod zp_pr Z)"
      unfolding modp_Sqr_def by (rule modp_Mul_of [OF assms less.prems(2,2)])
    have "modp_of Z (if e mod 2 = 1 then modp_Mul M Z ans t else ans) a'"
      using modp_Mul_of [OF assms less.prems] less.prems(1) by (simp add: a'_def)
    from less.IH [OF _ this t, of "e div 2"] False
    have "modp_of Z (power_loop M Z ans t e) (a' * (b * b mod zp_pr Z) ^ (e div 2) mod zp_pr Z)"
      by (simp add: power_loop.simps [of _ _ _ _ e])
    also have "a' * (b * b mod zp_pr Z) ^ (e div 2) mod zp_pr Z = a' * (b * b) ^ (e div 2) mod zp_pr Z"
      by (metis mod_mult_right_eq power_mod)
    also have "\<dots> = a * b ^ e mod zp_pr Z"
    proof (cases "e mod 2 = 1")
      case True
      have "b ^ Suc (2 * (e div 2)) = b * (b * b) ^ (e div 2)" by (simp only: power_Suc power_mult power2_eq_square)
      moreover have "Suc (2 * (e div 2)) = e" using True by presburger
      ultimately have "b ^ e = b * (b * b) ^ (e div 2)" by (simp only:)
      moreover have "a' = a * b mod zp_pr Z" using True by (simp add: a'_def)
      ultimately show ?thesis by (simp only: mod_mult_left_eq mult.assoc)
    next
      case False
      have "b ^ (2 * (e div 2)) = (b * b) ^ (e div 2)" by (simp only: power_mult power2_eq_square)
      moreover have "2 * (e div 2) = e" using False by presburger
      ultimately have "b ^ e = (b * b) ^ (e div 2)" by (simp only:)
      then show ?thesis using False by (simp add: a'_def)
    qed
    finally show ?thesis .
  qed
qed

lemma modp_Power_of:
  assumes "zp_ok Z" "env_ok M" "modp_of Z x a" "0 \<le> e"
  shows "\<exists>r. modp_Power M Z x e = Inr r \<and> modp_of Z r (a ^ nat e mod zp_pr Z)"
proof -
  have "1 < zp_pr Z" "a < zp_pr Z" using zp_facts(2) [OF assms(1)] assms(3) by (simp_all add: modp_of_def)
  then show ?thesis
    using power_loop_of [OF assms(1,2) modp_one_of [OF assms(1)] assms(3), of "nat e"] modp_one_of [OF assms(1)] assms(3,4)
    by (auto simp: modp_Power_def)
qed

end
