(* ===== verification/ModpConvert.thy ===== *)
theory ModpConvert
  imports Modp
begin

text \<open>
  Set-up of the data of a prime (\<^verbatim>\<open>Zp_Data::init\<close>) and the conversions between integers and
  numbers modulo the prime, with the inverse.
\<close>

unbundle bit_operations_syntax

subsection \<open>Sizes\<close>

lemma num_bits_bounds: "0 < v \<Longrightarrow> 2 ^ (num_bits v - 1) \<le> v \<and> v < 2 ^ num_bits v"
proof (induction v rule: num_bits.induct)
  case (1 v)
  show ?case
  proof (cases "v \<le> 1")
    case True
    then have "v = 1" using 1(2) by simp
    then show ?thesis by (simp add: num_bits.simps)
  next
    case False
    then have d: "2 ^ (num_bits (v div 2) - 1) \<le> v div 2" "v div 2 < 2 ^ num_bits (v div 2)" using 1 by auto
    have n: "num_bits v = Suc (num_bits (v div 2))" "0 < num_bits (v div 2)"
      using False by (subst num_bits.simps, simp) (subst num_bits.simps, simp)
    then obtain k where k: "num_bits (v div 2) = Suc k" using gr0_implies_Suc by blast
    have "v = 2 * (v div 2) \<or> v = Suc (2 * (v div 2))" by arith
    then show ?thesis using d unfolding n(1) k by auto
  qed
qed

lemma num_limbs_bounds:
  assumes "0 < v"
  shows "0 < num_limbs v" "2 ^ (64 * (num_limbs v - 1)) \<le> v" "v < 2 ^ (64 * num_limbs v)"
proof -
  note b = num_bits_bounds [OF assms]
  have n: "0 < num_bits v" by (subst num_bits.simps) simp
  then show t: "0 < num_limbs v" using assms by (simp add: num_limbs_def)
  have "64 * (num_limbs v - 1) \<le> num_bits v - 1" using assms n by (simp add: num_limbs_def)
  then have "(2 :: nat) ^ (64 * (num_limbs v - 1)) \<le> 2 ^ (num_bits v - 1)" by (rule power_increasing) simp
  then show "2 ^ (64 * (num_limbs v - 1)) \<le> v" using b by linarith
  have "num_bits v \<le> 64 * num_limbs v" using assms by (simp add: num_limbs_def)
  then have "(2 :: nat) ^ num_bits v \<le> 2 ^ (64 * num_limbs v)" by (rule power_increasing) simp
  then show "v < 2 ^ (64 * num_limbs v)" using b by linarith
qed

lemma num_limbs_le: "v < 2 ^ (64 * n) \<Longrightarrow> num_limbs v \<le> n"
proof (rule ccontr)
  assume v: "v < 2 ^ (64 * n)" and "\<not> num_limbs v \<le> n"
  then have n: "n \<le> num_limbs v - 1" "0 < v" by (auto simp: num_limbs_def split: if_splits)
  have "(2 :: nat) ^ (64 * n) \<le> 2 ^ (64 * (num_limbs v - 1))" using n(1) by (intro power_increasing) auto
  then show False using v num_limbs_bounds(2) [OF n(2)] by linarith
qed

lemma mpv_limbs_num: "mpv (limbs_of (num_limbs v) v) = v"
  using num_limbs_bounds(3) [of v] by (cases "v = 0") (simp_all add: mpv_limbs_of num_limbs_def)

subsection \<open>Conversion to integers\<close>

lemma mpv_trim: "mpv (rev (dropWhile (\<lambda>l. l = 0) (rev a))) = mpv a"
proof -
  have "\<exists>n. takeWhile (\<lambda>l. l = 0) (rev a) = replicate n (0 :: limb)"
    by (metis (mono_tags, lifting) replicate_length_same set_takeWhileD)
  then obtain n where n: "takeWhile (\<lambda>l. l = 0) (rev a) = replicate n (0 :: limb)" by blast
  have "a = rev (takeWhile (\<lambda>l. l = 0) (rev a) @ dropWhile (\<lambda>l. l = 0) (rev a))" by simp
  then have "a = rev (dropWhile (\<lambda>l. l = 0) (rev a)) @ replicate n 0" unfolding n by simp
  then have "mpv a = mpv (rev (dropWhile (\<lambda>l. l = 0) (rev a)) @ replicate n 0)" by simp
  then show ?thesis by (simp add: mpv_append)
qed

lemma one_limbs: "0 < t \<Longrightarrow> mpv ((replicate t 0)[0 := v]) = unat v"
  by (cases t) simp_all

lemma modp_to_bigint_of:
  assumes "zp_ok Z" "env_ok M" "modp_of Z x a"
  shows "mpv (modp_to_bigint M Z x reduce) = a"
proof (cases "zp_montgomery Z")
  case True
  let ?one = "(replicate (zp_t Z) (0 :: limb))[0 := 1]"
  have x: "zp_reduced Z x" "length (env_mem M) = 2 * MAX_MOD_SZ + 1" "a < zp_pr Z"
    "mpv x = 2 ^ (64 * zp_t Z) * a mod zp_pr Z"
    using assms(2,3) True by (simp_all add: modp_of_def env_ok_def)
  have one: "mpv ?one = 1" using one_limbs [of "zp_t Z" 1] zp_facts(3) [OF assms(1)] by simp
  then have r1: "zp_reduced Z ?one" using zp_facts(2) [OF assms(1)] by (simp add: zp_reduced_def)
  have "(mpv x * mpv ?one) mod zp_pr Z = (2 ^ (64 * zp_t Z) * a) mod zp_pr Z" unfolding one x(4) by simp
  from Mont_Mult_of(2) [OF assms(1) True x(1) r1 x(2) this, of "env_bmi2 M"] x(3)
  show ?thesis using True by (simp add: modp_to_bigint_def Let_def mpv_trim)
next
  case False
  then show ?thesis using assms(3) by (simp add: modp_to_bigint_def Let_def mpv_trim modp_of_def)
qed

lemma modp_reduced_of: "zp_ok Z \<Longrightarrow> env_ok M \<Longrightarrow> zp_reduced Z x \<Longrightarrow> modp_of Z x (mpv (modp_to_bigint M Z x reduce))"
proof -
  assume a: "zp_ok Z" "env_ok M" "zp_reduced Z x"
  show "modp_of Z x (mpv (modp_to_bigint M Z x reduce))"
  proof (cases "zp_montgomery Z")
    case True
    let ?one = "(replicate (zp_t Z) (0 :: limb))[0 := 1]"
    have one: "mpv ?one = 1" using one_limbs [of "zp_t Z" 1] zp_facts(3) [OF a(1)] by simp
    then have r1: "zp_reduced Z ?one" using zp_facts(2) [OF a(1)] by (simp add: zp_reduced_def)
    have m: "zp_mont Z" "mont_fits Z" "length (env_mem M) = 2 * MAX_MOD_SZ + 1" using a(1,2) True by (auto simp: zp_ok_def env_ok_def)
    note v = Mont_Mult_value [OF m(1,2) a(3) r1 m(3), of "env_bmi2 M"]
    show ?thesis using True v a(3) one by (simp add: modp_of_def modp_to_bigint_def Let_def mpv_trim zp_reduced_def)
  next
    case False
    then show ?thesis using a(3) by (simp add: modp_of_def modp_to_bigint_def Let_def mpv_trim zp_reduced_def)
  qed
qed

subsection \<open>Conversion from integers\<close>

lemma power_triple: "(a :: nat) ^ (3 * n) = a ^ n * (a ^ n * a ^ n)"
  by (simp only: mult.commute [of 3] power_mult power3_eq_cube mult.assoc)

lemma R2_limbs:
  assumes "zp_mont Z"
  shows "zp_reduced Z (take (zp_t Z) (zp_R2 Z))" "mpv (take (zp_t Z) (zp_R2 Z)) = 2 ^ (2 * (64 * zp_t Z)) mod zp_pr Z"
    "zp_reduced Z (take (zp_t Z) (zp_R3 Z))" "mpv (take (zp_t Z) (zp_R3 Z)) = 2 ^ (3 * (64 * zp_t Z)) mod zp_pr Z"
proof -
  have p: "zp_pr Z < 2 ^ (64 * zp_t Z)" "0 < zp_pr Z" using assms by (simp_all add: zp_mont_def zp_inv_def)
  have l: "length (zp_R2 Z) = MAX_MOD_SZ" "length (zp_R3 Z) = MAX_MOD_SZ" "zp_t Z \<le> MAX_MOD_SZ"
    "mpv (zp_R2 Z) = 2 ^ (2 * (64 * zp_t Z)) mod zp_pr Z" "mpv (zp_R3 Z) = 2 ^ (3 * (64 * zp_t Z)) mod zp_pr Z"
    using assms by (simp_all add: zp_mont_def zp_inv_def)
  have lt: "n mod zp_pr Z < 2 ^ (64 * zp_t Z)" for n using p mod_less_divisor [OF p(2), of n] by linarith
  show "mpv (take (zp_t Z) (zp_R2 Z)) = 2 ^ (2 * (64 * zp_t Z)) mod zp_pr Z"
    using mpv_take [of "zp_t Z" "zp_R2 Z"] l lt by simp
  then show "zp_reduced Z (take (zp_t Z) (zp_R2 Z))" using l p by (simp add: zp_reduced_def)
  show "mpv (take (zp_t Z) (zp_R3 Z)) = 2 ^ (3 * (64 * zp_t Z)) mod zp_pr Z"
    using mpv_take [of "zp_t Z" "zp_R3 Z"] l lt by simp
  then show "zp_reduced Z (take (zp_t Z) (zp_R3 Z))" using l p by (simp add: zp_reduced_def)
qed

lemma modp_to_mont_of:
  assumes "zp_ok Z" "env_ok M" "zp_reduced Z x"
  shows "modp_of Z (modp_to_mont M Z x) (mpv x)"
proof (cases "zp_montgomery Z")
  case True
  have m: "zp_mont Z" "length (env_mem M) = 2 * MAX_MOD_SZ + 1" using assms(1,2) True by (simp_all add: zp_ok_def env_ok_def)
  let ?R = "(2 :: nat) ^ (64 * zp_t Z)"
  have R: "(2 :: nat) ^ (2 * (64 * zp_t Z)) = ?R * ?R" by (simp only: mult_2 power_add)
  have "(mpv x * mpv (take (zp_t Z) (zp_R2 Z))) mod zp_pr Z = (mpv x * (?R * ?R)) mod zp_pr Z"
    unfolding R2_limbs(2) [OF m(1)] R by (rule mod_mult_right_eq)
  also have "mpv x * (?R * ?R) = ?R * (?R * mpv x)" by simp
  finally have e: "(mpv x * mpv (take (zp_t Z) (zp_R2 Z))) mod zp_pr Z = (?R * (?R * mpv x)) mod zp_pr Z" .
  show ?thesis using Mont_Mult_of [OF assms(1) True assms(3) R2_limbs(1) [OF m(1)] m(2) e, of "env_bmi2 M"] True assms(3)
    by (simp add: modp_of_def modp_to_mont_def zp_reduced_def)
next
  case False
  then show ?thesis using assms(3) by (simp add: modp_of_def modp_to_mont_def zp_reduced_def)
qed

lemma full_limbs: "length s \<le> t \<Longrightarrow> length (s @ replicate (t - length s) 0) = t \<and> mpv (s @ replicate (t - length s) 0) = mpv s"
  by (simp add: mpv_append)

lemma neg_mod: "0 < p \<Longrightarrow> nat (- int v mod int p) = (if v mod p = 0 then 0 else p - v mod p)"
proof -
  assume p: "0 < p"
  have "- int v mod int p = (if int v mod int p = 0 then 0 else int p - int v mod int p)" by (rule zmod_zminus1_eq_if)
  then have "- int v mod int p = (if v mod p = 0 then 0 else int (p - v mod p))"
    using p less_imp_le [OF mod_less_divisor [OF p, of v]] by (simp add: zmod_int [symmetric] of_nat_diff)
  then show ?thesis by (simp split: if_splits)
qed

lemma to_modp_of:
  assumes "zp_ok Z" "env_ok M"
  shows "\<exists>m. to_modp M Z v = Inr m \<and> modp_of Z m (nat (v mod int (zp_pr Z)))"
proof -
  let ?p = "zp_pr Z" and ?v = "nat \<bar>v\<bar> mod zp_pr Z"
  note f = zp_facts [OF assms(1)]
  have lt: "?v < ?p" "?p < 2 ^ (64 * zp_t Z)" using f(1,2) by (simp_all add: zp_inv_def)
  have l: "length (limbs_of (num_limbs ?v) ?v) \<le> zp_t Z" using num_limbs_le [of ?v "zp_t Z"] lt by simp
  define full where "full = limbs_of (num_limbs ?v) ?v @ replicate (zp_t Z - length (limbs_of (num_limbs ?v) ?v)) 0"
  have full: "length full = zp_t Z" "mpv full = ?v" unfolding full_def using full_limbs [OF l] mpv_limbs_num by simp_all
  have conv: "modp_convert_destroy M Z v = Inr (modp_to_mont M Z
      (if v < 0 \<and> ?v \<noteq> 0 then fst (mpn_sub_n_borrow (take (zp_t Z) (zp_prA Z)) full) else full))"
    using l unfolding modp_convert_destroy_def modp_convert_def Let_def full_def by simp
  have "\<exists>m. modp_convert_destroy M Z v = Inr m \<and> modp_of Z m (nat (v mod int ?p))"
  proof (cases "v < 0 \<and> ?v \<noteq> 0")
    case True
    have le: "mpv full \<le> ?p" using full(2) lt by linarith
    note m = minus_limbs [OF assms(1) full(1) le]
    let ?n = "fst (mpn_sub_n_borrow (take (zp_t Z) (zp_prA Z)) full)"
    have n: "zp_reduced Z ?n" "mpv ?n = ?p - ?v" unfolding zp_reduced_def using m full(2) True f(2) by auto
    have "- int (nat \<bar>v\<bar>) = v" using True by simp
    then have nv: "nat (v mod int ?p) = ?p - ?v" using neg_mod [of ?p "nat \<bar>v\<bar>"] True f(2) by auto
    show ?thesis unfolding conv if_P [OF True] nv n(2) [symmetric] using modp_to_mont_of [OF assms n(1)] by blast
  next
    case False
    have r: "zp_reduced Z full" using full lt(1) by (simp only: zp_reduced_def)
    have "nat (v mod int ?p) = ?v"
    proof (cases "v < 0")
      case True
      then have "- int (nat \<bar>v\<bar>) = v" by simp
      then show ?thesis using neg_mod [of ?p "nat \<bar>v\<bar>"] False True f(2) by auto
    next
      case False
      then show ?thesis by (simp add: nat_mod_distrib)
    qed
    then show ?thesis unfolding conv using modp_to_mont_of [OF assms r] full(2) False by auto
  qed
  then show ?thesis using modp_zero_of [OF assms(1)] modp_one_of [OF assms(1)] f(2) by (simp add: to_modp_def)
qed

lemma unat_signed: "unat (signed x :: limb) = nat (sint x mod 2 ^ 64)" for x :: "32 word"
proof -
  have "LENGTH(64) = 64" by simp
  then show ?thesis unfolding scast_eq unat_eq_nat_uint uint_word_of_int by (simp only:)
qed

lemma nat_shift: "0 \<le> s + int m \<Longrightarrow> - s \<le> int p \<Longrightarrow> p + nat (s + int m) = nat (int p + s) + m"
  by linarith

lemma to_modp_int_of:
  assumes "zp_ok Z" "env_ok M" "zp_t Z = 1 \<Longrightarrow> - sint x \<le> int (zp_pr Z)"
  shows "\<exists>m. to_modp_int M Z x = Inr m \<and> modp_of Z m (nat (sint x mod int (zp_pr Z)))"
proof -
  let ?p = "zp_pr Z" and ?zero = "replicate (zp_t Z) (0 :: limb)"
  note f = zp_facts [OF assms(1)]
  have red: "modp_of Z (modp_to_mont M Z (?zero[0 := w])) (unat w)" if "unat w < ?p" for w
    using modp_to_mont_of [OF assms(1,2), of "?zero[0 := w]"] one_limbs [OF f(3), of w] that by (simp add: zp_reduced_def)
  have b: "- (2 ^ 31) \<le> sint x" "sint x < 2 ^ 31" using sint_ge [of x] sint_lt [of x] by simp_all
  have p0: "unat (zp_prA Z ! 0) = ?p" if "zp_t Z = 1"
  proof -
    have "mpv (take 1 (zp_prA Z)) = ?p" "length (take 1 (zp_prA Z)) = 1" using prime_limbs [OF assms(1)] that by simp_all
    then show ?thesis by (cases "zp_prA Z") simp_all
  qed
  show ?thesis
  proof (cases "0 \<le> sint x")
    case True
    have u: "unat (signed x :: limb) = nat (sint x)" unfolding unat_signed using True b by simp
    show ?thesis
    proof (cases "zp_t Z = 1")
      case t: True
      have "unat ((signed x :: limb) mod zp_prA Z ! 0) = nat (sint x) mod ?p" unfolding unat_mod_distrib u p0 [OF t] ..
      then show ?thesis using red [of "signed x mod zp_prA Z ! 0"] True t f(2) by (simp add: to_modp_int_def Let_def nat_mod_distrib)
    next
      case False
      then have "64 \<le> 64 * (zp_t Z - 1)" using f(3) by (simp add: algebra_simps)
      then have "(2 :: nat) ^ 64 \<le> 2 ^ (64 * (zp_t Z - 1))" by (rule power_increasing) simp
      then have p: "2 ^ 64 \<le> ?p" using f(1) unfolding zp_inv_def by linarith
      moreover have "int (2 ^ 64) \<le> int ?p" using p by (simp only: of_nat_le_iff)
      ultimately have lt: "sint x < int ?p" using b(2) by simp
      then have "unat (signed x :: limb) < ?p" unfolding u using True by (simp add: nat_less_iff)
      moreover have "sint x mod int ?p = sint x" using True lt by (intro mod_pos_pos_trivial)
      ultimately show ?thesis using red [of "signed x"] True False u by (simp add: to_modp_int_def Let_def)
    qed
  next
    case False
    show ?thesis
    proof (cases "zp_t Z = 1")
      case t: True
      have lt: "?p < 2 ^ 64" using f(1) t by (simp add: zp_inv_def)
      have "sint x mod 2 ^ 64 = (sint x + 2 ^ 64) mod 2 ^ 64" by simp
      also have "\<dots> = sint x + 2 ^ 64" using False b by (intro mod_pos_pos_trivial) simp_all
      finally have "unat (signed x :: limb) = nat (sint x + 2 ^ 64)" unfolding unat_signed by simp
      then have "unat (zp_prA Z ! 0 + signed x) = (?p + nat (sint x + 2 ^ 64)) mod B64" unfolding unat_plus p0 [OF t] by simp
      also have "?p + nat (sint x + 2 ^ 64) = nat (int ?p + sint x) + B64"
        using nat_shift [of "sint x" B64 ?p] b assms(3) [OF t] by simp
      also have "\<dots> mod B64 = nat (int ?p + sint x)" using lt False by simp
      finally have "unat ((zp_prA Z ! 0 + signed x) mod zp_prA Z ! 0) = nat (int ?p + sint x) mod ?p"
        unfolding unat_mod_distrib p0 [OF t] by simp
      also have "\<dots> = nat ((int ?p + sint x) mod int ?p)" using nat_mod_distrib [of "int ?p + sint x" "int ?p"] assms(3) [OF t] by (simp del: mod_add_self1)
      also have "(int ?p + sint x) mod int ?p = sint x mod int ?p" by simp
      finally show ?thesis using red [of "(zp_prA Z ! 0 + signed x) mod zp_prA Z ! 0"] False t f(2)
        by (simp add: to_modp_int_def Let_def nat_less_iff)
    next
      case t: False
      then show ?thesis using to_modp_of [OF assms(1,2), of "int ?p + sint x"] False by (simp add: to_modp_int_def Let_def)
    qed
  qed
qed

subsection \<open>The inverse\<close>

text \<open>What the code relies on in \<^verbatim>\<open>mpn_gcdext\<close>: the cofactor of its first argument, with its sign.\<close>

definition gcdext_ok :: "mpn_lib \<Rightarrow> zp_data \<Rightarrow> modp \<Rightarrow> bool" where
  "gcdext_ok L Z x \<longleftrightarrow>
     (case mpn_gcdext L x (take (zp_t Z) (zp_prA Z)) of (negative, s) \<Rightarrow>
        length s \<le> zp_t Z \<and> mpv s < zp_pr Z \<and>
        (int (mpv x) * (if negative then - int (mpv s) else int (mpv s))) mod int (zp_pr Z) = 1 \<and> mpv s \<noteq> 0)"

lemma modp_Inv_of:
  assumes "zp_ok Z" "env_ok M" "modp_of Z x a" "gcdext_ok (env_lib M) Z x"
  shows "\<exists>b. modp_of Z (modp_Inv M Z x) b \<and> (a * b) mod zp_pr Z = 1"
proof -
  let ?p = "zp_pr Z"
  note f = zp_facts [OF assms(1)]
  obtain neg s where s: "mpn_gcdext (env_lib M) x (take (zp_t Z) (zp_prA Z)) = (neg, s)" by force
  have g: "length s \<le> zp_t Z" "mpv s < ?p" "mpv s \<noteq> 0"
    "(int (mpv x) * (if neg then - int (mpv s) else int (mpv s))) mod int ?p = 1"
    using assms(4) by (auto simp: gcdext_ok_def s)
  define full where "full = s @ replicate (zp_t Z - length s) 0"
  have full: "length full = zp_t Z" "mpv full = mpv s" unfolding full_def using full_limbs [OF g(1)] by simp_all
  define ans where "ans = (if neg then fst (mpn_sub_n_borrow (take (zp_t Z) (zp_prA Z)) full) else full)"
  have le: "mpv full \<le> ?p" using full(2) g(2) by simp
  have a: "length ans = zp_t Z" "mpv ans = (if neg then ?p - mpv s else mpv s)"
    unfolding ans_def using minus_limbs [OF assms(1) full(1) le] full by simp_all
  have r: "zp_reduced Z ans" using a g(2,3) f(2) by (simp add: zp_reduced_def)
  have "int ((mpv x * mpv ans) mod ?p) = (int (mpv x) * (if neg then - int (mpv s) else int (mpv s))) mod int ?p"
  proof (cases neg)
    case True
    have "int (mpv ans) = - int (mpv s) + int ?p" using a(2) True g(2) by (simp add: of_nat_diff)
    then have "int ((mpv x * mpv ans) mod ?p) = (int (mpv x) * - int (mpv s) + int (mpv x) * int ?p) mod int ?p"
      by (simp only: zmod_int of_nat_mult distrib_left)
    then show ?thesis using True by (simp only: mod_mult_self1 if_True)
  next
    case False
    then show ?thesis using a(2) by (simp add: zmod_int)
  qed
  then have xs: "(mpv x * mpv ans) mod ?p = 1" using g(4) by simp
  have e: "modp_Inv M Z x = (if zp_montgomery Z then Mont_Mult (env_bmi2 M) Z (env_mem M) ans (take (zp_t Z) (zp_R3 Z)) else ans)"
    by (simp add: modp_Inv_def s Let_def ans_def full_def)
  show ?thesis
  proof (cases "zp_montgomery Z")
    case False
    then show ?thesis using r xs assms(3) unfolding e by (auto simp: modp_of_def zp_reduced_def)
  next
    case True
    let ?R = "(2 :: nat) ^ (64 * zp_t Z)"
    have m: "zp_mont Z" "length (env_mem M) = 2 * MAX_MOD_SZ + 1" using assms(1,2) True by (simp_all add: zp_ok_def env_ok_def)
    define b where "b = mpv ans * ?R mod ?p"
    have R: "(2 :: nat) ^ (3 * (64 * zp_t Z)) = ?R * (?R * ?R)" by (rule power_triple)
    have "(mpv ans * mpv (take (zp_t Z) (zp_R3 Z))) mod ?p = (mpv ans * (?R * (?R * ?R))) mod ?p"
      unfolding R2_limbs(4) [OF m(1)] R by (rule mod_mult_right_eq)
    also have "mpv ans * (?R * (?R * ?R)) = ?R * (?R * (mpv ans * ?R))" by simp
    finally have v: "(mpv ans * mpv (take (zp_t Z) (zp_R3 Z))) mod ?p = (?R * (?R * (mpv ans * ?R))) mod ?p" .
    note v = Mont_Mult_of [OF assms(1) True r R2_limbs(3) [OF m(1)] m(2) v, of "env_bmi2 M"]
    have "modp_of Z (modp_Inv M Z x) b"
      unfolding modp_of_def e b_def using v True f(2) by (simp add: mod_mult_right_eq)
    moreover have "(a * b) mod ?p = 1"
    proof -
      have "(a * b) mod ?p = (a * (mpv ans * ?R)) mod ?p" unfolding b_def by (rule mod_mult_right_eq)
      also have "a * (mpv ans * ?R) = ?R * a * mpv ans" by simp
      also have "\<dots> mod ?p = (mpv x * mpv ans) mod ?p"
        using assms(3) True by (simp add: modp_of_def mod_mult_left_eq)
      finally show ?thesis using xs by simp
    qed
    ultimately show ?thesis by blast
  qed
qed

subsection \<open>Initialisation\<close>

text \<open>The top limb of the prime is not full: then no carry can be lost.\<close>

lemma fits_top_limb:
  assumes "zp_inv Z" "zp_t Z = 1 \<or> zp_pr Z < 2 ^ (64 * zp_t Z) - 2 ^ (64 * (zp_t Z - 1))"
  shows "mont_fits Z"
proof -
  let ?p = "zp_pr Z" and ?t = "zp_t Z"
  obtain n where n: "?t = Suc n" using assms(1) by (auto simp: zp_inv_def gr0_conv_Suc)
  have p: "0 < ?p" "?p < B64 * 2 ^ (64 * n)" using assms(1) n by (simp_all add: zp_inv_def power_add)
  have top: "(2 :: nat) ^ (64 * (?t + 1)) = B64 * (B64 * 2 ^ (64 * n))" unfolding n by (simp add: power_add)
  show ?thesis
  proof (cases "n = 0")
    case True
    then have "?p \<le> B64 - 1" using p by simp
    then have "B64 * (?p - 1) + ?p \<le> B64 * (B64 - 2) + (B64 - 1)" by (intro add_le_mono mult_le_mono) auto
    then show ?thesis unfolding mont_fits_def top using True by simp
  next
    case False
    then have "?p < B64 * 2 ^ (64 * n) - 2 ^ (64 * n)" using assms(2) n by (simp add: power_add)
    then have "?p - 1 + 2 ^ (64 * n) \<le> B64 * 2 ^ (64 * n)" using p(1) by linarith
    then have "B64 * (?p - 1 + 2 ^ (64 * n)) \<le> B64 * (B64 * 2 ^ (64 * n))" by (rule mult_le_mono2)
    then have "B64 * (?p - 1) + B64 * 2 ^ (64 * n) \<le> B64 * (B64 * 2 ^ (64 * n))" unfolding distrib_left .
    then show ?thesis unfolding mont_fits_def top using p(2) by linarith
  qed
qed

lemma zp_init_ok:
  assumes "prob_prime p" "1 < p" "odd p" "num_limbs p \<le> MAX_MOD_SZ"
    and inv: "let r = 2 ^ (64 * num_limbs p) in (p * invert p r) mod r = 1 \<and> invert p r < r"
    and top: "num_limbs p = 1 \<or> p < 2 ^ (64 * num_limbs p) - 2 ^ (64 * (num_limbs p - 1))"
  shows "\<exists>Z. zp_init prob_prime invert p mont = Inr Z \<and> zp_ok Z \<and> zp_pr Z = p \<and> zp_montgomery Z = mont"
proof -
  define t where "t = num_limbs p"
  define r where "r = (2 :: nat) ^ (64 * t)"
  define q where "q = invert p r"
  have b: "0 < t" "2 ^ (64 * (t - 1)) \<le> p" "p < r" "t \<le> MAX_MOD_SZ"
    using num_limbs_bounds [of p] assms(2,4) by (simp_all add: t_def r_def)
  have pm: "mpv (limbs_of MAX_MOD_SZ (v mod p)) = v mod p" for v
  proof (rule mpv_limbs_of)
    have "v mod p < p" using assms(2) by simp
    also have "p < r" by (rule b(3))
    also have "r \<le> 2 ^ (64 * MAX_MOD_SZ)" unfolding r_def using b(4) by (intro power_increasing) auto
    finally show "v mod p < 2 ^ (64 * MAX_MOD_SZ)" .
  qed
  have pA: "mpv (limbs_of (MAX_MOD_SZ + 1) p) = p"
  proof (rule mpv_limbs_of)
    have "r \<le> 2 ^ (64 * (MAX_MOD_SZ + 1))" unfolding r_def using b(4) by (intro power_increasing) auto
    then show "p < 2 ^ (64 * (MAX_MOD_SZ + 1))" using b(3) by linarith
  qed
  have q: "(p * q) mod r = 1" "q < r" using inv by (simp_all add: Let_def q_def r_def t_def)
  have B: "B64 dvd r" unfolding r_def using b(1) by (intro le_imp_power_dvd) simp
  have "((r - q) * p + 1) mod B64 = 0"
  proof -
    have "(r - q) * p + p * q = (r - q + q) * p" by (simp only: add_mult_distrib mult.commute [of p q])
    then have "(r - q) * p + p * q = r * p" using q(2) by simp
    moreover have "p * q = 1 + r * (p * q div r)" using q(1) by (metis mod_mult_div_eq)
    ultimately have "(r - q) * p + 1 + r * (p * q div r) = r * p" by linarith
    then have "r dvd (r - q) * p + 1" by (metis dvd_add_left_iff dvd_triv_left)
    then show ?thesis using B by (meson dvd_trans dvd_imp_mod_0)
  qed
  then have pi: "(unat (of_nat (r - q) :: limb) * p + 1) mod B64 = 0"
  proof -
    have len: "LENGTH(64) = 64" by simp
    show ?thesis unfolding unat_of_nat len using \<open>((r - q) * p + 1) mod B64 = 0\<close> by (metis mod_add_left_eq mod_mult_left_eq)
  qed
  have pw: "r * r = 2 ^ (2 * (64 * t))" "r * r * r = 2 ^ (3 * (64 * t))"
    unfolding r_def power_triple mult.assoc by (simp_all only: mult_2 power_add)
  define Z where "Z = \<lparr>zp_montgomery = mont,
          zp_R = (if mont then limbs_of MAX_MOD_SZ (r mod p) else replicate MAX_MOD_SZ 0),
          zp_R2 = (if mont then limbs_of MAX_MOD_SZ ((r mod p) * (r mod p) mod p) else replicate MAX_MOD_SZ 0),
          zp_R3 = (if mont then limbs_of MAX_MOD_SZ (((r mod p) * (r mod p) mod p) * (r mod p) mod p) else replicate MAX_MOD_SZ 0),
          zp_pi = (if mont then of_nat (r - q) else 0), zp_prA = limbs_of (MAX_MOD_SZ + 1) p, zp_t = t,
          zp_overhang = drop_bit (63 - (num_bits p - 1) mod 64) (- 1), zp_pr = p, zp_pr_half = p div 2,
          zp_mask = push_bit ((num_bits p - 1) mod 64) 1 - 1, zp_byte_length = (num_bits p + 7) div 8,
          zp_bit_length = num_bits p\<rparr>"
  have i: "zp_init prob_prime invert p mont = Inr Z"
    using assms(1,4) by (simp add: zp_init_def Let_def Z_def t_def r_def q_def)
  have zi: "zp_inv Z" using b pA assms(2) by (simp add: zp_inv_def Z_def r_def)
  have "zp_mont Z" if mont
  proof -
    have "mpv (zp_R2 Z) = 2 ^ (2 * (64 * t)) mod p" "mpv (zp_R3 Z) = 2 ^ (3 * (64 * t)) mod p"
      using that by (simp_all only: Z_def zp_data.simps if_True pm mod_mult_eq pw(1) pw(2) [unfolded pw(1)])
    moreover have "mpv (zp_R Z) = 2 ^ (64 * t) mod p" using that pm [of r] by (simp add: Z_def r_def)
    moreover have "(unat (zp_pi Z) * zp_pr Z + 1) mod B64 = 0" using that pi by (simp only: Z_def zp_data.simps if_True)
    ultimately show ?thesis using zi that assms(3) unfolding zp_mont_def by (simp add: Z_def)
  qed
  moreover have "mont_fits Z" using fits_top_limb [OF zi] top by (simp add: Z_def t_def)
  moreover have "zp_montgomery Z = mont" "zp_pr Z = p" by (simp_all add: Z_def)
  ultimately show ?thesis using i zi unfolding zp_ok_def by blast
qed

end
