(* ===== verification/ModpSample.thy ===== *)
theory ModpSample
  imports ModpConvert
begin

text \<open>
  Concrete primes: \<open>2 ^ 128 - 159\<close>, for which the Montgomery product loses a carry, with the
  evaluation of both versions; \<open>2 ^ 127 - 1\<close> and \<open>7\<close>, for which it does not, with an environment in
  which the library functions compute what they are documented to compute.
\<close>

unbundle bit_operations_syntax

subsection \<open>A prime just below a power of two\<close>

lemma num_bits_unique:
  assumes "2 ^ k \<le> v" "v < 2 ^ Suc k"
  shows "num_bits v = Suc k"
proof -
  have v: "0 < v" using assms(1) by (meson less_le_trans zero_less_numeral zero_less_power)
  note b = num_bits_bounds [OF v]
  show ?thesis
  proof (rule antisym)
    show "num_bits v \<le> Suc k"
    proof (rule ccontr)
      assume "\<not> num_bits v \<le> Suc k"
      then have "(2 :: nat) ^ Suc k \<le> 2 ^ (num_bits v - 1)" by (intro power_increasing) auto
      then show False using b assms(2) by linarith
    qed
    show "Suc k \<le> num_bits v"
    proof (rule ccontr)
      assume "\<not> Suc k \<le> num_bits v"
      then have "(2 :: nat) ^ num_bits v \<le> 2 ^ k" by (intro power_increasing) auto
      then show False using b assms(1) by linarith
    qed
  qed
qed

lemma limbs_of_numeral: "limbs_of (numeral k) v = of_nat v # limbs_of (pred_numeral k) (v div B64)"
  unfolding numeral_eq_Suc [of k] limbs_of.simps ..

definition large_prime :: nat where "large_prime = 2 ^ 128 - 159"

definition large_zp :: zp_data where
  "large_zp = \<lparr>zp_montgomery = True, zp_R = limbs_of 10 159, zp_R2 = limbs_of 10 25281, zp_R3 = limbs_of 10 4019679,
     zp_pi = 13109950190749555551, zp_prA = [18446744073709551457, 18446744073709551615, 0, 0, 0, 0, 0, 0, 0, 0, 0],
     zp_t = 2, zp_overhang = - 1, zp_pr = large_prime, zp_pr_half = large_prime div 2, zp_mask = 9223372036854775807, zp_byte_length = 16, zp_bit_length = 128\<rparr>"

lemma large_numbers: "large_prime = 340282366920938463463374607431768211297" "(2 :: nat) ^ 128 = 340282366920938463463374607431768211456"
    "(2 :: nat) ^ 127 = 170141183460469231731687303715884105728"
  by (simp_all add: large_prime_def)

lemma large_sizes: "num_bits large_prime = 128" "num_limbs large_prime = 2"
proof -
  have "num_bits large_prime = Suc 127"
  proof (rule num_bits_unique)
    show "2 ^ 127 \<le> large_prime" unfolding large_numbers by simp
    have "(2 :: nat) ^ Suc 127 = 2 ^ 128" by (rule arg_cong [of _ _ "\<lambda>k. 2 ^ k"]) simp
    then show "large_prime < 2 ^ Suc 127" unfolding large_numbers by simp
  qed
  then show "num_bits large_prime = 128" by simp
  then show "num_limbs large_prime = 2" by (simp add: num_limbs_def large_prime_def)
qed

lemma large_init: "zp_init (\<lambda>_. True) (\<lambda>_ _. 104866892950477891256008526818595234977) large_prime True = Inr large_zp"
proof -
  have a: "limbs_of 11 large_prime = [18446744073709551457, 18446744073709551615, 0, 0, 0, 0, 0, 0, 0, 0, 0]"
    unfolding large_numbers by (simp add: limbs_of_numeral)
  have b: "(2 :: nat) ^ 128 mod large_prime = 159" "159 * 159 mod large_prime = 25281" "25281 * 159 mod large_prime = 4019679"
    unfolding large_numbers by simp_all
  have c: "(of_nat (2 ^ 128 - 104866892950477891256008526818595234977) :: limb) = 13109950190749555551" by simp
  have d: "64 * 2 = (128 :: nat)" "MAX_MOD_SZ + 1 = 11" "(63 :: nat) - (128 - 1) mod 64 = 0" "(128 - 1) mod (64 :: nat) = 63"
    by (simp_all add: MAX_MOD_SZ_def)
  show ?thesis unfolding zp_init_def large_sizes guardE_def Let_def large_zp_def d(1,2) a b c
    by (simp add: MAX_MOD_SZ_def)
qed

abbreviation large_x :: "limb list" where "large_x \<equiv> [18446744073709551456, 18446744073709551615]"

text \<open>The square of \<open>p - 1\<close> in both versions; the array has at least five elements.\<close>

lemma large_square:
  assumes "length mem = 2 * MAX_MOD_SZ + 1"
  shows "mpv (Mont_Mult bmi2 large_zp mem large_x large_x) = 235415473970460572207366080613172976210"
proof -
  obtain a b c d e f where m: "mem = a # b # c # d # e # f" 
  proof
    show "mem = mem ! 0 # mem ! 1 # mem ! 2 # mem ! 3 # mem ! 4 # drop 5 mem"
      using assms Cons_nth_drop_Suc [of 0 mem] Cons_nth_drop_Suc [of 1 mem] Cons_nth_drop_Suc [of 2 mem]
        Cons_nth_drop_Suc [of 3 mem] Cons_nth_drop_Suc [of 4 mem] by (simp add: MAX_MOD_SZ_def eval_nat_numeral)
  qed
  have z: "zp_t large_zp = 2" "zp_pi large_zp = 13109950190749555551" 
    "zp_prA large_zp = [18446744073709551457, 18446744073709551615, 0, 0, 0, 0, 0, 0, 0, 0, 0]" by (simp_all add: large_zp_def)
  let ?p = "[18446744073709551457, 18446744073709551615, 0] :: limb list"
  have two: "[1..<2] = [Suc 0]" "Suc 1 = 2" by (simp_all add: upt_rec)
  have m1: "mont_first large_zp large_x large_x mem = 0 # 18446744073709551343 # 13109950190749555551 # 1 # e # f"
    unfolding mont_first_def z m by (simp add: Let_def put_def win_def mpn_mul_1_def mpn_addmul_1_def umul_hi_def)
  have m2: "mont_step large_zp large_x large_x (0 # 18446744073709551343 # 13109950190749555551 # 1 # e # f) 1 = 0 # 0 # 13109950190749555282 # 12761898415773903633 # 0 # f"
    unfolding mont_step_def z by (simp add: Let_def put_def win_def mpn_addmul_1_def umul_hi_def)
  have up: "[0..<2] = [0, Suc 0]" "[0..<3] = [0, Suc 0, 2]" by (simp_all add: upt_rec)
  have u: "replicate 2 0 = [0, 0 :: limb]" "4461084881123867383705497480051902251599006499512786164736 = (13109950190749555712 :: limb)"
    "4461084881123867422399240838105785055513953983248475548433 = (12761898415773903633 :: limb)"
    by (simp only: numeral_2_eq_2 replicate.simps) simp_all
  have r: "addmul_1_fixed 3 2 False [] large_x 18446744073709551456 = [25600, 18446744073709551456, 18446744073709551455]"
    "addmul_1_fixed 4 3 True [25600, 18446744073709551456, 18446744073709551455, 0] [18446744073709551457, 18446744073709551615, 0, 0, 0, 0, 0, 0, 0, 0, 0] 13109950190749555712 = [0, 18446744073709551343, 13109950190749555551, 1]"
    "addmul_1_fixed 3 2 True [18446744073709551343, 13109950190749555551, 1] large_x 18446744073709551615 = [18446744073709551503, 13109950190749555391, 0]"
    "addmul_1_fixed 4 3 True [18446744073709551503, 13109950190749555391, 0, 0] [18446744073709551457, 18446744073709551615, 0, 0, 0, 0, 0, 0, 0, 0, 0] 12761898415773903633 = [0, 13109950190749555282, 12761898415773903633, 0]"
    by (simp_all add: addmul_1_fixed_def Let_def up umul_hi_def mpn_add_fixed_n_def mpn_add_n_with_carry_def)
  have m3: "mont_first_fixed large_zp large_x large_x mem = 0 # 18446744073709551343 # 13109950190749555551 # 1 # 0 # f"
    unfolding mont_first_fixed_def z m by (simp add: Let_def put_def win_def addmul_at_def r u)
  have m5: "mont_step_fixed large_zp large_x large_x (0 # 18446744073709551343 # 13109950190749555551 # 1 # 0 # f) 1 = 0 # 0 # 13109950190749555282 # 12761898415773903633 # 0 # f"
    unfolding mont_step_fixed_def z by (simp add: Let_def put_def win_def addmul_at_def r u)
  have m4: "mont_finish large_zp (0 # 0 # 13109950190749555282 # 12761898415773903633 # 0 # f) = [13109950190749555282, 12761898415773903633]"
    unfolding mont_finish_def z by (simp add: Let_def win_def mpn_cmp_def)
  have v: "Mont_Mult_variable large_zp mem large_x large_x = [13109950190749555282, 12761898415773903633]"
    unfolding Mont_Mult_variable_def z two using m1 m2 m4 by simp
  have w: "Mont_Mult_fixed large_zp mem large_x large_x = [13109950190749555282, 12761898415773903633]"
    unfolding Mont_Mult_fixed_def z two using m3 m4 m5 by simp
  show "mpv (Mont_Mult bmi2 large_zp mem large_x large_x) = 235415473970460572207366080613172976210"
    unfolding Mont_Mult_def v w z by simp
qed

subsection \<open>Primes that fit\<close>

text \<open>A prime of two limbs whose inverse modulo \<open>2 ^ 128\<close> is itself.\<close>

definition mersenne :: nat where "mersenne = 2 ^ 127 - 1"

lemma mersenne_sizes: "mersenne = 170141183460469231731687303715884105727" "num_limbs mersenne = 2"
proof -
  show m: "mersenne = 170141183460469231731687303715884105727" by (simp add: mersenne_def)
  have "num_bits mersenne = Suc 126"
  proof (rule num_bits_unique)
    show "2 ^ 126 \<le> mersenne" unfolding m by simp
    have "(2 :: nat) ^ Suc 126 = 2 ^ 127" by (rule arg_cong [of _ _ "\<lambda>k. 2 ^ k"]) simp
    then show "mersenne < 2 ^ Suc 126" unfolding m by simp
  qed
  then show "num_limbs mersenne = 2" by (simp add: num_limbs_def m)
qed

lemma mersenne_good: "odd mersenne" "1 < mersenne" "num_limbs mersenne \<le> MAX_MOD_SZ"
  "let r = 2 ^ (64 * num_limbs mersenne) in (mersenne * mersenne) mod r = 1 \<and> mersenne < r"
  "num_limbs mersenne = 1 \<or> mersenne < 2 ^ (64 * num_limbs mersenne) - 2 ^ (64 * (num_limbs mersenne - 1))"
  unfolding mersenne_sizes(2) unfolding mersenne_sizes(1) by (simp_all add: MAX_MOD_SZ_def Let_def)

text \<open>An environment and a prime for the samples.\<close>

definition modp_lib :: mpn_lib where
  "modp_lib = \<lparr>mpn_mul_n = \<lambda>x y. limbs_of (2 * length x) (mpv x * mpv y),
     mpn_tdiv_r = \<lambda>a d. limbs_of (length d) (mpv a mod mpv d), mpn_gcdext = \<lambda>x p. (True, [2])\<rparr>"

definition modp_env :: machine_env where
  "modp_env = \<lparr>env_lib = modp_lib, env_bmi2 = True, env_mem = replicate (2 * MAX_MOD_SZ + 1) 0\<rparr>"

lemma modp_env_ok: "env_ok modp_env"
proof -
  have "mpv (limbs_of (2 * length x) (mpv x * mpv y)) = mpv x * mpv y" if "length x = length y" for x y
  proof (rule mpv_limbs_of)
    have "mpv x * mpv y < 2 ^ (64 * length x) * 2 ^ (64 * length x)"
      using mpv_less [of x] mpv_less [of y] that by (intro mult_strict_mono) auto
    then show "mpv x * mpv y < 2 ^ (64 * (2 * length x))" by (simp add: power_add [symmetric])
  qed
  moreover have "mpv (limbs_of (length d) (mpv a mod mpv d)) = mpv a mod mpv d" if "d \<noteq> []" "last d \<noteq> 0" for a d
  proof -
    have "0 < unat (last d)" using that(2) by (simp add: unat_gt_0)
    then have "0 < mpv (butlast d @ [last d])" by (simp add: mpv_append)
    then show ?thesis using that(1) mpv_less [of d] by (intro mpv_limbs_of) (simp, meson less_trans mod_less_divisor)
  qed
  ultimately show ?thesis by (simp add: env_ok_def mpn_lib_ok_def modp_env_def modp_lib_def)
qed

lemma modp_prime:
  obtains Z x y where "zp_init (\<lambda>_. True) (\<lambda>p _. p) mersenne True = Inr Z" "zp_ok Z" "zp_pr Z = mersenne"
    "to_modp modp_env Z 5 = Inr x" "to_modp modp_env Z (- 7) = Inr y" "modp_of Z x 5" "modp_of Z y (mersenne - 7)"
proof -
  from zp_init_ok [where prob_prime = "\<lambda>_. True" and invert = "\<lambda>p _. p", OF TrueI mersenne_good(2,1,3-5), of True]
  obtain Z where Z: "zp_init (\<lambda>_. True) (\<lambda>p _. p) mersenne True = Inr Z" "zp_ok Z" "zp_pr Z = mersenne" by blast
  have m: "nat (5 mod int mersenne) = 5" "nat (- 7 mod int mersenne) = mersenne - 7" by (simp_all add: mersenne_sizes(1))
  from to_modp_of [OF Z(2) modp_env_ok, of 5, unfolded Z(3) m] to_modp_of [OF Z(2) modp_env_ok, of "- 7", unfolded Z(3) m]
  show ?thesis using that Z by blast
qed

definition seven :: zp_data where
  "seven = \<lparr>zp_montgomery = False, zp_R = replicate 10 0, zp_R2 = replicate 10 0, zp_R3 = replicate 10 0, zp_pi = 0,
     zp_prA = limbs_of 11 7, zp_t = 1, zp_overhang = 7, zp_pr = 7, zp_pr_half = 3, zp_mask = 3, zp_byte_length = 1, zp_bit_length = 3\<rparr>"

end
