(* ===== verification/SqrRoot.thy ===== *)
theory SqrRoot
  imports ModpSample Player
begin

text \<open>
  Square roots modulo a prime: \<^verbatim>\<open>sqrRootMod\<close> of \<^verbatim>\<open>Math/bigint.cpp\<close> (the algorithm of Shanks) and
  \<^verbatim>\<open>gfp_::sqrRoot\<close>. The Legendre symbol and the random numbers come from \<^verbatim>\<open>mpz\<close> and are arguments:
  \<open>l n p\<close> is the symbol and \<open>rnds\<close> the sequence of numbers that the generator yields. The loops are
  partial functions; \<open>None\<close> is not to return.
\<close>

unbundle bit_operations_syntax

subsection \<open>The algorithm\<close>

definition powm :: "int \<Rightarrow> int \<Rightarrow> int \<Rightarrow> int" where "powm a e p = a ^ nat e mod p"

text \<open>Draw numbers until one is not a square.\<close>

partial_function (option) non_square :: "(int \<Rightarrow> int \<Rightarrow> int) \<Rightarrow> (nat \<Rightarrow> int) \<Rightarrow> int \<Rightarrow> nat \<Rightarrow> int option" where
  "non_square l rnds p i = (if l (rnds i) p \<noteq> - 1 then non_square l rnds p (i + 1) else Some (rnds i))"

partial_function (option) split_even :: "int \<Rightarrow> nat \<Rightarrow> (int \<times> nat) option" where
  "split_even q e = (if even q then split_even (q sdiv 2) (e + 1) else Some (q, e))"

partial_function (option) order_loop :: "int \<Rightarrow> int \<Rightarrow> nat \<Rightarrow> nat option" where
  "order_loop p temp m = (if temp \<noteq> 1 then order_loop p ((temp * temp) smod p) (m + 1) else Some m)"

fun sq_times :: "int \<Rightarrow> nat \<Rightarrow> int \<Rightarrow> int" where
  "sq_times p 0 t = t"
| "sq_times p (Suc n) t = sq_times p n ((t * t) smod p)"

partial_function (option) shanks_loop :: "int \<Rightarrow> int \<Rightarrow> int \<Rightarrow> int \<Rightarrow> nat \<Rightarrow> int option" where
  "shanks_loop p x y b r =
     (if b \<noteq> 1 then
        Option.bind (order_loop p ((b * b) smod p) 1) (\<lambda>m.
        let t = sq_times p (r - m - 1) y; y' = (t * t) smod p
        in shanks_loop p ((x * t) smod p) y' ((b * y') smod p) m)
      else Some x)"

definition shanks :: "(int \<Rightarrow> int \<Rightarrow> int) \<Rightarrow> (nat \<Rightarrow> int) \<Rightarrow> int \<Rightarrow> int \<Rightarrow> int option" where
  "shanks l rnds a p =
     Option.bind (non_square l rnds p 0) (\<lambda>n.
     Option.bind (split_even (p - 1) 0) (\<lambda>(q, e).
     let y = powm n q p; x = powm a ((q - 1) sdiv 2) p
     in shanks_loop p ((a * x) smod p) y ((a * x * x) smod p) e))"

definition sqrRootMod :: "(int \<Rightarrow> int \<Rightarrow> int) \<Rightarrow> (nat \<Rightarrow> int) \<Rightarrow> int \<Rightarrow> int \<Rightarrow> (exn + int) option" where
  "sqrRootMod l rnds a p =
     (if a = 0 then Some (Inr 0)
      else if l a p \<noteq> 1 then Some (Inl (Runtime_Error ''cannot compute square root of non-square''))
      else if bit p 1 then Some (Inr (powm a ((p + 1) sdiv 4) p))
      else map_option Inr (shanks l rnds a p))"

text \<open>The root that is odd as an integer.\<close>

definition gfp_sqrRoot :: "(int \<Rightarrow> int \<Rightarrow> int) \<Rightarrow> (nat \<Rightarrow> int) \<Rightarrow> machine_env \<Rightarrow> zp_data \<Rightarrow> modp \<Rightarrow> (exn + modp) option" where
  "gfp_sqrRoot l rnds M Z x =
     map_option (\<lambda>r. bindE r (\<lambda>ti. to_modp M Z (if odd ti then ti else int (zp_pr Z) - ti)))
       (sqrRootMod l rnds (int (mpv (modp_to_bigint M Z x True))) (int (zp_pr Z)))"

subsection \<open>What is assumed\<close>

definition prime_ok :: "int \<Rightarrow> bool" where
  "prime_ok p \<longleftrightarrow> 1 < p \<and> (\<forall>x y. p dvd x * y \<longrightarrow> p dvd x \<or> p dvd y)"

text \<open>The Legendre symbol, by Euler's criterion.\<close>

definition legendre_ok :: "(int \<Rightarrow> int \<Rightarrow> int) \<Rightarrow> int \<Rightarrow> bool" where
  "legendre_ok l p \<longleftrightarrow> (\<forall>n. (l n p = 1 \<longrightarrow> n ^ nat ((p - 1) div 2) mod p = 1) \<and> (l n p = - 1 \<longrightarrow> n ^ nat ((p - 1) div 2) mod p = p - 1))"

subsection \<open>Loops\<close>

lemma non_square_ends:
  assumes "l (rnds i) p = - 1" "j \<le> i"
  shows "\<exists>n. non_square l rnds p j = Some n \<and> l n p = - 1"
  using assms(2)
proof (induction "i - j" arbitrary: j)
  case 0
  then show ?case using assms(1) by (subst non_square.simps) simp
next
  case (Suc k)
  then have "Suc j \<le> i" "k = i - Suc j" by simp_all
  with Suc(1) [of "Suc j"] show ?case by (subst non_square.simps) simp
qed

lemma split_even_ends: "0 < q \<Longrightarrow> \<exists>q' d. split_even q e = Some (q', e + d) \<and> q = 2 ^ d * q' \<and> odd q' \<and> 0 < q'"
proof (induction "nat q" arbitrary: q e rule: less_induct)
  case less
  show ?case
  proof (cases "even q")
    case False
    then show ?thesis using less(2) by (subst split_even.simps) (auto intro: exI [of _ 0])
  next
    case True
    then have h: "q = 2 * (q div 2)" "0 < q div 2" "q sdiv 2 = q div 2" using less(2) by (auto simp: signed_divide_int_def)
    have "nat (q div 2) < nat q" using less(2) by simp
    from less(1) [OF this h(2), of "e + 1"] obtain q' d where
      d: "split_even (q div 2) (e + 1) = Some (q', e + 1 + d)" "q div 2 = 2 ^ d * q'" "odd q'" "0 < q'" by blast
    have "split_even q e = Some (q', e + Suc d)" using True d(1) h(3) by (subst split_even.simps) simp
    moreover have "q = 2 ^ Suc d * q'" using h(1) d(2) by simp
    ultimately show ?thesis using d(3,4) by blast
  qed
qed

lemma sdiv_nonneg: "0 \<le> a \<Longrightarrow> 0 < b \<Longrightarrow> a sdiv b = a div b" for a b :: int
  by (cases "a = 0") (simp_all add: signed_divide_int_def)

lemma sq_smod: "0 < p \<Longrightarrow> 0 \<le> t \<Longrightarrow> (t * t) smod p = (t * t) mod p" for t p :: int
  by (simp add: smod_nonneg)

lemma sq_times_value: "0 < p \<Longrightarrow> 0 \<le> t \<Longrightarrow> t < p \<Longrightarrow> sq_times p n t = t ^ 2 ^ n mod p"
proof (induction n arbitrary: t)
  case (Suc n)
  then have "sq_times p (Suc n) t = ((t * t) mod p) ^ 2 ^ n mod p" by (simp add: sq_smod)
  also have "\<dots> = (t * t) ^ 2 ^ n mod p" by (simp add: power_mod)
  finally show ?case by (simp add: power_mult power2_eq_square)
qed simp

lemma order_loop_ends:
  assumes "0 < p" "m \<le> k" "b ^ 2 ^ k mod p = 1"
  shows "\<exists>m'. order_loop p (b ^ 2 ^ m mod p) m = Some m' \<and> m \<le> m' \<and> m' \<le> k \<and> b ^ 2 ^ m' mod p = 1 \<and> (\<forall>j. m \<le> j \<and> j < m' \<longrightarrow> b ^ 2 ^ j mod p \<noteq> 1)"
  using assms(2)
proof (induction "k - m" arbitrary: m)
  case 0
  then have "m = k" by simp
  then show ?case using assms(3) by (subst order_loop.simps) auto
next
  case (Suc d)
  show ?case
  proof (cases "b ^ 2 ^ m mod p = 1")
    case True
    then show ?thesis using Suc.prems by (subst order_loop.simps) auto
  next
    case False
    have "(b ^ 2 ^ m mod p) * (b ^ 2 ^ m mod p) smod p = b ^ 2 ^ Suc m mod p"
      using assms(1) by (simp add: sq_smod mod_mult_eq power_add [symmetric] mult_2)
    then have s: "order_loop p (b ^ 2 ^ m mod p) m = order_loop p (b ^ 2 ^ Suc m mod p) (Suc m)"
      using False by (subst order_loop.simps) simp
    have "Suc m \<le> k" "d = k - Suc m" using Suc(2) by simp_all
    from Suc(1) [OF this(2,1)] obtain m' where m': "order_loop p (b ^ 2 ^ Suc m mod p) (Suc m) = Some m'" "Suc m \<le> m'" "m' \<le> k"
      "b ^ 2 ^ m' mod p = 1" "\<forall>j. Suc m \<le> j \<and> j < m' \<longrightarrow> b ^ 2 ^ j mod p \<noteq> 1" by blast
    have "b ^ 2 ^ j mod p \<noteq> 1" if "m \<le> j" "j < m'" for j using m'(5) False that by (cases "j = m") auto
    then show ?thesis using s m' by (intro exI [of _ m']) auto
  qed
qed

subsection \<open>Correctness\<close>

lemma prime_root_one:
  assumes "prime_ok p" "x * x mod p = 1"
  shows "x mod p = 1 \<or> x mod p = p - 1"
proof -
  have p: "1 < p" using assms(1) by (simp add: prime_ok_def)
  then have "x * x mod p = 1 mod p" using assms(2) by simp
  then have "p dvd x * x - 1" by (simp only: mod_eq_dvd_iff)
  then have "p dvd (x - 1) * (x + 1)" by (simp add: algebra_simps)
  then have "p dvd x - 1 \<or> p dvd x - (p - 1)" using assms(1) by (auto simp: prime_ok_def) (metis add_diff_eq diff_add_eq diff_diff_eq2 dvd_diff dvd_refl)
  then have "x mod p = 1 mod p \<or> x mod p = (p - 1) mod p" by (simp only: mod_eq_dvd_iff)
  moreover have "1 mod p = 1" "(p - 1) mod p = p - 1" using p by (simp_all only: mod_pos_pos_trivial)
  ultimately show ?thesis by (simp only:)
qed

definition shanks_inv :: "int \<Rightarrow> int \<Rightarrow> int \<Rightarrow> int \<Rightarrow> int \<Rightarrow> nat \<Rightarrow> bool" where
  "shanks_inv p a x y b r \<longleftrightarrow> 0 \<le> x \<and> x < p \<and> 0 \<le> y \<and> y < p \<and> 0 \<le> b \<and> b < p \<and> 0 < r \<and>
     x * x mod p = a * b mod p \<and> y ^ 2 ^ (r - 1) mod p = p - 1 \<and> b ^ 2 ^ (r - 1) mod p = 1"


lemma minus_one_squared: "1 < p \<Longrightarrow> (p - 1) * (p - 1) mod p = 1" for p :: int
proof -
  assume p: "1 < p"
  have "(p - 1) * (p - 1) = 1 + (p - 2) * p" by (simp add: algebra_simps)
  then show ?thesis using p by simp
qed

lemma pow_2_Suc: "(y ^ 2 ^ i) * (y ^ 2 ^ i) = y ^ 2 ^ Suc i" for y :: int
  by (simp add: power_add [symmetric] mult_2)

lemma pow_pow_2: "((y :: int) ^ 2 ^ i) ^ 2 ^ j = y ^ 2 ^ (i + j)"
  by (simp add: power_mult [symmetric] power_add)

text \<open>One round: the order of \<open>b\<close> drops.\<close>

lemma shanks_step:
  assumes "prime_ok p" "shanks_inv p a x y b r" "b \<noteq> 1"
  shows "\<exists>m. order_loop p ((b * b) smod p) 1 = Some m \<and> m < r \<and>
    (let t = sq_times p (r - m - 1) y; y' = (t * t) smod p in shanks_inv p a ((x * t) smod p) y' ((b * y') smod p) m)"
proof -
  have p: "1 < p" "0 < p" using assms(1) by (simp_all add: prime_ok_def)
  have i: "0 \<le> x" "x < p" "0 \<le> y" "y < p" "0 \<le> b" "b < p" "0 < r" "x * x mod p = a * b mod p"
    "y ^ 2 ^ (r - 1) mod p = p - 1" "b ^ 2 ^ (r - 1) mod p = 1" using assms(2) by (simp_all add: shanks_inv_def)
  have r: "1 \<le> r - 1"
  proof (rule ccontr)
    assume "\<not> 1 \<le> r - 1"
    then have "b mod p = 1" using i(10) by simp
    then show False using assms(3) i(5,6) by simp
  qed
  have b2: "(b * b) smod p = b ^ 2 ^ 1 mod p" using p(2) i(5) by (simp add: sq_smod power2_eq_square)
  from order_loop_ends [OF p(2) r i(10)] obtain m where m: "order_loop p ((b * b) smod p) 1 = Some m" "1 \<le> m" "m \<le> r - 1"
    "b ^ 2 ^ m mod p = 1" "\<And>j. 1 \<le> j \<Longrightarrow> j < m \<Longrightarrow> b ^ 2 ^ j mod p \<noteq> 1" unfolding b2 by blast
  define t where "t = sq_times p (r - m - 1) y"
  define y' where "y' = (t * t) smod p"
  have t: "t = y ^ 2 ^ (r - m - 1) mod p" unfolding t_def by (rule sq_times_value [OF p(2) i(3,4)])
  then have t0: "0 \<le> t" "t < p" using p by simp_all
  have y': "y' = t * t mod p" unfolding y'_def using p(2) t0(1) by (rule sq_smod)
  then have y0: "0 \<le> y'" "y' < p" using p by simp_all
  have "y' ^ 2 ^ (m - 1) mod p = (t * t) ^ 2 ^ (m - 1) mod p" unfolding y' by (rule power_mod)
  also have "\<dots> = t ^ 2 ^ m mod p" using m(2) pow_2_Suc [of t "m - 1"] by (simp add: power_mult_distrib)
  also have "\<dots> = (y ^ 2 ^ (r - m - 1)) ^ 2 ^ m mod p" unfolding t by (rule power_mod)
  also have "\<dots> = y ^ 2 ^ (r - 1) mod p" using m(3) r by (simp add: pow_pow_2)
  finally have ym: "y' ^ 2 ^ (m - 1) mod p = p - 1" using i(9) by simp
  define c where "c = b ^ 2 ^ (m - 1)"
  have "c * c mod p = 1" unfolding c_def using pow_2_Suc [of b "m - 1"] m(2,4) by simp
  moreover have "c mod p \<noteq> 1"
  proof (cases "m = 1")
    case True
    then show ?thesis using assms(3) i(5,6) by (simp add: c_def)
  next
    case False
    then show ?thesis using m(2) m(5) [of "m - 1"] by (simp add: c_def)
  qed
  ultimately have c: "c mod p = p - 1" using prime_root_one [OF assms(1)] by blast
  have by0: "(b * y') smod p = b * y' mod p" "(x * t) smod p = x * t mod p" using p(2) i(1,5) t0(1) y0(1) by (simp_all add: smod_nonneg)
  have "(b * y' mod p) ^ 2 ^ (m - 1) mod p = (c * y' ^ 2 ^ (m - 1)) mod p" unfolding c_def by (simp add: power_mod power_mult_distrib)
  also have "\<dots> = (c mod p) * (y' ^ 2 ^ (m - 1) mod p) mod p" by (simp only: mod_mult_eq)
  also have "\<dots> = 1" unfolding c ym using p minus_one_squared [of p] by simp
  finally have bm: "(b * y' mod p) ^ 2 ^ (m - 1) mod p = 1" .
  have "(x * t mod p) * (x * t mod p) mod p = (x * t) * (x * t) mod p" by (rule mod_mult_eq)
  also have "(x * t) * (x * t) = (x * x) * (t * t)" by (simp add: ac_simps)
  also have "\<dots> mod p = ((x * x mod p) * (t * t mod p)) mod p" by (rule mod_mult_eq [symmetric])
  also have "\<dots> = (a * b) * y' mod p" unfolding i(8) y' [symmetric] by (rule mod_mult_left_eq)
  also have "\<dots> = a * (b * y' mod p) mod p" by (simp add: mod_mult_right_eq mult.assoc)
  finally have xx: "(x * t mod p) * (x * t mod p) mod p = a * (b * y' mod p) mod p" .
  have "shanks_inv p a ((x * t) smod p) y' ((b * y') smod p) m"
    unfolding shanks_inv_def by0 using p y0 m(2) xx ym bm by simp
  then show ?thesis using m(1,3) r unfolding y'_def t_def by (intro exI [of _ m]) (simp add: Let_def)
qed

lemma shanks_loop_root:
  assumes "prime_ok p"
  shows "shanks_inv p a x y b r \<Longrightarrow> \<exists>z. shanks_loop p x y b r = Some z \<and> 0 \<le> z \<and> z < p \<and> z * z mod p = a mod p"
proof (induction r arbitrary: x y b rule: less_induct)
  case (less r)
  show ?case
  proof (cases "b = 1")
    case True
    then show ?thesis using less(2) by (subst shanks_loop.simps) (simp add: shanks_inv_def)
  next
    case False
    from shanks_step [OF assms less(2) False] obtain m where m: "order_loop p ((b * b) smod p) 1 = Some m" "m < r"
      "let t = sq_times p (r - m - 1) y; y' = (t * t) smod p in shanks_inv p a ((x * t) smod p) y' ((b * y') smod p) m" by blast
    from less(1) [OF m(2) m(3) [unfolded Let_def]] show ?thesis
      using False m(1) by (subst shanks_loop.simps) (simp add: Let_def)
  qed
qed

lemma shanks_root:
  assumes "prime_ok p" "odd p" "legendre_ok l p" "l (rnds i) p = - 1" "0 < a" "a < p" "l a p = 1"
  shows "\<exists>z. shanks l rnds a p = Some z \<and> 0 \<le> z \<and> z < p \<and> z * z mod p = a"
proof -
  have p: "1 < p" "0 < p" using assms(1) by (simp_all add: prime_ok_def)
  obtain n where n: "non_square l rnds p 0 = Some n" "l n p = - 1" using non_square_ends [of l rnds i p 0] assms(4) by blast
  obtain q e where q: "split_even (p - 1) 0 = Some (q, e)" "p - 1 = 2 ^ e * q" "odd q" "0 < q"
    using split_even_ends [of "p - 1" 0] p by auto
  have "even (p - 1)" using assms(2) by simp
  then have e: "0 < e" using q(2,3) by (cases e) auto
  then have "(p - 1) div 2 = 2 ^ (e - 1) * q" using q(2) by (cases e) simp_all
  then have half: "nat ((p - 1) div 2) = nat q * 2 ^ (e - 1)" using q(4) by (simp add: nat_mult_distrib nat_power_eq mult.commute)
  define y where "y = powm n q p"
  define x where "x = powm a ((q - 1) sdiv 2) p"
  have x0: "0 \<le> x" "x < p" "0 \<le> y" "y < p" using p by (simp_all add: x_def y_def powm_def)
  have "y ^ 2 ^ (e - 1) mod p = n ^ nat ((p - 1) div 2) mod p" unfolding half y_def powm_def by (simp add: power_mod power_mult)
  then have y: "y ^ 2 ^ (e - 1) mod p = p - 1" using assms(3) n(2) by (simp add: legendre_ok_def)
  have m: "(a * x) smod p = a * x mod p" "(a * x * x) smod p = a * x * x mod p" using assms(5) x0(1) p(2) by (simp_all add: smod_nonneg)
  obtain h where h: "q = 2 * h + 1" using q(3) by (elim oddE)
  then have h0: "0 \<le> h" "(q - 1) sdiv 2 = h" using q(4) by (simp_all add: sdiv_nonneg)
  have nq: "nat q = Suc (nat h + nat h)" using h h0(1) by (simp add: nat_add_distrib nat_mult_distrib)
  have "a * x * x mod p = a * (a ^ nat h * a ^ nat h) mod p" unfolding x_def powm_def h0(2) mult.assoc
    by (subst mod_mult_right_eq [symmetric], subst mod_mult_eq, subst mod_mult_right_eq, rule refl)
  also have "a * (a ^ nat h * a ^ nat h) = a ^ nat q" unfolding nq by (simp add: power_add)
  finally have b: "a * x * x mod p = a ^ nat q mod p" .
  have "(a * x * x mod p) ^ 2 ^ (e - 1) mod p = a ^ nat ((p - 1) div 2) mod p" unfolding b half by (simp add: power_mod power_mult)
  then have bm: "(a * x * x mod p) ^ 2 ^ (e - 1) mod p = 1" using assms(3,7) by (simp add: legendre_ok_def)
  have xx: "(a * x mod p) * (a * x mod p) mod p = a * (a * x * x mod p) mod p"
  proof -
    have "(a * x mod p) * (a * x mod p) mod p = (a * x) * (a * x) mod p" by (rule mod_mult_eq)
    also have "(a * x) * (a * x) = a * (a * x * x)" by (simp add: ac_simps)
    also have "\<dots> mod p = a * (a * x * x mod p) mod p" by (rule mod_mult_right_eq [symmetric])
    finally show ?thesis .
  qed
  have "shanks_inv p a (a * x mod p) y (a * x * x mod p) e"
    unfolding shanks_inv_def using p x0 e xx y bm by simp
  from shanks_loop_root [OF assms(1) this] n(1) q(1) assms(5,6) show ?thesis
    by (simp add: shanks_def Let_def x_def [symmetric] y_def [symmetric] m)
qed

lemma sqrRootMod_value:
  assumes "prime_ok p" "odd p" "legendre_ok l p" "l (rnds i) p = - 1" "0 \<le> a" "a < p"
  shows "if a = 0 \<or> l a p = 1 then \<exists>z. sqrRootMod l rnds a p = Some (Inr z) \<and> 0 \<le> z \<and> z < p \<and> z * z mod p = a
    else sqrRootMod l rnds a p = Some (Inl (Runtime_Error ''cannot compute square root of non-square''))"
proof -
  have p: "1 < p" "0 < p" using assms(1) by (simp_all add: prime_ok_def)
  consider "a = 0" | "a \<noteq> 0" "l a p \<noteq> 1" | "a \<noteq> 0" "l a p = 1" "\<not> bit p 1" | "a \<noteq> 0" "l a p = 1" "bit p 1" by blast
  then show ?thesis
  proof cases
    case 3
    then show ?thesis using shanks_root [of p l rnds i a] assms by (auto simp: sqrRootMod_def)
  next
    case 4
    have "p mod 4 = 3" using assms(2) 4(3) by (simp add: bit_iff_odd) presburger
    then obtain k where k: "p = 4 * k + 3" by (metis mod_mult_div_eq add.commute)
    then have k0: "0 \<le> k" using p by simp
    have e: "(p + 1) sdiv 4 = k + 1" using k k0 by (simp add: signed_divide_int_def)
    have nk: "nat (k + 1) + nat (k + 1) = Suc (nat ((p - 1) div 2))" using k k0 by simp
    define z where "z = powm a ((p + 1) sdiv 4) p"
    have "z * z mod p = (a ^ nat (k + 1) * a ^ nat (k + 1)) mod p" unfolding z_def powm_def e by (simp add: mod_simps)
    also have "\<dots> = (a * a ^ nat ((p - 1) div 2)) mod p" unfolding power_add [symmetric] nk by simp
    also have "\<dots> = (a * (a ^ nat ((p - 1) div 2) mod p)) mod p" by (simp only: mod_mult_right_eq)
    also have "\<dots> = a" using assms(3,5,6) 4(2) by (simp add: legendre_ok_def)
    finally have "z * z mod p = a" .
    moreover have "0 \<le> z" "z < p" using p by (simp_all add: z_def powm_def)
    ultimately show ?thesis using 4 by (simp add: sqrRootMod_def z_def)
  qed (use p in \<open>simp_all add: sqrRootMod_def\<close>)
qed


subsection \<open>Numbers modulo a prime\<close>

lemma gfp_sqrRoot_value:
  assumes "zp_ok Z" "env_ok M" "zp_reduced Z x" "prime_ok (int (zp_pr Z))" "odd (zp_pr Z)" "legendre_ok l (int (zp_pr Z))"
    "l (rnds i) (int (zp_pr Z)) = - 1"
  defines "v \<equiv> mpv (modp_to_bigint M Z x True)"
  shows "if v = 0 \<or> l (int v) (int (zp_pr Z)) = 1
    then \<exists>m. gfp_sqrRoot l rnds M Z x = Some (Inr m) \<and> zp_reduced Z m \<and>
      mpv (modp_to_bigint M Z m True) * mpv (modp_to_bigint M Z m True) mod zp_pr Z = v \<and>
      (odd (mpv (modp_to_bigint M Z m True)) \<or> mpv (modp_to_bigint M Z m True) = 0)
    else gfp_sqrRoot l rnds M Z x = Some (Inl (Runtime_Error ''cannot compute square root of non-square''))"
proof -
  let ?p = "int (zp_pr Z)"
  have "modp_of Z x v" unfolding v_def by (rule modp_reduced_of [OF assms(1-3)])
  then have v: "v < zp_pr Z" by (simp add: modp_of_def)
  have "odd ?p" "0 \<le> int v" "int v < ?p" using assms(5) v by simp_all
  note root = sqrRootMod_value [of ?p l rnds i "int v", OF assms(4) this(1) assms(6,7) this(2,3)]
  show ?thesis
  proof (cases "v = 0 \<or> l (int v) ?p = 1")
    case False
    then show ?thesis using root by (simp add: gfp_sqrRoot_def v_def [symmetric])
  next
    case True
    then obtain z where z: "sqrRootMod l rnds (int v) ?p = Some (Inr z)" "0 \<le> z" "z < ?p" "z * z mod ?p = int v" using root by auto
    define t where "t = (if odd z then z else ?p - z)"
    obtain m where m: "to_modp M Z t = Inr m" "modp_of Z m (nat (t mod ?p))" using to_modp_of [OF assms(1,2), of t] by blast
    have w: "mpv (modp_to_bigint M Z m True) = nat (t mod ?p)" by (rule modp_to_bigint_of [OF assms(1,2) m(2)])
    have p0: "0 < ?p" using z(2,3) by linarith
    have tt: "(t mod ?p) * (t mod ?p) mod ?p = int v"
    proof -
      have "(?p - z) * (?p - z) = z * z + ?p * (?p - 2 * z)" by (simp add: algebra_simps)
      then have "(?p - z) * (?p - z) mod ?p = z * z mod ?p" by simp
      then have "t * t mod ?p = int v" using z(4) by (simp add: t_def)
      then show ?thesis by (simp only: mod_mult_eq)
    qed
    have "int (nat (t mod ?p) * nat (t mod ?p) mod zp_pr Z) = int v" using tt p0 by (simp add: zmod_int)
    then have sq: "nat (t mod ?p) * nat (t mod ?p) mod zp_pr Z = v" by (simp only: of_nat_eq_iff)
    have "odd (nat (t mod ?p)) \<or> nat (t mod ?p) = 0"
    proof (cases "z = 0")
      case False
      then have "0 \<le> t" "t < ?p" "odd t" using z(2,3) assms(5) by (auto simp: t_def)
      then show ?thesis by (simp add: even_nat_iff)
    qed (simp add: t_def)
    moreover have "zp_reduced Z m" using m(2) by (simp add: modp_of_def)
    moreover have "gfp_sqrRoot l rnds M Z x = Some (Inr m)"
      unfolding gfp_sqrRoot_def v_def [symmetric] z(1) using m(1) by (simp add: t_def)
    ultimately have "gfp_sqrRoot l rnds M Z x = Some (Inr m) \<and> zp_reduced Z m \<and>
      mpv (modp_to_bigint M Z m True) * mpv (modp_to_bigint M Z m True) mod zp_pr Z = v \<and>
      (odd (mpv (modp_to_bigint M Z m True)) \<or> mpv (modp_to_bigint M Z m True) = 0)"
      using sq unfolding w by blast
    then show ?thesis using True by (simp only: if_True) blast
  qed
qed

subsection \<open>A small prime\<close>

text \<open>A symbol that satisfies the assumption by construction, and the prime 17, for which \<open>p - 1\<close> is a power of two.\<close>

definition euler_symbol :: "int \<Rightarrow> int \<Rightarrow> int" where
  "euler_symbol n p = (let v = n ^ nat ((p - 1) div 2) mod p in if v = p - 1 then - 1 else v)"

lemma euler_symbol_ok: "2 < p \<Longrightarrow> legendre_ok euler_symbol p"
  unfolding legendre_ok_def
proof (intro allI)
  fix n :: int assume "2 < p"
  then have "0 \<le> n ^ nat ((p - 1) div 2) mod p" by simp
  then show "(euler_symbol n p = 1 \<longrightarrow> n ^ nat ((p - 1) div 2) mod p = 1) \<and> (euler_symbol n p = - 1 \<longrightarrow> n ^ nat ((p - 1) div 2) mod p = p - 1)"
    by (simp add: euler_symbol_def Let_def split: if_splits)
qed

lemma prime_17: "prime_ok 17"
  unfolding prime_ok_def
proof (intro conjI allI impI)
  fix x y :: int assume xy: "17 dvd x * y"
  have g: "gcd x 17 dvd 17" "0 \<le> gcd x 17" by simp_all
  then have "gcd x 17 \<le> 17" by (simp add: zdvd_imp_le)
  then have "gcd x 17 = 0 \<or> gcd x 17 = 1 \<or> gcd x 17 = 2 \<or> gcd x 17 = 3 \<or> gcd x 17 = 4 \<or> gcd x 17 = 5 \<or> gcd x 17 = 6 \<or> gcd x 17 = 7 \<or>
      gcd x 17 = 8 \<or> gcd x 17 = 9 \<or> gcd x 17 = 10 \<or> gcd x 17 = 11 \<or> gcd x 17 = 12 \<or> gcd x 17 = 13 \<or> gcd x 17 = 14 \<or> gcd x 17 = 15 \<or>
      gcd x 17 = 16 \<or> gcd x 17 = 17" using g(2) by presburger
  then have "gcd x 17 = 1 \<or> gcd x 17 = 17" using g(1) by (elim disjE) simp_all
  then show "17 dvd x \<or> 17 dvd y"
  proof
    assume "gcd x 17 = 1"
    then have "coprime 17 x" by (simp add: coprime_iff_gcd_eq_1 gcd.commute)
    then show ?thesis using xy by (simp add: coprime_dvd_mult_right_iff)
  qed (metis gcd_dvd1)
qed simp

lemma sample_17:
  obtains Z x where "zp_init (\<lambda>_. True) (\<lambda>_ _. 17361641481138401521) 17 True = Inr Z" "zp_ok Z" "zp_pr Z = 17"
    "to_modp modp_env Z 2 = Inr x" "modp_of Z x 2"
proof -
  have n: "num_limbs 17 = 1" by (simp add: num_limbs_def num_bits.simps)
  have "num_limbs 17 \<le> MAX_MOD_SZ" "num_limbs 17 = 1 \<or> 17 < 2 ^ (64 * num_limbs 17) - 2 ^ (64 * (num_limbs 17 - 1))"
    "let r = (2 :: nat) ^ (64 * num_limbs 17) in (17 * 17361641481138401521) mod r = 1 \<and> 17361641481138401521 < r"
    unfolding n by (simp_all add: MAX_MOD_SZ_def Let_def)
  from zp_init_ok [where prob_prime = "\<lambda>_. True" and invert = "\<lambda>_ _. 17361641481138401521", OF TrueI _ _ this(1,3,2), of True]
  obtain Z where Z: "zp_init (\<lambda>_. True) (\<lambda>_ _. 17361641481138401521) 17 True = Inr Z" "zp_ok Z" "zp_pr Z = 17" by auto
  have m: "nat (2 mod int 17) = 2" by simp
  from to_modp_of [OF Z(2) modp_env_ok, of 2, unfolded Z(3) m] show ?thesis using that Z by blast
qed

end
