(* ===== verification/Z2k.thy ===== *)
theory Z2k
  imports Limbs OctetStream Prng
begin

text \<open>
  \<^verbatim>\<open>Math/Z2k.h\<close> and \<^verbatim>\<open>Math/Z2k.hpp\<close>: integers modulo \<open>2 ^ K\<close> as arrays of \<open>N_WORDS K\<close> limbs. The
  template parameter \<open>K\<close> is an argument. An object is \<open>normal\<close> when the bits above \<open>K\<close> are
  zero; the constructor from 64-bit words and \<^verbatim>\<open>unpack\<close> do not enforce it, every other operation does.
\<close>

unbundle bit_operations_syntax

type_synonym z2 = "limb list"

subsection \<open>Sizes\<close>

definition N_BYTES :: "nat \<Rightarrow> nat" where "N_BYTES K = (K + 7) div 8"

definition N_WORDS :: "nat \<Rightarrow> nat" where "N_WORDS K = ((K + 7) div 8 + 8 - 1) div 8"

definition UPPER_MASK :: "nat \<Rightarrow> limb" where "UPPER_MASK K = drop_bit (64 - 1 - (K - 1) mod 64) (- 1)"

subsection \<open>Construction\<close>

definition z2_normalize :: "nat \<Rightarrow> z2 \<Rightarrow> z2" where
  "z2_normalize K a = a[N_WORDS K - 1 := a ! (N_WORDS K - 1) AND UPPER_MASK K]"

definition z2_zero :: "nat \<Rightarrow> z2" where "z2_zero K = replicate (N_WORDS K) 0"

definition z2_of_word :: "nat \<Rightarrow> 64 word \<Rightarrow> z2" where "z2_of_word K x = (z2_zero K)[0 := x]"

text \<open>\<^verbatim>\<open>avx_memcpy\<close> of \<open>n\<close> octets into an array of zeros.\<close>

definition copy_octets :: "nat \<Rightarrow> nat \<Rightarrow> limb list \<Rightarrow> limb list" where
  "copy_octets w n src =
     map (\<lambda>j. if j < length src then src ! j AND mask (8 * min 8 (n - 8 * j)) else 0) [0..<w]"

text \<open>\<^verbatim>\<open>Z2(long)\<close>: the sign is extended by octets, from the second limb on.\<close>

definition z2_of_long :: "nat \<Rightarrow> 64 word \<Rightarrow> z2" where
  "z2_of_long K x =
     (if 64 < K \<and> sint x < 0
      then x # map (\<lambda>j. mask (8 * min 8 (N_BYTES K - 8 * j))) [1..<N_WORDS K]
      else z2_of_word K x)"

definition z2_of_int :: "nat \<Rightarrow> 32 word \<Rightarrow> z2" where
  "z2_of_int K x = z2_normalize K (z2_of_long K (signed x))"

definition z2_conv :: "nat \<Rightarrow> nat \<Rightarrow> z2 \<Rightarrow> z2" where
  "z2_conv L K x = z2_normalize K (copy_octets (N_WORDS K) (min (N_BYTES K) (N_BYTES L)) x)"

subsection \<open>Arithmetic\<close>

definition z2_add :: "nat \<Rightarrow> z2 \<Rightarrow> z2 \<Rightarrow> z2" where
  "z2_add K x y = z2_normalize K (mpn_add_fixed_n x y)"

definition z2_sub :: "nat \<Rightarrow> z2 \<Rightarrow> z2 \<Rightarrow> z2" where
  "z2_sub K x y = z2_normalize K (mpn_sub_fixed_n x y)"

definition z2_mul :: "nat \<Rightarrow> nat \<Rightarrow> nat \<Rightarrow> z2 \<Rightarrow> z2 \<Rightarrow> z2 res" where
  "z2_mul K L M x y = bindE (mpn_mul_fixed (N_WORDS K) (N_WORDS L) (N_WORDS M) x y) (\<lambda>r. Inr (z2_normalize K r))"

definition z2_eq :: "z2 \<Rightarrow> z2 \<Rightarrow> bool" where
  "z2_eq x y = (mpn_cmp x y = 0)"

definition z2_and :: "z2 \<Rightarrow> z2 \<Rightarrow> z2" where "z2_and x y = map2 (AND) x y"

definition z2_or :: "z2 \<Rightarrow> z2 \<Rightarrow> z2" where "z2_or x y = map2 (OR) x y"

definition z2_xor :: "z2 \<Rightarrow> z2 \<Rightarrow> z2" where "z2_xor x y = map2 (XOR) x y"

definition z2_get_bit :: "z2 \<Rightarrow> nat \<Rightarrow> bool" where
  "z2_get_bit a i = bit (a ! (i div 64)) (i mod 64)"

text \<open>\<^verbatim>\<open>mpn_lshift\<close> and \<^verbatim>\<open>mpn_rshift\<close> by less than a limb; \<open>prev\<close> is the limb below.\<close>

fun lshift_limbs :: "nat \<Rightarrow> limb \<Rightarrow> limb list \<Rightarrow> limb list" where
  "lshift_limbs s prev [] = []"
| "lshift_limbs s prev (x # xs) = (push_bit s x OR drop_bit (64 - s) prev) # lshift_limbs s x xs"

fun rshift_limbs :: "nat \<Rightarrow> limb list \<Rightarrow> limb list" where
  "rshift_limbs s [] = []"
| "rshift_limbs s [x] = [drop_bit s x]"
| "rshift_limbs s (x # y # xs) = (drop_bit s x OR push_bit (64 - s) y) # rshift_limbs s (y # xs)"

definition z2_shl :: "nat \<Rightarrow> z2 \<Rightarrow> nat \<Rightarrow> z2" where
  "z2_shl K a i =
     (let n_limb_shift = i div 64; n_inside_shift = i mod 64;
          res = map (\<lambda>j. if n_limb_shift \<le> j then a ! (j - n_limb_shift) else 0) [0..<N_WORDS K]
      in z2_normalize K
          (if N_WORDS K = 1 then res[0 := push_bit n_inside_shift (res ! 0)]
           else if 0 < n_inside_shift then lshift_limbs n_inside_shift 0 res else res))"

definition z2_shr :: "nat \<Rightarrow> z2 \<Rightarrow> nat \<Rightarrow> z2" where
  "z2_shr K a i =
     (let n_limb_shift = i div 64; n_inside_shift = i mod 64;
          res = map (\<lambda>j. if j + n_limb_shift < N_WORDS K then a ! (j + n_limb_shift) else 0) [0..<N_WORDS K]
      in if N_WORDS K = 1 then res[0 := drop_bit n_inside_shift (res ! 0)]
         else if 0 < n_inside_shift then rshift_limbs n_inside_shift res else res)"

subsection \<open>Values\<close>

definition z2_ok :: "nat \<Rightarrow> z2 \<Rightarrow> bool" where
  "z2_ok K a \<longleftrightarrow> length a = N_WORDS K \<and> mpv a < 2 ^ K"

lemma N_WORDS_bounds:
  assumes "0 < K"
  shows "0 < N_WORDS K" "K \<le> 64 * N_WORDS K" "64 * (N_WORDS K - 1) + Suc ((K - 1) mod 64) = K" "N_BYTES K \<le> 8 * N_WORDS K"
    "K \<le> 8 * N_BYTES K"
proof -
  have e: "N_WORDS K = Suc ((K - 1) div 64)" using assms by (simp add: N_WORDS_def div_eq_dividend_iff)
  show "0 < N_WORDS K" "K \<le> 64 * N_WORDS K" "64 * (N_WORDS K - 1) + Suc ((K - 1) mod 64) = K"
    unfolding e using assms by simp_all
  show "N_BYTES K \<le> 8 * N_WORDS K" "K \<le> 8 * N_BYTES K" by (simp_all add: N_BYTES_def N_WORDS_def)
qed

lemma UPPER_MASK_mask: "UPPER_MASK K = mask (Suc ((K - 1) mod 64))"
proof -
  have l: "64 - (63 - (K - 1) mod 64) = Suc ((K - 1) mod 64)" by (simp add: Suc_diff_le [symmetric] less_Suc_eq_le [symmetric])
  show ?thesis
    by (rule bit_word_eqI) (use l in \<open>auto simp: UPPER_MASK_def bit_simps bit_mask_iff\<close>)
qed

lemma unat_and_mask: "unat (x AND mask n) = unat x mod 2 ^ n" for x :: limb
proof -
  have "unat (take_bit n x) = take_bit n (unat x)" by (rule unsigned_take_bit_eq)
  then show ?thesis unfolding take_bit_eq_mask [symmetric] by (simp only: take_bit_eq_mod [of n "unat x"])
qed

lemma z2_normalize_value:
  assumes "0 < K" "length a = N_WORDS K"
  shows "length (z2_normalize K a) = N_WORDS K" "mpv (z2_normalize K a) = mpv a mod 2 ^ K" "z2_ok K (z2_normalize K a)"
proof -
  note w = N_WORDS_bounds [OF assms(1)]
  obtain xs x where a: "a = xs @ [x]" "length xs = N_WORDS K - 1"
    using w(1) assms(2) by (metis append_butlast_last_id length_0_conv length_butlast less_numeral_extra(3))
  have n: "z2_normalize K a = xs @ [x AND UPPER_MASK K]" using a by (simp add: z2_normalize_def list_update_append nth_append)
  show l: "length (z2_normalize K a) = N_WORDS K" unfolding n using a(2) w(1) by simp
  let ?B = "2 ^ (64 * (N_WORDS K - 1)) :: nat" and ?m = "Suc ((K - 1) mod 64)"
  have K: "(2 :: nat) ^ K = ?B * 2 ^ ?m" using w(3) by (metis power_add)
  have lt: "mpv xs < ?B" using mpv_less [of xs] a(2) by simp
  have e: "mpv a = mpv xs + ?B * unat x" unfolding a(1) mpv_append a(2) by simp
  have d: "mpv a div ?B = unat x" "mpv a mod ?B = mpv xs" unfolding e using lt by simp_all
  have "mpv a mod 2 ^ K = ?B * (unat x mod 2 ^ ?m) + mpv xs" unfolding K mod_mult2_eq d ..
  moreover have "mpv (z2_normalize K a) = mpv xs + ?B * (unat x mod 2 ^ ?m)"
    unfolding n mpv_append a(2) UPPER_MASK_mask by (simp only: mpv.simps unat_and_mask mult_0_right add_0_right)
  ultimately show v: "mpv (z2_normalize K a) = mpv a mod 2 ^ K" by simp
  show "z2_ok K (z2_normalize K a)" using l v by (simp add: z2_ok_def)
qed

lemma mod_words: "0 < K \<Longrightarrow> n mod 2 ^ (64 * N_WORDS K) mod 2 ^ K = n mod (2 :: nat) ^ K"
  using N_WORDS_bounds(2) [of K] by (intro mod_mod_cancel le_imp_power_dvd) auto

lemma z2_add_value:
  assumes "0 < K" "length x = N_WORDS K" "length y = N_WORDS K"
  shows "z2_ok K (z2_add K x y)" "mpv (z2_add K x y) = (mpv x + mpv y) mod 2 ^ K"
  unfolding z2_add_def
  using z2_normalize_value [OF assms(1), of "mpn_add_fixed_n x y"] mpn_add_fixed_n_value [of x y] assms mod_words [OF assms(1)] by simp_all

lemma z2_sub_value:
  assumes "0 < K" "length x = N_WORDS K" "length y = N_WORDS K"
  shows "z2_ok K (z2_sub K x y)" "int (mpv (z2_sub K x y)) = (int (mpv x) - int (mpv y)) mod 2 ^ K"
proof -
  note n = z2_normalize_value [OF assms(1), of "mpn_sub_fixed_n x y"] mpn_sub_fixed_n_value [of x y]
  have "length (mpn_sub_fixed_n x y) = N_WORDS K" using n(4) assms by simp
  note n = n(1-3) [OF this] n(5)
  show "z2_ok K (z2_sub K x y)" unfolding z2_sub_def by (rule n(3))
  have "int (mpv (mpn_sub_fixed_n x y)) = (int (mpv x) - int (mpv y)) mod 2 ^ (64 * N_WORDS K)" using n(4) assms by simp
  then show "int (mpv (z2_sub K x y)) = (int (mpv x) - int (mpv y)) mod 2 ^ K"
    unfolding z2_sub_def n(2) zmod_int using N_WORDS_bounds(2) [OF assms(1)]
    by (simp add: mod_mod_cancel le_imp_power_dvd)
qed

lemma z2_mul_value:
  assumes "0 < K" "length x = N_WORDS L" "length y = N_WORDS M" "K \<le> 64 * (N_WORDS L + N_WORDS M)"
  shows "\<exists>r. z2_mul K L M x y = Inr r \<and> z2_ok K r \<and> mpv r = mpv x * mpv y mod 2 ^ K"
proof -
  have "64 * (N_WORDS K - 1) < 64 * (N_WORDS L + N_WORDS M)" using N_WORDS_bounds(3) [OF assms(1)] assms(4) by linarith
  then have "N_WORDS K \<le> N_WORDS L + N_WORDS M + 2" by simp
  then obtain r where r: "mpn_mul_fixed (N_WORDS K) (N_WORDS L) (N_WORDS M) x y = Inr r"
    unfolding mpn_mul_fixed_def by (metis bindE_simps(2) guardE_simps(1))
  from mpn_mul_fixed_value [OF assms(2,3) r] z2_normalize_value [OF assms(1), of r] mod_words [OF assms(1)]
  show ?thesis by (simp add: z2_mul_def r)
qed

lemma z2_eq_value: "length x = length y \<Longrightarrow> z2_eq x y = (mpv x = mpv y)"
  using mpn_cmp_eq mpv_inject by (auto simp: z2_eq_def)

subsection \<open>Bits\<close>

lemma bit_add_limb: "bit (unat x + B64 * m) i = (if i < 64 then bit x i else bit m (i - 64))" for x :: limb
proof (cases "i < 64")
  case True
  have "B64 * m = 2 ^ i * (2 * (2 ^ (63 - i) * m))"
  proof -
    have "(2 :: nat) ^ i * (2 * 2 ^ (63 - i)) = B64" using True by (simp add: power_add [symmetric] power_Suc [symmetric] del: power_Suc)
    then show ?thesis by (metis mult.assoc)
  qed
  then have "(unat x + B64 * m) div 2 ^ i = (unat x + 2 ^ i * (2 * (2 ^ (63 - i) * m))) div 2 ^ i" by (simp only:)
  also have "\<dots> = 2 * (2 ^ (63 - i) * m) + unat x div 2 ^ i" by (rule div_mult_self2) simp
  finally have "bit (unat x + B64 * m) i = bit (unat x) i" unfolding bit_iff_odd by simp
  then show ?thesis using True by (simp only: if_True bit_unsigned_iff) simp
next
  case False
  then have "64 + (i - 64) = i" by simp
  then have p: "(2 :: nat) ^ i = B64 * 2 ^ (i - 64)" by (metis power_add)
  have "(unat x + B64 * m) div 2 ^ i = m div 2 ^ (i - 64)" unfolding p div_mult2_eq div_mod_limb ..
  then show ?thesis using False by (simp only: bit_iff_odd if_False)
qed

lemma bit_mpv: "bit (mpv a) i = (i < 64 * length a \<and> bit (a ! (i div 64)) (i mod 64))"
proof (induction a arbitrary: i)
  case Nil
  then show ?case by simp
next
  case (Cons x a)
  show ?case
  proof (cases "i < 64")
    case True
    then show ?thesis by (simp only: mpv.simps bit_add_limb) simp
  next
    case False
    then have "i div 64 = Suc ((i - 64) div 64)" "i mod 64 = (i - 64) mod 64" by (simp_all add: le_div_geq le_mod_geq)
    then show ?thesis using False Cons.IH [of "i - 64"] by (simp only: mpv.simps bit_add_limb) auto
  qed
qed

lemma z2_get_bit_value: "0 < K \<Longrightarrow> length a = N_WORDS K \<Longrightarrow> i < K \<Longrightarrow> z2_get_bit a i = bit (mpv a) i"
  using N_WORDS_bounds(2) [of K] by (simp add: z2_get_bit_def bit_mpv)

lemma bit_map2:
  assumes "length x = length y" "\<And>(a :: limb) b n. bit (f a b) n = (n < 64 \<and> g (bit a n) (bit b n))" "\<not> g False False"
  shows "bit (mpv (map2 f x y)) i = g (bit (mpv x) i) (bit (mpv y) i)"
proof (cases "i < 64 * length x")
  case True
  then have "i div 64 < length x" by (simp add: div_less_iff_less_mult mult.commute)
  then show ?thesis using True assms(1,2) by (simp add: bit_mpv)
next
  case False
  then show ?thesis using assms(1,3) by (simp add: bit_mpv)
qed

lemma z2_bitwise_value:
  assumes "length x = length y"
  shows "mpv (z2_and x y) = mpv x AND mpv y" "mpv (z2_or x y) = mpv x OR mpv y" "mpv (z2_xor x y) = mpv x XOR mpv y"
proof -
  have "bit (mpv (z2_and x y)) i = bit (mpv x AND mpv y) i" for i
    unfolding z2_and_def using bit_map2 [OF assms, of "(AND)" "(\<and>)" i] bit_imp_le_length [where 'a = 64] by (auto simp: bit_simps)
  then show "mpv (z2_and x y) = mpv x AND mpv y" by (intro bit_eqI) simp
  have "bit (mpv (z2_or x y)) i = bit (mpv x OR mpv y) i" for i
    unfolding z2_or_def using bit_map2 [OF assms, of "(OR)" "(\<or>)" i] bit_imp_le_length [where 'a = 64] by (auto simp: bit_simps)
  then show "mpv (z2_or x y) = mpv x OR mpv y" by (intro bit_eqI) simp
  have "bit (mpv (z2_xor x y)) i = bit (mpv x XOR mpv y) i" for i
    unfolding z2_xor_def using bit_map2 [OF assms, of "(XOR)" "(\<noteq>)" i] bit_imp_le_length [where 'a = 64] by (auto simp: bit_simps)
  then show "mpv (z2_xor x y) = mpv x XOR mpv y" by (intro bit_eqI) simp
qed

subsection \<open>Shifts\<close>

lemma unat_shift_limb: "unat (push_bit n x) = (unat x * 2 ^ n) mod B64" "unat (drop_bit n x) = unat x div 2 ^ n" for x :: limb
proof -
  have len: "LENGTH(64) = 64" by simp
  show "unat (push_bit n x) = (unat x * 2 ^ n) mod B64"
    unfolding unsigned_push_bit_eq len by (simp only: push_bit_eq_mult take_bit_eq_mod)
  show "unat (drop_bit n x) = unat x div 2 ^ n"
    unfolding unsigned_drop_bit_eq len take_bit_nat_eq_self [OF unat_limb] by (simp add: drop_bit_eq_div take_bit_nat_eq_self [OF unat_limb])
qed

lemma unat_shift_in:
  fixes x p :: limb
  assumes "0 < s" "s < 64"
  shows "unat (push_bit s x OR drop_bit (64 - s) p) = (unat x * 2 ^ s) mod B64 + unat p div 2 ^ (64 - s)"
proof -
  have "push_bit s x AND drop_bit (64 - s) p = 0"
    by (rule bit_word_eqI) (use assms in \<open>auto simp: bit_simps dest: bit_imp_le_length\<close>)
  then have "push_bit s x OR drop_bit (64 - s) p = push_bit s x + drop_bit (64 - s) p" by (simp add: disjunctive_add_eq_or)
  moreover note unat_shift_limb(1) [of s x] unat_shift_limb(2) [of "64 - s" p]
  moreover have "(unat x * 2 ^ s) mod B64 + unat p div 2 ^ (64 - s) < B64"
  proof -
    have e: "B64 = 2 ^ s * 2 ^ (64 - s)" using assms by (simp add: power_add [symmetric])
    have "(unat x * 2 ^ s) mod B64 = 2 ^ s * (unat x mod 2 ^ (64 - s))" unfolding e by (simp only: mult.commute [of "unat x"] mult_mod_right)
    also have "\<dots> \<le> 2 ^ s * (2 ^ (64 - s) - 1)" by (intro mult_le_mono2) (simp add: Suc_leI [THEN le_diff_iff'] less_Suc_eq_le [symmetric])
    finally have "(unat x * 2 ^ s) mod B64 \<le> 2 ^ s * (2 ^ (64 - s) - 1)" .
    moreover have "2 ^ s * (2 ^ (64 - s) - 1) + 2 ^ s = B64" unfolding e by (simp add: right_diff_distrib')
    moreover have "unat p < 2 ^ s * 2 ^ (64 - s)" using unat_limb [of p] unfolding e .
    then have "unat p div 2 ^ (64 - s) < 2 ^ s" by (simp add: div_less_iff_less_mult)
    ultimately show ?thesis by linarith
  qed
  ultimately show ?thesis by (simp add: unat_plus)
qed

lemma mod_mult_limb: "l < b \<Longrightarrow> (l + b * y) mod (b * z) = b * (y mod z) + l" for b :: nat
  by (simp add: mod_mult2_eq)

lemma lshift_limbs_value:
  assumes "0 < s" "s < 64"
  shows "length (lshift_limbs s p xs) = length xs \<and>
    mpv (lshift_limbs s p xs) = (mpv xs * 2 ^ s + unat p div 2 ^ (64 - s)) mod 2 ^ (64 * length xs)"
proof (induction xs arbitrary: p)
  case Nil
  then show ?case by simp
next
  case (Cons x xs)
  have e: "B64 = 2 ^ (64 - s) * 2 ^ s" using assms by (simp add: power_add [symmetric])
  let ?lo = "(unat x * 2 ^ s) mod B64 + unat p div 2 ^ (64 - s)"
  have hi: "unat x * 2 ^ s = (unat x * 2 ^ s) mod B64 + B64 * (unat x div 2 ^ (64 - s))"
  proof -
    have "unat x * 2 ^ s div B64 = unat x div 2 ^ (64 - s)" unfolding e by simp
    then show ?thesis by (metis mod_mult_div_eq)
  qed
  have lo: "?lo < B64" using unat_shift_in [OF assms, of x p] unat_limb by metis
  have "mpv (x # xs) * 2 ^ s + unat p div 2 ^ (64 - s) = ?lo + B64 * (mpv xs * 2 ^ s + unat x div 2 ^ (64 - s))"
    using hi by (simp only: mpv.simps add_mult_distrib distrib_left mult.assoc)
  moreover have "(2 :: nat) ^ (64 * length (x # xs)) = B64 * 2 ^ (64 * length xs)" by (simp add: power_add)
  ultimately have "(mpv (x # xs) * 2 ^ s + unat p div 2 ^ (64 - s)) mod 2 ^ (64 * length (x # xs)) =
      B64 * ((mpv xs * 2 ^ s + unat x div 2 ^ (64 - s)) mod 2 ^ (64 * length xs)) + ?lo"
    using mod_mult_limb [OF lo] by (simp only:)
  then show ?case using Cons.IH [of x] unat_shift_in [OF assms, of x p] by simp
qed

lemma rshift_limbs_value:
  assumes "0 < s" "s < 64"
  shows "length (rshift_limbs s xs) = length xs \<and> mpv (rshift_limbs s xs) = mpv xs div 2 ^ s"
  using assms
proof (induction s xs rule: rshift_limbs.induct [case_names Nil One Many])
  case (One s x)
  show ?case using unat_shift_limb(2) [of s x] by simp
next
  case (Many s x y xs)
  let ?R = "mpv (y # xs)"
  note s = Many.prems
  have e: "B64 = 2 ^ s * 2 ^ (64 - s)" using s by (simp add: power_add [symmetric])
  have "drop_bit s x OR push_bit (64 - s) y = push_bit (64 - s) y OR drop_bit (64 - (64 - s)) x" using s by (simp add: or.commute)
  then have "unat (drop_bit s x OR push_bit (64 - s) y) = (unat y * 2 ^ (64 - s)) mod B64 + unat x div 2 ^ s"
    using unat_shift_in [of "64 - s" y x] s by simp
  also have "(unat y * 2 ^ (64 - s)) mod B64 = 2 ^ (64 - s) * (unat y mod 2 ^ s)"
    unfolding e by (simp only: mult.commute [of "unat y"] mult.commute [of "2 ^ s"] mult_mod_right)
  also have "unat y mod 2 ^ s = ?R mod 2 ^ s" unfolding mpv.simps e by (simp add: mult.assoc)
  finally have lo: "unat (drop_bit s x OR push_bit (64 - s) y) = 2 ^ (64 - s) * (?R mod 2 ^ s) + unat x div 2 ^ s" .
  have "mpv (x # y # xs) div 2 ^ s = unat x div 2 ^ s + 2 ^ (64 - s) * ?R"
  proof -
    have "mpv (x # y # xs) = unat x + 2 ^ s * (2 ^ (64 - s) * ?R)" unfolding mpv.simps(2) [of x] e by (simp only: mult.assoc)
    then show ?thesis by (simp only: div_mult_self2 power_not_zero) simp
  qed
  also have "?R = 2 ^ s * (?R div 2 ^ s) + ?R mod 2 ^ s" by simp
  finally have "mpv (x # y # xs) div 2 ^ s = unat x div 2 ^ s + 2 ^ (64 - s) * (?R mod 2 ^ s) + B64 * (?R div 2 ^ s)"
    unfolding e by (simp only: distrib_left mult.assoc mult.left_commute [of "2 ^ (64 - s)"] add.assoc add.commute [of "2 ^ s * (2 ^ (64 - s) * (?R div 2 ^ s))"])
  then show ?case using Many lo by simp
qed simp

lemma words_up:
  assumes "length a = N"
  shows "mpv (map (\<lambda>j. if n \<le> j then a ! (j - n) else 0) [0..<N]) = (2 ^ (64 * n) * mpv a) mod 2 ^ (64 * N)"
proof (cases "n \<le> N")
  case True
  have "map (\<lambda>j. if n \<le> j then a ! (j - n) else 0) [0..<N] = replicate n 0 @ take (N - n) a"
    by (rule nth_equalityI) (use True assms in \<open>auto simp: nth_append\<close>)
  moreover have "(2 :: nat) ^ (64 * N) = 2 ^ (64 * n) * 2 ^ (64 * (N - n))" using True by (simp add: power_add [symmetric] right_diff_distrib')
  ultimately show ?thesis using assms by (simp add: mpv_append mpv_take)
next
  case False
  then have "map (\<lambda>j. if n \<le> j then a ! (j - n) else 0) [0..<N] = replicate N 0" by (intro nth_equalityI) auto
  moreover have "(2 :: nat) ^ (64 * N) dvd 2 ^ (64 * n)" using False by (intro le_imp_power_dvd) auto
  ultimately show ?thesis by (simp add: mod_0_imp_dvd dvd_imp_mod_0)
qed

lemma words_down:
  assumes "length a = N"
  shows "mpv (map (\<lambda>j. if j + n < N then a ! (j + n) else 0) [0..<N]) = mpv a div 2 ^ (64 * n)"
proof (cases "n \<le> N")
  case True
  have "map (\<lambda>j. if j + n < N then a ! (j + n) else 0) [0..<N] = drop n a @ replicate n 0"
    by (rule nth_equalityI) (use True assms in \<open>auto simp: nth_append add.commute\<close>)
  then show ?thesis using assms True by (simp add: mpv_append mpv_drop)
next
  case False
  then have "map (\<lambda>j. if j + n < N then a ! (j + n) else 0) [0..<N] = replicate N 0" by (intro nth_equalityI) auto
  moreover have "mpv a < 2 ^ (64 * n)"
  proof -
    have "mpv a < 2 ^ (64 * N)" using mpv_less [of a] assms by simp
    also have "(2 :: nat) ^ (64 * N) \<le> 2 ^ (64 * n)" using False by (intro power_increasing) auto
    finally show ?thesis .
  qed
  ultimately show ?thesis by simp
qed

lemma pow_split: "(2 :: nat) ^ (64 * (i div 64)) * 2 ^ (i mod 64) = 2 ^ i"
  by (simp add: power_add [symmetric])

lemma z2_shl_value:
  assumes "0 < K" "length a = N_WORDS K"
  shows "z2_ok K (z2_shl K a i)" "mpv (z2_shl K a i) = (mpv a * 2 ^ i) mod 2 ^ K"
proof -
  let ?N = "N_WORDS K" and ?n = "i div 64" and ?s = "i mod 64"
  define res where "res = map (\<lambda>j. if ?n \<le> j then a ! (j - ?n) else 0) [0..<?N]"
  have r: "length res = ?N" "mpv res = (2 ^ (64 * ?n) * mpv a) mod 2 ^ (64 * ?N)"
    using words_up [OF assms(2)] by (simp_all add: res_def)
  define out where "out = (if ?N = 1 then res[0 := push_bit ?s (res ! 0)] else if 0 < ?s then lshift_limbs ?s 0 res else res)"
  have s: "?s < 64" by simp
  have o: "length out = ?N \<and> mpv out = (mpv res * 2 ^ ?s) mod 2 ^ (64 * ?N)"
  proof (cases "?N = 1")
    case True
    then obtain x where "res = [x]" using r(1) list_1 by fastforce
    then show ?thesis using True unat_shift_limb(1) [of ?s x] by (simp add: out_def)
  next
    case False
    have "mpv res < 2 ^ (64 * ?N)" using mpv_less [of res] r(1) by simp
    then show ?thesis using False lshift_limbs_value [OF _ s, of 0 res] r(1) by (cases "0 < ?s") (simp_all add: out_def)
  qed
  have e: "z2_shl K a i = z2_normalize K out" by (simp add: z2_shl_def Let_def out_def res_def)
  note v = z2_normalize_value [OF assms(1), of out]
  show "z2_ok K (z2_shl K a i)" unfolding e using v(3) o by simp
  have "(mpv res * 2 ^ ?s) mod 2 ^ (64 * ?N) = (2 ^ (64 * ?n) * mpv a * 2 ^ ?s) mod 2 ^ (64 * ?N)" unfolding r(2) by (rule mod_mult_left_eq)
  moreover have "(2 :: nat) ^ (64 * ?n) * mpv a * 2 ^ ?s = mpv a * 2 ^ i"
  proof -
    have "(2 :: nat) ^ (64 * ?n) * mpv a * 2 ^ ?s = mpv a * (2 ^ (64 * ?n) * 2 ^ ?s)" by (simp only: mult.commute mult.left_commute)
    then show ?thesis unfolding pow_split .
  qed
  ultimately show "mpv (z2_shl K a i) = (mpv a * 2 ^ i) mod 2 ^ K" unfolding e using v(2) o mod_words [OF assms(1)] by simp
qed

lemma z2_shr_value:
  assumes "0 < K" "length a = N_WORDS K"
  shows "length (z2_shr K a i) = N_WORDS K" "mpv (z2_shr K a i) = mpv a div 2 ^ i"
proof -
  let ?N = "N_WORDS K" and ?n = "i div 64" and ?s = "i mod 64"
  define res where "res = map (\<lambda>j. if j + ?n < ?N then a ! (j + ?n) else 0) [0..<?N]"
  have r: "length res = ?N" "mpv res = mpv a div 2 ^ (64 * ?n)" using words_down [OF assms(2)] by (simp_all add: res_def)
  have e: "z2_shr K a i = (if ?N = 1 then res[0 := drop_bit ?s (res ! 0)] else if 0 < ?s then rshift_limbs ?s res else res)"
    by (simp add: z2_shr_def Let_def res_def)
  have s: "?s < 64" by simp
  have "length (z2_shr K a i) = ?N \<and> mpv (z2_shr K a i) = mpv res div 2 ^ ?s"
  proof (cases "?N = 1")
    case True
    then obtain x where "res = [x]" using r(1) list_1 by fastforce
    then show ?thesis using True unat_shift_limb(2) [of ?s x] by (simp add: e)
  next
    case False
    then show ?thesis using rshift_limbs_value [OF _ s, of res] r(1) by (cases "0 < ?s") (simp_all add: e)
  qed
  moreover have "mpv a div 2 ^ (64 * ?n) div 2 ^ ?s = mpv a div 2 ^ i"
    unfolding div_mult2_eq [symmetric] pow_split ..
  ultimately show "length (z2_shr K a i) = N_WORDS K" "mpv (z2_shr K a i) = mpv a div 2 ^ i" using r(2) by simp_all
qed

end
