(* ===== verification/Z2kOps.thy ===== *)
theory Z2kOps
  imports Z2k ModpConvert
begin

text \<open>
  Conversions of \<^verbatim>\<open>Z2<K>\<close> and \<^verbatim>\<open>SignedZ2<K>\<close>, and the two bit-by-bit loops: the inverse of an odd
  number and the square root of a number that is one modulo eight.
\<close>

unbundle bit_operations_syntax

subsection \<open>Operations\<close>

definition z2_of_bigint :: "nat \<Rightarrow> int \<Rightarrow> z2" where
  "z2_of_bigint K x =
     (let v = nat \<bar>x\<bar>; src = limbs_of (num_limbs v) v;
          a = copy_octets (N_WORDS K) (min (N_BYTES K) (8 * length src)) src
      in z2_normalize K (if x < 0 then z2_sub K (z2_zero K) a else a))"

definition z2_to_bigint :: "z2 \<Rightarrow> int" where "z2_to_bigint a = int (mpv a)"

definition sz2_negative :: "nat \<Rightarrow> z2 \<Rightarrow> bool" where
  "sz2_negative K a = (a ! (N_WORDS K - 1) AND push_bit ((K - 1) mod 64) 1 \<noteq> 0)"

definition sz2_to_bigint :: "nat \<Rightarrow> z2 \<Rightarrow> int" where
  "sz2_to_bigint K a = (if sz2_negative K a then int (mpv a) - 2 ^ K else int (mpv a))"

text \<open>\<^verbatim>\<open>SignedZ2<K>\<close> from \<^verbatim>\<open>SignedZ2<L>\<close>: the sign is extended to the new length.\<close>

definition sz2_extend :: "nat \<Rightarrow> nat \<Rightarrow> z2 \<Rightarrow> z2" where
  "sz2_extend L K x =
     (let a = z2_conv L K x;
          b = (if L < K \<and> sz2_negative L x
               then map (\<lambda>i. if i < N_WORDS L - 1 then a ! i
                             else if i = N_WORDS L - 1 then a ! i OR NOT (UPPER_MASK L) else - 1) [0..<N_WORDS K]
               else a)
      in z2_normalize K b)"

definition sz2_less :: "nat \<Rightarrow> z2 \<Rightarrow> z2 \<Rightarrow> bool" where
  "sz2_less K x y = sz2_negative K (z2_sub K x y)"

definition sz2_negate :: "nat \<Rightarrow> z2 \<Rightarrow> z2" where
  "sz2_negate K x = z2_sub K (z2_zero K) x"

definition sz2_abs :: "nat \<Rightarrow> z2 \<Rightarrow> z2" where
  "sz2_abs K x = (if sz2_negative K x then sz2_negate K x else x)"

definition z2_invert :: "nat \<Rightarrow> z2 \<Rightarrow> z2 res" where
  "z2_invert K a =
     bindE (guardE (z2_get_bit a 0) Division_By_Zero) (\<lambda>_.
     foldE (\<lambda>i res. bindE (z2_mul K K K a res) (\<lambda>m.
         Inr (z2_add K res (z2_shl K (z2_of_int K (of_bool (z2_get_bit (z2_sub K (z2_of_int K 1) m) i))) i))))
       [0..<K] (z2_of_int K 1))"

definition z2_sqrRoot :: "nat \<Rightarrow> z2 \<Rightarrow> z2 res" where
  "z2_sqrRoot K a =
     bindE (guardE (a ! 0 mod 8 = 1) (Assertion ''a[0] % 8 == 1'')) (\<lambda>_.
     foldE (\<lambda>i res. bindE (z2_mul K K K res res) (\<lambda>m.
         Inr (z2_add K res (z2_shl K (z2_of_int K (of_bool (z2_get_bit (z2_sub K a m) (i + 1)))) i))))
       [0..<K - 1] (z2_of_int K 1))"

subsection \<open>Conversions\<close>

lemma copy_octets_Suc:
  "copy_octets (Suc w) n src = (case src of [] \<Rightarrow> 0 | x # _ \<Rightarrow> x AND mask (8 * min 8 n)) # copy_octets w (n - 8) (tl src)"
proof -
  have "[0..<Suc w] = 0 # map Suc [0..<w]" by (simp add: map_Suc_upt upt_conv_Cons del: upt_Suc)
  then show ?thesis by (cases src) (simp_all add: copy_octets_def del: upt_Suc)
qed

lemma mod_add_dvd: "d dvd b \<Longrightarrow> (a + b * m) mod d = a mod d" for a b d m :: nat
  by (metis add_0_right dvd_imp_mod_0 dvd_mult2 mod_add_right_eq)

lemma copy_octets_value: "n \<le> 8 * w \<Longrightarrow> length (copy_octets w n src) = w \<and> mpv (copy_octets w n src) = mpv src mod 2 ^ (8 * n)"
proof (induction w arbitrary: n src)
  case 0
  then show ?case by (simp add: copy_octets_def)
next
  case (Suc w)
  have ih: "length (copy_octets w (n - 8) (tl src)) = w" "mpv (copy_octets w (n - 8) (tl src)) = mpv (tl src) mod 2 ^ (8 * (n - 8))"
    using Suc.IH [of "n - 8" "tl src"] Suc.prems by auto
  show ?case
  proof (cases src)
    case Nil
    then show ?thesis using ih by (simp add: copy_octets_Suc)
  next
    case (Cons x xs)
    show ?thesis
    proof (cases "n \<le> 8")
      case True
      have "(2 :: nat) ^ (8 * n) dvd B64" using True by (intro le_imp_power_dvd) simp
      then have "(unat x + B64 * mpv xs) mod 2 ^ (8 * n) = unat x mod 2 ^ (8 * n)" by (rule mod_add_dvd)
      then show ?thesis using True ih Cons by (simp only: copy_octets_Suc list.case list.sel mpv.simps unat_and_mask) simp
    next
      case False
      then have m: "8 * min 8 n = 64" by simp
      have e: "(2 :: nat) ^ (8 * n) = B64 * 2 ^ (8 * (n - 8))"
        unfolding power_add [symmetric] by (rule arg_cong [of _ _ "\<lambda>k. 2 ^ k"]) (use False in simp)
      have "unat x mod B64 = unat x" using unat_limb by (rule mod_less)
      then show ?thesis using ih Cons mod_mult_limb [OF unat_limb [of x], of "mpv xs" "2 ^ (8 * (n - 8))"]
        by (simp only: copy_octets_Suc list.case list.sel mpv.simps unat_and_mask m e) simp
    qed
  qed
qed

lemma z2_zero_value: "length (z2_zero K) = N_WORDS K" "mpv (z2_zero K) = 0"
  by (simp_all add: z2_zero_def)

lemma z2_of_bigint_value:
  assumes "0 < K"
  shows "z2_ok K (z2_of_bigint K x)" "int (mpv (z2_of_bigint K x)) = x mod 2 ^ K"
proof -
  define v where "v = nat \<bar>x\<bar>"
  define src where "src = limbs_of (num_limbs v) v"
  define a where "a = copy_octets (N_WORDS K) (min (N_BYTES K) (8 * length src)) src"
  have src: "mpv src = v" "mpv src < 2 ^ (8 * (8 * length src))"
    using mpv_limbs_num [of v] mpv_less [of src] by (simp_all add: src_def)
  have "min (N_BYTES K) (8 * length src) \<le> 8 * N_WORDS K" using N_WORDS_bounds(4) [OF assms] by linarith
  note c = copy_octets_value [OF this, of src, folded a_def]
  have "v mod 2 ^ (8 * min (N_BYTES K) (8 * length src)) = v mod 2 ^ (8 * N_BYTES K)"
  proof (cases "N_BYTES K \<le> 8 * length src")
    case False
    then have "v < 2 ^ (8 * N_BYTES K)" using src by (meson less_le_trans mult_le_mono2 nat_le_linear one_le_numeral power_increasing)
    then show ?thesis using False src by (simp add: min_def)
  qed (simp add: min_def)
  then have a: "length a = N_WORDS K" "mpv a mod 2 ^ K = v mod 2 ^ K"
    using c src(1) N_WORDS_bounds(5) [OF assms] by (simp_all add: mod_mod_cancel le_imp_power_dvd)
  have e: "z2_of_bigint K x = z2_normalize K (if x < 0 then z2_sub K (z2_zero K) a else a)"
    by (simp add: z2_of_bigint_def Let_def a_def src_def v_def)
  have s: "z2_ok K (z2_sub K (z2_zero K) a)" "int (mpv (z2_sub K (z2_zero K) a)) = (- int (mpv a)) mod 2 ^ K"
    using z2_sub_value [OF assms z2_zero_value(1) a(1)] by (simp_all add: z2_zero_value)
  have "length (if x < 0 then z2_sub K (z2_zero K) a else a) = N_WORDS K" using s(1) a(1) by (simp add: z2_ok_def)
  note n = z2_normalize_value [OF assms this]
  show "z2_ok K (z2_of_bigint K x)" unfolding e by (rule n(3))
  have av: "int (mpv a) mod 2 ^ K = \<bar>x\<bar> mod 2 ^ K" using arg_cong [OF a(2), of int] by (simp add: zmod_int v_def)
  show "int (mpv (z2_of_bigint K x)) = x mod 2 ^ K"
  proof (cases "x < 0")
    case True
    have "(- int (mpv a)) mod 2 ^ K = (- \<bar>x\<bar>) mod 2 ^ K" by (metis av mod_minus_eq)
    then show ?thesis unfolding e n(2) zmod_int using True s(2) by simp
  next
    case False
    then show ?thesis unfolding e n(2) zmod_int using av by simp
  qed
qed

lemma z2_conv_value:
  assumes "0 < K" "0 < L" "z2_ok L x"
  shows "z2_ok K (z2_conv L K x)" "mpv (z2_conv L K x) = mpv x mod 2 ^ K"
proof -
  have x: "length x = N_WORDS L" "mpv x < 2 ^ L" using assms(3) by (simp_all add: z2_ok_def)
  let ?n = "min (N_BYTES K) (N_BYTES L)"
  have "?n \<le> 8 * N_WORDS K" using N_WORDS_bounds(4) [OF assms(1)] by linarith
  note c = copy_octets_value [OF this, of x]
  note n = z2_normalize_value [OF assms(1), of "copy_octets (N_WORDS K) ?n x"]
  have "mpv x mod 2 ^ (8 * ?n) mod 2 ^ K = mpv x mod 2 ^ K"
  proof (cases "N_BYTES K \<le> N_BYTES L")
    case True
    then show ?thesis using N_WORDS_bounds(5) [OF assms(1)] by (simp add: min_def mod_mod_cancel le_imp_power_dvd)
  next
    case False
    have "(2 :: nat) ^ L \<le> 2 ^ (8 * N_BYTES L)" using N_WORDS_bounds(5) [OF assms(2)] by (intro power_increasing) auto
    then have "mpv x < 2 ^ (8 * N_BYTES L)" using x(2) by linarith
    then show ?thesis using False by (simp add: min_def)
  qed
  then show "z2_ok K (z2_conv L K x)" "mpv (z2_conv L K x) = mpv x mod 2 ^ K" using c n by (simp_all add: z2_conv_def)
qed

lemma z2_of_bit_value:
  assumes "0 < K"
  shows "z2_ok K (z2_of_int K (of_bool b))" "mpv (z2_of_int K (of_bool b)) = of_bool b"
proof -
  note w = N_WORDS_bounds [OF assms]
  have s: "\<not> sint (signed (of_bool b :: 32 word) :: limb) < 0" "unat (signed (of_bool b :: 32 word) :: limb) = of_bool b"
    by (cases b; simp)+
  define a where "a = z2_of_word K (signed (of_bool b :: 32 word))"
  obtain n where n: "N_WORDS K = Suc n" using w(1) gr0_implies_Suc by blast
  have a: "length a = N_WORDS K" "mpv a = of_bool b" using s(2) by (simp_all add: a_def z2_of_word_def z2_zero_def n)
  have e: "z2_of_int K (of_bool b) = z2_normalize K a" using s(1) by (simp add: z2_of_int_def z2_of_long_def a_def)
  have "(2 :: nat) ^ 1 \<le> 2 ^ K" using assms by (intro power_increasing) auto
  then have "of_bool b mod (2 :: nat) ^ K = of_bool b" by simp
  then show "z2_ok K (z2_of_int K (of_bool b))" "mpv (z2_of_int K (of_bool b)) = of_bool b"
    unfolding e using z2_normalize_value [OF assms a(1)] a(2) by simp_all
qed

lemma z2_one_value: "0 < K \<Longrightarrow> z2_ok K (z2_of_int K 1)" "0 < K \<Longrightarrow> mpv (z2_of_int K 1) = 1"
  using z2_of_bit_value [of K True] by simp_all

subsection \<open>Signed numbers\<close>

lemma sz2_negative_value:
  assumes "0 < K" "z2_ok K a"
  shows "sz2_negative K a = (2 ^ (K - 1) \<le> mpv a)"
proof -
  note w = N_WORDS_bounds [OF assms(1)]
  have a: "length a = N_WORDS K" "mpv a < 2 ^ K" using assms(2) by (simp_all add: z2_ok_def)
  have i: "(K - 1) div 64 = N_WORDS K - 1" using w(3) mult_div_mod_eq [of 64 "K - 1"] by linarith
  have K: "(2 :: nat) ^ K = 2 * 2 ^ (K - 1)" using assms(1) by (metis Suc_pred' power_Suc)
  have "sz2_negative K a = bit (a ! (N_WORDS K - 1)) ((K - 1) mod 64)"
    by (simp add: sz2_negative_def push_bit_of_1 and_exp_eq_0_iff_not_bit)
  also have "\<dots> = bit (mpv a) (K - 1)" 
  proof -
    have "K - 1 < 64 * N_WORDS K" using w(2) assms(1) by linarith
    then show ?thesis using a(1) i by (simp add: bit_mpv)
  qed
  also have "\<dots> = odd (mpv a div 2 ^ (K - 1))" by (rule bit_iff_odd)
  also have "\<dots> = (2 ^ (K - 1) \<le> mpv a)"
  proof (cases "2 ^ (K - 1) \<le> mpv a")
    case True
    then have "mpv a div 2 ^ (K - 1) = Suc ((mpv a - 2 ^ (K - 1)) div 2 ^ (K - 1))" by (simp add: le_div_geq)
    also have "(mpv a - 2 ^ (K - 1)) div 2 ^ (K - 1) = 0" using a(2) K by (intro div_less) linarith
    finally show ?thesis using True by simp
  qed simp
  finally show ?thesis .
qed

text \<open>The signed value, as an integer between \<open>- 2 ^ (K - 1)\<close> and \<open>2 ^ (K - 1) - 1\<close>.\<close>

definition signed_mod :: "nat \<Rightarrow> int \<Rightarrow> int" where
  "signed_mod K x = (x + 2 ^ (K - 1)) mod 2 ^ K - 2 ^ (K - 1)"

lemma signed_mod_id: "0 < K \<Longrightarrow> - (2 ^ (K - 1)) \<le> x \<Longrightarrow> x < 2 ^ (K - 1) \<Longrightarrow> signed_mod K x = x"
proof -
  assume "0 < K" "- (2 ^ (K - 1)) \<le> x" "x < 2 ^ (K - 1)"
  then have "(x + 2 ^ (K - 1)) mod 2 ^ K = x + 2 ^ (K - 1)"
    using power_Suc [of "2 :: int" "K - 1"] by (intro mod_pos_pos_trivial) simp_all
  then show ?thesis by (simp add: signed_mod_def)
qed

lemma sz2_value:
  assumes "0 < K" "z2_ok K a"
  shows "sz2_to_bigint K a = signed_mod K (int (mpv a))"
proof -
  have K: "(2 :: int) ^ K = 2 * 2 ^ (K - 1)" using assms(1) by (metis Suc_pred' power_Suc)
  have lt: "int (mpv a) < 2 ^ K" using assms(2) by (simp add: z2_ok_def)
  have n: "sz2_negative K a = (2 ^ (K - 1) \<le> int (mpv a))" unfolding sz2_negative_value [OF assms] by simp
  show ?thesis
  proof (cases "sz2_negative K a")
    case True
    have "(int (mpv a) + 2 ^ (K - 1)) mod 2 ^ K = (int (mpv a) + 2 ^ (K - 1) - 2 ^ K) mod 2 ^ K" by simp
    also have "\<dots> = int (mpv a) + 2 ^ (K - 1) - 2 ^ K" using True n lt K by (intro mod_pos_pos_trivial) simp_all
    finally show ?thesis using True by (simp add: sz2_to_bigint_def signed_mod_def)
  next
    case False
    then have "(int (mpv a) + 2 ^ (K - 1)) mod 2 ^ K = int (mpv a) + 2 ^ (K - 1)"
      using n K by (intro mod_pos_pos_trivial) simp_all
    then show ?thesis using False by (simp add: sz2_to_bigint_def signed_mod_def)
  qed
qed

lemma signed_mod_cong: "0 < K \<Longrightarrow> x mod 2 ^ K = y mod 2 ^ K \<Longrightarrow> signed_mod K x = signed_mod K y"
  unfolding signed_mod_def by (metis mod_add_left_eq)

lemma sz2_of_bigint_value:
  assumes "0 < K"
  shows "sz2_to_bigint K (z2_of_bigint K x) = signed_mod K x"
  unfolding sz2_value [OF assms z2_of_bigint_value(1) [OF assms]] z2_of_bigint_value(2) [OF assms]
  by (rule signed_mod_cong [OF assms]) simp

lemma sz2_negative_signed:
  assumes "0 < K" "z2_ok K a"
  shows "sz2_negative K a = (sz2_to_bigint K a < 0)"
proof -
  have "int (mpv a) < 2 ^ K" using assms(2) by (simp add: z2_ok_def)
  then show ?thesis by (simp add: sz2_to_bigint_def)
qed

text \<open>The comparison takes the sign of the difference: right when the difference fits.\<close>

lemma sz2_less_value:
  assumes "0 < K" "z2_ok K x" "z2_ok K y"
  shows "sz2_less K x y = (signed_mod K (sz2_to_bigint K x - sz2_to_bigint K y) < 0)"
proof -
  have l: "length x = N_WORDS K" "length y = N_WORDS K" using assms(2,3) by (simp_all add: z2_ok_def)
  note s = z2_sub_value [OF assms(1) l]
  have m: "sz2_to_bigint K a mod 2 ^ K = int (mpv a) mod 2 ^ K" for a by (simp add: sz2_to_bigint_def)
  have "signed_mod K (int (mpv (z2_sub K x y))) = signed_mod K (sz2_to_bigint K x - sz2_to_bigint K y)"
    by (rule signed_mod_cong [OF assms(1)]) (simp add: s(2) mod_diff_cong [OF m m])
  then show ?thesis unfolding sz2_less_def sz2_negative_signed [OF assms(1) s(1)] sz2_value [OF assms(1) s(1)] by simp
qed

lemma sz2_abs_value:
  assumes "0 < K" "z2_ok K x"
  shows "z2_ok K (sz2_abs K x)" "int (mpv (sz2_abs K x)) = \<bar>sz2_to_bigint K x\<bar>"
proof -
  have x: "length x = N_WORDS K" "int (mpv x) < 2 ^ K" using assms(2) by (simp_all add: z2_ok_def)
  note s = z2_sub_value [OF assms(1) z2_zero_value(1) x(1)]
  have v: "int (mpv (sz2_negate K x)) = (- int (mpv x)) mod 2 ^ K" "z2_ok K (sz2_negate K x)"
    using s by (simp_all add: sz2_negate_def z2_zero_value)
  show "z2_ok K (sz2_abs K x)" using v(2) assms(2) by (simp add: sz2_abs_def)
  show "int (mpv (sz2_abs K x)) = \<bar>sz2_to_bigint K x\<bar>"
  proof (cases "sz2_negative K x")
    case True
    have "0 < mpv x" using True sz2_negative_value [OF assms] by (metis le_zero_eq neq0_conv power_not_zero zero_neq_numeral)
    have "(- int (mpv x)) mod 2 ^ K = (2 ^ K - int (mpv x)) mod 2 ^ K" by simp
    also have "\<dots> = 2 ^ K - int (mpv x)" using x(2) \<open>0 < mpv x\<close> by (intro mod_pos_pos_trivial) simp_all
    finally show ?thesis using True v(1) x(2) by (simp add: sz2_abs_def sz2_to_bigint_def)
  qed (simp add: sz2_abs_def sz2_to_bigint_def)
qed

subsection \<open>Loops over the bits\<close>

lemma foldE_upt:
  assumes "P 0 s" "\<And>i s. i < n \<Longrightarrow> P i s \<Longrightarrow> \<exists>s'. f i s = Inr s' \<and> P (Suc i) s'"
  shows "\<exists>s'. foldE f [0..<n] s = Inr s' \<and> P n s'"
  using assms(2)
proof (induction n)
  case 0
  then show ?case using assms(1) by simp
next
  case (Suc n)
  then obtain s' where s': "foldE f [0..<n] s = Inr s'" "P n s'" by (meson less_Suc_eq)
  with Suc.prems [of n s'] show ?case by (auto simp: foldE_append)
qed

lemma bit_of_residue:
  assumes "i < K" "2 ^ i dvd (X :: int)" "int n = X mod 2 ^ K"
  shows "bit n i = (\<not> 2 ^ Suc i dvd X)"
proof -
  obtain c where c: "X = 2 ^ i * c" using assms(2) by (elim dvdE)
  have "bit n i = bit (int n) i" by (simp add: bit_of_nat_iff_bit)
  also have "\<dots> = bit X i" unfolding assms(3) using assms(1) by (simp add: take_bit_eq_mod [symmetric] bit_take_bit_iff)
  also have "\<dots> = odd c" unfolding c by (simp add: bit_iff_odd)
  also have "\<dots> = (\<not> 2 ^ Suc i dvd X)" unfolding c by (simp add: mult.commute [of 2])
  finally show ?thesis .
qed

lemma step_value:
  assumes "0 < K" "z2_ok K r" "i < K"
  shows "z2_ok K (z2_add K r (z2_shl K (z2_of_int K (of_bool b)) i))"
    "int (mpv (z2_add K r (z2_shl K (z2_of_int K (of_bool b)) i))) = (int (mpv r) + of_bool b * 2 ^ i) mod 2 ^ K"
proof -
  note o = z2_of_bit_value [OF assms(1), of b]
  have l: "length (z2_of_int K (of_bool b)) = N_WORDS K" "length r = N_WORDS K" using o(1) assms(2) by (simp_all add: z2_ok_def)
  note s = z2_shl_value [OF assms(1) l(1), of i]
  have l2: "length (z2_shl K (z2_of_int K (of_bool b)) i) = N_WORDS K" using s(1) by (simp add: z2_ok_def)
  note a = z2_add_value [OF assms(1) l(2) l2]
  show "z2_ok K (z2_add K r (z2_shl K (z2_of_int K (of_bool b)) i))" by (rule a(1))
  show "int (mpv (z2_add K r (z2_shl K (z2_of_int K (of_bool b)) i))) = (int (mpv r) + of_bool b * 2 ^ i) mod 2 ^ K"
    unfolding a(2) s(2) o(2) by (simp add: zmod_int mod_simps)
qed

lemma dvd_mod_power: "i \<le> K \<Longrightarrow> x mod 2 ^ K = y mod (2 :: int) ^ K \<Longrightarrow> 2 ^ i dvd x - y"
  by (metis dvd_trans le_imp_power_dvd mod_eq_dvd_iff)

text \<open>Newton's iteration, one bit at a time.\<close>

lemma z2_invert_value:
  assumes "0 < K" "z2_ok K a" "odd (mpv a)"
  shows "\<exists>r. z2_invert K a = Inr r \<and> z2_ok K r \<and> (mpv a * mpv r) mod 2 ^ K = 1"
proof -
  have la: "length a = N_WORDS K" using assms(2) by (simp add: z2_ok_def)
  define A where "A = int (mpv a)"
  define P where "P = (\<lambda>i r. z2_ok K r \<and> 2 ^ i dvd 1 - A * int (mpv r))"
  define f where "f = (\<lambda>i res. bindE (z2_mul K K K a res) (\<lambda>m.
         Inr (z2_add K res (z2_shl K (z2_of_int K (of_bool (z2_get_bit (z2_sub K (z2_of_int K 1) m) i))) i))))"
  have g: "z2_get_bit a 0" using z2_get_bit_value [OF assms(1) la assms(1)] assms(3) by (simp add: bit_0)
  have "\<exists>r. foldE f [0..<K] (z2_of_int K 1) = Inr r \<and> P K r"
  proof (rule foldE_upt)
    show "P 0 (z2_of_int K 1)" using z2_one_value [OF assms(1)] by (simp add: P_def)
    fix i r assume i: "i < K" and "P i r"
    then have r: "z2_ok K r" "2 ^ i dvd 1 - A * int (mpv r)" by (simp_all add: P_def)
    have lr: "length r = N_WORDS K" using r(1) by (simp add: z2_ok_def)
    have "K \<le> 64 * (N_WORDS K + N_WORDS K)" using N_WORDS_bounds(2) [OF assms(1)] by simp
    from z2_mul_value [OF assms(1) la lr this] obtain m where
      m: "z2_mul K K K a r = Inr m" "z2_ok K m" "mpv m = mpv a * mpv r mod 2 ^ K" by blast
    have lm: "length m = N_WORDS K" "length (z2_of_int K 1) = N_WORDS K"
      using m(2) z2_one_value(1) [OF assms(1)] by (simp_all add: z2_ok_def)
    define d where "d = z2_sub K (z2_of_int K 1) m"
    have d: "z2_ok K d" "int (mpv d) = (1 - A * int (mpv r)) mod 2 ^ K"
      using z2_sub_value [OF assms(1) lm(2,1)] z2_one_value(2) [OF assms(1)] m(3)
      by (simp_all add: d_def A_def zmod_int mod_diff_right_eq)
    define b where "b = z2_get_bit d i"
    have b: "b = (\<not> 2 ^ Suc i dvd 1 - A * int (mpv r))"
      using z2_get_bit_value [OF assms(1) _ i, of d] bit_of_residue [OF i r(2) d(2)] d(1) by (simp add: b_def z2_ok_def)
    define r' where "r' = z2_add K r (z2_shl K (z2_of_int K (of_bool b)) i)"
    have f: "f i r = Inr r'" by (simp add: f_def m(1) r'_def b_def d_def)
    note v = step_value [OF assms(1) r(1) i, of b, folded r'_def]
    have e: "2 ^ Suc i dvd int (mpv r') - (int (mpv r) + of_bool b * 2 ^ i)"
      by (rule dvd_mod_power [of _ K]) (use i v(2) in simp_all)
    have "2 ^ Suc i dvd 1 - A * (int (mpv r) + of_bool b * 2 ^ i)"
    proof (cases b)
      case True
      obtain c where c: "1 - A * int (mpv r) = 2 ^ i * c" using r(2) by (elim dvdE)
      have "odd c" using True b unfolding c by (auto simp: mult.commute [of 2])
      then have "even (c - A)" using assms(3) by (simp add: A_def)
      then have "2 ^ Suc i dvd 2 ^ i * (c - A)" by (simp add: mult.commute [of 2])
      also have "2 ^ i * (c - A) = 1 - A * (int (mpv r) + of_bool b * 2 ^ i)"
        using True c by (simp add: algebra_simps)
      finally show ?thesis .
    qed (use b in simp)
    moreover have "1 - A * int (mpv r') = (1 - A * (int (mpv r) + of_bool b * 2 ^ i)) - A * (int (mpv r') - (int (mpv r) + of_bool b * 2 ^ i))"
      by (simp add: algebra_simps)
    ultimately have "2 ^ Suc i dvd 1 - A * int (mpv r')" using e by (metis dvd_diff dvd_mult)
    then show "\<exists>s'. f i r = Inr s' \<and> P (Suc i) s'" using f v(1) by (simp add: P_def)
  qed
  then obtain r where r: "foldE f [0..<K] (z2_of_int K 1) = Inr r" "z2_ok K r" "2 ^ K dvd 1 - A * int (mpv r)"
    by (auto simp: P_def)
  have "1 mod 2 ^ K = (A * int (mpv r)) mod 2 ^ K" by (rule mod_eq_dvd_iff [THEN iffD2, OF r(3)])
  moreover have "(1 :: int) mod 2 ^ K = 1" using assms(1) by (intro mod_pos_pos_trivial) simp_all
  ultimately have "int ((mpv a * mpv r) mod 2 ^ K) = int 1" by (simp add: zmod_int A_def)
  then have "(mpv a * mpv r) mod 2 ^ K = 1" by (simp only: of_nat_eq_iff)
  then show ?thesis using r(1,2) g by (simp add: z2_invert_def f_def)
qed

text \<open>The root gains a bit at every step; the first two steps keep the initial one.\<close>

lemma z2_sqrRoot_value:
  assumes "0 < K" "z2_ok K a" "mpv a mod 8 = 1"
  shows "\<exists>r. z2_sqrRoot K a = Inr r \<and> z2_ok K r \<and> (mpv r * mpv r) mod 2 ^ K = mpv a"
proof -
  have la: "length a = N_WORDS K" "mpv a < 2 ^ K" using assms(2) by (simp_all add: z2_ok_def)
  define A where "A = int (mpv a)"
  have A8: "8 dvd A - 1" using assms(3) unfolding A_def by presburger
  define P where "P = (\<lambda>i r. z2_ok K r \<and> odd (mpv r) \<and> 2 ^ Suc i dvd A - int (mpv r) * int (mpv r) \<and> (i \<le> 2 \<longrightarrow> mpv r = 1))"
  define f where "f = (\<lambda>i res. bindE (z2_mul K K K res res) (\<lambda>m.
         Inr (z2_add K res (z2_shl K (z2_of_int K (of_bool (z2_get_bit (z2_sub K a m) (i + 1)))) i))))"
  have g: "a ! 0 mod 8 = 1"
  proof -
    obtain x xs where a: "a = x # xs" using la(1) N_WORDS_bounds(1) [OF assms(1)] by (cases a) auto
    have "(unat x + B64 * mpv xs) mod 8 = unat x mod 8" by (rule mod_add_dvd) simp
    then have "unat (x mod 8) = unat (1 :: limb)" using assms(3) a by (simp add: unat_mod)
    then show ?thesis unfolding a by (simp only: word_unat_eq_iff nth_Cons_0)
  qed
  have "\<exists>r. foldE f [0..<K - 1] (z2_of_int K 1) = Inr r \<and> P (K - 1) r"
  proof (rule foldE_upt)
    have "even (A - 1)" using A8 by presburger
    then show "P 0 (z2_of_int K 1)" using z2_one_value [OF assms(1)] by (simp add: P_def)
    fix i r assume i: "i < K - 1" and "P i r"
    then have r: "z2_ok K r" "odd (mpv r)" "2 ^ Suc i dvd A - int (mpv r) * int (mpv r)" "i \<le> 2 \<Longrightarrow> mpv r = 1" by (simp_all add: P_def)
    let ?r = "int (mpv r)"
    have i': "Suc i < K" using i by simp
    have lr: "length r = N_WORDS K" using r(1) by (simp add: z2_ok_def)
    have "K \<le> 64 * (N_WORDS K + N_WORDS K)" using N_WORDS_bounds(2) [OF assms(1)] by simp
    from z2_mul_value [OF assms(1) lr lr this] obtain m where
      m: "z2_mul K K K r r = Inr m" "z2_ok K m" "mpv m = mpv r * mpv r mod 2 ^ K" by blast
    have lm: "length m = N_WORDS K" using m(2) by (simp add: z2_ok_def)
    define d where "d = z2_sub K a m"
    have d: "z2_ok K d" "int (mpv d) = (A - ?r * ?r) mod 2 ^ K"
      using z2_sub_value [OF assms(1) la(1) lm] m(3) by (simp_all add: d_def A_def zmod_int mod_diff_right_eq)
    define b where "b = z2_get_bit d (i + 1)"
    have b: "b = (\<not> 2 ^ Suc (Suc i) dvd A - ?r * ?r)"
      using z2_get_bit_value [OF assms(1) _ i', of d] bit_of_residue [OF i' r(3) d(2)] d(1) by (simp add: b_def z2_ok_def)
    define r' where "r' = z2_add K r (z2_shl K (z2_of_int K (of_bool b)) i)"
    have f: "f i r = Inr r'" by (simp add: f_def m(1) r'_def b_def d_def)
    have iK: "i < K" using i by simp
    note v = step_value [OF assms(1) r(1) iK, of b, folded r'_def]
    have small: "\<not> b \<and> mpv r = 1" if "i \<le> 1"
    proof -
      have "mpv r = 1" using r(4) that by simp
      moreover have "2 ^ Suc (Suc i) dvd (8 :: int)" using that by (cases i) auto
      ultimately show ?thesis using b A8 by (simp add: dvd_trans [of _ 8])
    qed
    show "\<exists>s'. f i r = Inr s' \<and> P (Suc i) s'"
    proof (cases b)
      case False
      then have "int (mpv r') = ?r mod 2 ^ K" using v(2) by simp
      then have "mpv r' = mpv r" using r(1) by (simp add: z2_ok_def)
      then show ?thesis using f v(1) r(2) b False small by (auto simp: P_def le_Suc_eq)
    next
      case True
      then have i2: "2 \<le> i" using small by (cases "i \<le> 1") auto
      define t where "t = ?r + 2 ^ i"
      have e: "2 ^ Suc (Suc i) dvd int (mpv r') - t"
        by (rule dvd_mod_power [of _ K]) (use i' v(2) True in \<open>simp_all add: t_def\<close>)
      obtain c where c: "A - ?r * ?r = 2 ^ Suc i * c" using r(3) by (elim dvdE)
      have "odd c" using True b unfolding c by (auto simp: mult.commute [of 2])
      then have "even (c - ?r)" using r(2) by simp
      then have "2 ^ Suc i * 2 dvd 2 ^ Suc i * (c - ?r)" by (rule mult_dvd_mono [OF dvd_refl])
      then have p1: "2 ^ Suc (Suc i) dvd 2 ^ Suc i * (c - ?r)" by (simp add: mult.commute)
      have p2: "(2 :: int) ^ Suc (Suc i) dvd 2 ^ i * 2 ^ i"
        unfolding power_add [symmetric] by (rule le_imp_power_dvd) (use i2 in simp)
      have "A - t * t = 2 ^ Suc i * (c - ?r) - 2 ^ i * 2 ^ i"
        using c by (simp add: t_def algebra_simps)
      then have "2 ^ Suc (Suc i) dvd A - t * t" using p1 p2 by (metis dvd_diff)
      moreover have "A - int (mpv r') * int (mpv r') = (A - t * t) - (int (mpv r') - t) * (int (mpv r') + t)"
        by (simp add: algebra_simps)
      ultimately have q: "2 ^ Suc (Suc i) dvd A - int (mpv r') * int (mpv r')" using e by (metis dvd_diff dvd_mult2)
      have "(2 :: int) dvd 2 ^ Suc (Suc i)" by simp
      then have "2 dvd int (mpv r') - t" using e by (rule dvd_trans)
      moreover have "odd t" using r(2) i2 by (simp add: t_def)
      ultimately have "odd (mpv r')" by simp
      then show ?thesis using f v(1) q i2 by (simp add: P_def)
    qed
  qed
  then obtain r where r: "foldE f [0..<K - 1] (z2_of_int K 1) = Inr r" "z2_ok K r" "2 ^ Suc (K - 1) dvd A - int (mpv r) * int (mpv r)"
    by (auto simp: P_def)
  then have "2 ^ K dvd A - int (mpv r) * int (mpv r)" using assms(1) by simp
  then have "A mod 2 ^ K = (int (mpv r) * int (mpv r)) mod 2 ^ K" by (simp add: mod_eq_dvd_iff)
  then have "int (mpv a mod 2 ^ K) = int ((mpv r * mpv r) mod 2 ^ K)" by (simp add: zmod_int A_def)
  then have "(mpv r * mpv r) mod 2 ^ K = mpv a" using la(2) by (simp only: of_nat_eq_iff mod_less)
  then show ?thesis using r(1,2) g by (simp add: z2_sqrRoot_def f_def)
qed

subsection \<open>Sign extension\<close>

lemma map_upt_split:
  assumes "n < w" "length a = w"
  shows "map (\<lambda>i. if i < n then a ! i else if i = n then f (a ! i) else u) [0..<w] = take n a @ f (a ! n) # replicate (w - Suc n) u"
  by (rule nth_equalityI) (use assms in \<open>auto simp: nth_append nth_Cons split: nat.splits\<close>)

lemma unat_or_not_mask:
  fixes v :: limb
  assumes "unat v < 2 ^ m" "m \<le> 64"
  shows "unat (v OR NOT (mask m)) + 2 ^ m = unat v + B64"
proof -
  have "unat (take_bit m v) = take_bit m (unat v)" by (rule unsigned_take_bit_eq)
  then have t: "take_bit m v = v" using take_bit_nat_eq_self [OF assms(1)] by (simp only: word_unat_eq_iff)
  have "(v AND mask m) AND NOT (mask m) = 0" by (simp add: and.assoc)
  then have "v AND NOT (mask m) = 0" using t by (simp only: take_bit_eq_mask)
  then have o: "v OR NOT (mask m) = v + NOT (mask m)" by (simp only: disjunctive_add_eq_or)
  have "NOT (mask m) = - 1 - (mask m :: limb)" by (simp add: not_eq_complement)
  moreover have "(mask m :: limb) \<le> - 1" by simp
  ultimately have "unat (NOT (mask m) :: limb) = unat (- 1 :: limb) - unat (mask m :: limb)" by (simp only: unat_sub)
  moreover have "unat (- 1 :: limb) = B64 - 1" by (simp add: unsigned_minus_1_eq_mask mask_eq_exp_minus_1)
  moreover have "unat (mask m :: limb) = 2 ^ m - 1"
  proof -
    have "(mask m :: limb) = take_bit m (- 1)" by (simp add: take_bit_minus_one_eq_mask)
    then have "unat (mask m :: limb) = take_bit m (B64 - 1)"
      by (simp only: unsigned_take_bit_eq) (simp add: unsigned_minus_1_eq_mask mask_eq_exp_minus_1)
    also have "\<dots> = take_bit m (mask 64)" by (simp add: mask_eq_exp_minus_1)
    also have "\<dots> = mask m" using assms(2) by (simp only: take_bit_of_mask min_absorb1)
    finally show ?thesis by (simp add: mask_eq_exp_minus_1)
  qed
  moreover have "(2 :: nat) ^ m \<le> B64" using assms(2) by (intro power_increasing) simp_all
  moreover have "1 \<le> (2 :: nat) ^ m" by simp
  ultimately have n: "unat (NOT (mask m) :: limb) + 2 ^ m = B64" by linarith
  then have "unat v + unat (NOT (mask m) :: limb) < B64" using assms(1) by linarith
  then show ?thesis unfolding o unat_plus using n by simp
qed

lemma mpv_ones: "mpv (replicate n (- 1)) = 2 ^ (64 * n) - 1"
proof (induction n)
  case (Suc n)
  have "unat (- 1 :: limb) = B64 - 1" by (simp add: unsigned_minus_1_eq_mask mask_eq_exp_minus_1)
  moreover have "(2 :: nat) ^ (64 * Suc n) = B64 * 2 ^ (64 * n)" by (simp add: power_add)
  moreover have "1 \<le> (2 :: nat) ^ (64 * n)" by simp
  ultimately show ?case using Suc by (simp only: replicate_Suc mpv.simps) (simp add: diff_mult_distrib2)
qed simp

lemma sz2_extend_value:
  assumes "0 < K" "0 < L" "z2_ok L x"
  shows "z2_ok K (sz2_extend L K x)" "sz2_to_bigint K (sz2_extend L K x) = signed_mod K (sz2_to_bigint L x)"
proof -
  define a where "a = z2_conv L K x"
  note a = z2_conv_value [OF assms, folded a_def]
  have la: "length a = N_WORDS K" using a(1) by (simp add: z2_ok_def)
  note wL = N_WORDS_bounds [OF assms(2)] and wK = N_WORDS_bounds [OF assms(1)]
  define b where "b = (if L < K \<and> sz2_negative L x
               then map (\<lambda>i. if i < N_WORDS L - 1 then a ! i
                             else if i = N_WORDS L - 1 then a ! i OR NOT (UPPER_MASK L) else - 1) [0..<N_WORDS K]
               else a)"
  have lx: "length x = N_WORDS L" "mpv x < 2 ^ L" using assms(3) by (simp_all add: z2_ok_def)
  have "length b = N_WORDS K \<and> int (mpv b) mod 2 ^ K = sz2_to_bigint L x mod 2 ^ K"
  proof (cases "L < K \<and> sz2_negative L x")
    case False
    have "int (mpv a) mod 2 ^ K = int (mpv x) mod 2 ^ K" unfolding a(2) by (simp add: zmod_int)
    moreover have "int (mpv x) mod 2 ^ K = sz2_to_bigint L x mod 2 ^ K"
    proof (cases "sz2_negative L x")
      case True
      then have "(2 :: int) ^ K dvd 2 ^ L" using False by (intro le_imp_power_dvd) simp
      then show ?thesis using True by (auto simp: sz2_to_bigint_def mod_eq_dvd_iff)
    qed (simp add: sz2_to_bigint_def)
    moreover have "b = a" unfolding b_def using False by (rule if_not_P)
    ultimately show ?thesis using la by simp
  next
    case True
    have "N_WORDS L \<le> N_WORDS K" using True by (simp add: N_WORDS_def) (intro div_le_mono add_le_mono; simp)
    then have n: "N_WORDS L - 1 < N_WORDS K" using wL(1) by linarith
    have "(2 :: nat) ^ L \<le> 2 ^ K" using True by (intro power_increasing) simp_all
    then have "mpv x < 2 ^ K" using lx(2) by linarith
    then have ax: "mpv a = mpv x" using a(2) by simp
    obtain xs v where x: "x = xs @ [v]" "length xs = N_WORDS L - 1"
      using wL(1) lx(1) by (metis append_butlast_last_id length_0_conv length_butlast less_numeral_extra(3))
    have "a = x @ replicate (N_WORDS K - N_WORDS L) 0"
      by (rule mpv_inject) (use la lx(1) ax \<open>N_WORDS L \<le> N_WORDS K\<close> in \<open>simp_all add: mpv_append\<close>)
    then have an: "take (N_WORDS L - 1) a = xs" "a ! (N_WORDS L - 1) = v" using x by (simp_all add: nth_append)
    let ?r = "N_WORDS K - N_WORDS L" and ?m = "Suc ((L - 1) mod 64)" and ?B = "(2 :: nat) ^ (64 * (N_WORDS L - 1))"
    have "b = take (N_WORDS L - 1) a @ (a ! (N_WORDS L - 1) OR NOT (UPPER_MASK L)) # replicate (N_WORDS K - Suc (N_WORDS L - 1)) (- 1)"
      using map_upt_split [OF n la, of "\<lambda>v. v OR NOT (UPPER_MASK L)" "- 1"] True unfolding b_def by (simp only: if_True simp_thms)
    then have b: "b = xs @ (v OR NOT (UPPER_MASK L)) # replicate ?r (- 1)" unfolding an using wL(1) by simp
    have L: "(2 :: nat) ^ L = ?B * 2 ^ ?m" using wL(3) by (metis power_add)
    have "mpv xs + ?B * unat v < ?B * 2 ^ ?m"
      using lx(2) unfolding x(1) mpv_append x(2) L by (simp only: mpv.simps mult_0_right add_0_right)
    then have "?B * unat v < ?B * 2 ^ ?m" by linarith
    then have v: "unat v < 2 ^ ?m" by (simp only: mult_less_cancel1)
    have u: "unat (v OR NOT (UPPER_MASK L)) + 2 ^ ?m = unat v + B64" by (rule unat_or_not_mask [OF v, folded UPPER_MASK_mask]) simp
    have "mpv b + 2 ^ L = mpv xs + ?B * (unat (v OR NOT (UPPER_MASK L)) + 2 ^ ?m + B64 * (2 ^ (64 * ?r) - 1))"
      unfolding b mpv_append x(2) L by (simp only: mpv.simps mpv_ones distrib_left)
    also have "\<dots> = mpv xs + ?B * unat v + ?B * (B64 * 2 ^ (64 * ?r))"
      unfolding u using one_le_power [of "2 :: nat" "64 * ?r"] by (simp only: distrib_left [symmetric] add.assoc) (simp add: diff_mult_distrib2)
    also have "?B * (B64 * 2 ^ (64 * ?r)) = 2 ^ (64 * N_WORDS K)"
      unfolding power_add [symmetric] by (rule arg_cong [of _ _ "\<lambda>k. 2 ^ k"]) (use wL(1) \<open>N_WORDS L \<le> N_WORDS K\<close> in simp)
    also have "mpv xs + ?B * unat v = mpv x" unfolding x(1) mpv_append x(2) by simp
    finally have "int (mpv b + 2 ^ L) = int (mpv x + 2 ^ (64 * N_WORDS K))" by (simp only:)
    then have "int (mpv b) = int (mpv x) - 2 ^ L + 2 ^ (64 * N_WORDS K)" by simp
    moreover have "(2 :: int) ^ K dvd 2 ^ (64 * N_WORDS K)" using wK(2) by (intro le_imp_power_dvd)
    ultimately have "int (mpv b) mod 2 ^ K = (int (mpv x) - 2 ^ L) mod 2 ^ K" by (simp add: mod_eq_dvd_iff)
    moreover have "length b = N_WORDS K" unfolding b_def using la by simp
    ultimately show ?thesis using True by (simp add: sz2_to_bigint_def)
  qed
  then have b: "length b = N_WORDS K" "int (mpv b) mod 2 ^ K = sz2_to_bigint L x mod 2 ^ K" by simp_all
  have e: "sz2_extend L K x = z2_normalize K b" unfolding sz2_extend_def Let_def b_def a_def ..
  note n = z2_normalize_value [OF assms(1) b(1)]
  show "z2_ok K (sz2_extend L K x)" unfolding e by (rule n(3))
  show "sz2_to_bigint K (sz2_extend L K x) = signed_mod K (sz2_to_bigint L x)"
    unfolding e sz2_value [OF assms(1) n(3)] n(2) by (rule signed_mod_cong [OF assms(1)]) (simp add: zmod_int b(2))
qed

end
