(* ===== verification/Z2kType.thy ===== *)
theory Z2kType
  imports Session Z2kOps
begin

text \<open>
  \<^verbatim>\<open>Z2<K>\<close> as a type: the normal arrays of limbs of a width, which is a parameter of the type as in
  the source. The operations of \<open>Z2k\<close> keep arrays normal, so they lift to the type and make it a
  commutative ring; with its packing it satisfies the contract \<open>value_type\<close> of the protocols.
\<close>

unbundle bit_operations_syntax

subsection \<open>Octets\<close>

definition octets_of_limbs :: "nat \<Rightarrow> limb list \<Rightarrow> octet list" where
  "octets_of_limbs n a = take n (concat (map (octets_of 8) a))"

definition limbs_of_octets :: "nat \<Rightarrow> octet list \<Rightarrow> limb list" where
  "limbs_of_octets w bs = map (\<lambda>j. word_of_octets (take 8 (drop (8 * j) bs))) [0..<w]"

definition z2_pack :: "nat \<Rightarrow> z2 \<Rightarrow> octetStream \<Rightarrow> octetStream res" where
  "z2_pack K a os = append (octets_of_limbs (N_BYTES K) a) os"

text \<open>Into an object that was zero: the octets are copied as they are.\<close>

definition z2_unpack :: "nat \<Rightarrow> octetStream \<Rightarrow> (z2 \<times> octetStream) res" where
  "z2_unpack K os = bindE (consume (N_BYTES K) os) (\<lambda>(bs, os'). Inr (limbs_of_octets (N_WORDS K) bs, os'))"

definition z2_randomize :: "nat \<Rightarrow> cipher \<Rightarrow> prng \<Rightarrow> z2 \<times> prng" where
  "z2_randomize K E G =
     (let (bs, G') = get_octets_fixed E (N_BYTES K) G in (z2_normalize K (limbs_of_octets (N_WORDS K) bs), G'))"

text \<open>The number that a little-endian string of octets stands for.\<close>

fun ov :: "octet list \<Rightarrow> nat" where
  "ov [] = 0"
| "ov (b # bs) = unat b + 256 * ov bs"

lemma ov_append: "ov (xs @ ys) = ov xs + 2 ^ (8 * length xs) * ov ys"
  by (induction xs) (simp_all add: power_add algebra_simps)

lemma ov_less: "ov xs < 2 ^ (8 * length xs)"
proof (induction xs)
  case (Cons b xs)
  have "unat b < 256" using unsigned_less [of b] by simp
  moreover have "256 * Suc (ov xs) \<le> 256 * 2 ^ (8 * length xs)" using Cons by (intro mult_le_mono2) simp
  ultimately show ?case by (simp add: power_add)
qed simp

lemma ov_take: "n \<le> length xs \<Longrightarrow> ov (take n xs) = ov xs mod 2 ^ (8 * n)"
  using ov_append [of "take n xs" "drop n xs"] ov_less [of "take n xs"] by simp

lemma ov_octets_of: "ov (octets_of n w) = unat w mod 2 ^ (8 * n)"
proof (induction n arbitrary: w)
  case 0
  then show ?case by (simp add: octets_of_def)
next
  case (Suc n)
  have "unat (ucast w :: octet) = unat w mod 2 ^ 8" by (simp add: unsigned_ucast_eq take_bit_eq_mod)
  moreover have "unat (drop_bit 8 w) = unat w div 2 ^ 8" by (rule unat_shift_limb(2))
  moreover have "unat w mod (2 ^ 8 * 2 ^ (8 * n)) = 2 ^ 8 * (unat w div 2 ^ 8 mod 2 ^ (8 * n)) + unat w mod 2 ^ 8" by (rule mod_mult2_eq)
  moreover have "(2 :: nat) ^ (8 * Suc n) = 2 ^ 8 * 2 ^ (8 * n)" by (simp add: power_add)
  ultimately show ?case using Suc [of "drop_bit 8 w"] by (simp add: octets_of_Suc)
qed

lemma ov_concat: "ov (concat (map (octets_of 8) a)) = mpv a"
proof (induction a)
  case (Cons x a)
  have "unat x mod B64 = unat x" using unat_limb by (rule mod_less)
  then have "ov (octets_of 8 x) = unat x" using ov_octets_of [of 8 x] by simp
  then show ?case using Cons by (simp add: ov_append)
qed simp

lemma unat_word_of_octets: "length bs \<le> 8 \<Longrightarrow> unat (word_of_octets bs) = ov bs"
proof (induction bs)
  case (Cons b bs)
  have ih: "unat (word_of_octets bs) = ov bs" using Cons by simp
  have len: "LENGTH(64) = 64" by simp
  have "ov bs < 2 ^ (8 * length bs)" by (rule ov_less)
  also have "\<dots> \<le> 2 ^ 56" using Cons.prems by (intro power_increasing) simp_all
  finally have lt: "ov bs < 2 ^ 56" .
  have p: "unat (push_bit 8 (word_of_octets bs)) = 256 * ov bs" unfolding unat_shift_limb(1) ih using lt by simp
  have u: "unat (ucast b :: word64) = unat b" by (simp add: unsigned_ucast_eq take_bit_nat_eq_self unsigned_less [THEN less_le_trans])
  have "(ucast b :: word64) AND push_bit 8 (word_of_octets bs) = 0"
    by (rule bit_word_eqI) (auto simp: bit_simps dest: bit_imp_le_length)
  then have "(ucast b :: word64) OR push_bit 8 (word_of_octets bs) = ucast b + push_bit 8 (word_of_octets bs)" by (simp only: disjunctive_add_eq_or)
  moreover have "unat b < 256" using unsigned_less [of b] by simp
  ultimately show ?case using lt by (simp add: unat_plus u p)
qed simp

lemma mpv_limbs_of_octets: "length bs \<le> 8 * w \<Longrightarrow> mpv (limbs_of_octets w bs) = ov bs"
proof (induction w arbitrary: bs)
  case 0
  then show ?case by (simp add: limbs_of_octets_def)
next
  case (Suc w)
  have "[0..<Suc w] = 0 # map Suc [0..<w]" by (simp add: map_Suc_upt upt_conv_Cons del: upt_Suc)
  then have e: "limbs_of_octets (Suc w) bs = word_of_octets (take 8 bs) # limbs_of_octets w (drop 8 bs)"
    by (simp add: limbs_of_octets_def comp_def add.commute del: upt_Suc)
  have ih: "mpv (limbs_of_octets w (drop 8 bs)) = ov (drop 8 bs)" using Suc.IH [of "drop 8 bs"] Suc.prems by simp
  have "ov bs = ov (take 8 bs) + B64 * ov (drop 8 bs)"
  proof (cases "8 \<le> length bs")
    case True
    then show ?thesis using ov_append [of "take 8 bs" "drop 8 bs"] by simp
  qed simp
  then show ?case using ih unat_word_of_octets [of "take 8 bs"] unfolding e by simp
qed

lemma length_concat_octets: "length (concat (map (octets_of 8) a)) = 8 * length a"
  by (induction a) simp_all

lemma octets_of_limbs_back:
  assumes "0 < K" "z2_ok K a"
  shows "length (octets_of_limbs (N_BYTES K) a) = N_BYTES K" "limbs_of_octets (N_WORDS K) (octets_of_limbs (N_BYTES K) a) = a"
proof -
  note w = N_WORDS_bounds [OF assms(1)]
  have a: "length a = N_WORDS K" "mpv a < 2 ^ K" using assms(2) by (simp_all add: z2_ok_def)
  show l: "length (octets_of_limbs (N_BYTES K) a) = N_BYTES K" using w(4) a(1) by (simp add: octets_of_limbs_def length_concat_octets)
  have "(2 :: nat) ^ K \<le> 2 ^ (8 * N_BYTES K)" using w(5) by (intro power_increasing) simp_all
  then have "mpv a < 2 ^ (8 * N_BYTES K)" using a(2) by linarith
  then have "ov (octets_of_limbs (N_BYTES K) a) = mpv a"
    unfolding octets_of_limbs_def using w(4) a(1) by (simp add: ov_take length_concat_octets ov_concat)
  then have "mpv (limbs_of_octets (N_WORDS K) (octets_of_limbs (N_BYTES K) a)) = mpv a"
    using mpv_limbs_of_octets [of "octets_of_limbs (N_BYTES K) a" "N_WORDS K"] l w(4) by simp
  then show "limbs_of_octets (N_WORDS K) (octets_of_limbs (N_BYTES K) a) = a"
    by (rule mpv_inject [rotated]) (simp add: limbs_of_octets_def a(1))
qed

lemma z2_randomize_ok: "0 < K \<Longrightarrow> z2_ok K (fst (z2_randomize K E G))"
  using z2_normalize_value(3) [of K] by (auto simp: z2_randomize_def limbs_of_octets_def split: prod.split)

subsection \<open>The type\<close>

typedef (overloaded) 'k z2n = "{a. z2_ok LENGTH('k::len) a}"
  morphisms limbs_of_z2n z2n_of_limbs
proof
  show "z2_zero LENGTH('k) \<in> {a. z2_ok LENGTH('k::len) a}" by (simp add: z2_ok_def z2_zero_value)
qed

setup_lifting type_definition_z2n

lift_definition zval :: "'k::len z2n \<Rightarrow> int" is "\<lambda>a. int (mpv a)" .

lemma zval_inject: "(zval a = zval b) = (a = b)"
  by transfer (auto simp: z2_ok_def intro: mpv_inject)

lemma zval_nonneg: "0 \<le> zval a"
  by transfer simp

lemma zval_less: "zval (a :: 'k::len z2n) < 2 ^ LENGTH('k)"
  by transfer (simp add: z2_ok_def)

lemma zval_mod [simp]: "zval (a :: 'k::len z2n) mod 2 ^ LENGTH('k) = zval a"
  using zval_nonneg zval_less by (intro mod_pos_pos_trivial)

lemma z2_mul_same: "0 < K \<Longrightarrow> z2_ok K x \<Longrightarrow> z2_ok K y \<Longrightarrow> \<exists>r. z2_mul K K K x y = Inr r \<and> z2_ok K r \<and> mpv r = mpv x * mpv y mod 2 ^ K"
  using z2_mul_value [of K x K y K] N_WORDS_bounds(2) [of K] by (simp add: z2_ok_def)

instantiation z2n :: (len) comm_ring_1
begin

lift_definition zero_z2n :: "'a z2n" is "z2_zero LENGTH('a)"
  by (simp add: z2_ok_def z2_zero_value)

lift_definition one_z2n :: "'a z2n" is "z2_of_int LENGTH('a) 1"
  by (simp add: z2_one_value)

lift_definition plus_z2n :: "'a z2n \<Rightarrow> 'a z2n \<Rightarrow> 'a z2n" is "z2_add LENGTH('a)"
  using z2_add_value by (auto simp: z2_ok_def)

lift_definition minus_z2n :: "'a z2n \<Rightarrow> 'a z2n \<Rightarrow> 'a z2n" is "z2_sub LENGTH('a)"
  using z2_sub_value by (auto simp: z2_ok_def)

lift_definition uminus_z2n :: "'a z2n \<Rightarrow> 'a z2n" is "sz2_negate LENGTH('a)"
  unfolding sz2_negate_def using z2_sub_value z2_zero_value(1) by (auto simp: z2_ok_def)

lift_definition times_z2n :: "'a z2n \<Rightarrow> 'a z2n \<Rightarrow> 'a z2n"
  is "\<lambda>x y. case z2_mul LENGTH('a) LENGTH('a) LENGTH('a) x y of Inr r \<Rightarrow> r | Inl _ \<Rightarrow> z2_zero LENGTH('a)"
  using z2_mul_same [of "LENGTH('a)"] by fastforce

lemma zval_simps:
  "zval (0 :: 'a z2n) = 0" "zval (1 :: 'a z2n) = 1"
  "zval (a + b) = (zval a + zval (b :: 'a z2n)) mod 2 ^ LENGTH('a)"
  "zval (a - b) = (zval a - zval b) mod 2 ^ LENGTH('a)"
  "zval (- a) = (- zval a) mod 2 ^ LENGTH('a)"
  "zval (a * b) = (zval a * zval b) mod 2 ^ LENGTH('a)"
proof -
  show "zval (0 :: 'a z2n) = 0" by transfer (simp add: z2_zero_value)
  show "zval (1 :: 'a z2n) = 1" by transfer (simp add: z2_one_value)
  show "zval (a + b) = (zval a + zval b) mod 2 ^ LENGTH('a)" by transfer (simp add: z2_ok_def z2_add_value zmod_int)
  show "zval (a - b) = (zval a - zval b) mod 2 ^ LENGTH('a)" by transfer (simp add: z2_ok_def z2_sub_value)
  show "zval (- a) = (- zval a) mod 2 ^ LENGTH('a)" by transfer (simp add: sz2_negate_def z2_ok_def z2_sub_value z2_zero_value)
  show "zval (a * b) = (zval a * zval b) mod 2 ^ LENGTH('a)"
  proof transfer
    fix x y assume "z2_ok LENGTH('a) x" "z2_ok LENGTH('a) y"
    from z2_mul_same [OF _ this] show "int (mpv (case z2_mul LENGTH('a) LENGTH('a) LENGTH('a) x y of Inr r \<Rightarrow> r | Inl _ \<Rightarrow> z2_zero LENGTH('a))) =
        (int (mpv x) * int (mpv y)) mod 2 ^ LENGTH('a)" by (auto simp: zmod_int)
  qed
qed

instance
  by standard (simp_all add: zval_inject [symmetric] zval_simps mod_simps algebra_simps)

end

lemma zval_of_int: "zval (of_int n :: 'k::len z2n) = n mod 2 ^ LENGTH('k)"
proof -
  have nat: "zval (of_nat m :: 'k z2n) = int m mod 2 ^ LENGTH('k)" for m
    by (induction m) (simp_all add: zval_simps mod_simps)
  show ?thesis by (cases n rule: int_diff_cases) (simp add: zval_simps nat mod_simps)
qed

lemma zval_numeral: "zval (numeral n :: 'k::len z2n) = numeral n mod 2 ^ LENGTH('k)"
  using zval_of_int [of "numeral n", where 'k = 'k] by simp

subsection \<open>The contract of the protocols\<close>

lift_definition z2n_randomize :: "cipher \<Rightarrow> prng \<Rightarrow> 'k::len z2n \<times> prng" is "z2_randomize LENGTH('k)"
  by (simp add: pred_prod_beta z2_randomize_ok)

definition z2n_pack :: "'k::len z2n \<Rightarrow> octetStream \<Rightarrow> octetStream res" where
  "z2n_pack a os = z2_pack LENGTH('k) (limbs_of_z2n a) os"

text \<open>No packed number has bits above the width; octets that have them are outside the model.\<close>

definition z2n_unpack :: "octetStream \<Rightarrow> ('k::len z2n \<times> octetStream) res" where
  "z2n_unpack os =
     bindE (z2_unpack LENGTH('k) os) (\<lambda>(a, os').
     bindE (guardE (z2_ok LENGTH('k) a) (Undefined_Behaviour ''Z2 that is not normal'')) (\<lambda>_. Inr (z2n_of_limbs a, os')))"

lift_definition z2n_shl :: "'k::len z2n \<Rightarrow> nat \<Rightarrow> 'k z2n" is "z2_shl LENGTH('k)"
  using z2_shl_value by (auto simp: z2_ok_def)

lift_definition z2n_shr :: "'k::len z2n \<Rightarrow> nat \<Rightarrow> 'k z2n" is "z2_shr LENGTH('k)"
  using z2_shr_value by (auto simp: z2_ok_def intro: le_less_trans div_le_dividend)

lemma zval_shift:
  "zval (z2n_shl a i) = (zval a * 2 ^ i) mod 2 ^ LENGTH('k)" "zval (z2n_shr a i) = zval (a :: 'k::len z2n) div 2 ^ i"
  by (transfer, simp add: z2_ok_def z2_shl_value zmod_int) (transfer, simp add: z2_ok_def z2_shr_value zdiv_int)

definition z2n_ops :: "'k::len z2n value_ops" where
  "z2n_ops = \<lparr>v_add = (+), v_sub = (-), v_mul = (*), v_zero = 0, v_rand = (\<lambda>E G n. z2n_randomize E G),
     v_pack = (\<lambda>n. z2n_pack), v_unpack = (\<lambda>n. z2n_unpack), v_size = N_BYTES LENGTH('k)\<rparr>"

definition z2n_enc :: "'k::len z2n \<Rightarrow> octet list" where
  "z2n_enc a = octets_of_limbs (N_BYTES LENGTH('k)) (limbs_of_z2n a)"

lemma limbs_of_z2n_ok: "z2_ok LENGTH('k) (limbs_of_z2n (a :: 'k::len z2n))"
  using limbs_of_z2n by blast

lemma length_z2n_enc: "length (z2n_enc (a :: 'k::len z2n)) = N_BYTES LENGTH('k)"
  by (simp add: z2n_enc_def octets_of_limbs_back [OF len_gt_0 limbs_of_z2n_ok])

lemma z2n_codec:
  fixes a :: "'k::len z2n"
  assumes "os_inv s"
  shows "\<exists>s'. z2n_pack a s = Inr s' \<and> extends (z2n_enc a) s s'"
    "unread s = z2n_enc a @ r \<Longrightarrow> \<exists>s'. z2n_unpack s = Inr (a, s') \<and> os_inv s' \<and> unread s' = r \<and> contents s' = contents s"
proof -
  note b = octets_of_limbs_back [OF len_gt_0 limbs_of_z2n_ok [of a]]
  show "\<exists>s'. z2n_pack a s = Inr s' \<and> extends (z2n_enc a) s s'"
    using append_extends [OF assms] by (simp add: z2n_pack_def z2_pack_def z2n_enc_def)
  assume u: "unread s = z2n_enc a @ r"
  show "\<exists>s'. z2n_unpack s = Inr (a, s') \<and> os_inv s' \<and> unread s' = r \<and> contents s' = contents s"
    using consume_unread [OF assms u] limbs_of_z2n_ok [of a] unfolding length_z2n_enc
    by (auto simp: z2n_unpack_def z2_unpack_def z2n_enc_def b(2) limbs_of_z2n_inverse)
qed

interpretation z2t: value_type "z2n_ops :: 'k::len z2n value_ops" "\<lambda>_. True" "\<lambda>_ _. True" "\<lambda>_. z2n_enc"
  by unfold_locales (auto simp: z2n_ops_def algebra_simps z2n_codec length_z2n_enc)

end
