(* ===== verification/SemiOpen.thy ===== *)
theory SemiOpen
  imports Z2kType
begin

text \<open>
  Two parties of three: \<^verbatim>\<open>OffsetPlayer\<close> (\<^verbatim>\<open>Networking/Player.h\<close>), the direct opening of additive
  shares (\<^verbatim>\<open>Protocols/SemiMC.hpp\<close>, \<^verbatim>\<open>Protocols/MAC_Check.hpp\<close>, \<^verbatim>\<open>Protocols/SemiShare.h\<close>) over
  \<^verbatim>\<open>SignedZ2<K>\<close>, and an exchange in place.
\<close>

unbundle bit_operations_syntax

subsection \<open>Players\<close>

definition other_player_num :: "nat \<Rightarrow> int \<Rightarrow> nat" where
  "other_player_num me offset = get_player 3 me offset"

definition offset_my_num :: "nat \<Rightarrow> int \<Rightarrow> nat" where
  "offset_my_num me offset = of_bool (get_player 3 me offset < me)"

text \<open>The offsets with which parties 0 and 1 address each other.\<close>

definition pair_offset :: "nat \<Rightarrow> int" where "pair_offset me = 1 - 2 * int me"

lemma pair_offset_simps [simp]:
  "other_player_num 0 (pair_offset 0) = 1" "other_player_num 1 (pair_offset 1) = 0" "other_player_num (Suc 0) (pair_offset (Suc 0)) = 0"
  "offset_my_num 0 (pair_offset 0) = 0" "offset_my_num 1 (pair_offset 1) = 1" "offset_my_num (Suc 0) (pair_offset (Suc 0)) = 1"
  using get_player_3 by (simp_all add: other_player_num_def offset_my_num_def pair_offset_def)

text \<open>Each of the two parties sends its stream 0 and receives into its stream \<open>kr\<close>.\<close>

definition pair_net :: "nat \<Rightarrow> (nat \<Rightarrow> octetStream list) \<Rightarrow> net" where
  "pair_net kr st =
     \<lparr>todo = (\<lambda>i. if i < 2 then [SendTo (other_player_num i (pair_offset i)) 0, ReceiveFrom (other_player_num i (pair_offset i)) kr] else []),
      streams = st, chan = (\<lambda>_ _. [])\<rparr>"

definition pair_schedule :: "nat list" where "pair_schedule = [0, 1, 0, 1]"

definition two :: "'a \<Rightarrow> 'a \<Rightarrow> nat \<Rightarrow> 'a" where "two a b i = (if i = 0 then a else b)"

lemma two_simps [simp]: "two a b 0 = a" "two a b 1 = b" "two a b (Suc 0) = b"
  by (simp_all add: two_def)

lemma all_lt_2: "(\<forall>i < 2. P i) \<longleftrightarrow> P 0 \<and> P (1 :: nat)"
  by (auto simp: less_2_cases_iff)

text \<open>One operation of parties 0 and 1.\<close>

definition pairE :: "(nat \<Rightarrow> 'a res) \<Rightarrow> (nat \<Rightarrow> 'a) res" where
  "pairE f = bindE (f 0) (\<lambda>a. bindE (f 1) (\<lambda>b. Inr (two a b)))"

lemma pairE_Inr:
  assumes "\<And>p. p < 2 \<Longrightarrow> \<exists>a. f p = Inr a \<and> P p a"
  shows "\<exists>g. pairE f = Inr g \<and> (\<forall>p < 2. P p (g p))"
proof -
  obtain a b where "f 0 = Inr a" "P 0 a" "f 1 = Inr b" "P 1 b" using assms [of 0] assms [of 1] by auto
  then show ?thesis by (intro exI [of _ "two a b"]) (simp add: pairE_def all_lt_2)
qed

lemma pair_run:
  assumes "\<And>p. p < 2 \<Longrightarrow> st p = s p # ss p \<and> kr < length (st p) \<and> small (s p)"
  shows "\<exists>c r. run_schedule pair_schedule (pair_net kr st) = Some c \<and> finished c \<and>
    (\<forall>p < 2. streams c p = (st p)[kr := r p] \<and> holds (r p) (contents (s (1 - p))))"
proof -
  have a: "st 0 = s 0 # ss 0" "st 1 = s 1 # ss 1" "kr < length (st 0)" "kr < length (st 1)" "small (s 0)" "small (s 1)"
    using assms [of 0] assms [of 1] by auto
  obtain r0 where r0: "Receive (frame (s 1)) (reset_write_head (st 0 ! kr)) = Inr (r0, [])" "holds r0 (contents (s 1))"
    using Receive_small [OF a(6)] by blast
  obtain r1 where r1: "Receive (frame (s 0)) (reset_write_head (st 1 ! kr)) = Inr (r1, [])" "holds r1 (contents (s 0))"
    using Receive_small [OF a(5)] by blast
  show ?thesis
    using a r0 r1
    by (intro exI [of _ "two r0 r1"] exI conjI [OF _ conjI])
       (auto simp: pair_schedule_def pair_net_def comm_do_def Send_small finished_def less_2_cases_iff)
qed

subsection \<open>Opening\<close>

lift_definition z2n_assign :: "octet list \<Rightarrow> 'k::len z2n" is "\<lambda>bs. z2_normalize LENGTH('k) (limbs_of_octets (N_WORDS LENGTH('k)) bs)"
  using z2_normalize_value(3) by (simp add: limbs_of_octets_def)

definition z2n_add_stream :: "'k::len z2n \<Rightarrow> octetStream \<Rightarrow> ('k z2n \<times> octetStream) res" where
  "z2n_add_stream a os = bindE (consume (N_BYTES LENGTH('k)) os) (\<lambda>(bs, os'). Inr (a + z2n_assign bs, os'))"

definition semi_constant :: "'k::len z2n \<Rightarrow> nat \<Rightarrow> 'k z2n" where
  "semi_constant a me = (if me = 0 then a else 0)"

definition semi_pack_values :: "'k::len z2n list \<Rightarrow> octetStream res" where
  "semi_pack_values vs = foldE z2n_pack vs (reserve (length vs) empty_stream)"

fun direct_add_openings :: "'k::len z2n list \<Rightarrow> octetStream \<Rightarrow> ('k z2n list \<times> octetStream) res" where
  "direct_add_openings [] os = Inr ([], os)"
| "direct_add_openings (v # vs) os =
     bindE (z2n_add_stream v os) (\<lambda>(w, os1). bindE (direct_add_openings vs os1) (\<lambda>(ws, os2). Inr (w # ws, os2)))"

text \<open>\<^verbatim>\<open>DirectSemiMC::POpen_\<close> of both parties; the streams of \<^verbatim>\<open>Broadcast_Receive\<close> are the one sent and the one received.\<close>

definition semi_popen :: "(nat \<Rightarrow> 'k::len z2n list) \<Rightarrow> (nat \<Rightarrow> 'k z2n list) res" where
  "semi_popen vs =
     bindE (pairE (\<lambda>p. semi_pack_values (vs p))) (\<lambda>os.
     case run_schedule pair_schedule (pair_net 1 (\<lambda>p. [os p, empty_stream])) of
       None \<Rightarrow> Inl (Runtime_Error ''exchange blocked'')
     | Some c \<Rightarrow> pairE (\<lambda>p. bindE (direct_add_openings (vs p) (streams c p ! 1)) (\<lambda>(ws, os'). Inr ws)))"

interpretation z2_codec: codec z2n_pack z2n_unpack "z2n_enc :: 'k::len z2n \<Rightarrow> octet list" "\<lambda>_. True"
  by unfold_locales (auto simp: z2n_codec)

lemma length_z2_list: "length (z2_codec.enc_list (vs :: 'k::len z2n list)) = N_BYTES LENGTH('k) * length vs"
  by (induction vs) (simp_all add: length_z2n_enc)

lemma z2n_assign_enc: "z2n_assign (z2n_enc a) = (a :: 'k::len z2n)"
proof -
  have ok: "z2_ok LENGTH('k) (limbs_of_z2n a)" by (rule limbs_of_z2n_ok)
  note b = octets_of_limbs_back [OF len_gt_0 ok]
  have l: "length (limbs_of_z2n a) = N_WORDS LENGTH('k)" "mpv (limbs_of_z2n a) < 2 ^ LENGTH('k)" using ok by (simp_all add: z2_ok_def)
  have "z2_normalize LENGTH('k) (limbs_of_z2n a) = limbs_of_z2n a"
    by (rule mpv_inject) (use z2_normalize_value [OF len_gt_0 l(1)] l in simp_all)
  then show ?thesis by (simp add: z2n_assign_def z2n_enc_def b(2) limbs_of_z2n_inverse)
qed

lemma z2n_add_stream_ok:
  fixes a :: "'k::len z2n"
  assumes "os_inv s" "unread s = z2n_enc b @ r"
  shows "\<exists>s'. z2n_add_stream a s = Inr (a + b, s') \<and> os_inv s' \<and> unread s' = r"
  using consume_unread [OF assms] unfolding length_z2n_enc by (auto simp: z2n_add_stream_def z2n_assign_enc)

lemma direct_add_openings_ok:
  "os_inv s \<Longrightarrow> length ws = length vs \<Longrightarrow> unread s = z2_codec.enc_list ws \<Longrightarrow> \<exists>s'. direct_add_openings vs s = Inr (map2 (+) vs ws, s')"
proof (induction vs arbitrary: ws s)
  case (Cons v vs)
  then obtain w us where ws: "ws = w # us" by (cases ws) auto
  obtain s1 where "z2n_add_stream v s = Inr (v + w, s1)" "os_inv s1" "unread s1 = z2_codec.enc_list us"
    using z2n_add_stream_ok [OF Cons.prems(1), of w "z2_codec.enc_list us" v] Cons.prems(3) ws by auto
  with Cons.IH [of s1 us] Cons.prems(2) ws show ?case by auto
qed simp

text \<open>The encoding of a list of numbers, packed after what a stream holds.\<close>

lemma pack_list: "os_inv s \<Longrightarrow> \<exists>s'. foldE z2n_pack vs s = Inr s' \<and> extends (z2_codec.enc_list vs) s s'"
  using z2_codec.put_list by blast

lemma semi_popen_sum:
  fixes vs :: "nat \<Rightarrow> 'k::len z2n list"
  assumes "length (vs 0) = n" "length (vs 1) = n" "N_BYTES LENGTH('k) * n < 2 ^ 32"
  shows "\<exists>g. semi_popen vs = Inr g \<and> (\<forall>p < 2. g p = map2 (+) (vs 0) (vs 1))"
proof -
  have l: "length (vs p) = n" if "p < 2" for p using assms that by (auto simp: less_2_cases_iff)
  have "\<exists>o1. semi_pack_values (vs p) = Inr o1 \<and> small o1 \<and> contents o1 = z2_codec.enc_list (vs p)" if "p < 2" for p
  proof -
    have r: "os_inv (reserve (length (vs p)) empty_stream)" "contents (reserve (length (vs p)) empty_stream) = []"
      using reserve_props [of empty_stream "length (vs p)"] by simp_all
    from pack_list [OF this(1), of "vs p"] obtain o1 where
      o1: "semi_pack_values (vs p) = Inr o1" "extends (z2_codec.enc_list (vs p)) (reserve (length (vs p)) empty_stream) o1"
      unfolding semi_pack_values_def by blast
    then have "os_inv o1" "contents o1 = z2_codec.enc_list (vs p)" using r(2) by (simp_all add: extends_def)
    then show ?thesis using o1(1) length_contents [of o1] length_z2_list [of "vs p"] l [OF that] assms(3) by (auto simp: small_def)
  qed
  from pairE_Inr [of "\<lambda>p. semi_pack_values (vs p)", OF this] obtain os where
    os: "pairE (\<lambda>p. semi_pack_values (vs p)) = Inr os" "\<And>p. p < 2 \<Longrightarrow> small (os p) \<and> contents (os p) = z2_codec.enc_list (vs p)" by blast
  have sm: "[os p, empty_stream] = os p # [empty_stream] \<and> 1 < length [os p, empty_stream] \<and> small (os p)" if "p < 2" for p
    using os(2) [OF that] by simp
  from pair_run [of "\<lambda>p. [os p, empty_stream]" os "\<lambda>_. [empty_stream]" 1, OF sm] obtain c r where
    c0: "run_schedule pair_schedule (pair_net 1 (\<lambda>p. [os p, empty_stream])) = Some c"
    "\<forall>p < 2. streams c p = [os p, empty_stream][1 := r p] \<and> holds (r p) (contents (os (1 - p)))" by blast
  then have c: "run_schedule pair_schedule (pair_net 1 (\<lambda>p. [os p, empty_stream])) = Some c"
    "\<And>p. p < 2 \<Longrightarrow> streams c p ! 1 = r p \<and> holds (r p) (contents (os (1 - p)))" by auto
  have "\<exists>ws. bindE (direct_add_openings (vs p) (streams c p ! 1)) (\<lambda>(ws, os'). Inr ws) = Inr ws \<and> ws = map2 (+) (vs 0) (vs 1)" if p: "p < 2" for p
  proof -
    have q: "1 - p < 2" by simp
    have "os_inv (r p)" "unread (r p) = z2_codec.enc_list (vs (1 - p))" using c(2) [OF p] os(2) [OF q] by (simp_all add: holds_def)
    moreover have "length (vs (1 - p)) = length (vs p)" using l [OF p] l [OF q] by simp
    ultimately obtain s' where s': "direct_add_openings (vs p) (streams c p ! 1) = Inr (map2 (+) (vs p) (vs (1 - p)), s')"
      using direct_add_openings_ok [of "r p" "vs (1 - p)" "vs p"] c(2) [OF p] by auto
    have "map2 (+) (vs p) (vs (1 - p)) = map2 (+) (vs 0) (vs 1)"
      using p assms by (auto simp: less_2_cases_iff intro!: nth_equalityI)
    with s' show ?thesis by simp
  qed
  from pairE_Inr [of "\<lambda>p. bindE (direct_add_openings (vs p) (streams c p ! 1)) (\<lambda>(ws, os'). Inr ws)" "\<lambda>_ ws. ws = map2 (+) (vs 0) (vs 1)", OF this]
  obtain g where "pairE (\<lambda>p. bindE (direct_add_openings (vs p) (streams c p ! 1)) (\<lambda>(ws, os'). Inr ws)) = Inr g"
    "\<forall>p < 2. g p = map2 (+) (vs 0) (vs 1)" by blast
  then show ?thesis using os(1) c(1) by (simp add: semi_popen_def)
qed

end
