(* ===== verification/TruncPr.thy ===== *)
theory TruncPr
  imports SemiOpen
begin

text \<open>
  \<^verbatim>\<open>trunc_pr\<close> of \<^verbatim>\<open>Protocols/Replicated.hpp\<close>: probabilistic truncation over \<^verbatim>\<open>Rep3Share2<K>\<close>.
  Party 2 deals a random mask with the parts that are needed of it, parties 0 and 1 open the
  masked value between them and compute the shares of the result, of which party 2 holds two
  random summands. The register file of each party is a list of shares.
\<close>

unbundle bit_operations_syntax

type_synonym 'k regs = "'k z2n fixedvec list"

subsection \<open>Arguments and registers\<close>

text \<open>The arguments come in groups of four: result, operand, \<open>k\<close> and \<open>m\<close>.\<close>

fun reg_groups :: "int list \<Rightarrow> (int \<times> int \<times> int \<times> int) list" where
  "reg_groups (d # s # k # m # regs) = (d, s, k, m) # reg_groups regs"
| "reg_groups regs = []"

definition get_S_ref :: "'a list \<Rightarrow> int \<Rightarrow> 'a res" where
  "get_S_ref S i = (if i < 0 then Inl (Undefined_Behaviour ''vector index'') else nthE S (nat i))"

definition set_S_ref :: "'a list \<Rightarrow> int \<Rightarrow> 'a \<Rightarrow> 'a list res" where
  "set_S_ref S i x = (if i < 0 then Inl (Undefined_Behaviour ''vector index'') else updE S (nat i) x)"

text \<open>
  The assertions, and the amounts of the three shifts. Shifts by negative amounts, which \<open>k \<ge> K\<close>
  would give, are outside the model.
\<close>

definition trunc_shifts :: "nat \<Rightarrow> int \<Rightarrow> int \<Rightarrow> (nat \<times> nat \<times> nat) res" where
  "trunc_shifts K k m =
     bindE (guardE (m < k) (Assertion ''m < k'')) (\<lambda>_.
     bindE (guardE (0 < k) (Assertion ''0 < k'')) (\<lambda>_.
     bindE (guardE (m < int K) (Assertion ''m < value_type::N_BITS'')) (\<lambda>_.
     let n_shift = int K - 1 - k
     in bindE (guardE (0 \<le> n_shift \<and> 0 \<le> n_shift + m + 1) (Undefined_Behaviour ''negative shift'')) (\<lambda>_.
        Inr (nat n_shift, nat (n_shift + m + 1), nat (k - m))))))"

text \<open>The loops over groups and over the positions of a vector, with and without the assertions.\<close>

definition shift_loop :: "nat \<Rightarrow> nat \<Rightarrow> (int \<Rightarrow> nat \<times> nat \<times> nat \<Rightarrow> 's \<Rightarrow> 's res) \<Rightarrow> (int \<times> int \<times> int \<times> int) list \<Rightarrow> 's \<Rightarrow> 's res" where
  "shift_loop K sz f = foldE (\<lambda>(d, s, k, m) st. bindE (trunc_shifts K k m) (\<lambda>sh. foldE (\<lambda>l. f (d + int l) sh) [0..<sz] st))"

definition reg_loop :: "nat \<Rightarrow> (int \<Rightarrow> int \<Rightarrow> 's \<Rightarrow> 's res) \<Rightarrow> (int \<times> int \<times> int \<times> int) list \<Rightarrow> 's \<Rightarrow> 's res" where
  "reg_loop sz f = foldE (\<lambda>(d, s, k, m). foldE (\<lambda>l. f (d + int l) (s + int l)) [0..<sz])"

subsection \<open>Party 2\<close>

definition share_to_sum :: "cipher \<Rightarrow> 'k::len z2n \<Rightarrow> prng \<Rightarrow> 'k z2n fixedvec \<times> prng" where
  "share_to_sum E = fv_randomize_to_sum (+) (-) 0 (z2n_randomize E) 2"

definition trunc_generate ::
  "cipher \<Rightarrow> int \<Rightarrow> nat \<times> nat \<times> nat \<Rightarrow> 'k::len regs \<times> prng \<times> octetStream \<times> octetStream \<Rightarrow> ('k regs \<times> prng \<times> octetStream \<times> octetStream) res" where
  "trunc_generate E d = (\<lambda>(n_shift, drop_shift, up_shift) (S, G, o0, o1).
     bindE (get_S_ref S d) (\<lambda>_.
     let (mask, G1) = z2n_randomize E G;
         unmask = z2n_shr (z2n_shl mask (n_shift + 1)) drop_shift;
         (s0, G2) = share_to_sum E mask G1;
         (s1, G3) = share_to_sum E unmask G2;
         (s2, G4) = share_to_sum E (z2n_shr (z2n_shl mask n_shift) (LENGTH('k) - 1)) G3;
         (res, G5) = fv_randomize (z2n_randomize E) 2 G4;
         shares = [s0, s1, s2, res]
     in bindE (set_S_ref S d res) (\<lambda>S'.
        bindE (foldE (\<lambda>x. z2n_pack (x ! 0)) shares o0) (\<lambda>o0'.
        bindE (foldE (\<lambda>x. z2n_pack (x ! 1)) shares o1) (\<lambda>o1'.
        Inr (S', G5, o0', o1'))))))"

subsection \<open>Parties 0 and 1\<close>

record 'a trunc_state =
  tr_S :: "'a fixedvec list"
  tr_os :: octetStream
  tr_open :: "'a list"
  tr_masks :: "'a pointer_vector"
  tr_unmasks :: "'a pointer_vector"
  tr_bits :: "'a pointer_vector"

definition trunc_read :: "nat \<Rightarrow> int \<Rightarrow> int \<Rightarrow> 'k::len z2n trunc_state \<Rightarrow> 'k z2n trunc_state res" where
  "trunc_read me d s st =
     bindE (get_S_ref (tr_S st) s) (\<lambda>x.
     let share = (if me = 0 then fv_sum (+) x else x ! 0)
     in bindE (z2n_unpack (tr_os st)) (\<lambda>(a, os1).
        bindE (z2n_unpack os1) (\<lambda>(b, os2).
        bindE (z2n_unpack os2) (\<lambda>(c, os3).
        bindE (pv_next (pv_push a (tr_masks st))) (\<lambda>(r, masks).
        bindE (get_S_ref (tr_S st) d) (\<lambda>res.
        bindE (z2n_unpack os3) (\<lambda>(t, os4).
        bindE (set_S_ref (tr_S st) d (res[1 - me := t])) (\<lambda>S'.
        Inr \<lparr>tr_S = S', tr_os = os4, tr_open = tr_open st @ [share + r], tr_masks = masks,
             tr_unmasks = pv_push b (tr_unmasks st), tr_bits = pv_push c (tr_bits st)\<rparr>))))))))"

text \<open>The share of the result that one of the two parties computes from the opened value.\<close>

definition trunc_share :: "nat \<Rightarrow> nat \<times> nat \<times> nat \<Rightarrow> 'k::len z2n \<Rightarrow> 'k z2n \<Rightarrow> 'k z2n \<Rightarrow> 'k z2n" where
  "trunc_share me = (\<lambda>(n_shift, drop_shift, up_shift) opened unmask bit_mask.
     let masked = z2n_shl opened n_shift;
         shifted = z2n_shr (z2n_shl masked 1) drop_shift;
         diff = semi_constant shifted me - unmask;
         msb = z2n_shr masked (LENGTH('k) - 1);
         overflow = bit_mask + semi_constant msb me - bit_mask * msb * 2
     in diff + z2n_shl overflow up_shift)"

text \<open>State: registers, opened values, the two queues of masks that are left, and the stream.\<close>

definition trunc_compute :: "nat \<Rightarrow> nat \<Rightarrow> int \<Rightarrow> nat \<times> nat \<times> nat \<Rightarrow>
    'k::len regs \<times> 'k z2n pointer_vector \<times> 'k z2n pointer_vector \<times> 'k z2n pointer_vector \<times> octetStream \<Rightarrow>
    ('k regs \<times> 'k z2n pointer_vector \<times> 'k z2n pointer_vector \<times> 'k z2n pointer_vector \<times> octetStream) res" where
  "trunc_compute me offset_num d sh = (\<lambda>(S, opened, unmasks, bits, os).
     bindE (get_S_ref S d) (\<lambda>res.
     bindE (pv_next opened) (\<lambda>(x, opened').
     bindE (pv_next unmasks) (\<lambda>(u, unmasks').
     bindE (pv_next bits) (\<lambda>(c, bits').
     let res_share = trunc_share offset_num sh x u c;
         b = res_share - res ! (1 - me)
     in bindE (set_S_ref S d (res[me := b])) (\<lambda>S'.
        bindE (z2n_pack b os) (\<lambda>os'.
        Inr (S', opened', unmasks', bits', os'))))))))"

definition trunc_add :: "nat \<Rightarrow> int \<Rightarrow> 'k::len regs \<times> octetStream \<Rightarrow> ('k regs \<times> octetStream) res" where
  "trunc_add me d = (\<lambda>(S, os).
     bindE (get_S_ref S d) (\<lambda>res.
     bindE (z2n_unpack os) (\<lambda>(w, os').
     bindE (set_S_ref S d (res[me := res ! me + w])) (\<lambda>S'. Inr (S', os')))))"

subsection \<open>The protocol\<close>

definition deal_net :: "octetStream \<Rightarrow> octetStream \<Rightarrow> net" where
  "deal_net o0 o1 =
     \<lparr>todo = (\<lambda>i. if i = 2 then [SendTo 0 0, SendTo 1 1] else if i < 2 then [ReceiveFrom 2 0] else []),
      streams = three [empty_stream] [empty_stream] [o0, o1], chan = (\<lambda>_ _. [])\<rparr>"

definition deal_schedule :: "nat list" where "deal_schedule = [2, 2, 0, 1]"

text \<open>The registers of the three parties and the generator of party 2 before and after.\<close>

definition trunc_pr :: "cipher \<Rightarrow> int list \<Rightarrow> nat \<Rightarrow> (nat \<Rightarrow> 'k::len regs) \<Rightarrow> prng \<Rightarrow> ((nat \<Rightarrow> 'k regs) \<times> prng) res" where
  "trunc_pr E regs sz S G =
     bindE (guardE (length regs mod 4 = 0) (Assertion ''regs.size() % 4 == 0'')) (\<lambda>_.
     let args = reg_groups regs
     in bindE (shift_loop LENGTH('k) sz (trunc_generate E) args (S 2, G, empty_stream, empty_stream)) (\<lambda>(S2, G', o0, o1).
     case run_schedule deal_schedule (deal_net o0 o1) of
       None \<Rightarrow> Inl (Runtime_Error ''send blocked'')
     | Some c \<Rightarrow>
     bindE (pairE (\<lambda>p. reg_loop sz (trunc_read p) args \<lparr>tr_S = S p, tr_os = streams c p ! 0, tr_open = [],
         tr_masks = pv_of [], tr_unmasks = pv_of [], tr_bits = pv_of []\<rparr>)) (\<lambda>st.
     bindE (semi_popen (\<lambda>p. tr_open (st p))) (\<lambda>opened.
     bindE (pairE (\<lambda>p. shift_loop LENGTH('k) sz (trunc_compute p (offset_my_num p (pair_offset p))) args
         (tr_S (st p), pv_of (opened p), tr_unmasks (st p), tr_bits (st p), reset_write_head (tr_os (st p))))) (\<lambda>out.
     case run_schedule pair_schedule (pair_net 0 (\<lambda>p. [snd (snd (snd (snd (out p))))])) of
       None \<Rightarrow> Inl (Runtime_Error ''exchange blocked'')
     | Some c' \<Rightarrow>
     bindE (pairE (\<lambda>p. reg_loop sz (\<lambda>d s. trunc_add p d) args (fst (out p), streams c' p ! 0))) (\<lambda>fin.
     Inr (three (fst (fin 0)) (fst (fin 1)) S2, G')))))))"

end
