(* ===== verification/TruncProof.thy ===== *)
theory TruncProof
  imports TruncPr
begin

text \<open>
  Truncation is right up to one: from the arithmetic of the mask, through the loops of each party,
  to the whole protocol.
\<close>

unbundle bit_operations_syntax

subsection \<open>Arithmetic\<close>

lemma zval_pow2: "zval ((2 :: 'k::len z2n) ^ i) = 2 ^ i mod 2 ^ LENGTH('k)"
  using zval_of_int [of "2 ^ i", where 'k = 'k] by simp

lemma z2n_shl_mult: "z2n_shl a i = a * 2 ^ i"
  by (simp add: zval_inject [symmetric] zval_shift zval_simps zval_pow2 mod_simps)

lemma shl_shl: "z2n_shl (z2n_shl a i) j = z2n_shl a (i + j)"
  by (simp add: z2n_shl_mult power_add mult.assoc)

lemma mult_pow_mod: "n + k = K \<Longrightarrow> (w * 2 ^ n) mod 2 ^ K = 2 ^ n * (w mod 2 ^ k)" for w :: int
proof -
  assume "n + k = K"
  then have "(2 :: int) ^ K = 2 ^ n * 2 ^ k" by (metis power_add)
  then show ?thesis by (simp only: mult_mod_right mult.commute [of w])
qed

lemma zval_low: "n + k = LENGTH('k) \<Longrightarrow> zval (z2n_shr (z2n_shl (w :: 'k::len z2n) n) (n + m)) = (zval w mod 2 ^ k) div 2 ^ m"
proof -
  assume "n + k = LENGTH('k)"
  then have "zval (z2n_shl w n) = 2 ^ n * (zval w mod 2 ^ k)" unfolding zval_shift(1) by (rule mult_pow_mod)
  then show ?thesis unfolding zval_shift(2) power_add by simp
qed

lemma div_0_or_1: "0 < q \<Longrightarrow> 0 \<le> w \<Longrightarrow> w < 2 * q \<Longrightarrow> w div q = 0 \<or> w div q = 1" for w q :: int
proof (cases "w < q")
  case False
  assume q: "0 < q" "w < 2 * q"
  have "(w - q) div q = 0" using q False by (intro div_pos_pos_trivial) simp_all
  moreover have "w div q = (w - q) div q + 1" using q(1) div_add_self2 [of q "w - q"] by simp
  ultimately show ?thesis by simp
qed (simp add: div_pos_pos_trivial)

text \<open>Sum of the two shares that the parties compute.\<close>

lemma trunc_share_sum:
  "trunc_share 0 (n, dr, up) x u0 c0 + trunc_share (Suc 0) (n, dr, up) x u1 c1 =
    z2n_shr (z2n_shl x (n + 1)) dr - (u0 + u1) +
    z2n_shl ((c0 + c1) + z2n_shr (z2n_shl x n) (LENGTH('k) - 1) - 2 * (c0 + c1) * z2n_shr (z2n_shl x n) (LENGTH('k) - 1)) up"
  for x :: "'k::len z2n"
  unfolding trunc_share_def Let_def shl_shl prod.case semi_constant_def z2n_shl_mult
  by (simp add: algebra_simps)

lemma carry_of_mask:
  fixes x R :: int
  assumes "0 \<le> x" "x < 2 ^ k"
  defines "b \<equiv> (R mod 2 ^ Suc k) div 2 ^ k" and "s \<equiv> ((x + R) mod 2 ^ Suc k) div 2 ^ k" and "c \<equiv> (x + R mod 2 ^ k) div 2 ^ k"
  shows "b + s - 2 * b * s = c"
proof -
  have p: "(2 :: int) ^ Suc k = 2 ^ k * 2" by simp
  have half: "(w mod 2 ^ Suc k) div 2 ^ k = (w div 2 ^ k) mod 2" for w :: int
    unfolding p zmod_zmult2_eq [OF zero_le_numeral] by simp
  have "x + R = (x + R mod 2 ^ k) + 2 ^ k * (R div 2 ^ k)" by (simp only: add.assoc mod_mult_div_eq)
  then have "(x + R) div 2 ^ k = ((x + R mod 2 ^ k) + 2 ^ k * (R div 2 ^ k)) div 2 ^ k" by (rule arg_cong [of _ _ "\<lambda>t. t div 2 ^ k"])
  also have "\<dots> = R div 2 ^ k + c" unfolding c_def by (rule div_mult_self2) simp
  finally have "(x + R) div 2 ^ k = R div 2 ^ k + c" .
  then have s: "s = (b + c) mod 2" and b: "b = (R div 2 ^ k) mod 2" unfolding s_def b_def half by (simp_all add: mod_simps)
  have "0 \<le> R mod 2 ^ k" "R mod 2 ^ k < 2 ^ k" by simp_all
  then have "c = 0 \<or> c = 1" unfolding c_def using assms(1,2) by (intro div_0_or_1) (simp, linarith+)
  moreover have "b = 0 \<or> b = 1" using b by auto
  ultimately show ?thesis using s by auto
qed

lemma div_split: "m \<le> k \<Longrightarrow> w div 2 ^ m = (w div 2 ^ k) * 2 ^ (k - m) + (w mod 2 ^ k) div 2 ^ m" for w :: int
proof -
  assume "m \<le> k"
  then have e: "(2 :: int) ^ k = 2 ^ m * 2 ^ (k - m)" by (simp add: power_add [symmetric])
  have "w mod 2 ^ k + 2 ^ m * (2 ^ (k - m) * (w div 2 ^ k)) = w"
    by (simp only: mult.assoc [symmetric] e [symmetric] mod_mult_div_eq)
  then have "w div 2 ^ m = (w mod 2 ^ k + 2 ^ m * (2 ^ (k - m) * (w div 2 ^ k))) div 2 ^ m"
    by (rule arg_cong [OF sym, of _ _ "\<lambda>t. t div 2 ^ m"])
  also have "\<dots> = 2 ^ (k - m) * (w div 2 ^ k) + (w mod 2 ^ k) div 2 ^ m" by (rule div_mult_self2) simp
  finally show ?thesis by (simp only: mult.commute)
qed

lemma trunc_value:
  fixes v r :: "'k::len z2n"
  assumes "m < k" "k < LENGTH('k)" "zval v < 2 ^ k"
  defines "n \<equiv> LENGTH('k) - 1 - k"
  assumes "hibit = z2n_shr (z2n_shl r n) (LENGTH('k) - 1)" "unmask = z2n_shr (z2n_shl r (n + 1)) (n + m + 1)"
    "msb = z2n_shr (z2n_shl (v + r) n) (LENGTH('k) - 1)"
  shows "zval (z2n_shr (z2n_shl (v + r) (n + 1)) (n + m + 1) - unmask + z2n_shl (hibit + msb - 2 * hibit * msb) (k - m)) =
    (zval v + zval r mod 2 ^ k) div 2 ^ m - (zval r mod 2 ^ k) div 2 ^ m"
proof -
  let ?K = "LENGTH('k)" and ?x = "zval v" and ?R = "zval r"
  have n: "n + 1 + k = ?K" "n + Suc k = ?K" using assms(2) by (simp_all add: n_def)
  have lo: "zval (z2n_shr (z2n_shl w (n + 1)) (n + m + 1)) = (zval w mod 2 ^ k) div 2 ^ m" for w :: "'k z2n"
    using zval_low [OF n(1), of w m] by simp
  have hi: "zval (z2n_shr (z2n_shl w n) (?K - 1)) = (zval w mod 2 ^ Suc k) div 2 ^ k" for w :: "'k z2n"
    using zval_low [OF n(2), of w k] n(2) by (metis add_Suc_right diff_Suc_1)
  have vr: "zval (v + r) mod 2 ^ j = (?x + ?R) mod 2 ^ j" if "j \<le> ?K" for j
    using that by (simp add: zval_simps mod_mod_cancel le_imp_power_dvd)
  define c where "c = (?x + ?R mod 2 ^ k) div 2 ^ k"
  have "zval hibit + zval msb - 2 * zval hibit * zval msb = c"
    unfolding assms(5,7) hi c_def using carry_of_mask [OF zval_nonneg assms(3), of ?R] vr [of "Suc k"] assms(2) by simp
  define over where "over = hibit + msb - 2 * hibit * msb"
  have ov: "zval over = c mod 2 ^ ?K" unfolding over_def using \<open>_ = c\<close>
    by (simp add: zval_simps zval_numeral mod_simps)
  have lows: "(?x + ?R) mod 2 ^ k = (?x + ?R mod 2 ^ k) mod 2 ^ k" by (simp add: mod_simps)
  have t: "zval (z2n_shr (z2n_shl (v + r) (n + 1)) (n + m + 1)) = ((?x + ?R mod 2 ^ k) mod 2 ^ k) div 2 ^ m"
    "zval unmask = (?R mod 2 ^ k) div 2 ^ m"
    unfolding assms(6) lo using vr [of k] assms(2) lows by simp_all
  have r: "((a - u) mod M + (c mod M * P) mod M) mod M = (a - u + c * P) mod M" for a u M P :: int by (simp add: mod_simps)
  have "zval (z2n_shr (z2n_shl (v + r) (n + 1)) (n + m + 1) - unmask + z2n_shl over (k - m)) =
      (((?x + ?R mod 2 ^ k) mod 2 ^ k) div 2 ^ m - (?R mod 2 ^ k) div 2 ^ m + c * 2 ^ (k - m)) mod 2 ^ ?K"
    unfolding zval_simps(3,4) t zval_shift(1) ov by (rule r)
  also have "((?x + ?R mod 2 ^ k) mod 2 ^ k) div 2 ^ m - (?R mod 2 ^ k) div 2 ^ m + c * 2 ^ (k - m) =
      (?x + ?R mod 2 ^ k) div 2 ^ m - (?R mod 2 ^ k) div 2 ^ m"
    using div_split [of m k "?x + ?R mod 2 ^ k"] assms(1) by (simp add: c_def)
  also have "\<dots> mod 2 ^ ?K = \<dots>"
  proof (rule mod_pos_pos_trivial)
    have "(?R mod 2 ^ k) div 2 ^ m \<le> (?x + ?R mod 2 ^ k) div 2 ^ m" by (rule zdiv_mono1) (simp_all add: zval_nonneg)
    then show "0 \<le> (?x + ?R mod 2 ^ k) div 2 ^ m - (?R mod 2 ^ k) div 2 ^ m" by simp
    have "(?x + ?R mod 2 ^ k) div 2 ^ m \<le> ?x + ?R mod 2 ^ k" 
      using zdiv_mono2 [of "?x + ?R mod 2 ^ k" 1 "2 ^ m"] by (simp add: zval_nonneg)
    moreover have "0 \<le> (?R mod 2 ^ k) div 2 ^ m" by (simp add: pos_imp_zdiv_nonneg_iff)
    moreover have "?R mod 2 ^ k < 2 ^ k" by simp
    moreover have "2 * (2 :: int) ^ k \<le> 2 ^ ?K" unfolding power_Suc [symmetric] using assms(2) by (intro power_increasing) simp_all
    ultimately show "(?x + ?R mod 2 ^ k) div 2 ^ m - (?R mod 2 ^ k) div 2 ^ m < 2 ^ ?K" using assms(3) by linarith
  qed
  finally show ?thesis unfolding over_def .
qed

text \<open>The result is the truncated value or one more.\<close>

lemma trunc_error: "0 < q \<Longrightarrow> (x + y) div q - y div q = x div q \<or> (x + y) div q - y div q = x div q + 1" for x y q :: int
proof -
  assume q: "0 < q"
  have "(x + y) div q = x div q + y div q + (x mod q + y mod q) div q" by (rule div_add1_eq)
  moreover have "(x mod q + y mod q) div q = 0 \<or> (x mod q + y mod q) div q = 1"
    using q pos_mod_bound [OF q, of x] pos_mod_bound [OF q, of y] pos_mod_sign [OF q, of x] pos_mod_sign [OF q, of y]
    by (intro div_0_or_1) linarith+
  ultimately show ?thesis by auto
qed


subsection \<open>Loops\<close>

text \<open>The elements that an instruction works on, in order, and its arguments as the code gets them.\<close>

type_synonym elem = "nat \<times> nat \<times> nat \<times> nat"

definition trunc_elems :: "nat \<Rightarrow> elem list \<Rightarrow> elem list" where
  "trunc_elems sz args = concat (map (\<lambda>(d, s, k, m). map (\<lambda>l. (d + l, s + l, k, m)) [0..<sz]) args)"

definition trunc_regs :: "elem list \<Rightarrow> int list" where
  "trunc_regs args = concat (map (\<lambda>(d, s, k, m). [int d, int s, int k, int m]) args)"

definition shifts :: "nat \<Rightarrow> nat \<Rightarrow> nat \<Rightarrow> nat \<times> nat \<times> nat" where
  "shifts K k m = (K - 1 - k, K - 1 - k + 1 + m, k - m)"

text \<open>No result register is used again, as a result or as an operand, by a later element.\<close>

fun fresh :: "elem list \<Rightarrow> bool" where
  "fresh [] = True"
| "fresh ((d, s, k, m) # es) = (list_all (\<lambda>(d', s', k', m'). d' \<noteq> d \<and> s' \<noteq> d) es \<and> fresh es)"

lemma trunc_regs_groups: "length (trunc_regs args) mod 4 = 0"
  "reg_groups (trunc_regs args) = map (\<lambda>(d, s, k, m). (int d, int s, int k, int m)) args"
  by (induction args) (auto simp: trunc_regs_def)

lemma trunc_shifts_ok: "m < k \<Longrightarrow> k < K \<Longrightarrow> trunc_shifts K (int k) (int m) = Inr (shifts K k m)"
  by (simp add: trunc_shifts_def shifts_def guardE_def nat_diff_distrib Let_def)

lemma shift_loop_elems:
  assumes "list_all (\<lambda>(d, s, k, m). m < k \<and> k < K) args"
  shows "shift_loop K sz f (reg_groups (trunc_regs args)) st =
    foldE (\<lambda>(d, s, k, m). f (int d) (shifts K k m)) (trunc_elems sz args) st"
  unfolding shift_loop_def trunc_elems_def trunc_regs_groups foldE_concat foldE_map
  using assms by (intro foldE_cong) (auto simp: list_all_iff trunc_shifts_ok foldE_map)

lemma reg_loop_elems:
  "reg_loop sz f (reg_groups (trunc_regs args)) st = foldE (\<lambda>(d, s, k, m). f (int d) (int s)) (trunc_elems sz args) st"
  unfolding reg_loop_def trunc_elems_def trunc_regs_groups foldE_concat foldE_map
  by (intro foldE_cong) (auto simp: foldE_map)

lemma S_ref_ok [simp]:
  "d < length S \<Longrightarrow> get_S_ref S (int d) = Inr (S ! d)" "d < length S \<Longrightarrow> set_S_ref S (int d) x = Inr (S[d := x])"
  by (simp_all add: get_S_ref_def set_S_ref_def)

text \<open>Updates at the result registers.\<close>

fun upds :: "nat list \<Rightarrow> ('a \<Rightarrow> 'a) list \<Rightarrow> 'a list \<Rightarrow> 'a list" where
  "upds (d # ds) (f # fs) S = upds ds fs (S[d := f (S ! d)])"
| "upds ds fs S = S"

lemma length_upds [simp]: "length (upds ds fs S) = length S"
  by (induction ds fs S rule: upds.induct) simp_all

lemma upds_other: "d \<notin> set ds \<Longrightarrow> upds ds fs S ! d = S ! d"
  by (induction ds fs S rule: upds.induct) auto

lemma upds_nth: "distinct ds \<Longrightarrow> length fs = length ds \<Longrightarrow> j < length ds \<Longrightarrow> ds ! j < length S \<Longrightarrow> upds ds fs S ! (ds ! j) = (fs ! j) (S ! (ds ! j))"
proof (induction ds fs S arbitrary: j rule: upds.induct)
  case (1 d ds f fs S)
  show ?case
  proof (cases j)
    case 0
    then show ?thesis using 1 by (simp add: upds_other)
  next
    case (Suc i)
    then have "ds ! i \<noteq> d" using 1 by auto
    then show ?thesis using 1 Suc by simp
  qed
qed simp_all

abbreviation dests :: "elem list \<Rightarrow> nat list" where "dests es \<equiv> map fst es"

lemma fresh_distinct: "fresh es \<Longrightarrow> distinct (dests es)"
  by (induction es rule: fresh.induct) (auto simp: list_all_iff)

subsection \<open>Party 2\<close>

text \<open>What is dealt for one element: shares of the mask, of the two parts of it, and of the result.\<close>

definition dealt :: "elem \<Rightarrow> 'k::len z2n \<Rightarrow> 'k z2n fixedvec list \<Rightarrow> bool" where
  "dealt = (\<lambda>(d, s, k, m) r q. \<exists>s0 s1 s2 t. q = [s0, s1, s2, t] \<and> length t = 2 \<and> s0 ! 0 + s0 ! 1 = r \<and>
     (case shifts LENGTH('k) k m of (n, dr, up) \<Rightarrow>
       s1 ! 0 + s1 ! 1 = z2n_shr (z2n_shl r (n + 1)) dr \<and> s2 ! 0 + s2 ! 1 = z2n_shr (z2n_shl r n) (LENGTH('k) - 1)))"

lemma share_to_sum_ok:
  assumes "share_to_sum E x G = (v, G')"
  shows "v ! 0 + v ! 1 = x"
  using assms by (auto simp: share_to_sum_def fv_randomize_to_sum_def numeral_2_eq_2 Let_def split: prod.splits)

lemma length_randomize: "fv_randomize f n G = (v, G') \<Longrightarrow> length v = n"
  by (induction n arbitrary: v G) (auto simp: Let_def split: prod.splits)

definition mine :: "nat \<Rightarrow> 'a fixedvec list list \<Rightarrow> 'a list" where
  "mine p qs = concat (map (map (\<lambda>x. x ! p)) qs)"

lemma generate_run:
  fixes S :: "'k::len regs"
  assumes "os_inv o0" "os_inv o1" "\<forall>d \<in> set (dests es). d < length S"
  shows "\<exists>rs qs G' o0' o1'. foldE (\<lambda>(d, s, k, m). trunc_generate E (int d) (shifts LENGTH('k) k m)) es (S, G, o0, o1) =
      Inr (upds (dests es) (map (\<lambda>q _. q ! 3) qs) S, G', o0', o1') \<and>
    length rs = length es \<and> length qs = length es \<and> (\<forall>j < length es. dealt (es ! j) (rs ! j) (qs ! j)) \<and>
    extends (z2_codec.enc_list (mine 0 qs)) o0 o0' \<and> extends (z2_codec.enc_list (mine 1 qs)) o1 o1'"
  using assms
proof (induction es arbitrary: S G o0 o1)
  case Nil
  then show ?case by (intro exI [of _ "[]"]) (auto simp: mine_def extends_refl)
next
  case (Cons e es)
  obtain d s k m where e: "e = (d, s, k, m)" by (metis prod_cases4)
  obtain n dr up where sh: "shifts LENGTH('k) k m = (n, dr, up)" by (metis prod_cases3)
  obtain r G1 where 1: "z2n_randomize E G = (r :: 'k z2n, G1)" by fastforce
  obtain s0 G2 where 2: "share_to_sum E r G1 = (s0, G2)" by fastforce
  obtain s1 G3 where 3: "share_to_sum E (z2n_shr (z2n_shl r (n + 1)) dr) G2 = (s1, G3)" by fastforce
  obtain s2 G4 where 4: "share_to_sum E (z2n_shr (z2n_shl r n) (LENGTH('k) - 1)) G3 = (s2, G4)" by fastforce
  obtain t :: "'k z2n fixedvec" and G5 where 5: "fv_randomize (z2n_randomize E) 2 G4 = (t, G5)" by fastforce
  define q where "q = [s0, s1, s2, t]"
  have fm: "foldE (\<lambda>x. z2n_pack (x ! p)) q u = foldE z2n_pack (map (\<lambda>x. x ! p) q) u" for p u by (simp add: foldE_map)
  obtain u0 where u0: "foldE (\<lambda>x. z2n_pack (x ! 0)) q o0 = Inr u0" "extends (z2_codec.enc_list (map (\<lambda>x. x ! 0) q)) o0 u0"
    using pack_list [OF Cons.prems(1)] unfolding fm by blast
  obtain u1 where u1: "foldE (\<lambda>x. z2n_pack (x ! 1)) q o1 = Inr u1" "extends (z2_codec.enc_list (map (\<lambda>x. x ! 1) q)) o1 u1"
    using pack_list [OF Cons.prems(2)] unfolding fm by blast
  have d: "d < length S" using Cons.prems(3) e by simp
  have step: "trunc_generate E (int d) (shifts LENGTH('k) k m) (S, G, o0, o1) = Inr (S[d := t], G5, u0, u1)"
    using d u0(1) u1(1) unfolding sh trunc_generate_def prod.case 1 2 3 4 5 Let_def q_def by simp
  have "os_inv u0" "os_inv u1" "\<forall>c \<in> set (dests es). c < length (S[d := t])" using u0(2) u1(2) Cons.prems(3) by (simp_all add: extends_def)
  from Cons.IH [OF this, of G5] obtain rs qs G' o0' o1' where
    IH: "foldE (\<lambda>(d, s, k, m). trunc_generate E (int d) (shifts LENGTH('k) k m)) es (S[d := t], G5, u0, u1) =
      Inr (upds (dests es) (map (\<lambda>q _. q ! 3) qs) (S[d := t]), G', o0', o1')" "length rs = length es" "length qs = length es"
    "\<forall>j < length es. dealt (es ! j) (rs ! j) (qs ! j)"
    "extends (z2_codec.enc_list (mine 0 qs)) u0 o0'" "extends (z2_codec.enc_list (mine 1 qs)) u1 o1'" by blast
  have de: "dealt e r q"
    using share_to_sum_ok [OF 2] share_to_sum_ok [OF 3] share_to_sum_ok [OF 4] length_randomize [OF 5]
    unfolding dealt_def e prod.case sh q_def by blast
  have "\<forall>j < length (e # es). dealt ((e # es) ! j) ((r # rs) ! j) ((q # qs) ! j)"
    using de IH(4) by (auto simp: nth_Cons split: nat.split)
  moreover have "extends (z2_codec.enc_list (mine 0 (q # qs))) o0 o0'" "extends (z2_codec.enc_list (mine 1 (q # qs))) o1 o1'"
    using extends_trans [OF u0(2) IH(5)] extends_trans [OF u1(2) IH(6)] by (simp_all add: mine_def)
  moreover have "q ! 3 = t" by (simp add: q_def)
  ultimately show ?case
    using step IH(1-3) unfolding e
    by (intro exI [of _ "r # rs"] exI [of _ "q # qs"] exI [of _ G'] exI [of _ o0'] exI [of _ o1']) simp
qed

subsection \<open>Parties 0 and 1\<close>

definition operand_share :: "nat \<Rightarrow> 'k::len z2n fixedvec \<Rightarrow> 'k z2n" where
  "operand_share me x = (if me = 0 then fv_sum (+) x else x ! 0)"

lemma unpack_next:
  "os_inv s \<Longrightarrow> unread s = z2n_enc a @ r \<Longrightarrow> \<exists>s'. z2n_unpack s = Inr (a, s') \<and> os_inv s' \<and> unread s' = r"
  using z2n_codec(2) by blast

lemma read_step:
  fixes st :: "'k::len z2n trunc_state"
  assumes "d < length (tr_S st)" "s < length (tr_S st)" "os_inv (tr_os st)" "pv_rest (tr_masks st) = []" "pv_inv (tr_masks st)"
    "unread (tr_os st) = z2n_enc a @ z2n_enc b @ z2n_enc c @ z2n_enc t @ r"
  shows "\<exists>st'. trunc_read p (int d) (int s) st = Inr st' \<and> tr_S st' = (tr_S st)[d := (tr_S st ! d)[1 - p := t]] \<and>
    tr_open st' = tr_open st @ [operand_share p (tr_S st ! s) + a] \<and> pv_rest (tr_masks st') = [] \<and> pv_inv (tr_masks st') \<and>
    tr_unmasks st' = pv_push b (tr_unmasks st) \<and> tr_bits st' = pv_push c (tr_bits st) \<and> os_inv (tr_os st') \<and> unread (tr_os st') = r"
proof -
  obtain o1 where 1: "z2n_unpack (tr_os st) = Inr (a, o1)" "os_inv o1" "unread o1 = z2n_enc b @ z2n_enc c @ z2n_enc t @ r"
    using unpack_next [OF assms(3,6)] by blast
  obtain o2 where 2: "z2n_unpack o1 = Inr (b, o2)" "os_inv o2" "unread o2 = z2n_enc c @ z2n_enc t @ r"
    using unpack_next [OF 1(2,3)] by blast
  obtain o3 where 3: "z2n_unpack o2 = Inr (c, o3)" "os_inv o3" "unread o3 = z2n_enc t @ r"
    using unpack_next [OF 2(2,3)] by blast
  obtain o4 where 4: "z2n_unpack o3 = Inr (t, o4)" "os_inv o4" "unread o4 = r"
    using unpack_next [OF 3(2,3)] by blast
  have "pv_inv (pv_push a (tr_masks st))" "pv_rest (pv_push a (tr_masks st)) = [a]"
    using pv.push_rest [OF assms(5), of a] assms(4) by auto
  then obtain q where q: "pv_next (pv_push a (tr_masks st)) = Inr (a, q)" "pv_rest q = []" "pv_inv q"
    using pv.next_rest [of "pv_push a (tr_masks st)" a "[]"] by blast
  show ?thesis using assms(1,2) 1(1) 2(1) 3(1) 4 q by (simp add: trunc_read_def operand_share_def)
qed

definition read_elem :: "nat \<Rightarrow> elem \<Rightarrow> 'k::len z2n trunc_state \<Rightarrow> 'k z2n trunc_state res" where
  "read_elem p e = trunc_read p (int (fst e)) (int (fst (snd e)))"

definition open_elem :: "nat \<Rightarrow> 'k::len regs \<Rightarrow> elem \<Rightarrow> 'k z2n fixedvec list \<Rightarrow> 'k z2n" where
  "open_elem p S e q = operand_share p (S ! fst (snd e)) + q ! 0 ! p"

lemma elem_simps [simp]:
  "read_elem p (d, s, k, m) = trunc_read p (int d) (int s)" "open_elem p S (d, s, k, m) q = operand_share p (S ! s) + q ! 0 ! p"
  by (simp_all add: read_elem_def open_elem_def)

lemma read_run:
  fixes st :: "'k::len z2n trunc_state"
  assumes "p < 2" "fresh es" "\<forall>(d, s, k, m) \<in> set es. d < length (tr_S st) \<and> s < length (tr_S st)" "length qs = length es"
    "\<forall>q \<in> set qs. length q = 4" "os_inv (tr_os st)" "pv_rest (tr_masks st) = []" "pv_inv (tr_masks st)"
    "unread (tr_os st) = z2_codec.enc_list (mine p qs) @ r"
  shows "\<exists>st'. foldE (read_elem p) es st = Inr st' \<and>
    tr_S st' = upds (dests es) (map (\<lambda>q x. x[1 - p := q ! 3 ! p]) qs) (tr_S st) \<and>
    tr_open st' = tr_open st @ map2 (open_elem p (tr_S st)) es qs \<and>
    tr_unmasks st' = fold pv_push (map (\<lambda>q. q ! 1 ! p) qs) (tr_unmasks st) \<and>
    tr_bits st' = fold pv_push (map (\<lambda>q. q ! 2 ! p) qs) (tr_bits st) \<and> os_inv (tr_os st')"
  using assms(2-)
proof (induction es arbitrary: st qs)
  case Nil
  then show ?case by simp
next
  case (Cons e es)
  obtain d s k m where e: "e = (d, s, k, m)" by (metis prod_cases4)
  obtain q qs' where qs: "qs = q # qs'" "length qs' = length es" using Cons.prems(3) by (cases qs) auto
  obtain a b c t where q: "q = [a, b, c, t]" using Cons.prems(4) qs(1) by (auto simp: numeral_eq_Suc length_Suc_conv)
  have u: "unread (tr_os st) = z2n_enc (a ! p) @ z2n_enc (b ! p) @ z2n_enc (c ! p) @ z2n_enc (t ! p) @ z2_codec.enc_list (mine p qs') @ r"
    using Cons.prems(8) qs(1) q by (simp add: mine_def)
  have l: "d < length (tr_S st)" "s < length (tr_S st)" using Cons.prems(2) e by auto
  from read_step [OF l Cons.prems(5,6,7) u, of p] obtain st1 where
    st1: "trunc_read p (int d) (int s) st = Inr st1" "tr_S st1 = (tr_S st)[d := (tr_S st ! d)[1 - p := t ! p]]"
    "tr_open st1 = tr_open st @ [operand_share p (tr_S st ! s) + a ! p]" "pv_rest (tr_masks st1) = []" "pv_inv (tr_masks st1)"
    "tr_unmasks st1 = pv_push (b ! p) (tr_unmasks st)" "tr_bits st1 = pv_push (c ! p) (tr_bits st)"
    "os_inv (tr_os st1)" "unread (tr_os st1) = z2_codec.enc_list (mine p qs') @ r" by blast
  have f: "fresh es" "list_all (\<lambda>(d', s', k', m'). d' \<noteq> d \<and> s' \<noteq> d) es" using Cons.prems(1) e by simp_all
  have r: "\<forall>(d, s, k, m) \<in> set es. d < length (tr_S st1) \<and> s < length (tr_S st1)" using Cons.prems(2) st1(2) by simp
  have q4: "\<forall>q \<in> set qs'. length q = 4" using Cons.prems(4) qs(1) by simp
  from Cons.IH [OF f(1) r qs(2) q4 st1(8,4,5,9)] obtain st' where st':
    "foldE (read_elem p) es st1 = Inr st'"
    "tr_S st' = upds (dests es) (map (\<lambda>q x. x[1 - p := q ! 3 ! p]) qs') (tr_S st1)"
    "tr_open st' = tr_open st1 @ map2 (open_elem p (tr_S st1)) es qs'"
    "tr_unmasks st' = fold pv_push (map (\<lambda>q. q ! 1 ! p) qs') (tr_unmasks st1)"
    "tr_bits st' = fold pv_push (map (\<lambda>q. q ! 2 ! p) qs') (tr_bits st1)" "os_inv (tr_os st')" by blast
  have m2: "map2 (open_elem p (tr_S st1)) es qs' =
      map2 (open_elem p (tr_S st)) es qs'"
    using f(2) by (intro map_cong refl) (auto simp: st1(2) list_all_iff open_elem_def dest!: set_zip_leftD)
  have op: "tr_open st' = tr_open st @ (operand_share p (tr_S st ! s) + a ! p) #
      map2 (open_elem p (tr_S st)) es qs'"
    unfolding st'(3) m2 st1(3) by simp
  show ?case unfolding e qs(1) q
    using st1(1,2,6,7) st'(1,2,4-6) op by (intro exI [of _ st']) simp
qed

text \<open>The shares that a party computes, from the opened values and its parts of the masks.\<close>

fun result_shares :: "nat \<Rightarrow> elem list \<Rightarrow> 'k::len z2n list \<Rightarrow> 'k z2n list \<Rightarrow> 'k z2n list \<Rightarrow> 'k z2n list" where
  "result_shares p ((d, s, k, m) # es) (x # xs) (u # us) (c # cs) =
     trunc_share p (shifts LENGTH('k) k m) x u c # result_shares p es xs us cs"
| "result_shares p es xs us cs = []"

lemma length_result_shares [simp]:
  "length xs = length es \<Longrightarrow> length us = length es \<Longrightarrow> length cs = length es \<Longrightarrow> length (result_shares p es xs us cs) = length es"
  by (induction p es xs us cs rule: result_shares.induct) auto

lemma result_shares_nth:
  "length xs = length es \<Longrightarrow> length us = length es \<Longrightarrow> length cs = length es \<Longrightarrow> j < length es \<Longrightarrow> es ! j = (d, s, k, m) \<Longrightarrow>
    result_shares p es xs us cs ! j = trunc_share p (shifts LENGTH('k) k m) (xs ! j) (us ! j) (cs ! j)"
  for xs :: "'k::len z2n list"
proof (induction p es xs us cs arbitrary: j rule: result_shares.induct)
  case (1 p d' s' k' m' es x xs u us c cs)
  then show ?case by (cases j) auto
qed auto

definition compute_elem :: "nat \<Rightarrow> nat \<Rightarrow> elem \<Rightarrow>
    'k::len regs \<times> 'k z2n pointer_vector \<times> 'k z2n pointer_vector \<times> 'k z2n pointer_vector \<times> octetStream \<Rightarrow>
    ('k regs \<times> 'k z2n pointer_vector \<times> 'k z2n pointer_vector \<times> 'k z2n pointer_vector \<times> octetStream) res" where
  "compute_elem p q = (\<lambda>(d, s, k, m). trunc_compute p q (int d) (shifts LENGTH('k) k m))"

definition sent_elem :: "nat \<Rightarrow> 'k::len regs \<Rightarrow> nat \<Rightarrow> 'k z2n \<Rightarrow> 'k z2n" where
  "sent_elem p S d y = y - S ! d ! (1 - p)"

lemma compute_run:
  fixes S :: "'k::len regs" and q :: nat
  assumes "fresh es" "\<forall>d \<in> set (dests es). d < length S" "os_inv s"
    "pv_rest o1 = xs" "pv_inv o1" "pv_rest o2 = us" "pv_inv o2" "pv_rest o3 = cs" "pv_inv o3"
    "length xs = length es" "length us = length es" "length cs = length es"
  defines "ys \<equiv> result_shares q es xs us cs"
  shows "\<exists>o1' o2' o3' s'. foldE (compute_elem p q) es (S, o1, o2, o3, s) =
      Inr (upds (dests es) (map (\<lambda>y x. x[p := y - x ! (1 - p)]) ys) S, o1', o2', o3', s') \<and>
    extends (z2_codec.enc_list (map2 (sent_elem p S) (dests es) ys)) s s'"
  using assms(1-12) unfolding ys_def
proof (induction es arbitrary: S o1 o2 o3 s xs us cs)
  case Nil
  then show ?case by (auto simp: extends_refl)
next
  case (Cons e es)
  obtain d s' k m where e: "e = (d, s', k, m)" by (metis prod_cases4)
  obtain x xs' u us' c cs' where l: "xs = x # xs'" "us = u # us'" "cs = c # cs'"
    "length xs' = length es" "length us' = length es" "length cs' = length es"
    using Cons.prems(10-12) by (auto simp: length_Suc_conv)
  obtain n1 where n1: "pv_next o1 = Inr (x, n1)" "pv_rest n1 = xs'" "pv_inv n1" using pv.next_rest [OF Cons.prems(5), of x xs'] Cons.prems(4) l(1) by auto
  obtain n2 where n2: "pv_next o2 = Inr (u, n2)" "pv_rest n2 = us'" "pv_inv n2" using pv.next_rest [OF Cons.prems(7), of u us'] Cons.prems(6) l(2) by auto
  obtain n3 where n3: "pv_next o3 = Inr (c, n3)" "pv_rest n3 = cs'" "pv_inv n3" using pv.next_rest [OF Cons.prems(9), of c cs'] Cons.prems(8) l(3) by auto
  define y where "y = trunc_share q (shifts LENGTH('k) k m) x u c"
  define b where "b = y - S ! d ! (1 - p)"
  obtain s1 where s1: "z2n_pack b s = Inr s1" "extends (z2n_enc b) s s1" using z2n_codec(1) [OF Cons.prems(3)] by blast
  have d: "d < length S" using Cons.prems(2) e by simp
  have step: "trunc_compute p q (int d) (shifts LENGTH('k) k m) (S, o1, o2, o3, s) = Inr (S[d := (S ! d)[p := b]], n1, n2, n3, s1)"
    using d s1(1) n1(1) n2(1) n3(1) by (simp add: trunc_compute_def y_def b_def Let_def)
  have f: "fresh es" "d \<notin> set (dests es)" using Cons.prems(1) e by (auto simp: list_all_iff)
  have r: "\<forall>c \<in> set (dests es). c < length (S[d := (S ! d)[p := b]])" "os_inv s1" using Cons.prems(2) s1(2) by (simp_all add: extends_def)
  from Cons.IH [OF f(1) r n1(2,3) n2(2,3) n3(2,3) l(4-6)] obtain o1' o2' o3' t' where IH:
    "foldE (compute_elem p q) es (S[d := (S ! d)[p := b]], n1, n2, n3, s1) =
      Inr (upds (dests es) (map (\<lambda>y x. x[p := y - x ! (1 - p)]) (result_shares q es xs' us' cs')) (S[d := (S ! d)[p := b]]), o1', o2', o3', t')"
    "extends (z2_codec.enc_list (map2 (sent_elem p (S[d := (S ! d)[p := b]])) (dests es) (result_shares q es xs' us' cs'))) s1 t'" by blast
  have m2: "map2 (sent_elem p (S[d := (S ! d)[p := b]])) (dests es) (result_shares q es xs' us' cs') =
      map2 (sent_elem p S) (dests es) (result_shares q es xs' us' cs')"
  proof (intro map_cong refl)
    fix z assume "z \<in> set (zip (dests es) (result_shares q es xs' us' cs'))"
    moreover obtain c y where z: "z = (c, y)" by fastforce
    ultimately have "c \<noteq> d" using f(2) set_zip_leftD by metis
    then show "(case z of (c, y) \<Rightarrow> sent_elem p (S[d := (S ! d)[p := b]]) c y) = (case z of (c, y) \<Rightarrow> sent_elem p S c y)"
      by (simp add: z sent_elem_def)
  qed
  have y: "y - S ! d ! (Suc 0 - p) = b" "sent_elem p S d y = b" by (simp_all add: sent_elem_def b_def)
  have ce: "compute_elem p q (d, s', k, m) (S, o1, o2, o3, s) = Inr (S[d := (S ! d)[p := b]], n1, n2, n3, s1)"
    using step by (simp add: compute_elem_def)
  note ext = extends_trans [OF s1(2) IH(2), unfolded m2]
  show ?case
    using IH(1) ce ext y unfolding e l(1-3) by (simp add: y_def [symmetric])
qed

lemma add_run:
  fixes S :: "'k::len regs"
  assumes "fresh es" "\<forall>d \<in> set (dests es). d < length S" "os_inv s" "unread s = z2_codec.enc_list ws" "length ws = length es"
  shows "\<exists>s'. foldE (\<lambda>(d, s, k, m). trunc_add p (int d)) es (S, s) = Inr (upds (dests es) (map (\<lambda>w x. x[p := x ! p + w]) ws) S, s')"
  using assms
proof (induction es arbitrary: S s ws)
  case Nil
  then show ?case by simp
next
  case (Cons e es)
  obtain d s' k m where e: "e = (d, s', k, m)" by (metis prod_cases4)
  obtain w ws' where ws: "ws = w # ws'" "length ws' = length es" using Cons.prems(5) by (cases ws) auto
  have "unread s = z2n_enc w @ z2_codec.enc_list ws'" using Cons.prems(4) ws(1) by simp
  from unpack_next [OF Cons.prems(3) this] obtain s1 where s1: "z2n_unpack s = Inr (w, s1)" "os_inv s1" "unread s1 = z2_codec.enc_list ws'" by blast
  have d: "d < length S" using Cons.prems(2) e by simp
  have "fresh es" "\<forall>c \<in> set (dests es). c < length (S[d := (S ! d)[p := S ! d ! p + w]])" using Cons.prems(1,2) e by simp_all
  from Cons.IH [OF this s1(2,3) ws(2)] show ?case using d s1(1) unfolding e ws(1) by (simp add: trunc_add_def)
qed

end
