(* ===== verification/TruncRun.thy ===== *)
theory TruncRun
  imports TruncProof
begin

text \<open>The three parties together: messages, opening, and the shares that \<^verbatim>\<open>trunc_pr\<close> leaves.\<close>

unbundle bit_operations_syntax

subsection \<open>Messages of party 2\<close>

lemma deal_run:
  assumes "small o0" "small o1"
  shows "\<exists>c r. run_schedule deal_schedule (deal_net o0 o1) = Some c \<and> finished c \<and>
    (\<forall>p < 2. streams c p = [r p] \<and> holds (r p) (contents (two o0 o1 p)))"
proof -
  obtain r0 where r0: "Receive (frame o0) (reset_write_head empty_stream) = Inr (r0, [])" "holds r0 (contents o0)"
    using Receive_small [OF assms(1)] by blast
  obtain r1 where r1: "Receive (frame o1) (reset_write_head empty_stream) = Inr (r1, [])" "holds r1 (contents o1)"
    using Receive_small [OF assms(2)] by blast
  show ?thesis
    using assms r0 r1
    by (intro exI [of _ "two r0 r1"] exI conjI [OF _ conjI])
       (auto simp: deal_schedule_def deal_net_def comm_do_def Send_small finished_def less_2_cases_iff)
qed

lemma length_mine: "\<forall>q \<in> set qs. length q = 4 \<Longrightarrow> length (mine p qs) = 4 * length qs"
  by (induction qs) (simp_all add: mine_def)

lemma dealt_shape: "dealt e r q \<Longrightarrow> length q = 4 \<and> length (q ! 3) = 2 \<and> q ! 0 ! 0 + q ! 0 ! 1 = r"
  by (cases e) (auto simp: dealt_def)

subsection \<open>One element\<close>

text \<open>The shares of the result add up to the truncation.\<close>

lemma element_result:
  fixes r v :: "'k::len z2n"
  assumes "dealt (d, s, k, m) r q" "m < k" "k < LENGTH('k)" "zval v < 2 ^ k"
  defines "y \<equiv> trunc_share 0 (shifts LENGTH('k) k m) (v + r) (q ! 1 ! 0) (q ! 2 ! 0) +
      trunc_share (Suc 0) (shifts LENGTH('k) k m) (v + r) (q ! 1 ! 1) (q ! 2 ! 1)"
  shows "zval y = (zval v + zval r mod 2 ^ k) div 2 ^ m - (zval r mod 2 ^ k) div 2 ^ m"
    "zval y = zval v div 2 ^ m \<or> zval y = zval v div 2 ^ m + 1"
proof -
  define n where "n = LENGTH('k) - 1 - k"
  have sh: "shifts LENGTH('k) k m = (n, n + 1 + m, k - m)" by (simp add: shifts_def n_def)
  obtain s0 s1 s2 t where q: "q = [s0, s1, s2, t]" "s1 ! 0 + s1 ! 1 = z2n_shr (z2n_shl r (n + 1)) (n + 1 + m)"
    "s2 ! 0 + s2 ! 1 = z2n_shr (z2n_shl r n) (LENGTH('k) - 1)"
    using assms(1) unfolding dealt_def prod.case sh by blast
  have c: "n + 1 + m = n + m + 1" by simp
  have "y = z2n_shr (z2n_shl (v + r) (n + 1)) (n + 1 + m) - (s1 ! 0 + s1 ! 1) +
      z2n_shl ((s2 ! 0 + s2 ! 1) + z2n_shr (z2n_shl (v + r) n) (LENGTH('k) - 1) -
        2 * (s2 ! 0 + s2 ! 1) * z2n_shr (z2n_shl (v + r) n) (LENGTH('k) - 1)) (k - m)"
    unfolding y_def sh trunc_share_sum q(1) by simp
  also have "zval \<dots> = (zval v + zval r mod 2 ^ k) div 2 ^ m - (zval r mod 2 ^ k) div 2 ^ m"
    unfolding q(2,3) c by (rule trunc_value [OF assms(2-4), folded n_def, OF refl refl refl])
  finally show "zval y = (zval v + zval r mod 2 ^ k) div 2 ^ m - (zval r mod 2 ^ k) div 2 ^ m" .
  then show "zval y = zval v div 2 ^ m \<or> zval y = zval v div 2 ^ m + 1"
    using trunc_error [of "2 ^ m" "zval v" "zval r mod 2 ^ k"] by simp
qed

lemma operand_sum:
  assumes "rep3 z2n_ops v t"
  shows "operand_share 0 (t 0) + operand_share 1 (t 1) = v"
proof -
  have "t 0 = [t 0 ! 0, t 2 ! 0]" "v = t 0 ! 0 + t 1 ! 0 + t 2 ! 0"
    using assms unfolding rep3_shape by (simp_all add: z2n_ops_def)
  then show ?thesis by (simp add: operand_share_def) (metis add.assoc add.commute fv_sum.simps foldl_Cons foldl_Nil)
qed

text \<open>What parties 0, 1 and 2 hold at the end in a result register.\<close>

lemma result_sharing:
  assumes "length x0 = 2" "length x1 = 2" "length t = 2"
    "T (0 :: nat) = (x0[1 := t ! 0])[0 := y0 - t ! 0 + (y1 - t ! 1)]" "T 1 = (x1[0 := t ! 1])[1 := y1 - t ! 1 + (y0 - t ! 0)]" "T 2 = t"
  shows "rep3 z2n_ops (y0 + y1) T"
proof -
  obtain a b where t: "t = [a, b]" using assms(3) by (auto simp: numeral_2_eq_2 length_Suc_conv)
  obtain c d e f where x: "x0 = [c, d]" "x1 = [e, f]" using assms(1,2) by (auto simp: numeral_2_eq_2 length_Suc_conv)
  show ?thesis unfolding rep3_shape using assms(4-6) t x by (simp add: z2n_ops_def)
qed

lemma contents_small:
  fixes vs :: "'k::len z2n list"
  assumes "extends (z2_codec.enc_list vs) s s'" "contents s = []" "length vs = n" "N_BYTES LENGTH('k) * n < 2 ^ 32"
  shows "small s' \<and> contents s' = z2_codec.enc_list vs"
proof -
  have c: "contents s' = z2_codec.enc_list vs" "os_inv s'" using assms(1,2) by (simp_all add: extends_def)
  have "os_len s' = N_BYTES LENGTH('k) * n" using length_contents [OF c(2)] unfolding c(1) length_z2_list assms(3) by simp
  then show ?thesis using c assms(4) by (simp add: small_def)
qed

subsection \<open>The rounds of parties 0 and 1\<close>

text \<open>Reading what party 2 sent.\<close>

lemma read_round:
  fixes S :: "nat \<Rightarrow> 'k::len regs"
  assumes "fresh es" "\<forall>(d, s, k, m) \<in> set es. d < N \<and> s < N" "\<And>i. i < 3 \<Longrightarrow> length (S i) = N" "length qs = length es"
    "\<forall>q \<in> set qs. length q = 4" "\<And>p. p < 2 \<Longrightarrow> holds (r p) (z2_codec.enc_list (mine p qs))"
  shows "\<exists>st. pairE (\<lambda>p. foldE (read_elem p) es \<lparr>tr_S = S p, tr_os = r p, tr_open = [], tr_masks = pv_of [], tr_unmasks = pv_of [], tr_bits = pv_of []\<rparr>) = Inr st \<and>
    (\<forall>p < 2. tr_S (st p) = upds (dests es) (map (\<lambda>q x. x[1 - p := q ! 3 ! p]) qs) (S p) \<and>
      tr_open (st p) = map2 (open_elem p (S p)) es qs \<and>
      pv_rest (tr_unmasks (st p)) = map (\<lambda>q. q ! 1 ! p) qs \<and> pv_inv (tr_unmasks (st p)) \<and>
      pv_rest (tr_bits (st p)) = map (\<lambda>q. q ! 2 ! p) qs \<and> pv_inv (tr_bits (st p)) \<and> os_inv (tr_os (st p)))"
proof (rule pairE_Inr)
  fix p :: nat assume p: "p < 2"
  let ?st = "\<lparr>tr_S = S p, tr_os = r p, tr_open = [], tr_masks = pv_of [], tr_unmasks = pv_of [], tr_bits = pv_of []\<rparr>"
  have v: "pv_rest (pv_of ([] :: 'k z2n list)) = []" "pv_inv (pv_of ([] :: 'k z2n list))" by (simp_all add: pv_of_def pv_rest_def pv_inv_def)
  have l: "\<forall>(d, s, k, m) \<in> set es. d < length (tr_S ?st) \<and> s < length (tr_S ?st)" using assms(2) assms(3) [of p] p by simp
  have h: "os_inv (tr_os ?st)" "unread (tr_os ?st) = z2_codec.enc_list (mine p qs) @ []" using assms(6) [OF p] by (simp_all add: holds_def)
  from read_run [OF p assms(1) l assms(4,5) h(1) _ _ h(2)] v obtain st' where st':
    "foldE (read_elem p) es ?st = Inr st'" "tr_S st' = upds (dests es) (map (\<lambda>q x. x[1 - p := q ! 3 ! p]) qs) (S p)"
    "tr_open st' = map2 (open_elem p (S p)) es qs" "tr_unmasks st' = fold pv_push (map (\<lambda>q. q ! 1 ! p) qs) (pv_of [])"
    "tr_bits st' = fold pv_push (map (\<lambda>q. q ! 2 ! p) qs) (pv_of [])" "os_inv (tr_os st')" by auto
  with pv.push_all [OF v(2)] v(1) show "\<exists>a. foldE (read_elem p) es ?st = Inr a \<and> tr_S a = upds (dests es) (map (\<lambda>q x. x[1 - p := q ! 3 ! p]) qs) (S p) \<and>
      tr_open a = map2 (open_elem p (S p)) es qs \<and>
      pv_rest (tr_unmasks a) = map (\<lambda>q. q ! 1 ! p) qs \<and> pv_inv (tr_unmasks a) \<and>
      pv_rest (tr_bits a) = map (\<lambda>q. q ! 2 ! p) qs \<and> pv_inv (tr_bits a) \<and> os_inv (tr_os a)" by simp
qed

lemma add_pairs: "a + b = r \<Longrightarrow> c + d = v \<Longrightarrow> (c + a) + (d + b) = v + r" for a b c d v r :: "'k::len z2n"
  by (auto simp: ac_simps)

text \<open>The value that is opened for each element is the operand plus the mask.\<close>

lemma opened_masked:
  fixes S :: "nat \<Rightarrow> 'k::len regs"
  assumes "length qs = length es" "length vs = length es" "length rs = length es"
    "\<forall>j < length es. dealt (es ! j) (rs ! j) (qs ! j) \<and> rep3 z2n_ops (vs ! j) (\<lambda>i. S i ! fst (snd (es ! j)))"
  shows "map2 (+) (map2 (open_elem 0 (S 0)) es qs) (map2 (open_elem 1 (S 1)) es qs) = map2 (+) vs rs"
proof (rule nth_equalityI)
  fix j assume "j < length (map2 (+) (map2 (open_elem 0 (S 0)) es qs) (map2 (open_elem 1 (S 1)) es qs))"
  then have j: "j < length es" by simp
  have "qs ! j ! 0 ! 0 + qs ! j ! 0 ! 1 = rs ! j" using assms(4) j dealt_shape by blast
  moreover have "operand_share 0 (S 0 ! fst (snd (es ! j))) + operand_share 1 (S 1 ! fst (snd (es ! j))) = vs ! j"
    using assms(4) j operand_sum by blast
  ultimately have "(operand_share 0 (S 0 ! fst (snd (es ! j))) + qs ! j ! 0 ! 0) + (operand_share 1 (S 1 ! fst (snd (es ! j))) + qs ! j ! 0 ! 1) = vs ! j + rs ! j"
    by (rule add_pairs)
  then show "map2 (+) (map2 (open_elem 0 (S 0)) es qs) (map2 (open_elem 1 (S 1)) es qs) ! j = map2 (+) vs rs ! j"
    using j assms(1-3) by (simp add: open_elem_def)
qed (use assms(1-3) in simp)

text \<open>Computing and exchanging the shares of the result.\<close>

lemma compute_round:
  fixes S :: "nat \<Rightarrow> 'k::len regs"
  assumes "fresh es" "\<And>p. p < 2 \<Longrightarrow> \<forall>d \<in> set (dests es). d < length (S p)" "\<And>p. p < 2 \<Longrightarrow> os_inv (s p)" "length xs = length es"
    "\<And>p. p < 2 \<Longrightarrow> pv_rest (o2 p) = us p \<and> pv_inv (o2 p) \<and> pv_rest (o3 p) = cs p \<and> pv_inv (o3 p) \<and> length (us p) = length es \<and> length (cs p) = length es"
    "N_BYTES LENGTH('k) * length es < 2 ^ 32"
  defines "ys \<equiv> \<lambda>p. result_shares p es xs (us p) (cs p)"
  shows "\<exists>out c r. pairE (\<lambda>p. foldE (compute_elem p (offset_my_num p (pair_offset p))) es (S p, pv_of xs, o2 p, o3 p, reset_write_head (s p))) = Inr out \<and>
    run_schedule pair_schedule (pair_net 0 (\<lambda>p. [snd (snd (snd (snd (out p))))])) = Some c \<and>
    (\<forall>p < 2. fst (out p) = upds (dests es) (map (\<lambda>y x. x[p := y - x ! (1 - p)]) (ys p)) (S p) \<and> streams c p = [r p] \<and>
      holds (r p) (z2_codec.enc_list (map2 (sent_elem (1 - p) (S (1 - p))) (dests es) (ys (1 - p)))))"
proof -
  have off: "offset_my_num p (pair_offset p) = p" if "p < 2" for p using that by (auto simp: less_2_cases_iff)
  have "\<exists>a. foldE (compute_elem p (offset_my_num p (pair_offset p))) es (S p, pv_of xs, o2 p, o3 p, reset_write_head (s p)) = Inr a \<and>
      (fst a = upds (dests es) (map (\<lambda>y x. x[p := y - x ! (1 - p)]) (ys p)) (S p) \<and> small (snd (snd (snd (snd a)))) \<and>
       contents (snd (snd (snd (snd a)))) = z2_codec.enc_list (map2 (sent_elem p (S p)) (dests es) (ys p)))" if p: "p < 2" for p
  proof -
    have v: "pv_rest (pv_of xs) = xs" "pv_inv (pv_of xs)" by (simp_all add: pv_of_def pv_rest_def pv_inv_def)
    have h: "os_inv (reset_write_head (s p))" using assms(3) [OF p] by simp
    have q: "pv_rest (o2 p) = us p" "pv_inv (o2 p)" "pv_rest (o3 p) = cs p" "pv_inv (o3 p)" "length (us p) = length es" "length (cs p) = length es"
      using assms(5) [OF p] by simp_all
    obtain o1' o2' o3' t where f: "foldE (compute_elem p p) es (S p, pv_of xs, o2 p, o3 p, reset_write_head (s p)) =
        Inr (upds (dests es) (map (\<lambda>y x. x[p := y - x ! (1 - p)]) (ys p)) (S p), o1', o2', o3', t)"
      "extends (z2_codec.enc_list (map2 (sent_elem p (S p)) (dests es) (ys p))) (reset_write_head (s p)) t"
      using compute_run [OF assms(1) assms(2) [OF p] h v q(1-4) assms(4) q(5,6), of p p] unfolding ys_def by blast
    have "length (ys p) = length es" using assms(4) assms(5) [OF p] by (simp add: ys_def)
    then have "small t" "contents t = z2_codec.enc_list (map2 (sent_elem p (S p)) (dests es) (ys p))"
      using contents_small [OF f(2) _ _ assms(6)] by simp_all
    then show ?thesis unfolding off [OF p] using f(1) by simp
  qed
  from pairE_Inr [of "\<lambda>p. foldE (compute_elem p (offset_my_num p (pair_offset p))) es (S p, pv_of xs, o2 p, o3 p, reset_write_head (s p))"
      "\<lambda>p a. fst a = upds (dests es) (map (\<lambda>y x. x[p := y - x ! (1 - p)]) (ys p)) (S p) \<and> small (snd (snd (snd (snd a)))) \<and>
       contents (snd (snd (snd (snd a)))) = z2_codec.enc_list (map2 (sent_elem p (S p)) (dests es) (ys p))", OF this]
  obtain out where out: "pairE (\<lambda>p. foldE (compute_elem p (offset_my_num p (pair_offset p))) es (S p, pv_of xs, o2 p, o3 p, reset_write_head (s p))) = Inr out"
    "\<And>p. p < 2 \<Longrightarrow> fst (out p) = upds (dests es) (map (\<lambda>y x. x[p := y - x ! (1 - p)]) (ys p)) (S p) \<and> small (snd (snd (snd (snd (out p))))) \<and>
       contents (snd (snd (snd (snd (out p))))) = z2_codec.enc_list (map2 (sent_elem p (S p)) (dests es) (ys p))" by blast
  have sm: "[snd (snd (snd (snd (out p))))] = snd (snd (snd (snd (out p)))) # [] \<and> 0 < length [snd (snd (snd (snd (out p))))] \<and> small (snd (snd (snd (snd (out p)))))"
    if "p < 2" for p using out(2) [OF that] by simp
  from pair_run [of "\<lambda>p. [snd (snd (snd (snd (out p))))]" "\<lambda>p. snd (snd (snd (snd (out p))))" "\<lambda>_. []" 0, OF sm] obtain c r where
    c: "run_schedule pair_schedule (pair_net 0 (\<lambda>p. [snd (snd (snd (snd (out p))))])) = Some c"
    "\<And>p. p < 2 \<Longrightarrow> streams c p = [r p] \<and> holds (r p) (contents (snd (snd (snd (snd (out (1 - p)))))))" by auto
  have "contents (snd (snd (snd (snd (out (1 - p)))))) = z2_codec.enc_list (map2 (sent_elem (1 - p) (S (1 - p))) (dests es) (ys (1 - p)))" if "p < 2" for p
    using out(2) [of "1 - p"] that by simp
  then have m: "fst (out p) = upds (dests es) (map (\<lambda>y x. x[p := y - x ! (1 - p)]) (ys p)) (S p) \<and> streams c p = [r p] \<and>
      holds (r p) (z2_codec.enc_list (map2 (sent_elem (1 - p) (S (1 - p))) (dests es) (ys (1 - p))))" if "p < 2" for p
    using out(2) [OF that] c(2) [OF that] that by simp
  show ?thesis
    by (intro exI [of _ out] exI [of _ c] exI [of _ r] conjI allI impI m out(1) c(1))
qed

lemma add_round:
  fixes S :: "nat \<Rightarrow> 'k::len regs"
  assumes "fresh es" "\<And>p. p < 2 \<Longrightarrow> \<forall>d \<in> set (dests es). d < length (S p)"
    "\<And>p. p < 2 \<Longrightarrow> holds (r p) (z2_codec.enc_list (ws p)) \<and> length (ws p) = length es"
  shows "\<exists>fin. pairE (\<lambda>p. foldE (\<lambda>(d, s, k, m). trunc_add p (int d)) es (S p, r p)) = Inr fin \<and>
    (\<forall>p < 2. fst (fin p) = upds (dests es) (map (\<lambda>w x. x[p := x ! p + w]) (ws p)) (S p))"
proof (rule pairE_Inr)
  fix p :: nat assume p: "p < 2"
  have "os_inv (r p)" "unread (r p) = z2_codec.enc_list (ws p)" "length (ws p) = length es" using assms(3) [OF p] by (simp_all add: holds_def)
  from add_run [OF assms(1) assms(2) [OF p] this, of p]
  show "\<exists>a. foldE (\<lambda>(d, s, k, m). trunc_add p (int d)) es (S p, r p) = Inr a \<and> fst a = upds (dests es) (map (\<lambda>w x. x[p := x ! p + w]) (ws p)) (S p)"
    by (metis fst_conv)
qed

subsection \<open>The protocol\<close>

text \<open>What a register of party \<open>p\<close> went through.\<close>

lemma party_register:
  fixes S :: "'k::len regs" and p :: nat
  assumes "distinct ds" "length as = length ds" "length ys = length ds" "length ws = length ds" "j < length ds" "ds ! j < length S"
  defines "S1 \<equiv> upds ds (map (\<lambda>a x. x[1 - p := a]) as) S"
  defines "S2 \<equiv> upds ds (map (\<lambda>y x. x[p := y - x ! (1 - p)]) ys) S1"
  assumes "p < 2" "length (S ! (ds ! j)) = 2"
  shows "upds ds (map (\<lambda>w x. x[p := x ! p + w]) ws) S2 ! (ds ! j) = (S ! (ds ! j))[1 - p := as ! j, p := ys ! j - as ! j + ws ! j]"
    "S1 ! (ds ! j) ! (1 - p) = as ! j"
proof -
  have 1: "S1 ! (ds ! j) = (S ! (ds ! j))[1 - p := as ! j]" unfolding S1_def using upds_nth [OF assms(1) _ assms(5), of "map (\<lambda>a x. x[1 - p := a]) as" S] assms by simp
  have 2: "S2 ! (ds ! j) = (S1 ! (ds ! j))[p := ys ! j - S1 ! (ds ! j) ! (1 - p)]"
    unfolding S2_def using upds_nth [OF assms(1) _ assms(5), of "map (\<lambda>y x. x[p := y - x ! (1 - p)]) ys" S1] assms(2-6) S1_def by simp
  have 3: "upds ds (map (\<lambda>w x. x[p := x ! p + w]) ws) S2 ! (ds ! j) = (S2 ! (ds ! j))[p := S2 ! (ds ! j) ! p + ws ! j]"
    using upds_nth [OF assms(1) _ assms(5), of "map (\<lambda>w x. x[p := x ! p + w]) ws" S2] assms(2-6) S1_def S2_def by simp
  have p: "p = 0 \<or> p = 1" using assms(9) by auto
  show "S1 ! (ds ! j) ! (1 - p) = as ! j" using assms(10) p by (auto simp: 1)
  then show "upds ds (map (\<lambda>w x. x[p := x ! p + w]) ws) S2 ! (ds ! j) = (S ! (ds ! j))[1 - p := as ! j, p := ys ! j - as ! j + ws ! j]"
    using assms(10) p unfolding 3 2 by (auto simp: 1)
qed

lemma trunc_pr_run:
  fixes S :: "nat \<Rightarrow> 'k::len regs" and args :: "elem list" and sz :: nat
  defines "es \<equiv> trunc_elems sz args"
  assumes "list_all (\<lambda>(d, s, k, m). m < k \<and> k < LENGTH('k)) args" "fresh es" "\<forall>(d, s, k, m) \<in> set es. d < N \<and> s < N"
    "\<And>i. i < 3 \<Longrightarrow> length (S i) = N" "N_BYTES LENGTH('k) * (4 * length es) < 2 ^ 32" "length vs = length es"
    "\<forall>j < length es. rep3 z2n_ops (vs ! j) (\<lambda>i. S i ! fst (snd (es ! j)))"
  shows "\<exists>T G' rs qs. trunc_pr E (trunc_regs args) sz S G = Inr (T, G') \<and> length rs = length es \<and> length qs = length es \<and>
    (\<forall>j < length es. dealt (es ! j) (rs ! j) (qs ! j)) \<and> T 2 = upds (dests es) (map (\<lambda>q _. q ! 3) qs) (S 2) \<and>
    (\<forall>p < 2. let ys = (\<lambda>p. result_shares p es (map2 (+) vs rs) (map (\<lambda>q. q ! 1 ! p) qs) (map (\<lambda>q. q ! 2 ! p) qs));
       S1 = (\<lambda>p. upds (dests es) (map (\<lambda>a x. x[1 - p := a]) (map (\<lambda>q. q ! 3 ! p) qs)) (S p));
       S2 = upds (dests es) (map (\<lambda>y x. x[p := y - x ! (1 - p)]) (ys p)) (S1 p)
     in T p = upds (dests es) (map (\<lambda>w x. x[p := x ! p + w]) (map2 (sent_elem (1 - p) (S1 (1 - p))) (dests es) (ys (1 - p)))) S2)"
proof -
  have dN: "\<forall>d \<in> set (dests es). d < N" using assms(4) by auto
  have len: "length (S 0) = N" "length (S 1) = N" "length (S 2) = N" using assms(5) by auto
  obtain rs qs G' o0 o1 where gen: "foldE (\<lambda>(d, s, k, m). trunc_generate E (int d) (shifts LENGTH('k) k m)) es (S 2, G, empty_stream, empty_stream) =
      Inr (upds (dests es) (map (\<lambda>q _. q ! 3) qs) (S 2), G', o0, o1)" "length rs = length es" "length qs = length es"
    "\<forall>j < length es. dealt (es ! j) (rs ! j) (qs ! j)"
    "extends (z2_codec.enc_list (mine 0 qs)) empty_stream o0" "extends (z2_codec.enc_list (mine 1 qs)) empty_stream o1"
    using generate_run [of empty_stream empty_stream es "S 2" E G] dN len(3) by auto
  have q4: "\<forall>q \<in> set qs. length q = 4" using gen(3,4) dealt_shape by (metis in_set_conv_nth)
  have lm: "length (mine p qs) = 4 * length es" for p using length_mine [OF q4] gen(3) by simp
  note s0 = contents_small [OF gen(5) os_inv_empty(2) lm assms(6)] and s1 = contents_small [OF gen(6) os_inv_empty(2) lm assms(6)]
  obtain c r where deal0: "run_schedule deal_schedule (deal_net o0 o1) = Some c"
    "\<forall>p < 2. streams c p = [r p] \<and> holds (r p) (contents (two o0 o1 p))"
    using deal_run [of o0 o1] s0 s1 by blast
  have two: "contents (two o0 o1 p) = z2_codec.enc_list (mine p qs)" if "p < 2" for p
    using s0 s1 that by (auto simp: less_2_cases_iff)
  have deal: "run_schedule deal_schedule (deal_net o0 o1) = Some c"
    "\<And>p. p < 2 \<Longrightarrow> streams c p ! 0 = r p \<and> holds (r p) (z2_codec.enc_list (mine p qs))"
    using deal0 two by simp_all
  have "holds (r p) (z2_codec.enc_list (mine p qs))" if "p < 2" for p using deal(2) [OF that] by simp
  from read_round [where S = S and r = r, OF assms(3,4,5) gen(3) q4 this] obtain st where
    st: "pairE (\<lambda>p. foldE (read_elem p) es \<lparr>tr_S = S p, tr_os = r p, tr_open = [], tr_masks = pv_of [], tr_unmasks = pv_of [], tr_bits = pv_of []\<rparr>) = Inr st"
    "\<And>p. p < 2 \<Longrightarrow> tr_S (st p) = upds (dests es) (map (\<lambda>q x. x[1 - p := q ! 3 ! p]) qs) (S p) \<and>
      tr_open (st p) = map2 (open_elem p (S p)) es qs \<and>
      pv_rest (tr_unmasks (st p)) = map (\<lambda>q. q ! 1 ! p) qs \<and> pv_inv (tr_unmasks (st p)) \<and>
      pv_rest (tr_bits (st p)) = map (\<lambda>q. q ! 2 ! p) qs \<and> pv_inv (tr_bits (st p)) \<and> os_inv (tr_os (st p))" by blast
  have read: "pairE (\<lambda>p. foldE (read_elem p) es \<lparr>tr_S = S p, tr_os = streams c p ! 0, tr_open = [], tr_masks = pv_of [], tr_unmasks = pv_of [], tr_bits = pv_of []\<rparr>) = Inr st"
    using st(1) deal(2) by (simp add: pairE_def)
  have small1: "N_BYTES LENGTH('k) * length es < 2 ^ 32" using assms(6) by linarith
  have lo: "length (tr_open (st 0)) = length es" "length (tr_open (st 1)) = length es" using st(2) [of 0] st(2) [of 1] gen(3) by simp_all
  have om: "map2 (+) (tr_open (st 0)) (tr_open (st 1)) = map2 (+) vs rs"
    using opened_masked [OF gen(3) assms(7) gen(2), of S] gen(4) assms(8) st(2) [of 0] st(2) [of 1] by simp
  obtain opened where op: "semi_popen (\<lambda>p. tr_open (st p)) = Inr opened" "\<And>p. p < 2 \<Longrightarrow> opened p = map2 (+) vs rs"
    using semi_popen_sum [of "\<lambda>p. tr_open (st p)", OF lo small1] unfolding om by blast
  have dS: "\<forall>d \<in> set (dests es). d < length (tr_S (st p))" if "p < 2" for p
    using dN st(2) [OF that] assms(5) [of p] that by simp
  have lx: "length (map2 (+) vs rs) = length es" using assms(7) gen(2) by simp
  have oi: "os_inv (tr_os (st p))" if "p < 2" for p using st(2) [OF that] by simp
  have qq: "pv_rest (tr_unmasks (st p)) = map (\<lambda>q. q ! 1 ! p) qs \<and> pv_inv (tr_unmasks (st p)) \<and> pv_rest (tr_bits (st p)) = map (\<lambda>q. q ! 2 ! p) qs \<and>
      pv_inv (tr_bits (st p)) \<and> length (map (\<lambda>q. q ! 1 ! p) qs) = length es \<and> length (map (\<lambda>q. q ! 2 ! p) qs) = length es" if "p < 2" for p
    using st(2) [OF that] gen(3) by simp
  define ys where "ys = (\<lambda>p. result_shares p es (map2 (+) vs rs) (map (\<lambda>q. q ! 1 ! p) qs) (map (\<lambda>q. q ! 2 ! p) qs))"
  have yse: "result_shares p es (map2 (+) vs rs) (map (\<lambda>q. q ! 1 ! p) qs) (map (\<lambda>q. q ! 2 ! p) qs) = ys p" for p by (simp add: ys_def)
  from compute_round [of es "\<lambda>p. tr_S (st p)" "\<lambda>p. tr_os (st p)" "map2 (+) vs rs" "\<lambda>p. tr_unmasks (st p)" "\<lambda>p. map (\<lambda>q. q ! 1 ! p) qs"
      "\<lambda>p. tr_bits (st p)" "\<lambda>p. map (\<lambda>q. q ! 2 ! p) qs", OF assms(3) dS oi lx qq small1, unfolded yse]
  obtain out c' r' where comp:
    "pairE (\<lambda>p. foldE (compute_elem p (offset_my_num p (pair_offset p))) es (tr_S (st p), pv_of (map2 (+) vs rs), tr_unmasks (st p), tr_bits (st p), reset_write_head (tr_os (st p)))) = Inr out"
    "run_schedule pair_schedule (pair_net 0 (\<lambda>p. [snd (snd (snd (snd (out p))))])) = Some c'"
    "\<And>p. p < 2 \<Longrightarrow> fst (out p) = upds (dests es) (map (\<lambda>y x. x[p := y - x ! (1 - p)]) (ys p)) (tr_S (st p)) \<and> streams c' p = [r' p] \<and>
      holds (r' p) (z2_codec.enc_list (map2 (sent_elem (1 - p) (tr_S (st (1 - p)))) (dests es) (ys (1 - p))))" by blast
  have comp1: "pairE (\<lambda>p. foldE (compute_elem p (offset_my_num p (pair_offset p))) es (tr_S (st p), pv_of (opened p), tr_unmasks (st p), tr_bits (st p), reset_write_head (tr_os (st p)))) = Inr out"
    using comp(1) op(2) by (simp add: pairE_def)
  define ws where "ws = (\<lambda>p. map2 (sent_elem (1 - p) (tr_S (st (1 - p)))) (dests es) (ys (1 - p)))"
  have ly: "length (ys p) = length es" for p using lx gen(3) by (simp add: ys_def)
  have dO: "\<forall>d \<in> set (dests es). d < length (fst (out p))" if "p < 2" for p using comp(3) [OF that] dS [OF that] by simp
  have hw: "holds (r' p) (z2_codec.enc_list (ws p)) \<and> length (ws p) = length es" if "p < 2" for p using comp(3) [OF that] ly by (simp add: ws_def)
  from add_round [of es "\<lambda>p. fst (out p)" r' ws, OF assms(3) dO hw] obtain fin where
    fin: "pairE (\<lambda>p. foldE (\<lambda>(d, s, k, m). trunc_add p (int d)) es (fst (out p), r' p)) = Inr fin"
    "\<And>p. p < 2 \<Longrightarrow> fst (fin p) = upds (dests es) (map (\<lambda>w x. x[p := x ! p + w]) (ws p)) (fst (out p))" by blast
  have fin1: "pairE (\<lambda>p. foldE (\<lambda>(d, s, k, m). trunc_add p (int d)) es (fst (out p), streams c' p ! 0)) = Inr fin"
    using fin(1) comp(3) by (simp add: pairE_def)
  have re: "(\<lambda>(d, s, k, m). trunc_read p (int d) (int s)) = (read_elem p :: elem \<Rightarrow> 'k z2n trunc_state \<Rightarrow> _)" for p by (simp add: fun_eq_iff)
  have "trunc_pr E (trunc_regs args) sz S G = Inr (three (fst (fin 0)) (fst (fin 1)) (upds (dests es) (map (\<lambda>q _. q ! 3) qs) (S 2)), G')"
    unfolding trunc_pr_def Let_def trunc_regs_groups(1) shift_loop_elems [OF assms(2)] reg_loop_elems es_def [symmetric] re compute_elem_def [symmetric]
    by (simp only: gen(1) deal(1) read op(1) comp1 comp(2) fin1 guardE_simps bindE_simps prod.case option.case refl)
  moreover have "tr_S (st p) = upds (dests es) (map (\<lambda>a x. x[1 - p := a]) (map (\<lambda>q. q ! 3 ! p) qs)) (S p)" if "p < 2" for p
    using st(2) [OF that] by (simp add: comp_def)
  ultimately show ?thesis
    using gen(2-4) fin(2) comp(3)
    by (intro exI [of _ "three (fst (fin 0)) (fst (fin 1)) (upds (dests es) (map (\<lambda>q _. q ! 3) qs) (S 2))"] exI [of _ G'] exI [of _ rs] exI [of _ qs])
       (simp add: Let_def all_lt_2 ws_def ys_def del: One_nat_def)
qed

lemma trunc_pr_shares:
  fixes S :: "nat \<Rightarrow> 'k::len regs" and args :: "elem list" and sz :: nat
  defines "es \<equiv> trunc_elems sz args"
  assumes "list_all (\<lambda>(d, s, k, m). m < k \<and> k < LENGTH('k)) args" "fresh es" "\<forall>(d, s, k, m) \<in> set es. d < N \<and> s < N"
    "\<And>i. i < 3 \<Longrightarrow> length (S i) = N \<and> (\<forall>x \<in> set (S i). length x = 2)" "N_BYTES LENGTH('k) * (4 * length es) < 2 ^ 32" "length vs = length es"
    "\<forall>j < length es. rep3 z2n_ops (vs ! j) (\<lambda>i. S i ! fst (snd (es ! j))) \<and> zval (vs ! j) < 2 ^ fst (snd (snd (es ! j)))"
  shows "\<exists>T G' ys. trunc_pr E (trunc_regs args) sz S G = Inr (T, G') \<and> length ys = length es \<and>
    (\<forall>j < length es. rep3 z2n_ops (ys ! j) (\<lambda>i. T i ! fst (es ! j)) \<and>
      (zval (ys ! j) = zval (vs ! j) div 2 ^ snd (snd (snd (es ! j))) \<or> zval (ys ! j) = zval (vs ! j) div 2 ^ snd (snd (snd (es ! j))) + 1)) \<and>
    (\<forall>i < 3. length (T i) = N \<and> (\<forall>r. r \<notin> set (dests es) \<longrightarrow> T i ! r = S i ! r))"
proof -
  have len: "length (S i) = N" if "i < 3" for i using assms(5) [OF that] by simp
  have rep: "\<forall>j < length es. rep3 z2n_ops (vs ! j) (\<lambda>i. S i ! fst (snd (es ! j)))" using assms(8) by simp
  from trunc_pr_run [of args sz N S vs E G, folded es_def, OF assms(2-4) len assms(6,7) rep]
  obtain T G' rs qs where R: "trunc_pr E (trunc_regs args) sz S G = Inr (T, G')" "length rs = length es" "length qs = length es"
    "\<forall>j < length es. dealt (es ! j) (rs ! j) (qs ! j)" "T 2 = upds (dests es) (map (\<lambda>q _. q ! 3) qs) (S 2)"
    "\<forall>p < 2. let ys = (\<lambda>p. result_shares p es (map2 (+) vs rs) (map (\<lambda>q. q ! 1 ! p) qs) (map (\<lambda>q. q ! 2 ! p) qs));
       S1 = (\<lambda>p. upds (dests es) (map (\<lambda>a x. x[1 - p := a]) (map (\<lambda>q. q ! 3 ! p) qs)) (S p));
       S2 = upds (dests es) (map (\<lambda>y x. x[p := y - x ! (1 - p)]) (ys p)) (S1 p)
     in T p = upds (dests es) (map (\<lambda>w x. x[p := x ! p + w]) (map2 (sent_elem (1 - p) (S1 (1 - p))) (dests es) (ys (1 - p)))) S2" by blast
  define ys where "ys = (\<lambda>p. result_shares p es (map2 (+) vs rs) (map (\<lambda>q. q ! 1 ! p) qs) (map (\<lambda>q. q ! 2 ! p) qs))"
  define as where "as = (\<lambda>p. map (\<lambda>q. q ! 3 ! p) qs)"
  define S1 where "S1 = (\<lambda>p. upds (dests es) (map (\<lambda>a x. x[1 - p := a]) (as p)) (S p))"
  define ws where "ws = (\<lambda>p. map2 (sent_elem (1 - p) (S1 (1 - p))) (dests es) (ys (1 - p)))"
  have T: "T p = upds (dests es) (map (\<lambda>w x. x[p := x ! p + w]) (ws p)) (upds (dests es) (map (\<lambda>y x. x[p := y - x ! (1 - p)]) (ys p)) (S1 p))"
    if "p < 2" for p using R(6) that unfolding Let_def ys_def S1_def ws_def as_def by blast
  have ly: "length (ys p) = length es" for p using assms(7) R(2,3) by (simp add: ys_def)
  have la: "length (as p) = length es" for p using R(3) by (simp add: as_def)
  have lw: "length (ws p) = length es" for p using ly by (simp add: ws_def)
  have di: "distinct (dests es)" using assms(3) by (rule fresh_distinct)
  define y where "y = map2 (+) (ys 0) (ys 1)"
  have elem: "rep3 z2n_ops (y ! j) (\<lambda>i. T i ! fst (es ! j)) \<and>
      (zval (y ! j) = zval (vs ! j) div 2 ^ snd (snd (snd (es ! j))) \<or> zval (y ! j) = zval (vs ! j) div 2 ^ snd (snd (snd (es ! j))) + 1)"
    if j: "j < length es" for j
  proof -
    obtain d s k m where e: "es ! j = (d, s, k, m)" by (metis prod_cases4)
    have de: "dealt (d, s, k, m) (rs ! j) (qs ! j)" using R(4) j e by metis
    have dj: "dests es ! j = d" "j < length (dests es)" using j e by simp_all
    have mem: "(d, s, k, m) \<in> set es" using j e by (metis nth_mem)
    have dN: "d < N" using assms(4) mem by auto
    have x2: "length (S i ! d) = 2" if "i < 3" for i using assms(5) [OF that] dN by simp
    have reg: "T p ! d = (S p ! d)[1 - p := as p ! j, p := ys p ! j - as p ! j + ws p ! j]" "S1 p ! d ! (1 - p) = as p ! j" if p: "p < 2" for p
    proof -
      have "length (S p ! (dests es ! j)) = 2" "dests es ! j < length (S p)" using x2 [of p] len [of p] dN p dj by simp_all
      note pr = party_register [OF di _ _ _ dj(2) this(2) p this(1), of "as p" "ys p" "ws p", folded S1_def, unfolded dj(1)]
      show "T p ! d = (S p ! d)[1 - p := as p ! j, p := ys p ! j - as p ! j + ws p ! j]" "S1 p ! d ! (1 - p) = as p ! j"
        using pr(1) pr(2) la ly lw T [OF p] unfolding S1_def by simp_all
    qed
    have w: "ws p ! j = ys (1 - p) ! j - as (1 - p) ! j" for p
      using reg(2) [of "1 - p"] j ly e by (simp add: ws_def sent_elem_def)
    have a: "as p ! j = qs ! j ! 3 ! p" for p using j R(3) by (simp add: as_def)
    have T2: "T 2 ! d = qs ! j ! 3" using upds_nth [OF di _ dj(2), of "map (\<lambda>q _. q ! 3) qs" "S 2"] R(3,5) dj dN len [of 2] by simp
    have yj: "y ! j = ys 0 ! j + ys 1 ! j" using j ly by (simp add: y_def)
    have "rep3 z2n_ops (ys 0 ! j + ys 1 ! j) (\<lambda>i. T i ! d)"
      by (rule result_sharing [of "S 0 ! d" "S 1 ! d" "qs ! j ! 3"]) (use x2 dealt_shape [OF de] reg(1) [of 0] reg(1) [of 1] w [of 0] w [of 1] T2 in \<open>simp_all add: a\<close>)
    moreover have "ys p ! j = trunc_share p (shifts LENGTH('k) k m) (vs ! j + rs ! j) (qs ! j ! 1 ! p) (qs ! j ! 2 ! p)" for p
      unfolding ys_def using result_shares_nth [OF _ _ _ j e, of "map2 (+) vs rs" "map (\<lambda>q. q ! 1 ! p) qs" "map (\<lambda>q. q ! 2 ! p) qs" p] assms(7) R(2,3) j by simp
    moreover have "m < k" "k < LENGTH('k)" using assms(2) mem by (auto simp: es_def trunc_elems_def list_all_iff)
    moreover have "zval (vs ! j) < 2 ^ k" using assms(8) j e by fastforce
    ultimately show ?thesis using element_result(2) [OF de, of "vs ! j"] e yj by simp
  qed
  have frame: "length (T i) = N \<and> (\<forall>r. r \<notin> set (dests es) \<longrightarrow> T i ! r = S i ! r)" if "i < 3" for i
  proof -
    have "i < 2 \<or> i = 2" using that by auto
    then show ?thesis using T [of i] R(5) len [OF that] by (auto simp: S1_def upds_other)
  qed
  show ?thesis using R(1) elem frame ly by (intro exI [of _ T] exI [of _ G'] exI [of _ y]) (simp add: y_def)
qed

end
