(* ===== verification/Spec2Isabelle.thy ===== *)
theory Spec2Isabelle
  imports Session GCSample GCScan Square64 RandomBits SqrRoot TruncRun
begin

text \<open>
  Trifecta: three-party computation of Boolean circuits with AND gates of any fan-in, a fork of
  MP-SPDZ. This development models the program that \<^verbatim>\<open>Machines/multi-replicated-bin-party.cpp\<close>
  and its relatives run: the bytecode of a binary circuit is parsed, scanned for its sizes and
  executed by three parties on secret-shared bit vectors; the linear instructions are local, AND
  gates, openings and inputs exchange messages.

  \<^bold>\<open>Conventions.\<close> An operation of the source that can throw, fail an assertion or do something
  undefined returns a value of \<open>'a res\<close> (\<open>exn + 'a\<close>, theory \<open>Prelude\<close>): a theorem that
  concludes \<open>Inr\<close> also excludes undefined behaviour, such as an index outside a \<^verbatim>\<open>vector\<close>.
  Objects are records, passed and returned. Machine integers keep their width (\<open>8 word\<close>,
  \<open>32 word\<close>, \<open>64 word\<close>). Loops that may not end are partial functions with values in
  \<open>option\<close>. Code outside the repository's own sources is an argument: the AES block cipher
  \<open>E\<close>, the random octets of the operating system, the memory in which an object is built and
  the numbers that a player types in.

  \<^bold>\<open>Parts and theories.\<close>
  \<^item> \<open>Prelude\<close>: results, exceptions, octets, generic lemmas.
  \<^item> \<open>OctetStream\<close> (\<^verbatim>\<open>Tools/octetStream.*\<close>, \<^verbatim>\<open>Networking/data.h\<close>): buffers of octets,
    the locale \<open>codec\<close> of put and get pairs, framing of messages.
  \<^item> \<open>Prng\<close> (\<^verbatim>\<open>Tools/random.*\<close>): the counter-mode generator as a stream of octets.
  \<^item> \<open>BitVec\<close>, \<open>FixedVec\<close>, \<open>BoolRing\<close>, \<open>ValueOps\<close> (\<^verbatim>\<open>Math/BitVec.h\<close>,
    \<^verbatim>\<open>Math/Integer.h\<close>, \<^verbatim>\<open>Math/FixedVec.h\<close>): 64 bits at once, pairs of them, and the locale
    \<open>value_type\<close> of what the protocol templates ask of \<^verbatim>\<open>T::clear\<close>, interpreted on bit vectors
    and on 64-bit integers.
  \<^item> \<open>Player\<close>, \<open>Parties\<close> (\<^verbatim>\<open>Networking/Player.*\<close>): connections as queues of octets, a step
    relation in which any party may move, independence of the schedule.
  \<^item> \<open>PointerVector\<close> (\<^verbatim>\<open>Tools/PointerVector.h\<close>): the locale \<open>fifo\<close> and its interpretation.
  \<^item> \<open>MultiReplicated\<close> (\<^verbatim>\<open>Protocols/MultiReplicated.*\<close>): the Trifecta protocol object, with
    \<open>prepare_mul\<close>, \<open>exchange\<close>, \<open>finalize_mul\<close>. \<open>TrifectaAlgebra\<close>, \<open>Trifecta\<close>, \<open>TrifectaRun\<close>
    and \<open>TrifectaBatch\<close> prove it: the inclusion-exclusion behind the masks, one gate of each
    fan-in, a batch of gates between three parties.
  \<^item> \<open>Rep3\<close>, \<open>Opening\<close>, \<open>Inputs\<close>, \<open>Session\<close> (\<^verbatim>\<open>Protocols/Replicated*\<close>,
    \<^verbatim>\<open>Protocols/MultiReplicatedMC.*\<close>, \<^verbatim>\<open>Protocols/ReplicatedInput.*\<close>): replicated
    multiplication, opening, private inputs, and their composition.
  \<^item> \<open>Setup\<close>, \<open>RandomBits\<close> (constructors of the protocol classes, \<^verbatim>\<open>GC/RepPrep.hpp\<close>): how the
    parties come to share generators, and the random bits.
  \<^item> \<open>Opcodes\<close>, \<open>Bytecode\<close>, \<open>BytecodeLayout\<close>, \<open>BytecodeTypes\<close>, \<open>GCProgram\<close>
    (\<^verbatim>\<open>Processor/Instruction.*\<close>, \<^verbatim>\<open>GC/Instruction.*\<close>, \<^verbatim>\<open>GC/Program.hpp\<close>): the parser of
    bytecode, its inverse, the scan for register and memory sizes.
  \<^item> \<open>GCProcessor\<close>, \<open>GCHom\<close>, \<open>GCShares\<close>, \<open>Square64\<close> (\<^verbatim>\<open>GC/Processor.*\<close>,
    \<^verbatim>\<open>GC/instructions.h\<close>, \<^verbatim>\<open>GC/ShareSecret.*\<close>, \<^verbatim>\<open>GC/square64.cpp\<close>): the virtual machine. Its
    state is a record over the type of secret registers; the locale \<open>secret_hom\<close> says what a map
    between two such types must preserve, and is interpreted twice: from joint values to the
    shares of a party, and to plain values.
  \<^item> \<open>GCThread\<close>, \<open>GCInputs\<close>, \<open>GCRefine\<close>, \<open>GCRun\<close>, \<open>GCMachine\<close> (\<^verbatim>\<open>GC/ShareThread.hpp\<close>,
    \<^verbatim>\<open>GC/Machine.hpp\<close>): three parties, instruction by instruction, and whole runs; the locale
    \<open>simulation\<close> carries a relation between two machines through the fetch loop.
  \<^item> \<open>GCFrame\<close>, \<open>GCSizes\<close>, \<open>GCScan\<close>: where each instruction writes, and the locales
    \<open>machine_view\<close> and \<open>value_view\<close> of functions of a state that an execution does not change; they are
    interpreted on the sizes of registers and memories, and on what lies beyond the sizes of the scan.
  \<^item> \<open>GCFaults\<close>, \<open>GCSample\<close>: programs on which the code
    does not do what it means to, and a sample program for the witnesses.
  \<^item> \<open>Limbs\<close>, \<open>Montgomery\<close>, \<open>MontgomeryMul\<close>, \<open>Modp\<close>, \<open>ModpConvert\<close>, \<open>ModpSample\<close>
    (\<^verbatim>\<open>Math/mpn_fixed.h\<close>, \<^verbatim>\<open>Math/Zp_Data.*\<close>, \<^verbatim>\<open>Math/modp.*\<close>): numbers as lists of limbs,
    arithmetic modulo a prime in Montgomery form, conversions. \<open>SqrRoot\<close> (\<^verbatim>\<open>Math/bigint.cpp\<close>,
    \<^verbatim>\<open>Math/gfp.hpp\<close>): square roots by the algorithm of Shanks.
  \<^item> \<open>Z2k\<close>, \<open>Z2kOps\<close>, \<open>Z2kType\<close> (\<^verbatim>\<open>Math/Z2k.*\<close>): integers modulo \<open>2 ^ K\<close> over the same lists
    of limbs, signed numbers, inverses and roots bit by bit; the type of normal numbers of a width is
    a commutative ring and interprets \<open>value_type\<close>, so the protocols run over it.
  \<^item> \<open>SemiOpen\<close>, \<open>TruncPr\<close>, \<open>TruncProof\<close>, \<open>TruncRun\<close> (\<^verbatim>\<open>trunc_pr\<close> in
    \<^verbatim>\<open>Protocols/Replicated.hpp\<close>, \<^verbatim>\<open>Protocols/SemiMC.hpp\<close>): truncation of shared numbers, in which
    party 2 deals masks and the other two open the masked value between them.

  \<^bold>\<open>What the theorems show.\<close> From seeds alone a plain program (no constants in secret registers,
  no negation, no random bits, fan-in two to four, secret inputs of player 0 only, not negative)
  computes on shares what it means (\<open>trifecta_session\<close>); the
  layers below are stated on their own: batches of gates, openings, inputs, schedules, local
  instructions. The constructions that a plain program avoids are those for which the code is
  wrong, and each has its own theorem: wide gates, constants, negation, inputs of players 1 and
  2, random bits, dynamic memory, registers that the scan misses. The parser returns on every file, is typed and
  has an inverse; a program writes no register that its scan does not count, but for the cases that
  \<open>scan_bounds\<close> names. The arithmetic under the shares is that of integers modulo a prime or a power
  of two, except for primes just below a power of \<open>2 ^ 64\<close> (\<open>montgomery_carry_lost\<close>).
  Truncation of shared numbers is right up to one unit, and square roots are found whenever they
  exist, with the same exception. Two lemmas of \<^theory_text>\<open>Prng\<close> show that its bounded integers are not uniform.

  \<^bold>\<open>Bounds.\<close> Messages are framed with four octets of length, hence the hypotheses
  \<open>< 2 ^ 32\<close> on the size of a batch. Gate lengths lie between 1 and 64 bits, the width of a
  register. The octets of operands are counted in an \<^verbatim>\<open>int\<close>, hence at most \<open>2 ^ 29 - 1\<close> operands.
  No fuel is used: the loop of the parser is a partial function proved to return, and the machine
  loops are partial functions. On values, \<open>ANDRS\<close> and \<open>BITB\<close> return \<open>Not_Implemented\<close>: theorems about
  runs that end say nothing of programs that execute them (\<open>RandomBits\<close> models random bits apart).

  \<^bold>\<open>Not modelled.\<close> Sockets, SSL, threads and option parsing (operating system); the formatting of
  printed numbers; the vendored \<^verbatim>\<open>mpir\<close> library but for the loops that the fixed-size arithmetic
  calls, and \<^verbatim>\<open>Tools/ezOptionParser.h\<close>; the compiler in Python; the machine for arithmetic programs,
  fields of characteristic two and the other protocols of MP-SPDZ that share the tree (SPDZ,
  Overdrive, MASCOT, BMR, Yao, Shamir), which the Trifecta machines do not run. The
  cryptographic strength of the protocol is not a statement of this development: its theorems
  are about what is computed.
\<close>

unbundle bit_operations_syntax


section \<open>The Trifecta protocol\<close>

text \<open>C4: A batch of AND gates of any fan-in, run by three parties whose pairwise generators are
  in step: no party fails, every result is again a Trifecta sharing of what the gate computes
  on the secrets, and the generators stay in step for the next batch.\<close>

theorem trifecta_and_batch:
  assumes "\<forall>i < 3. my_num (S i) = i" "synced (shared_prngs (S 0)) (shared_prngs (S 1)) (shared_prngs (S 2))"
    "\<forall>g \<in> set gs. gate_ok g" "batch_size gs < 2 ^ 32"
  shows "\<exists>R T. run_batch E gs (S 0) (S 1) (S 2) = Inr ((R 0, T 0), (R 1, T 1), (R 2, T 2)) \<and>
     (\<forall>i < 3. my_num (T i) = i \<and> length (R i) = length gs) \<and>
     synced (shared_prngs (T 0)) (shared_prngs (T 1)) (shared_prngs (T (2 :: nat))) \<and>
     (\<forall>j < length gs. sharing (g_len (gs ! j)) (gate_result (g_vals (gs ! j))) (R 0 ! j) (R 1 ! j) (R 2 ! j))"
  using run_batch_shares [OF assms] .

theorem trifecta_and_batch_witness:
  "\<exists>R T. run_batch (\<lambda>k b. b) [and_gate 8 [3, 5, 7], and_gate 8 [1, 2]] (start_party 0) (start_party 1) (start_party 2)
       = Inr ((R 0, T 0), (R 1, T 1), (R 2, T (2 :: nat))) \<and>
     (\<forall>j < 2. sharing 8 ([1, 0] ! j) (R 0 ! j) (R (1 :: nat) ! j) (R (2 :: nat) ! j))"
proof -
  let ?gs = "[and_gate 8 [3, 5, 7], and_gate 8 [1, 2]]"
  have nums: "\<forall>i < 3. my_num (start_party i) = i" by simp
  have ok: "\<forall>g \<in> set ?gs. gate_ok g" by (auto intro!: and_gate_ok simp: fits_def bv_mask_take_bit)
  have sz: "batch_size ?gs < 2 ^ 32" by (simp add: batch_size_def com_count_def)
  have r: "gate_result [3, 5, 7] = 1" "gate_result [1, 2] = 0" by (simp_all add: gate_result_def and_all_def)
  obtain R T where RT: "run_batch (\<lambda>k b. b) ?gs (start_party 0) (start_party 1) (start_party 2) = Inr ((R 0, T 0), (R 1, T 1), (R 2, T (2 :: nat)))"
    "\<forall>j < length ?gs. sharing (g_len (?gs ! j)) (gate_result (g_vals (?gs ! j))) (R (0 :: nat) ! j) (R 1 ! j) (R 2 ! j)"
    using trifecta_and_batch [OF nums start_synced ok sz, of "\<lambda>k b. b"] by blast
  have "sharing 8 ([1, 0] ! j) (R 0 ! j) (R 1 ! j) (R 2 ! j)" if "j < 2" for j
  proof -
    have "j = 0 \<or> j = 1" using that by auto
    with RT(2) r show ?thesis by auto
  qed
  with RT(1) show ?thesis by blast
qed

text \<open>C5: AND gates with two to four inputs, computed on shares and then opened with
  \<open>MultiReplicatedMC\<close>: all three parties read the bitwise AND of the secrets.\<close>

theorem trifecta_and_opens:
  assumes "\<forall>i < 3. my_num (S i) = i" "synced (shared_prngs (S 0)) (shared_prngs (S 1)) (shared_prngs (S 2))"
    "\<forall>g \<in> set gs. gate_ok g \<and> length (g_vals g) \<le> 4" "batch_size gs < 2 ^ 32" "8 * length gs < 2 ^ 32"
  shows "\<exists>R T U. run_batch E gs (S 0) (S 1) (S 2) = Inr ((R 0, T 0), (R 1, T 1), (R 2, T (2 :: nat))) \<and>
     (let vs = map (\<lambda>g. foldr (AND) (g_vals g) (- 1)) gs
      in multi_popen bitvec_ops R M = Inr ((vs, U 0), (vs, U 1), (vs, U (2 :: nat))))"
proof -
  have "map (\<lambda>g. gate_result (g_vals g)) gs = map (\<lambda>g. foldr (AND) (g_vals g) (- 1)) gs"
    using assms(3) by (simp add: gate_result_def and_all_def)
  with and_then_open [of S gs E M] assms show ?thesis by (simp add: Let_def mult.commute)
qed

theorem trifecta_and_opens_witness:
  "\<exists>R T U. run_batch (\<lambda>k b. b) [and_gate 8 [13, 7, 5, 29]] (start_party 0) (start_party 1) (start_party 2)
       = Inr ((R 0, T 0), (R 1, T 1), (R 2, T (2 :: nat))) \<and>
     multi_popen bitvec_ops R (\<lambda>_. start_mc) = Inr (([5], U 0), ([5], U 1), ([5], U (2 :: nat)))"
proof -
  let ?gs = "[and_gate 8 [13, 7, 5, 29]]"
  have nums: "\<forall>i < 3. my_num (start_party i) = i" by simp
  have ok: "\<forall>g \<in> set ?gs. gate_ok g \<and> length (g_vals g) \<le> 4" by (auto intro!: and_gate_ok simp: fits_def bv_mask_take_bit)
  have sz: "batch_size ?gs < 2 ^ 32" "8 * length ?gs < 2 ^ 32" by (simp_all add: batch_size_def com_count_def)
  have r: "map (\<lambda>g. foldr (AND) (g_vals g) (- 1)) ?gs = [5]" by simp
  show ?thesis
    using trifecta_and_opens [OF nums start_synced ok sz, of "\<lambda>k b. b" "\<lambda>_. start_mc"] by (simp only: r Let_def)
qed

text \<open>C6: An AND gate with more than four inputs keeps only bit 0 of the result: the products of
  the general case start from the value 1 instead of all ones. On inputs whose AND is \<open>v\<close> the
  parties open \<open>v AND 1\<close>.\<close>

theorem trifecta_wide_and_opens:
  assumes "\<forall>i < 3. my_num (S i) = i" "synced (shared_prngs (S 0)) (shared_prngs (S 1)) (shared_prngs (S 2))"
    "gate_ok g" "4 < length (g_vals g)" "8 * com_count (length (g_vals g)) < 2 ^ 32"
  shows "\<exists>R T U. run_batch E [g] (S 0) (S 1) (S 2) = Inr ((R 0, T 0), (R 1, T 1), (R 2, T (2 :: nat))) \<and>
     (let vs = [foldr (AND) (g_vals g) (- 1) AND 1]
      in multi_popen bitvec_ops R M = Inr ((vs, U 0), (vs, U 1), (vs, U (2 :: nat))))"
  using and_then_open [of S "[g]" E M] assms
  by (simp add: Let_def batch_size_def gate_result_def and_all_def)

theorem trifecta_wide_and_opens_witness:
  "\<exists>R T U. run_batch (\<lambda>k b. b) [and_gate 8 [255, 255, 255, 255, 255]] (start_party 0) (start_party 1) (start_party 2)
       = Inr ((R 0, T 0), (R 1, T 1), (R 2, T (2 :: nat))) \<and>
     multi_popen bitvec_ops R (\<lambda>_. start_mc) = Inr (([1], U 0), ([1], U 1), ([1], U (2 :: nat)))"
proof -
  let ?g = "and_gate 8 [255, 255, 255, 255, 255]"
  have nums: "\<forall>i < 3. my_num (start_party i) = i" by simp
  have ok: "gate_ok ?g" by (auto intro!: and_gate_ok simp: fits_def bv_mask_take_bit)
  have sz: "4 < length (g_vals ?g)" "8 * com_count (length (g_vals ?g)) < 2 ^ 32" by (simp_all add: com_count_def)
  have r: "[foldr (AND) (g_vals ?g) (- 1) AND 1] = [1]" by simp
  show ?thesis
    using trifecta_wide_and_opens [OF nums start_synced ok sz, of "\<lambda>k b. b" "\<lambda>_. start_mc"] by (simp only: r Let_def)
qed

text \<open>C7: Private inputs of player 0 (\<open>MultiReplicatedInput\<close>): all messages arrive, every party
  finalizes the same number of shares, and together they are Trifecta sharings of the inputs.\<close>

theorem trifecta_input_shares:
  assumes "\<forall>i < 3. in_inv i (S i)" "\<forall>nx \<in> set xs. \<exists>n. fst nx = Some n \<and> 0 < n \<and> n \<le> 64 \<and> fits n (snd nx)"
    "xs \<noteq> []" "16 * length xs < 2 ^ 32"
  shows "\<exists>P Q T. multi_input_round bitvec_ops E 0 xs S = Inr (P, Q) \<and>
     (\<forall>i < 3. \<exists>s. finalize_inputs (multi_finalize bitvec_ops 0) (map fst xs) (Q i) = Inr (T i, s) \<and> length (T i) = length xs) \<and>
     (\<forall>j < length xs. sharing (the (fst (xs ! j))) (snd (xs ! j)) (T 0 ! j) (T 1 ! j) (T (2 :: nat) ! j))"
proof -
  let ?ms = "input_masks bitvec_ops E (map fst xs) (in_prng (S 0))"
  have ok: "\<forall>(n, x) \<in> set xs. bv_okn n \<and> bv_fit n x" using assms(2) by (auto simp: bv_okn_def bv_fit_def)
  have hd: "fst (hd xs) \<noteq> Some 0" using assms(2,3) by (cases xs) auto
  obtain P Q where PQ: "multi_input_round bitvec_ops E 0 xs S = Inr (P, Q)" "list_all2 bvt.pair_fit xs ?ms"
    "\<forall>i < 3. \<exists>s. finalize_inputs (multi_finalize bitvec_ops 0) (map fst xs) (Q i) = Inr (input_shares 0 xs ?ms i, s)"
    using input_round [of S 0 xs E, OF _ _ ok assms(4,3) hd] assms(1) by auto
  have "length (input_shares 0 xs ?ms i) = length xs" for i
    by (simp add: input_shares_def)
  moreover have "sharing (the (fst (xs ! j))) (snd (xs ! j)) (input_shares 0 xs ?ms 0 ! j) (input_shares 0 xs ?ms 1 ! j) (input_shares 0 xs ?ms 2 ! j)"
    if j: "j < length xs" for j
  proof -
    obtain n where "fst (xs ! j) = Some n" using assms(2) nth_mem [OF j] by blast
    with input_0_sharing [OF PQ(2) j] show ?thesis by simp
  qed
  ultimately show ?thesis using PQ(1,3) by (intro exI [of _ P] exI [of _ Q] exI [of _ "input_shares 0 xs ?ms"]) simp
qed

theorem trifecta_input_shares_witness:
  "\<exists>P Q T. multi_input_round bitvec_ops (\<lambda>k b. b) 0 [(Some 8, 77), (Some 1, 1)] start_input = Inr (P, Q) \<and>
     (\<forall>i < 3. \<exists>s. finalize_inputs (multi_finalize bitvec_ops 0) [Some 8, Some 1] (Q i) = Inr (T i, s) \<and> length (T i) = 2) \<and>
     (\<forall>j < 2. sharing ([8, 1] ! j) ([77, 1] ! j) (T 0 ! j) (T 1 ! j) (T (2 :: nat) ! j))"
proof -
  let ?xs = "[(Some 8, 77), (Some 1, 1)] :: (nat option \<times> bitvec) list"
  have inv: "\<forall>i < 3. in_inv i (start_input i)" using start_input_inv by blast
  have ok: "\<forall>nx \<in> set ?xs. \<exists>n. fst nx = Some n \<and> 0 < n \<and> n \<le> 64 \<and> fits n (snd nx)"
    by (auto simp: fits_def bv_mask_take_bit)
  have sz: "?xs \<noteq> []" "16 * length ?xs < 2 ^ 32" by simp_all
  obtain P Q T where 1: "multi_input_round bitvec_ops (\<lambda>k b. b) 0 ?xs start_input = Inr (P, Q)"
    "\<forall>i < 3. \<exists>s. finalize_inputs (multi_finalize bitvec_ops 0) (map fst ?xs) (Q i) = Inr (T i, s) \<and> length (T i) = length ?xs"
    "\<forall>j < length ?xs. sharing (the (fst (?xs ! j))) (snd (?xs ! j)) (T 0 ! j) (T 1 ! j) (T (2 :: nat) ! j)"
    using trifecta_input_shares [OF inv ok sz, of "\<lambda>k b. b"] by blast
  have "sharing ([8, 1] ! j) ([77, 1] ! j) (T 0 ! j) (T 1 ! j) (T 2 ! j)" if "j < 2" for j
  proof -
    have "j = 0 \<or> j = 1" using that by auto
    with 1(3) show ?thesis by auto
  qed
  with 1(1,2) show ?thesis by (intro exI [of _ P] exI [of _ Q] exI [of _ T]) simp
qed

text \<open>C8: The inputs of player 1 are not shared in the format that \<open>MultiReplicatedMC\<close> opens:
  with the masks \<open>a\<close> and \<open>b\<close> that player 1 draws for an input \<open>x\<close>, party 0 opens
  \<open>x XOR a XOR b\<close>, party 1 opens \<open>a XOR b\<close>, and only party 2 reads \<open>x\<close>.\<close>

theorem trifecta_input_of_player_1:
  assumes "\<forall>i < 3. in_inv i (S i)" "0 < n" "n \<le> 64" "fits n x"
  shows "\<exists>P Q T U. multi_input_round bitvec_ops E 1 [(Some n, x)] S = Inr (P, Q) \<and>
     (\<forall>i < 3. \<exists>s. finalize_inputs (multi_finalize bitvec_ops 1) [Some n] (Q i) = Inr (T i, s)) \<and>
     (let (a, G) = bv_randomize E (in_prng (S 1)) n; (b, _) = bv_randomize E G n
      in multi_popen bitvec_ops T M = Inr (([x XOR a XOR b], U 0), ([a XOR b], U 1), ([x], U (2 :: nat))))"
proof -
  let ?xs = "[(Some n, x)]"
  let ?ms = "input_masks bitvec_ops E (map fst ?xs) (in_prng (S 1))"
  obtain a G b H where ab: "bv_randomize E (in_prng (S 1)) n = (a, G)" "bv_randomize E G n = (b, H)"
    by (metis surj_pair)
  have ok: "\<forall>(n, x) \<in> set ?xs. bv_okn n \<and> bv_fit n x" using assms(3,4) by (auto simp: bv_okn_def bv_fit_def)
  obtain P Q where PQ: "multi_input_round bitvec_ops E 1 ?xs S = Inr (P, Q)"
    "\<forall>i < 3. \<exists>s. finalize_inputs (multi_finalize bitvec_ops 1) (map fst ?xs) (Q i) = Inr (input_shares 1 ?xs ?ms i, s)"
    using input_round [of S 1 ?xs E, OF _ _ ok] assms(1,2) by auto
  have ms: "?ms = [(a, b)]" using ab by (simp add: bitvec_ops_def)
  from input_shares_open [of ?ms ?xs 1 M]
  have "\<exists>U. multi_popen bitvec_ops (input_shares 1 ?xs ?ms) M = Inr (([x XOR a XOR b], U 0), ([a XOR b], U 1), ([x], U (2 :: nat)))"
    unfolding ms by (simp add: opened_input_def)
  with PQ show ?thesis using ab by (intro exI [of _ P] exI [of _ Q] exI [of _ "input_shares 1 ?xs ?ms"]) auto
qed

theorem trifecta_input_of_player_1_witness:
  "\<exists>P Q T U. multi_input_round bitvec_ops (\<lambda>k b. b) 1 [(Some 4, 5)] start_input = Inr (P, Q) \<and>
     (\<forall>i < 3. \<exists>s. finalize_inputs (multi_finalize bitvec_ops 1) [Some 4] (Q i) = Inr (T i, s)) \<and>
     (let (a, G) = bv_randomize (\<lambda>k b. b) PRNG_init 4; (b, _) = bv_randomize (\<lambda>k b. b) G 4
      in multi_popen bitvec_ops T (\<lambda>_. start_mc) = Inr (([5 XOR a XOR b], U 0), ([a XOR b], U 1), ([5], U (2 :: nat))))"
proof -
  have i: "\<forall>i < 3. in_inv i (start_input i)" using start_input_inv by blast
  have f: "fits 4 5" by (simp add: fits_def bv_mask_take_bit)
  have p: "in_prng (start_input 1) = PRNG_init" by (simp add: start_input_def)
  show ?thesis
    using trifecta_input_of_player_1 [OF i _ _ f, of "\<lambda>k b. b" "\<lambda>_. start_mc"] unfolding p by simp
qed


text \<open>C14: The Trifecta exchange cannot deadlock and its outcome does not depend on the order in
  which the three parties run: from every state that some interleaving of sends and receives
  reaches, the finished state that \<open>exchange\<close> computes is still reached.\<close>

theorem trifecta_exchange_schedules:
  assumes "\<forall>s \<in> {s0, s1, s2}. length (ostreams s) = 4 \<and> (\<forall>k < 2. small (ostreams s ! k))"
  shows "\<exists>f. exchange s0 s1 s2 = Some (s0\<lparr>ostreams := streams f 0\<rparr>, s1\<lparr>ostreams := streams f 1\<rparr>, s2\<lparr>ostreams := streams f 2\<rparr>)
    \<and> finished f \<and> (\<forall>c. comm_step\<^sup>*\<^sup>* (exchange_net s0 s1 s2) c \<longrightarrow> comm_step\<^sup>*\<^sup>* c f)"
proof -
  obtain f where f: "run_schedule exchange_schedule (exchange_net s0 s1 s2) = Some f" "finished f"
    using exchange_run [of s0 s1 s2] assms by auto
  then show ?thesis
    using schedule_independent [OF f] by (auto simp: exchange_def exchange_schedule_def)
qed

theorem trifecta_exchange_schedules_witness:
  "\<exists>f. exchange (init_mul (start_party 0)) (init_mul (start_party 1)) (init_mul (start_party 2)) =
      Some ((init_mul (start_party 0))\<lparr>ostreams := streams f 0\<rparr>, (init_mul (start_party 1))\<lparr>ostreams := streams f 1\<rparr>,
        (init_mul (start_party 2))\<lparr>ostreams := streams f 2\<rparr>) \<and> finished f"
proof -
  have "\<forall>s \<in> {init_mul (start_party 0), init_mul (start_party 1), init_mul (start_party 2)}.
      length (ostreams s) = 4 \<and> (\<forall>k < 2. small (ostreams s ! k))"
    by (auto simp: init_mul_def start_party_def less_Suc_eq numeral_2_eq_2 small_def reset_write_head_def empty_stream_def os_inv_def)
  from trifecta_exchange_schedules [OF this] show ?thesis by blast
qed

section \<open>Replicated secret sharing\<close>

text \<open>C15: A batch of multiplications of 64-bit integers with replicated sharing, opened with
  \<open>ReplicatedMC\<close>: all three parties read the products modulo \<open>2 ^ 64\<close>, and the generators
  stay in step.\<close>

theorem replicated_multiply_opens:
  assumes "rep_synced S" "\<forall>g \<in> set gs. rep3 integer_ops (rg_x g) (rg_sx g) \<and> rep3 integer_ops (rg_y g) (rg_sy g)"
    "8 * length gs < 2 ^ 32"
  shows "\<exists>W T U. rep_run integer_ops E gs S = Inr ((W 0, T 0), (W 1, T 1), (W 2, T 2)) \<and> rep_synced T \<and>
    (let vs = map (\<lambda>g. rg_x g * rg_y g) gs
     in rep_popen integer_ops W M = Inr ((vs, U 0), (vs, U 1), (vs, U (2 :: nat))))"
proof -
  have m: "map (\<lambda>g. v_mul integer_ops (rg_x g) (rg_y g)) gs = map (\<lambda>g. rg_x g * rg_y g) gs"
    by (simp add: integer_ops_def Integer_mul_def)
  have f: "\<forall>g \<in> set gs. itv.gate_fit g" using assms(2) by (simp add: itv.gate_fit_def)
  have sz: "v_size integer_ops * length gs < 2 ^ 32" using assms(3) by (simp add: integer_ops_def)
  show ?thesis using itv.rep_run_then_open [OF assms(1) f sz, of E M] unfolding m Let_def by blast
qed

theorem replicated_multiply_opens_witness:
  "\<exists>W T U. rep_run integer_ops (\<lambda>k b. b) [rep_gate integer_ops 6 7, rep_gate integer_ops (- 1) 3] (start_replicated integer_ops)
      = Inr ((W 0, T 0), (W 1, T 1), (W 2, T (2 :: nat))) \<and>
    rep_popen integer_ops W (\<lambda>_. start_mc) = Inr (([42, - 3], U 0), ([42, - 3], U 1), ([42, - 3], U (2 :: nat)))"
proof -
  let ?gs = "[rep_gate integer_ops 6 7, rep_gate integer_ops (- 1) 3]"
  have ok: "\<forall>g \<in> set ?gs. rep3 integer_ops (rg_x g) (rg_sx g) \<and> rep3 integer_ops (rg_y g) (rg_sy g)"
    by (simp add: rep_gate_def itv.rep3_constant)
  have sz: "8 * length ?gs < 2 ^ 32" by simp
  have r: "map (\<lambda>g. rg_x g * rg_y g) ?gs = [42, - 3]" by (simp add: rep_gate_def)
  show ?thesis
    using replicated_multiply_opens [OF start_rep_synced ok sz, where E = "\<lambda>k b. b" and M = "\<lambda>_. start_mc"] unfolding r Let_def by blast
qed

text \<open>C24: \<open>Replicated::get_random\<close>: without any communication the parties obtain a replicated
  sharing (the two copies of every summand agree), and their generators stay in step.\<close>

theorem replicated_random_shares:
  assumes "rep_synced S"
  shows "\<exists>t S'. (\<forall>i < 3. rep_get_random bitvec_ops E (S i) = Inr (t i, S' i)) \<and> rep_synced S' \<and>
    rep3 bitvec_ops (t 0 ! 0 XOR t 1 ! 0 XOR t 2 ! 0) t"
proof -
  have "v_add bitvec_ops = (XOR)" by (simp add: fun_eq_iff bitvec_ops_def bv_add_def)
  with bvt.get_random_sharing [OF assms, of E] show ?thesis by (simp add: xor.assoc)
qed

theorem replicated_random_shares_witness:
  "\<exists>t S'. (\<forall>i < 3. rep_get_random bitvec_ops (\<lambda>k b. b) (start_replicated bitvec_ops i) = Inr (t i, S' i)) \<and>
    rep3 bitvec_ops (t 0 ! 0 XOR t 1 ! 0 XOR t 2 ! 0) t"
  using replicated_random_shares [OF start_rep_synced, where E = "\<lambda>k b. b"] by blast

section \<open>Streams and generators\<close>

text \<open>C25: Octet streams: whatever vector of 64-bit words is stored into a stream with everything
  read is read back by \<open>get\<close>, up to the last octet.\<close>

theorem stream_vector_roundtrip:
  assumes "os_inv s" "unread s = []" "length vs < 2 ^ 64"
  shows "\<exists>s1 s2. store_vector (\<lambda>w. store_int w 8) vs s = Inr s1 \<and> get_vector (get_int 8) s1 = Inr (vs, s2) \<and> unread s2 = []"
  using int_codec.store_vector_roundtrip [OF assms(1,2) _ assms(3), of 8] by (simp add: take_bit_word_eq_self)

theorem stream_vector_roundtrip_witness:
  "\<exists>s1 s2. store_vector (\<lambda>w. store_int w 8) [1, 2, - 1] empty_stream = Inr s1 \<and> get_vector (get_int 8) s1 = Inr ([1, 2, - 1], s2) \<and> unread s2 = []"
  using stream_vector_roundtrip [of empty_stream "[1, 2, - 1]"] by simp

text \<open>C26: Every append stays inside the allocated block and adds exactly its octets behind the
  write head, whatever the stream, and a read beyond the written octets throws.\<close>

theorem stream_append_consume:
  assumes "os_inv s"
  shows "\<exists>s'. append x s = Inr s' \<and> os_inv s' \<and> contents s' = contents s @ x \<and> unread s' = unread s @ x \<and>
    (\<forall>l > length (unread s). consume l s = Inl (Runtime_Error ''insufficient data''))"
  using append_extends [OF assms, of x] extends_unread [OF _ assms] consume_too_few [OF assms]
  by (auto simp: extends_def)

theorem stream_append_consume_witness:
  "\<exists>s'. append [1, 2, 3] empty_stream = Inr s' \<and> contents s' = [1, 2, 3] \<and>
    consume 1 empty_stream = Inl (Runtime_Error ''insufficient data'')"
  using stream_append_consume [of empty_stream "[1, 2, 3]"] by auto

text \<open>C27: Framing: what one party sends, the other receives unchanged, and the octets behind the
  frame stay in the connection.\<close>

theorem send_receive_roundtrip:
  assumes "os_inv s" "os_len s < 2 ^ 32" "os_inv t"
  shows "\<exists>q t'. Send s sock = Inr (sock @ q) \<and> Receive (q @ tail) t = Inr (t', tail) \<and> contents t' = contents s \<and> unread t' = contents s"
  using Send_frame [OF assms(2), of sock] Receive_frame [OF assms, of tail] by (auto simp: unread_def)

theorem send_receive_roundtrip_witness:
  "\<exists>q t'. Send (new_stream 4) [] = Inr q \<and> Receive (q @ [9]) empty_stream = Inr (t', [9]) \<and> contents t' = []"
proof -
  have "os_len (new_stream 4) < 2 ^ 32" by (simp add: new_stream_def)
  from send_receive_roundtrip [OF os_inv_new_stream(1) this os_inv_empty(1), of "[]" "[9]"] show ?thesis by auto
qed

text \<open>C28: The generator is a stream: for every position of the read pointer in the block, drawing
  \<open>m + n\<close> octets at once is drawing \<open>m\<close> and then \<open>n\<close>, as many octets as asked for are
  returned, and the invariant of the generator is kept.\<close>

theorem prng_stream:
  assumes "cipher_ok E" "prng_inv G"
  shows "get_octets E (m + n) G = (let (xs, G1) = get_octets E m G; (ys, G2) = get_octets E n G1 in (xs @ ys, G2)) \<and>
    length (fst (get_octets E n G)) = n \<and> prng_inv (snd (get_octets E n G))"
  using get_octets_add [OF assms, of m n] get_octets_props [OF assms, of n] by (metis prod.collapse)

lemma PRNG_init_inv: "prng_inv PRNG_init"
  by (simp add: prng_inv_def PRNG_init_def rand_sizes)

theorem prng_stream_witness:
  "length (fst (get_octets (\<lambda>k b. b) 300 PRNG_init)) = 300 \<and>
   get_octets (\<lambda>k b. b) 300 PRNG_init = (let (xs, G1) = get_octets (\<lambda>k b. b) 100 PRNG_init; (ys, G2) = get_octets (\<lambda>k b. b) 200 G1 in (xs @ ys, G2))"
  using prng_stream [of "\<lambda>k b. b" PRNG_init 100 200] prng_stream [of "\<lambda>k b. b" PRNG_init 0 300] PRNG_init_inv
  by (simp add: cipher_ok_def)

text \<open>C29: \<open>PRNG::get_bit\<close> shifts its cached word before it tests the low bit: of 64 bits taken from
  an empty cache the last one is always 0 and bit 0 of the drawn word is never used.\<close>

theorem prng_bits:
  assumes "n_cached_bits G = 0"
  shows "fst (get_bits E 64 G) = map (bit (fst (get_word E G))) [1..<65] \<and> \<not> last (fst (get_bits E 64 G))"
  using get_bits_word [OF assms] get_bits_word_last [OF assms] by (metis prod.collapse)

theorem prng_bits_witness: "\<not> last (fst (get_bits (\<lambda>k b. b) 64 PRNG_init))"
proof -
  have "n_cached_bits PRNG_init = 0" by (simp add: PRNG_init_def)
  from prng_bits [OF this] show ?thesis by blast
qed


section \<open>Programs\<close>



text \<open>C2: Programs that load no constant into secret registers, negate no secret register, draw no
  random bits, have AND gates with two to four inputs and take secret inputs from player 0
  only, which are not negative, compute what they mean: the parties open the values of the run in which
  gates are bitwise conjunctions, whenever that run ends. The batches of gates, openings and inputs of an
  instruction fit a message (\<open>program_ok\<close>). For inputs of player 1 the conclusion fails
  (\<open>trifecta_input_of_player_1\<close>).\<close>

theorem trifecta_plain_program:
  assumes "\<forall>i < 3. my_num (mul i) = i" "synced (shared_prngs (mul 0)) (shared_prngs (mul 1)) (shared_prngs (mul 2))"
    "\<forall>f \<in> set (files 0). \<forall>sh. 0 \<le> f sh" "environment_ok env" "program_ok (instrs P)" "\<forall>ins \<in> set (instrs P). plain_instr ins"
    "clear_run id and_all (instrs P) (start_clear P arg files) = Some (Inr c)"
  shows "\<exists>st. tri_run E env (instrs P) (start_tri P arg mul mc files) = Some (Inr st) \<and>
    (\<forall>i < 3. rC (t_proc st i) = rC (c_proc c) \<and> rI (t_proc st i) = rI (c_proc c) \<and> p_out (t_proc st i) = p_out (c_proc c))"
  using program_simulated [of mul files env P arg c E mc] program_means [OF assms(6,7)] assms(1-5) by blast

theorem trifecta_plain_program_witness:
  "\<exists>st. tri_run (\<lambda>k b. b) sample_env sample_program (start_tri (sized_program 4 sample_program) 0 start_party (\<lambda>_. start_mc) sample_files) = Some (Inr st) \<and>
    rC (t_proc st 0) = [8] \<and> rC (t_proc st 1) = [8] \<and> rC (t_proc st 2) = [8]"
proof -
  have i: "instrs (sized_program 4 sample_program) = sample_program" by (simp add: sized_program_def)
  have nums: "\<forall>i < 3. my_num (start_party i) = i" by simp
  from trifecta_plain_program [where P = "sized_program 4 sample_program", unfolded i, OF nums start_synced sample_files_nonneg sample_env_ok
      sample_program_ok sample_program_plain sample_run, of "\<lambda>k b. b" "\<lambda>_. start_mc"]
  obtain st where "tri_run (\<lambda>k b. b) sample_env sample_program (start_tri (sized_program 4 sample_program) 0 start_party (\<lambda>_. start_mc) sample_files) = Some (Inr st)"
    "\<forall>i < 3. rC (t_proc st i) = [8]" by auto
  then show ?thesis by (intro exI [of _ st]) simp
qed

text \<open>C9: Every instruction that a party executes by itself acts on shares as on values, errors
  included: executing it on party \<open>i\<close>'s shares of joint registers gives the shares of the
  result, or the same error as on the values.\<close>

theorem local_instructions_on_shares:
  "execute_local share_ops ins (map_proc (share_of i) J) = map_res (map_proc (share_of i)) (execute_local joint_ops ins J) \<and>
   execute_local (value_secret (\<lambda>_. 0)) ins (map_proc fst J) = map_res (map_proc fst) (execute_local joint_ops ins J)"
  using party.execute_local_hom [of ins i J] vals.execute_local_hom [of ins J] by simp

text \<open>C10: A constant loaded into a secret register is lost: \<open>load_clear\<close> writes it into both
  components at every party, which is a sharing of 0. Opening it gives 0 at all parties,
  where the program means the constant.\<close>

theorem constants_open_as_zero:
  assumes "\<forall>i < 3. my_num (mul i) = i" "synced (shared_prngs (mul 0)) (shared_prngs (mul 1)) (shared_prngs (mul 2))"
    "\<forall>f \<in> set (files 0). \<forall>sh. 0 \<le> f sh" "environment_ok env" "instrs P = constant_program n v" "1 \<le> n" "n \<le> 64" "uint v < 2 ^ nat n"
    "0 < num_reg SBIT P" "0 < num_reg CBIT P"
  shows "\<exists>st. tri_run E env (instrs P) (start_tri P arg mul mc files) = Some (Inr st) \<and> (\<forall>i < 3. rC (t_proc st i) ! 0 = 0) \<and>
    (\<exists>c. clear_run id and_all (instrs P) (start_clear P arg files) = Some (Inr c) \<and> rC (c_proc c) ! 0 = bv_mask (ucast v) (nat n))"
proof -
  obtain x xs y ys where s: "rS (c_proc (start_clear P arg files)) = x # xs" "rC (c_proc (start_clear P arg files)) = y # ys"
    using start_clear_registers(1,2) [OF assms(9,10), of arg files] by blast
  note run = constant_program_run [OF assms(6-8) s start_clear_registers(3) [OF assms(9,10)]]
  obtain c where c: "clear_run (\<lambda>_. 0) gate_result (instrs P) (start_clear P arg files) = Some (Inr c)" "rC (c_proc c) ! 0 = 0"
    using run [of "\<lambda>_. 0" gate_result] assms(5) by (auto simp: bv_mask_take_bit)
  have ok: "program_ok (instrs P)" using constant_program_ok [OF assms(6,7)] assms(5) by simp
  show ?thesis
    using program_simulated [of mul files env P arg c E mc, OF assms(1-4) ok c(1)] c(2) run [of id and_all] assms(5) by auto
qed

theorem constants_open_as_zero_witness:
  "\<exists>st. tri_run (\<lambda>k b. b) sample_env (constant_program 8 5)
       (start_tri (sized_program 1 (constant_program 8 5)) 0 start_party (\<lambda>_. start_mc) sample_files) = Some (Inr st) \<and> (\<forall>i < 3. rC (t_proc st i) ! 0 = 0)"
proof -
  have i: "instrs (sized_program 1 (constant_program 8 5)) = constant_program 8 5" by (simp add: sized_program_def)
  have nums: "\<forall>i < 3. my_num (start_party i) = i" by simp
  have r: "0 < num_reg SBIT (sized_program 1 (constant_program 8 5))" "0 < num_reg CBIT (sized_program 1 (constant_program 8 5))"
    by (simp_all add: num_reg_def sized_program_def)
  have v: "(1 :: int) \<le> 8" "(8 :: int) \<le> 64" "uint (5 :: 32 word) < 2 ^ nat 8" by simp_all
  from constants_open_as_zero [where mul = start_party and files = sample_files and E = "\<lambda>k b. b" and mc = "\<lambda>_. start_mc" and arg = 0,
      OF nums start_synced sample_files_nonneg sample_env_ok i v r]
  show ?thesis unfolding i by auto
qed

text \<open>C11: Negation (\<open>NOTS\<close>) rests on such a constant: at the parties the result register stands for
  the operand itself, cut to its bits, and not for its complement.\<close>

theorem negation_keeps_the_value:
  assumes "refines c st" "environment_ok env" "i_opcode ins = NOTS" "1 \<le> sint (i_n ins)" "sint (i_n ins) \<le> 64"
    "0 \<le> get_r ins 0" "get_r ins 0 < int (length (rS (c_proc c)))" "0 \<le> get_r ins 1" "get_r ins 1 < int (length (rS (c_proc c)))"
  shows "\<exists>c' st'. tri_execute E env ins st = Inr st' \<and> refines c' st' \<and>
    rS (c_proc c') = (rS (c_proc c))[nat (get_r ins 0) := rS (c_proc c) ! nat (get_r ins 1) AND get_mask (sint (i_n ins))]"
proof -
  let ?p = "(c_proc c)\<lparr>rS := (rS (c_proc c))[nat (get_r ins 0) := rS (c_proc c) ! nat (get_r ins 1) AND get_mask (sint (i_n ins))]\<rparr>"
  have "clear_execute (\<lambda>_. 0) gate_result ins c = Inr (c\<lparr>c_proc := ?p\<rparr>)"
    using nots_value [OF assms(4,5,8,9,6,7)] assms(3) by (simp add: clear_execute_def execute_local_def)
  moreover have "instr_ok ins" using assms(3) by (simp add: instr_ok_def)
  ultimately show ?thesis using execute_refines [OF assms(1,2), of ins _ E] by fastforce
qed

theorem negation_keeps_the_value_witness:
  "\<exists>st'. tri_execute (\<lambda>k b. b) sample_env \<lparr>i_opcode = NOTS, i_size = 1, i_r = [0, 1, 0, 0], i_n = 8, i_start = []\<rparr>
     (start_tri (sized_program 2 []) 0 start_party (\<lambda>_. start_mc) sample_files) = Inr st'"
proof -
  let ?P = "sized_program 2 []"
  have nums: "\<forall>i < 3. my_num (start_party i) = i" by simp
  note r = start_refines [of start_party sample_files ?P 0 "\<lambda>_. start_mc", OF nums start_synced sample_files_nonneg]
  have l: "length (rS (c_proc (start_clear ?P 0 sample_files))) = 2"
    using start_clear_sizes [of ?P 0 sample_files] by (simp add: sizes_def num_reg_def sized_program_def)
  from negation_keeps_the_value [OF r sample_env_ok, of "\<lparr>i_opcode = NOTS, i_size = 1, i_r = [0, 1, 0, 0], i_n = 8, i_start = []\<rparr>" "\<lambda>k b. b"]
  show ?thesis unfolding l by (auto simp: get_r_def)
qed


text \<open>C12: The scan that sizes the register file reads an AND gate in another format than the one
  that is executed: for a gate with two inputs and \<open>n\<close> bits it allocates \<open>n + 1\<close> secret
  registers, whatever the registers of the gate are. A program whose gate writes a higher
  register leaves the register file, on the values and at the parties.\<close>

theorem and_gate_outside_registers:
  assumes "compute_constants \<lparr>instrs = [and_instruction n out a b], max_reg = mr, max_mem = mm\<rparr> = Inr P"
    "1 \<le> n" "n \<le> 64" "0 \<le> a" "a \<le> n" "0 \<le> b" "b \<le> n" "n < out"
  shows "uint (num_reg SBIT P) = n + 1 \<and>
    clear_run id and_all (instrs P) (start_clear P arg files) = Some (Inl (Undefined_Behaviour ''vector index'')) \<and>
    (\<forall>st. tri_execute E env (and_instruction n out a b) (start_tri P arg mul mc files) \<noteq> Inr st)"
  using and_instruction_program(2) [OF assms(1)] and_instruction_overflows [OF assms(1-3), of id and_all arg files] and_instruction_parties [OF assms(1-3)] assms
  by auto

theorem and_gate_outside_registers_witness:
  "\<exists>P. compute_constants \<lparr>instrs = [and_instruction 1 5 0 1], max_reg = \<lambda>_. 0, max_mem = \<lambda>_. 0\<rparr> = Inr P \<and> uint (num_reg SBIT P) = 2 \<and>
    clear_run id and_all (instrs P) (start_clear P 0 sample_files) = Some (Inl (Undefined_Behaviour ''vector index''))"
proof -
  have "\<exists>P. compute_constants \<lparr>instrs = [and_instruction 1 5 0 1], max_reg = \<lambda>_. 0, max_mem = \<lambda>_. 0\<rparr> = Inr P"
  proof -
    have "get_max_reg t (and_instruction 1 5 0 1) = Inr (if t = SBIT then 2 else 0)" for t
      using and_instruction_max_reg [of 1 5 0 1] by (cases "t = SBIT") (simp_all add: get_max_reg_def get_reg_type_def is_gf2n_instruction_def and_instruction_def)
    then show ?thesis by (simp add: compute_constants_def reg_types_def scan_type_def)
  qed
  then obtain P where P: "compute_constants \<lparr>instrs = [and_instruction 1 5 0 1], max_reg = \<lambda>_. 0, max_mem = \<lambda>_. 0\<rparr> = Inr P" ..
  with and_gate_outside_registers [OF P, of 0 sample_files] show ?thesis by auto
qed

text \<open>C20: Registers and memories keep their sizes while a program runs on the values, so that the
  sizes are those that the reset took from the scan of the program; the dynamic memory, which
  no reset of the threads touches, stays empty.\<close>

theorem sizes_are_kept:
  assumes "clear_run k gate prog (start_clear P arg files) = Some (Inr c)"
  shows "sizes (c_proc c) = [unat (num_reg SBIT P), unat (num_reg CBIT P), unat (num_reg INT_REG P),
     unat (direct_mem SBIT P), unat (direct_mem CBIT P), unat (direct_mem INT_REG P), 0]"
  using clear_run_sizes [OF assms] start_clear_sizes by metis

theorem sizes_are_kept_witness:
  "\<exists>c. clear_run id and_all sample_program (start_clear (sized_program 4 sample_program) 0 sample_files) = Some (Inr c) \<and>
    sizes (c_proc c) = [4, 1, 1, 0, 0, 0, 0]"
  using sizes_are_kept [OF sample_run] sample_run by (simp add: num_reg_def direct_mem_def sized_program_def)



text \<open>C22: An input of 65 bits loses bit 63: the check accepts it, but the first 64-bit chunk, read with
  \<open>mpz_get_si\<close>, has its top bit cleared.\<close>

theorem wide_input_loses_bit_63:
  assumes "2 ^ 63 \<le> w" "w < 2 ^ 64"
  shows "check_input w 65 = Inr () \<and> input_chunk w 0 = word_of_int (w - 2 ^ 63) \<and> input_chunk w 0 \<noteq> word_of_int w"
proof -
  have "drop_bit 64 w = 0" using assms by (simp add: drop_bit_eq_div)
  then have 1: "check_input w 65 = Inr ()" by (simp add: check_input_def Let_def)
  have "take_bit 63 (w - 2 ^ 63 + 1 * 2 ^ 63) = take_bit 63 (w - 2 ^ 63)" unfolding take_bit_eq_mod by (rule mod_mult_self1)
  then have "take_bit 63 w = w - 2 ^ 63" using assms by (simp add: take_bit_int_eq_self)
  then have 2: "input_chunk w 0 = word_of_int (w - 2 ^ 63)"
    using assms by (simp add: input_chunk_def mpz_get_si_nonneg take_bit_of_int)
  have "uint (word_of_int (w - 2 ^ 63) :: word64) = w - 2 ^ 63" "uint (word_of_int w :: word64) = w"
    unfolding unsigned_of_int using assms by (simp_all add: take_bit_int_eq_self)
  then have "(word_of_int (w - 2 ^ 63) :: word64) \<noteq> word_of_int w" by (metis diff_eq_eq add_cancel_right_right power_not_zero zero_neq_numeral)
  with 1 2 show ?thesis by simp
qed

theorem wide_input_loses_bit_63_witness: "input_chunk (2 ^ 63 + 5) 0 = 5 \<and> check_input (2 ^ 63 + 5) 65 = Inr ()"
  using wide_input_loses_bit_63 [of "2 ^ 63 + 5"] by simp

section \<open>Bytecode\<close>

text \<open>C16: Any program of well-formed instructions, written in the bytecode format of the compiler
  (big-endian words, operand counts before variable operands), is parsed back unchanged. The parser
  counts the octets of variable operands in an \<^verbatim>\<open>int\<close>: well-formed instructions have fewer than
  \<open>2 ^ 29\<close> operands.\<close>

theorem bytecode_roundtrip:
  assumes "list_all wf_instruction p" "\<forall>ins \<in> set p. i_opcode ins \<in> set bit_instructions \<union> set gc_instructions"
  shows "parse_instructions d (concat (map encode_instruction p)) = Inr p"
  using parse_instructions_encode [OF assms] .

theorem bytecode_roundtrip_witness: "parse_instructions 40 (concat (map encode_instruction sample_program)) = Inr sample_program"
  using bytecode_roundtrip [OF sample_program_wf sample_program_codes] .

text \<open>C18: Whatever the octets of a bytecode file, every instruction that the parser returns has the
  types of \<open>BaseInstruction\<close>: ten bits of opcode, a positive size of at most 22 bits, four
  registers, 32-bit arguments, and an opcode that the machine executes.\<close>

theorem bytecode_types:
  assumes "parse_instructions d s = Inr p" "ins \<in> set p"
  shows "i_opcode ins < 1024 \<and> 0 < i_size ins \<and> i_size ins < 2 ^ 22 \<and> length (i_r ins) = 4 \<and>
    (\<forall>x \<in> set (i_r ins) \<union> set (i_start ins). - (2 ^ 31) \<le> x \<and> x < 2 ^ 31) \<and>
    i_opcode ins \<in> set bit_instructions \<union> set gc_instructions"
  using parse_instructions_typed [OF assms(1)] assms(2) by (auto simp: list_all_iff instruction_typed_def in_int_def)

theorem bytecode_types_witness: "i_opcode (sample_program ! 1) < 1024 \<and> length (i_r (sample_program ! 1)) = 4"
proof -
  have "sample_program ! 1 \<in> set sample_program" by (simp add: sample_program_def)
  from bytecode_types [OF sample_program_parsed this] show ?thesis by blast
qed

text \<open>C23: The parser terminates: on every file, whatever its octets, the loop of \<^verbatim>\<open>Program::parse\<close>
  returns, with an exception or with the instructions, of which there is at most one for four
  octets of the file. (\<open>None\<close> would be a loop that does not return.)\<close>

theorem bytecode_length:
  "\<exists>r. parse_loop d [] s = Some r \<and> r = parse_instructions d s \<and> (case r of Inl e \<Rightarrow> True | Inr p \<Rightarrow> 4 * length p \<le> length s)"
proof -
  have "parse_loop d [] s = Some (parse_instructions d s)"
    using parse_loop_returns [of d "[]" s] by (cases "parse_instructions d s") simp_all
  then show ?thesis using parse_instructions_count [of d s] by (cases "parse_instructions d s") simp_all
qed

theorem bytecode_length_witness: "parse_loop 40 [] (concat (map encode_instruction sample_program)) = Some (Inr sample_program)"
  using bytecode_length [of 40 "concat (map encode_instruction sample_program)"] by (simp add: sample_program_parsed)



section \<open>Transposition\<close>

text \<open>C17: The AVX2 shuffle network of \<open>square64::transpose\<close> computes the transpose of the bit matrix:
  row \<open>c\<close>, column \<open>m\<close> of the result is row \<open>m\<close>, column \<open>c\<close> of the argument, as far as the
  numbers of rows and columns, rounded up to 32 and 8, reach, and 0 beyond.\<close>

theorem square_transposes:
  assumes "length sq = 64" "n_rows \<le> 64" "n_cols \<le> 64"
  shows "\<exists>t. square_transpose n_rows n_cols sq = Inr t \<and> length t = 64 \<and>
    (\<forall>c < 64. \<forall>m < 64. bit (t ! c) m \<longleftrightarrow> c < 8 * DIV_CEIL n_cols 8 \<and> m < 32 * DIV_CEIL n_rows 32 \<and> bit (sq ! m) c)"
  using square_transpose_eq [OF assms] .

theorem square_transposes_witness:
  "\<exists>t. square_transpose 64 64 (1 # replicate 63 0) = Inr t \<and> bit (t ! 0) 0 \<and> \<not> bit (t ! 1) 0"
  using square_transposes [of "1 # replicate 63 0" 64 64] by (auto simp: DIV_CEIL_def)


section \<open>Whole sessions\<close>

text \<open>C1: A whole session from nothing but random seeds: the parties construct their protocol
  objects and, at every instruction, their input objects, exchanging seeds; the programs without
  secret constants, negations, random bits and gates of more than four inputs, and with inputs of player 0
  only, which are not negative, then compute on shares what they mean, whatever the seeds and the memory
  the objects are built in.\<close>

theorem trifecta_session:
  assumes "\<forall>i < 3. encrypted i" "\<forall>i < 3. SEED_SIZE \<le> length (fst (seeds i)) \<and> SEED_SIZE \<le> length (snd (seeds i))"
    "\<forall>t. \<forall>i < 3. SEED_SIZE \<le> length (fst (snd (input_seeds t i))) \<and> SEED_SIZE \<le> length (snd (snd (input_seeds t i)))"
    "\<forall>f \<in> set (files 0). \<forall>sh. 0 \<le> f sh" "program_ok (instrs P)" "\<forall>ins \<in> set (instrs P). plain_instr ins"
    "clear_run id and_all (instrs P) (start_clear P arg files) = Some (Inr c)"
  shows "\<exists>mul env st. construct_protocols E encrypted seeds mem = Inr mul \<and>
    (\<forall>t. construct_inputs E encrypted (input_seeds t) (input_mem t) = Inr (env t)) \<and>
    tri_run E env (instrs P) (start_tri P arg mul mc files) = Some (Inr st) \<and>
    (\<forall>i < 3. rC (t_proc st i) = rC (c_proc c) \<and> rI (t_proc st i) = rI (c_proc c) \<and> p_out (t_proc st i) = p_out (c_proc c))"
proof -
  obtain mul where mul: "construct_protocols E encrypted seeds mem = Inr mul" "\<forall>i < 3. my_num (mul i) = i"
    "synced (shared_prngs (mul 0)) (shared_prngs (mul 1)) (shared_prngs (mul 2))"
    using construct_protocols_ready [of encrypted seeds E mem] assms(1,2) by blast
  have "\<exists>s. construct_inputs E encrypted (input_seeds t) (input_mem t) = Inr s \<and> (\<forall>i < 3. in_inv i (s i))" for t
    using construct_inputs_ready [of encrypted "input_seeds t" E "input_mem t"] assms(1,3) by blast
  then obtain env where env: "\<And>t. construct_inputs E encrypted (input_seeds t) (input_mem t) = Inr (env t)"
    "\<And>t. \<forall>i < 3. in_inv i (env t i :: bitvec input_state)" by metis
  from program_simulated [OF mul(2,3) assms(4) _ assms(5) program_means [OF assms(6,7)], of env E mc] mul(1) env
  show ?thesis by (auto simp: environment_ok_def)
qed

definition sample_seeds :: "nat \<Rightarrow> octet list \<times> octet list" where
  "sample_seeds i = (replicate 16 (of_nat i), replicate 16 (of_nat (3 + i)))"

theorem trifecta_session_witness:
  "\<exists>mul env st. construct_protocols (\<lambda>k b. b) (\<lambda>_. True) sample_seeds (\<lambda>_ _. PRNG_init) = Inr mul \<and>
    tri_run (\<lambda>k b. b) env sample_program (start_tri (sized_program 4 sample_program) 0 mul (\<lambda>_. start_mc) sample_files) = Some (Inr st) \<and>
    rC (t_proc st 0) = [8] \<and> rC (t_proc st 1) = [8] \<and> rC (t_proc st 2) = [8]"
proof -
  have i: "instrs (sized_program 4 sample_program) = sample_program" by (simp add: sized_program_def)
  have s: "\<forall>i < 3. SEED_SIZE \<le> length (fst (sample_seeds i)) \<and> SEED_SIZE \<le> length (snd (sample_seeds i))"
    by (simp add: sample_seeds_def rand_sizes)
  then have s': "\<forall>t. \<forall>i < 3. SEED_SIZE \<le> length (fst (snd ([], sample_seeds i))) \<and> SEED_SIZE \<le> length (snd (snd ([], sample_seeds i)))"
    by simp
  from trifecta_session [where P = "sized_program 4 sample_program" and encrypted = "\<lambda>_. True" and input_seeds = "\<lambda>t i. ([], sample_seeds i)",
      unfolded i, OF _ s s' sample_files_nonneg sample_program_ok sample_program_plain sample_run, of "\<lambda>k b. b" "\<lambda>_ _. PRNG_init" "\<lambda>_ _ _. PRNG_init" "\<lambda>_. start_mc"]
  show ?thesis by (auto simp: all_lt_3)
qed

text \<open>C13: Random bits (\<open>BITB\<close>) are drawn in the format of \<^verbatim>\<open>Replicated\<close>: the parties share the
  XOR of three bits, but \<^verbatim>\<open>MultiReplicatedMC\<close> opens them to different values. Parties 1 and 2
  always read 0 and party 0 reads the XOR of two of the bits.\<close>

theorem random_bits_do_not_open:
  assumes "bits_synced S" "0 < batch"
  shows "\<exists>a S' U. (\<forall>i < 3. random_bit E batch (S i) = Some (Inr ([of_bit (a i), of_bit (a (prv i))], S' i))) \<and> bits_synced S' \<and>
    rep3 bitvec_ops (of_bit (a 0) XOR of_bit (a 1) XOR of_bit (a 2)) (\<lambda>i. [of_bit (a i), of_bit (a (prv i))]) \<and>
    multi_popen bitvec_ops (\<lambda>i. [[of_bit (a i), of_bit (a (prv i))]]) M =
      Inr (([of_bit (a 0) XOR of_bit (a 2)], U 0), ([0], U 1), ([0], U (2 :: nat)))"
proof -
  obtain a S' where "\<forall>i < 3. random_bit E batch (S i) = Some (Inr ([of_bit (a i), of_bit (a (prv i))], S' i))" "bits_synced S'"
    using random_bit_shares [OF assms] by blast
  moreover have "rep3 bitvec_ops (of_bit (a 0) XOR of_bit (a 1) XOR of_bit (a 2)) (\<lambda>i. [of_bit (a i), of_bit (a (prv i))])"
    by (simp add: rep3_shape bitvec_ops_def bv_defs xor.assoc)
  ultimately show ?thesis using bit_shares_open [of a M] by blast
qed

theorem random_bits_do_not_open_witness:
  "\<exists>Gs a U. rep_base_setup (\<lambda>k b. b) (\<lambda>_. True) (\<lambda>i. replicate 16 (of_nat i)) (\<lambda>_ _. PRNG_init) = Inr Gs \<and>
    (\<exists>S'. random_bit (\<lambda>k b. b) 8 (new_rep_prep (Gs 0)) = Some (Inr ([of_bit (a 0), of_bit (a 2)], S'))) \<and>
    multi_popen bitvec_ops (\<lambda>i. [[of_bit (a i), of_bit (a (prv i))]]) (\<lambda>_. start_mc) =
      Inr (([of_bit (a 0) XOR of_bit (a 2)], U 0), ([0], U 1), ([0], U (2 :: nat)))"
proof -
  obtain Gs where Gs: "rep_base_setup (\<lambda>k b. b) (\<lambda>_. True) (\<lambda>i. replicate 16 (of_nat i)) (\<lambda>_ _. PRNG_init) = Inr Gs"
    "\<forall>i < 3. Gs i = [seeded (\<lambda>k b. b) (replicate 16 (of_nat i)), seeded (\<lambda>k b. b) (replicate 16 (of_nat (prv i)))]"
    using rep_base_setup_prngs [of "\<lambda>_. True" "\<lambda>i. replicate 16 (of_nat i)" "\<lambda>k b. b" "\<lambda>_ _. PRNG_init"] by (auto simp: rand_sizes)
  have "bits_synced (\<lambda>i. new_rep_prep (Gs i))" by (rule bits_synced_new) (use Gs(2) in simp)
  from random_bits_do_not_open [OF this, of 8 "\<lambda>k b. b" "\<lambda>_. start_mc"] obtain a S' U where
    r: "\<forall>i < 3. random_bit (\<lambda>k b. b) 8 (new_rep_prep (Gs i)) = Some (Inr ([of_bit (a i), of_bit (a (prv i))], S' i))"
    "multi_popen bitvec_ops (\<lambda>i. [[of_bit (a i), of_bit (a (prv i))]]) (\<lambda>_. start_mc) =
      Inr (([of_bit (a 0) XOR of_bit (a 2)], U 0), ([0], U 1), ([0], U (2 :: nat)))" by auto
  have "random_bit (\<lambda>k b. b) 8 (new_rep_prep (Gs 0)) = Some (Inr ([of_bit (a 0), of_bit (a 2)], S' 0))" using r(1) by simp
  with Gs(1) r(2) show ?thesis by blast
qed


section \<open>Arithmetic modulo a prime\<close>

text \<open>C30: For every odd prime of at most ten limbs whose top limb is not full (and every prime of one
  limb), \<^verbatim>\<open>Zp_Data::init\<close> yields data with which \<^verbatim>\<open>Mont_Mult\<close>, in both versions, is the
  Montgomery product: reduced numbers \<open>x\<close> and \<open>y\<close> give the reduced \<open>x * y / 2 ^ (64 * t)\<close>. The
  hypotheses on the inverse are those of \<^verbatim>\<open>mpz_invert\<close>.\<close>

theorem montgomery_product:
  assumes "prob_prime p" "1 < p" "odd p" "num_limbs p \<le> MAX_MOD_SZ"
    "let r = 2 ^ (64 * num_limbs p) in (p * mpz_invert p r) mod r = 1 \<and> mpz_invert p r < r"
    "num_limbs p = 1 \<or> p < 2 ^ (64 * num_limbs p) - 2 ^ (64 * (num_limbs p - 1))"
  shows "\<exists>Z. zp_init prob_prime mpz_invert p True = Inr Z \<and> zp_pr Z = p \<and>
    (\<forall>x y mem bmi2. zp_reduced Z x \<longrightarrow> zp_reduced Z y \<longrightarrow> length mem = 2 * MAX_MOD_SZ + 1 \<longrightarrow>
      zp_reduced Z (Mont_Mult bmi2 Z mem x y) \<and>
      (2 ^ (64 * zp_t Z) * mpv (Mont_Mult bmi2 Z mem x y)) mod p = (mpv x * mpv y) mod p)"
proof -
  obtain Z where Z: "zp_init prob_prime mpz_invert p True = Inr Z" "zp_ok Z" "zp_pr Z = p" "zp_montgomery Z"
    using zp_init_ok [of prob_prime p mpz_invert True, OF assms] by blast
  then have "zp_mont Z" "mont_fits Z" by (simp_all add: zp_ok_def)
  from Mont_Mult_value [OF this] Z show ?thesis by blast
qed

theorem montgomery_product_witness:
  "\<exists>Z. zp_init (\<lambda>_. True) (\<lambda>p _. p) mersenne True = Inr Z \<and>
    (2 ^ (64 * zp_t Z) * mpv (Mont_Mult True Z (replicate 21 0) (replicate (zp_t Z) 5) (replicate (zp_t Z) 7))) mod mersenne =
      (mpv (replicate (zp_t Z) 5) * mpv (replicate (zp_t Z) 7)) mod mersenne"
proof -
  from montgomery_product [where prob_prime = "\<lambda>_. True" and mpz_invert = "\<lambda>p _. p", OF TrueI mersenne_good(2,1,3-5)]
  obtain Z where Z: "zp_init (\<lambda>_. True) (\<lambda>p _. p) mersenne True = Inr Z" "zp_pr Z = mersenne"
    "\<And>x y mem bmi2. zp_reduced Z x \<Longrightarrow> zp_reduced Z y \<Longrightarrow> length mem = 2 * MAX_MOD_SZ + 1 \<Longrightarrow>
      (2 ^ (64 * zp_t Z) * mpv (Mont_Mult bmi2 Z mem x y)) mod mersenne = (mpv x * mpv y) mod mersenne" by blast
  have t: "zp_t Z = 2" using Z(1) mersenne_sizes(2) by (auto simp: zp_init_def guardE_def Let_def MAX_MOD_SZ_def split: if_splits)
  have rep: "replicate 2 v = [v, v]" for v :: limb by (simp only: numeral_2_eq_2 replicate.simps)
  have "zp_reduced Z (replicate (zp_t Z) 5)" "zp_reduced Z (replicate (zp_t Z) 7)"
    unfolding zp_reduced_def t rep Z(2) mersenne_sizes(1) by simp_all
  then show ?thesis using Z by (auto simp: MAX_MOD_SZ_def)
qed

text \<open>C31: The Montgomery product drops a carry for primes just below a power of \<open>2 ^ 64\<close>: with the
  128-bit prime \<open>2 ^ 128 - 159\<close>, both versions of \<^verbatim>\<open>Mont_Mult\<close> compute a wrong square of the number
  with the limbs of \<open>p - 1\<close>, whatever the array held before.\<close>

theorem montgomery_carry_lost:
  assumes "length mem = 2 * MAX_MOD_SZ + 1"
  shows "\<exists>Z. zp_init (\<lambda>_. True) (\<lambda>_ _. 104866892950477891256008526818595234977) (2 ^ 128 - 159) True = Inr Z \<and>
    zp_reduced Z (limbs_of 2 (2 ^ 128 - 160)) \<and>
    (2 ^ 128 * mpv (Mont_Mult bmi2 Z mem (limbs_of 2 (2 ^ 128 - 160)) (limbs_of 2 (2 ^ 128 - 160)))) mod (2 ^ 128 - 159) \<noteq>
      ((2 ^ 128 - 160) * (2 ^ 128 - 160)) mod (2 ^ 128 - 159)"
proof -
  have x: "limbs_of 2 340282366920938463463374607431768211296 = large_x" by (simp add: limbs_of_numeral)
  have zp: "zp_pr large_zp = 340282366920938463463374607431768211297" by (simp add: large_zp_def large_numbers)
  have "zp_reduced large_zp large_x" unfolding zp_reduced_def zp by (simp add: large_zp_def)
  then show ?thesis
    by (intro exI [of _ large_zp]) (simp add: x large_square [OF assms] large_init [unfolded large_numbers])
qed

theorem montgomery_carry_lost_witness:
  "\<exists>Z. zp_init (\<lambda>_. True) (\<lambda>_ _. 104866892950477891256008526818595234977) (2 ^ 128 - 159) True = Inr Z \<and>
    (2 ^ 128 * mpv (Mont_Mult True Z (replicate 21 0) (limbs_of 2 (2 ^ 128 - 160)) (limbs_of 2 (2 ^ 128 - 160)))) mod (2 ^ 128 - 159) \<noteq>
      ((2 ^ 128 - 160) * (2 ^ 128 - 160)) mod (2 ^ 128 - 159)"
proof -
  have "length (replicate 21 (0 :: limb)) = 2 * MAX_MOD_SZ + 1" by (simp add: MAX_MOD_SZ_def)
  from montgomery_carry_lost [OF this, of True] show ?thesis by blast
qed

text \<open>C32: Numbers modulo a prime, in Montgomery form or plain: addition, subtraction, negation,
  multiplication, squaring and the tests act on the integers that \<^verbatim>\<open>to_bigint\<close> returns as
  arithmetic modulo the prime. In Montgomery form the prime must not be so close below a power of
  \<open>2 ^ 64\<close> that a carry can be lost (\<open>mont_fits\<close>, part of \<open>zp_ok\<close>).\<close>

theorem modp_arithmetic:
  assumes "zp_ok Z" "env_ok M" "zp_reduced Z x" "zp_reduced Z y"
  defines "v \<equiv> \<lambda>x. mpv (modp_to_bigint M Z x True)"
  shows "v (modp_Add Z x y) = (v x + v y) mod zp_pr Z \<and> v (modp_Sub Z x y) = (v x + (zp_pr Z - v y)) mod zp_pr Z \<and>
    v (modp_Negate Z x) = (zp_pr Z - v x) mod zp_pr Z \<and> v (modp_Mul M Z x y) = v x * v y mod zp_pr Z \<and>
    v (modp_Sqr M Z x) = v x * v x mod zp_pr Z \<and> (modp_areEqual Z x y \<longleftrightarrow> v x = v y) \<and>
    (modp_isZero Z x \<longleftrightarrow> v x = 0) \<and> (modp_isOne Z x \<longleftrightarrow> v x = 1)"
proof -
  note x = modp_reduced_of [OF assms(1-3), of True] and y = modp_reduced_of [OF assms(1,2,4), of True]
  note val = modp_to_bigint_of [OF assms(1,2), of _ _ True]
  show ?thesis unfolding v_def modp_Sqr_def
    using val [OF modp_Add_of [OF assms(1) x y]] val [OF modp_Sub_of [OF assms(1) x y]] val [OF modp_Negate_of [OF assms(1) x]]
      val [OF modp_Mul_of [OF assms(1,2) x y]] val [OF modp_Mul_of [OF assms(1,2) x x]] modp_areEqual_of [OF assms(1) x y]
      modp_isZero_of [OF assms(1) x] modp_isOne_of [OF assms(1) x] by (intro conjI)
qed

theorem modp_arithmetic_witness:
  "\<exists>Z x y. zp_init (\<lambda>_. True) (\<lambda>p _. p) mersenne True = Inr Z \<and> to_modp modp_env Z 5 = Inr x \<and> to_modp modp_env Z (- 7) = Inr y \<and>
    mpv (modp_to_bigint modp_env Z (modp_Mul modp_env Z x y) True) = mersenne - 35 \<and>
    mpv (modp_to_bigint modp_env Z (modp_Add Z x y) True) = mersenne - 2"
proof -
  obtain Z x y where Z: "zp_init (\<lambda>_. True) (\<lambda>p _. p) mersenne True = Inr Z" "zp_ok Z" "zp_pr Z = mersenne"
    "to_modp modp_env Z 5 = Inr x" "to_modp modp_env Z (- 7) = Inr y" and x: "modp_of Z x 5" and y: "modp_of Z y (mersenne - 7)"
    using modp_prime by blast
  have r: "zp_reduced Z x" "zp_reduced Z y" using x y by (simp_all add: modp_of_def)
  have "5 * (mersenne - 7) mod mersenne = mersenne - 35" "(5 + (mersenne - 7)) mod mersenne = mersenne - 2"
    by (simp_all add: mersenne_sizes(1))
  with modp_arithmetic [OF Z(2) modp_env_ok r] modp_to_bigint_of [OF Z(2) modp_env_ok x, of True]
    modp_to_bigint_of [OF Z(2) modp_env_ok y, of True] Z show ?thesis by auto
qed

text \<open>C33: Integers of any size and sign are converted to numbers modulo the prime without failure,
  and converted back to their residue; so are 32-bit integers, provided that a prime of one limb is
  not smaller than the magnitude of a negative one. In Montgomery form the prime is one for which no carry is
  lost (\<open>mont_fits\<close>, part of \<open>zp_ok\<close>).\<close>

theorem modp_roundtrip:
  assumes "zp_ok Z" "env_ok M" "zp_t Z = 1 \<Longrightarrow> - sint w \<le> int (zp_pr Z)"
  shows "(\<exists>m. to_modp M Z n = Inr m \<and> zp_reduced Z m \<and> int (mpv (modp_to_bigint M Z m reduce)) = n mod int (zp_pr Z)) \<and>
    (\<exists>m. to_modp_int M Z w = Inr m \<and> zp_reduced Z m \<and> int (mpv (modp_to_bigint M Z m reduce)) = sint w mod int (zp_pr Z))"
proof -
  have p: "0 < int (zp_pr Z)" using zp_facts(2) [OF assms(1)] by simp
  have "int (mpv (modp_to_bigint M Z m reduce)) = k mod int (zp_pr Z) \<and> zp_reduced Z m" if "modp_of Z m (nat (k mod int (zp_pr Z)))" for m k
    using modp_to_bigint_of [OF assms(1,2) that, of reduce] that p by (simp add: modp_of_def)
  then show ?thesis using to_modp_of [OF assms(1,2), of n] to_modp_int_of [OF assms] by blast
qed

theorem modp_roundtrip_witness:
  "\<exists>Z x y. zp_init (\<lambda>_. True) (\<lambda>p _. p) mersenne True = Inr Z \<and> to_modp modp_env Z (2 ^ 127 + 4) = Inr x \<and>
    mpv (modp_to_bigint modp_env Z x True) = 5 \<and> to_modp_int modp_env Z (- 7) = Inr y \<and>
    mpv (modp_to_bigint modp_env Z y True) = mersenne - 7"
proof -
  obtain Z where Z: "zp_init (\<lambda>_. True) (\<lambda>p _. p) mersenne True = Inr Z" "zp_ok Z" "zp_pr Z = mersenne"
    using modp_prime by blast
  have w: "sint (- 7 :: 32 word) = - 7" by simp
  have m: "(2 ^ 127 + 4) mod int mersenne = 5" "- 7 mod int mersenne = int mersenne - 7" by (simp_all add: mersenne_sizes(1))
  have le: "- sint (- 7 :: 32 word) \<le> int (zp_pr Z)" unfolding w Z(3) by (simp add: mersenne_sizes(1))
  obtain x y where "to_modp modp_env Z (2 ^ 127 + 4) = Inr x" "to_modp_int modp_env Z (- 7) = Inr y"
    "int (mpv (modp_to_bigint modp_env Z x True)) = 5" "int (mpv (modp_to_bigint modp_env Z y True)) = int mersenne - 7"
    using modp_roundtrip [OF Z(2) modp_env_ok le, of "2 ^ 127 + 4" True, unfolded w Z(3) m] by blast
  then have "to_modp modp_env Z (2 ^ 127 + 4) = Inr x \<and> to_modp_int modp_env Z (- 7) = Inr y \<and>
      mpv (modp_to_bigint modp_env Z x True) = 5 \<and> mpv (modp_to_bigint modp_env Z y True) = mersenne - 7" by linarith
  with Z(1) show ?thesis by blast
qed

text \<open>C34: Powers: a non-negative exponent gives the power modulo the prime, by squaring and
  multiplying; a negative one throws. The inverse, from the cofactor of \<^verbatim>\<open>mpn_gcdext\<close> with either
  sign, multiplies to one. In Montgomery form the prime is one for which no carry is lost (\<open>mont_fits\<close>,
  part of \<open>zp_ok\<close>).\<close>

theorem modp_power_inverse:
  assumes "zp_ok Z" "env_ok M" "zp_reduced Z x" "gcdext_ok (env_lib M) Z x"
  defines "v \<equiv> \<lambda>x. mpv (modp_to_bigint M Z x True)"
  shows "(if e < 0 then modp_Power M Z x e = Inl Not_Implemented
      else \<exists>r. modp_Power M Z x e = Inr r \<and> zp_reduced Z r \<and> v r = v x ^ nat e mod zp_pr Z) \<and>
    zp_reduced Z (modp_Inv M Z x) \<and> (v x * v (modp_Inv M Z x)) mod zp_pr Z = 1"
proof -
  note x = modp_reduced_of [OF assms(1-3), of True]
  note val = modp_to_bigint_of [OF assms(1,2), of _ _ True]
  have "\<exists>r. modp_Power M Z x e = Inr r \<and> zp_reduced Z r \<and> v r = v x ^ nat e mod zp_pr Z" if "\<not> e < 0"
  proof -
    have "0 \<le> e" using that by simp
    from modp_Power_of [OF assms(1,2) x this] val show ?thesis unfolding v_def by (fastforce simp: modp_of_def)
  qed
  moreover have "modp_Power M Z x e = Inl Not_Implemented" if "e < 0" using that by (simp add: modp_Power_def)
  moreover obtain b where "modp_of Z (modp_Inv M Z x) b" "(v x * b) mod zp_pr Z = 1"
    using modp_Inv_of [OF assms(1,2) x assms(4)] unfolding v_def by blast
  ultimately show ?thesis using val [of "modp_Inv M Z x" b] unfolding v_def by (auto simp: modp_of_def)
qed

theorem modp_power_inverse_witness:
  "zp_init (\<lambda>_. True) (\<lambda>_ _. 0) 7 False = Inr seven \<and> modp_Power modp_env seven [3] (- 2) = Inl Not_Implemented \<and>
    (mpv (modp_to_bigint modp_env seven [3] True) * mpv (modp_to_bigint modp_env seven (modp_Inv modp_env seven [3]) True)) mod 7 = 1"
proof -
  have n: "num_bits 7 = 3" by (simp add: num_bits.simps)
  have i: "zp_init (\<lambda>_. True) (\<lambda>_ _. 0) 7 False = Inr seven"
    by (simp add: zp_init_def guardE_def Let_def num_limbs_def n MAX_MOD_SZ_def seven_def mask_eq_exp_minus_1)
  have m: "mpv (limbs_of 11 7) = 7" by (rule mpv_limbs_of) simp
  have z: "zp_ok seven" using m by (simp add: zp_ok_def zp_inv_def seven_def MAX_MOD_SZ_def)
  have r: "zp_reduced seven [3]" by (simp add: zp_reduced_def seven_def)
  have g: "gcdext_ok (env_lib modp_env) seven [3]" by (simp add: gcdext_ok_def modp_env_def modp_lib_def seven_def)
  have p: "zp_pr seven = 7" by (simp add: seven_def)
  show ?thesis using modp_power_inverse [OF z modp_env_ok r g, of "- 2"] i unfolding p by simp
qed


section \<open>Integers modulo a power of two\<close>

text \<open>C35: For every width, the operations of \<^verbatim>\<open>Z2<K>\<close> on normal numbers are arithmetic modulo
  \<open>2 ^ K\<close> on their values, keep them normal, and the bitwise operations, shifts, comparisons and
  single bits are those of the values.\<close>

theorem z2_arithmetic:
  assumes "0 < K" "z2_ok K x" "z2_ok K y"
  shows "z2_ok K (z2_add K x y) \<and> mpv (z2_add K x y) = (mpv x + mpv y) mod 2 ^ K \<and>
    z2_ok K (z2_sub K x y) \<and> int (mpv (z2_sub K x y)) = (int (mpv x) - int (mpv y)) mod 2 ^ K \<and>
    (\<exists>r. z2_mul K K K x y = Inr r \<and> z2_ok K r \<and> mpv r = mpv x * mpv y mod 2 ^ K) \<and>
    z2_ok K (z2_shl K x i) \<and> mpv (z2_shl K x i) = (mpv x * 2 ^ i) mod 2 ^ K \<and>
    z2_ok K (z2_shr K x i) \<and> mpv (z2_shr K x i) = mpv x div 2 ^ i \<and>
    mpv (z2_and x y) = mpv x AND mpv y \<and> mpv (z2_or x y) = mpv x OR mpv y \<and> mpv (z2_xor x y) = mpv x XOR mpv y \<and>
    (z2_eq x y \<longleftrightarrow> mpv x = mpv y) \<and> (i < K \<longrightarrow> z2_get_bit x i = bit (mpv x) i)"
proof -
  have l: "length x = N_WORDS K" "length y = N_WORDS K" "length x = length y" "mpv x < 2 ^ K" using assms(2,3) by (simp_all add: z2_ok_def)
  have "mpv x div 2 ^ i < 2 ^ K" using l(4) by (meson div_le_dividend le_less_trans)
  then have "z2_ok K (z2_shr K x i)" using z2_shr_value [OF assms(1) l(1)] by (simp add: z2_ok_def)
  then show ?thesis
    using z2_add_value [OF assms(1) l(1,2)] z2_sub_value [OF assms(1) l(1,2)] z2_mul_same [OF assms] z2_shl_value [OF assms(1) l(1)]
      z2_shr_value [OF assms(1) l(1)] z2_bitwise_value [OF l(3)] z2_eq_value [OF l(3)] z2_get_bit_value [OF assms(1) l(1)] by blast
qed

theorem z2_arithmetic_witness:
  "\<exists>r. z2_mul 72 72 72 [- 1, 1] [5, 0] = Inr r \<and> mpv r = (2 ^ 65 - 1) * 5 \<and> mpv (z2_add 72 [- 1, 1] [5, 0]) = 2 ^ 65 + 4 \<and>
    mpv (z2_shl 72 [- 1, 1] 9) = 2 ^ 72 - 2 ^ 9"
proof -
  have v: "mpv [- 1, 1 :: limb] = 2 ^ 65 - 1" "mpv [5, 0 :: limb] = 5" by (simp_all add: unsigned_minus_1_eq_mask mask_eq_exp_minus_1)
  have "z2_ok 72 [- 1, 1]" "z2_ok 72 [5, 0]" unfolding z2_ok_def v by (simp_all add: N_WORDS_def)
  from z2_arithmetic [OF _ this, of 9, unfolded v] show ?thesis by auto
qed

text \<open>C36: Conversions. An integer of any size and sign becomes its residue, and read back as a signed
  number the representative of least magnitude; sign extension and truncation from another width
  keep it modulo the new width; \<open>abs\<close> is the magnitude, and the comparison is that of the integers
  as long as the difference fits the width.\<close>

theorem z2_conversions:
  assumes "0 < K" "0 < L" "z2_ok L x" "z2_ok K y" "z2_ok K z"
  shows "int (mpv (z2_of_bigint K n)) = n mod 2 ^ K \<and> sz2_to_bigint K (z2_of_bigint K n) = signed_mod K n \<and>
    (- (2 ^ (K - 1)) \<le> n \<and> n < 2 ^ (K - 1) \<longrightarrow> sz2_to_bigint K (z2_of_bigint K n) = n) \<and>
    mpv (z2_conv L K x) = mpv x mod 2 ^ K \<and> sz2_to_bigint K (sz2_extend L K x) = signed_mod K (sz2_to_bigint L x) \<and>
    int (mpv (sz2_abs K y)) = \<bar>sz2_to_bigint K y\<bar> \<and>
    (sz2_less K y z \<longleftrightarrow> signed_mod K (sz2_to_bigint K y - sz2_to_bigint K z) < 0)"
  using z2_of_bigint_value(2) [OF assms(1), of n] sz2_of_bigint_value [OF assms(1), of n] signed_mod_id [OF assms(1), of n]
    z2_conv_value(2) [OF assms(1-3)] sz2_extend_value(2) [OF assms(1-3)] sz2_abs_value(2) [OF assms(1,4)]
    sz2_less_value [OF assms(1,4,5)] by simp

theorem z2_conversions_witness:
  "sz2_to_bigint 100 (z2_of_bigint 100 (- (2 ^ 80))) = - (2 ^ 80) \<and> sz2_to_bigint 100 (sz2_extend 8 100 [255]) = - 1 \<and>
    mpv (z2_conv 8 100 [255]) = 255"
proof -
  have o: "z2_ok 8 [255]" "z2_ok 100 (z2_zero 100)" by (simp_all add: z2_ok_def N_WORDS_def z2_zero_def)
  have "sz2_negative 8 [255]" by (simp add: sz2_negative_def N_WORDS_def)
  then have "sz2_to_bigint 8 [255] = - 1" by (simp add: sz2_to_bigint_def)
  moreover have "signed_mod 100 (- 1) = - 1" by (simp add: signed_mod_def)
  ultimately show ?thesis using z2_conversions [OF _ _ o(1,2,2), of "- (2 ^ 80)"] by simp
qed

text \<open>C37: The two bit-by-bit loops. \<open>invert\<close> throws on an even number and otherwise returns the
  inverse modulo \<open>2 ^ K\<close>; \<open>sqrRoot\<close> of a number that is one modulo eight returns a square root, and
  fails its assertion on every other number of at least three bits.\<close>

theorem z2_invert_root:
  assumes "0 < K" "z2_ok K a"
  shows "(if odd (mpv a) then \<exists>r. z2_invert K a = Inr r \<and> z2_ok K r \<and> (mpv a * mpv r) mod 2 ^ K = 1
      else z2_invert K a = Inl Division_By_Zero) \<and>
    (if mpv a mod 8 = 1 then \<exists>r. z2_sqrRoot K a = Inr r \<and> z2_ok K r \<and> (mpv r * mpv r) mod 2 ^ K = mpv a
      else z2_sqrRoot K a = Inl (Assertion ''a[0] % 8 == 1''))"
proof -
  have l: "length a = N_WORDS K" using assms(2) by (simp add: z2_ok_def)
  have even_case: "z2_invert K a = Inl Division_By_Zero" if "even (mpv a)"
    using z2_get_bit_value [OF assms(1) l assms(1)] that by (simp add: z2_invert_def bit_0 guardE_def)
  obtain x xs where a: "a = x # xs" using l N_WORDS_bounds(1) [OF assms(1)] by (cases a) auto
  have "(unat x + B64 * mpv xs) mod 8 = unat x mod 8" by (rule mod_add_dvd) simp
  then have m: "mpv a mod 8 = unat (x mod 8)" using a by (simp add: unat_mod)
  have "z2_sqrRoot K a = Inl (Assertion ''a[0] % 8 == 1'')" if "mpv a mod 8 \<noteq> 1"
  proof -
    have "x mod 8 \<noteq> 1" using that m by auto
    then show ?thesis by (simp add: z2_sqrRoot_def guardE_def a)
  qed
  with z2_invert_value [OF assms] z2_sqrRoot_value [OF assms] even_case show ?thesis by auto
qed

theorem z2_invert_root_witness:
  "(\<exists>r. z2_invert 72 [3, 0] = Inr r \<and> (3 * mpv r) mod 2 ^ 72 = 1) \<and>
    (\<exists>r. z2_sqrRoot 72 [17, 0] = Inr r \<and> (mpv r * mpv r) mod 2 ^ 72 = 17) \<and> z2_invert 72 [6, 0] = Inl Division_By_Zero"
proof -
  have "z2_ok 72 [3, 0]" "z2_ok 72 [17, 0]" "z2_ok 72 [6, 0]" by (simp_all add: z2_ok_def N_WORDS_def)
  from this [THEN z2_invert_root [rotated]] show ?thesis by auto
qed

text \<open>C38: Replicated multiplication over \<^verbatim>\<open>Z2<K>\<close>, for every width: three parties whose
  generators are in step multiply a batch of shared numbers and open the results; each obtains the
  products modulo \<open>2 ^ K\<close>.\<close>

theorem z2_replicated_multiply:
  fixes gs :: "'k::len z2n rgate list"
  assumes "rep_synced S" "\<forall>g \<in> set gs. rep3 z2n_ops (rg_x g) (rg_sx g) \<and> rep3 z2n_ops (rg_y g) (rg_sy g)"
    "N_BYTES LENGTH('k) * length gs < 2 ^ 32"
  shows "\<exists>W T U vs. rep_run z2n_ops E gs S = Inr ((W 0, T 0), (W 1, T 1), (W 2, T 2)) \<and> rep_synced T \<and>
    rep_popen z2n_ops W M = Inr ((vs, U 0), (vs, U 1), (vs, U (2 :: nat))) \<and>
    map zval vs = map (\<lambda>g. (zval (rg_x g) * zval (rg_y g)) mod 2 ^ LENGTH('k)) gs"
proof -
  have f: "\<forall>g \<in> set gs. z2t.gate_fit g" using assms(2) by (simp add: z2t.gate_fit_def)
  have sz: "v_size (z2n_ops :: 'k z2n value_ops) * length gs < 2 ^ 32" using assms(3) by (simp add: z2n_ops_def)
  have m: "map zval (map (\<lambda>g. v_mul z2n_ops (rg_x g) (rg_y g)) gs) = map (\<lambda>g. (zval (rg_x g) * zval (rg_y g)) mod 2 ^ LENGTH('k)) gs"
    by (simp add: z2n_ops_def zval_simps)
  from z2t.rep_run_then_open [OF assms(1) f sz, of E M] m show ?thesis by blast
qed

theorem z2_replicated_multiply_witness:
  "\<exists>W T U vs. rep_run z2n_ops (\<lambda>k b. b) [rep_gate z2n_ops 6 7, rep_gate z2n_ops (- 1) 3] (start_replicated z2n_ops)
      = Inr ((W 0, T 0), (W 1, T 1), (W 2, T (2 :: nat))) \<and>
    rep_popen z2n_ops W (\<lambda>_. start_mc) = Inr ((vs, U 0), (vs, U 1), (vs, U (2 :: nat))) \<and>
    map zval (vs :: 72 z2n list) = [42, 2 ^ 72 - 3]"
proof -
  let ?gs = "[rep_gate z2n_ops 6 7, rep_gate z2n_ops (- 1) 3] :: 72 z2n rgate list"
  have ok: "\<forall>g \<in> set ?gs. rep3 z2n_ops (rg_x g) (rg_sx g) \<and> rep3 z2n_ops (rg_y g) (rg_sy g)"
    by (simp add: rep_gate_def z2t.rep3_constant)
  have sz: "N_BYTES LENGTH(72) * length ?gs < 2 ^ 32" by (simp add: N_BYTES_def)
  have r: "map (\<lambda>g. (zval (rg_x g) * zval (rg_y g)) mod 2 ^ LENGTH(72)) ?gs = [42, 2 ^ 72 - 3]"
    by (simp add: rep_gate_def zval_simps zval_numeral)
  show ?thesis
    using z2_replicated_multiply [OF start_rep_synced [of z2n_ops] ok sz, where E = "\<lambda>k b. b" and M = "\<lambda>_. start_mc"] unfolding r
    by (elim exE conjE) (intro exI conjI; assumption)
qed


section \<open>Truncation\<close>

text \<open>C39: \<^verbatim>\<open>trunc_pr\<close>, with all messages of the three parties: when every operand is shared and not
  negative in its \<open>k\<close> bits, the instruction succeeds, and each result register holds a replicated
  sharing of the operand divided by \<open>2 ^ m\<close>, rounded down, or of one more; every other register is
  unchanged. Result registers must not be used again by later elements of the same instruction,
  since they are overwritten while the operands are still being read.\<close>

theorem truncation_up_to_one:
  fixes S :: "nat \<Rightarrow> 'k::len regs" and args :: "elem list" and sz :: nat
  assumes "list_all (\<lambda>(d, s, k, m). m < k \<and> k < LENGTH('k)) args" "fresh (trunc_elems sz args)"
    "\<forall>(d, s, k, m) \<in> set (trunc_elems sz args). d < N \<and> s < N"
    "\<And>i. i < 3 \<Longrightarrow> length (S i) = N \<and> (\<forall>x \<in> set (S i). length x = 2)"
    "N_BYTES LENGTH('k) * (4 * length (trunc_elems sz args)) < 2 ^ 32" "length vs = length (trunc_elems sz args)"
    "\<forall>j < length vs. case trunc_elems sz args ! j of (d, s, k, m) \<Rightarrow> rep3 z2n_ops (vs ! j) (\<lambda>i. S i ! s) \<and> zval (vs ! j) < 2 ^ k"
  shows "\<exists>T G' ys. trunc_pr E (trunc_regs args) sz S G = Inr (T, G') \<and> length ys = length vs \<and>
    (\<forall>j < length vs. case trunc_elems sz args ! j of (d, s, k, m) \<Rightarrow> rep3 z2n_ops (ys ! j) (\<lambda>i. T i ! d) \<and>
      (zval (ys ! j) = zval (vs ! j) div 2 ^ m \<or> zval (ys ! j) = zval (vs ! j) div 2 ^ m + 1)) \<and>
    (\<forall>i < 3. length (T i) = N \<and> (\<forall>r. r \<notin> set (dests (trunc_elems sz args)) \<longrightarrow> T i ! r = S i ! r))"
proof -
  have "\<forall>j < length (trunc_elems sz args). rep3 z2n_ops (vs ! j) (\<lambda>i. S i ! fst (snd (trunc_elems sz args ! j))) \<and>
      zval (vs ! j) < 2 ^ fst (snd (snd (trunc_elems sz args ! j)))"
    using assms(6,7) by (simp add: case_prod_beta)
  from trunc_pr_shares [where S = S and sz = sz and args = args, OF assms(1-6) this, of E G] show ?thesis
    unfolding assms(6) case_prod_beta .
qed

theorem truncation_up_to_one_witness:
  "\<exists>T G' y. trunc_pr (\<lambda>k b. b) [1, 0, 20, 4] 1 (\<lambda>i. [three [1000, 0] [0, 1000] [0, 0] i, [0, 0 :: 72 z2n]]) PRNG_init = Inr (T, G') \<and>
    rep3 z2n_ops y (\<lambda>i. T i ! 1) \<and> (zval y = 62 \<or> zval y = 63)"
proof -
  let ?S = "\<lambda>i. [three [1000, 0] [0, 1000] [0, 0] i, [0, 0 :: 72 z2n]]"
  have e: "trunc_elems 1 [(1, 0, 20, 4)] = [(1, 0, 20, 4)]" "trunc_regs [(1, 0, 20, 4)] = [1, 0, 20, 4]"
    by (simp_all add: trunc_elems_def trunc_regs_def)
  have l: "length (?S i) = 2 \<and> (\<forall>x \<in> set (?S i). length x = 2)" for i by (simp add: three_def)
  have sh: "rep3 z2n_ops (1000 :: 72 z2n) (\<lambda>i. ?S i ! 0)" unfolding rep3_shape by (simp add: z2n_ops_def)
  have z: "zval (1000 :: 72 z2n) = 1000" by (simp add: zval_numeral)
  have v: "\<forall>j < length [1000 :: 72 z2n]. case trunc_elems 1 [(1, 0, 20, 4)] ! j of (d, s, k, m) \<Rightarrow>
      rep3 z2n_ops ([1000] ! j) (\<lambda>i. ?S i ! s) \<and> zval ([1000 :: 72 z2n] ! j) < 2 ^ k"
    unfolding e using sh z by simp
  have "\<exists>T G' ys. trunc_pr (\<lambda>k b. b) (trunc_regs [(1, 0, 20, 4)]) 1 ?S PRNG_init = Inr (T, G') \<and> length ys = length [1000 :: 72 z2n] \<and>
    (\<forall>j < length [1000 :: 72 z2n]. case trunc_elems 1 [(1, 0, 20, 4)] ! j of (d, s, k, m) \<Rightarrow> rep3 z2n_ops (ys ! j) (\<lambda>i. T i ! d) \<and>
      (zval (ys ! j) = zval ([1000 :: 72 z2n] ! j) div 2 ^ m \<or> zval (ys ! j) = zval ([1000 :: 72 z2n] ! j) div 2 ^ m + 1)) \<and>
    (\<forall>i < 3. length (T i) = 2 \<and> (\<forall>r. r \<notin> set (dests (trunc_elems 1 [(1, 0, 20, 4)])) \<longrightarrow> T i ! r = ?S i ! r))"
    by (rule truncation_up_to_one [OF _ _ _ l _ _ v]) (simp_all add: trunc_elems_def N_BYTES_def)
  then show ?thesis unfolding e by (elim exE conjE) (auto simp: z)
qed


section \<open>Square roots modulo a prime\<close>

text \<open>C40: \<^verbatim>\<open>gfp_::sqrRoot\<close>, for every odd prime of at most ten limbs stored plainly, and for every such prime
  in Montgomery form that satisfies \<open>mont_fits\<close>: it must not be so close below a power of \<open>2 ^ 64\<close> that the
  multiplication loses a carry, as it does for the prime of \<open>montgomery_carry_lost\<close>; primes of one
  limb and those whose top limb is not full satisfy it. It returns exactly for squares,
  by the algorithm of Shanks when the prime is one modulo four, and yields the root that is odd as an
  integer (or zero); for all other numbers it throws. Assumed are Euler's criterion for the Legendre
  symbol of \<^verbatim>\<open>mpz\<close> and that the random numbers contain a non-square at some point.\<close>

theorem square_root_modulo_prime:
  assumes "zp_inv Z" "zp_montgomery Z \<Longrightarrow> zp_mont Z \<and> mont_fits Z" "env_ok M" "zp_reduced Z x" "prime_ok (int (zp_pr Z))" "odd (zp_pr Z)" "legendre_ok l (int (zp_pr Z))"
    "l (rnds i) (int (zp_pr Z)) = - 1"
  defines "v \<equiv> \<lambda>x. mpv (modp_to_bigint M Z x True)"
  shows "if v x = 0 \<or> l (int (v x)) (int (zp_pr Z)) = 1
    then \<exists>m. gfp_sqrRoot l rnds M Z x = Some (Inr m) \<and> zp_reduced Z m \<and> v m * v m mod zp_pr Z = v x \<and> (odd (v m) \<or> v m = 0)
    else gfp_sqrRoot l rnds M Z x = Some (Inl (Runtime_Error ''cannot compute square root of non-square''))"
proof -
  have "zp_ok Z" using assms(1,2) by (simp add: zp_ok_def)
  then show ?thesis unfolding v_def by (rule gfp_sqrRoot_value [of Z M x l rnds i, OF _ assms(3-8)])
qed

theorem square_root_modulo_prime_witness:
  "\<exists>Z x m. zp_init (\<lambda>_. True) (\<lambda>_ _. 17361641481138401521) 17 True = Inr Z \<and> to_modp modp_env Z 2 = Inr x \<and>
    gfp_sqrRoot euler_symbol (\<lambda>_. 3) modp_env Z x = Some (Inr m) \<and>
    mpv (modp_to_bigint modp_env Z m True) * mpv (modp_to_bigint modp_env Z m True) mod 17 = 2 \<and>
    odd (mpv (modp_to_bigint modp_env Z m True))"
proof -
  obtain Z x where Z: "zp_init (\<lambda>_. True) (\<lambda>_ _. 17361641481138401521) 17 True = Inr Z" "zp_ok Z" "zp_pr Z = 17"
    "to_modp modp_env Z 2 = Inr x" "modp_of Z x 2" using sample_17 by blast
  have h: "zp_reduced Z x" "prime_ok (int (zp_pr Z))" "odd (zp_pr Z)" "legendre_ok euler_symbol (int (zp_pr Z))" "euler_symbol 3 (int (zp_pr Z)) = - 1"
    using Z(3,5) prime_17 euler_symbol_ok [of 17] by (simp_all add: modp_of_def euler_symbol_def)
  have f: "zp_inv Z" "zp_montgomery Z \<Longrightarrow> zp_mont Z \<and> mont_fits Z" using Z(2) by (simp_all add: zp_ok_def)
  have v: "mpv (modp_to_bigint modp_env Z x True) = 2" by (rule modp_to_bigint_of [OF Z(2) modp_env_ok Z(5)])
  have s: "euler_symbol 2 17 = 1" by (simp add: euler_symbol_def)
  obtain m where m: "gfp_sqrRoot euler_symbol (\<lambda>_. 3) modp_env Z x = Some (Inr m)"
    "mpv (modp_to_bigint modp_env Z m True) * mpv (modp_to_bigint modp_env Z m True) mod 17 = 2"
    "odd (mpv (modp_to_bigint modp_env Z m True)) \<or> mpv (modp_to_bigint modp_env Z m True) = 0"
    using square_root_modulo_prime [where rnds = "\<lambda>_. 3", OF f modp_env_ok h] by (auto simp: v Z(3) s)
  then have "odd (mpv (modp_to_bigint modp_env Z m True))" by auto
  with m Z show ?thesis by blast
qed

end
